(* ===== verification/Prelude.thy ===== *)
theory Prelude
  imports Main "HOL-Library.Word"
begin

text \<open>
  What every component of the model shares.

  \<^item> The machine types of the C++ sources: \<open>byte\<close> for \<open>char\<close>/\<open>uint8_t\<close> (the bit
    pattern; where the source relies on the sign of a \<open>char\<close>, the model says \<open>sint\<close>),
    \<open>u16\<close>, \<open>u32\<close>, \<open>u64\<close> for the unsigned types. An \<open>int32_t\<close> is an \<open>int\<close>
    together with the conversion \<open>to_i32\<close> where the code converts to it.
  \<^item> The outcome of a call: \<open>Done v\<close> for a return, \<open>Abort\<close> for \<open>pump_abort\<close> or a
    failed \<open>pump_assert\<close> (include/pump/debug.h), \<open>Fault\<close> for an access outside of an
    object, which C++ leaves undefined.
  \<^item> Memory blocks as byte lists, with checked reads and writes.
  \<^item> Text literals as byte lists.
\<close>

unbundle bit_operations_syntax

type_synonym byte = "8 word"
type_synonym u16 = "16 word"
type_synonym u32 = "32 word"
type_synonym u64 = "64 word"

named_theorems run_simps \<open>how sequencing and checked accesses evaluate\<close>
named_theorems mem_simps \<open>what checked memory accesses return in bounds\<close>

section \<open>Outcomes\<close>

datatype 'a run = Done 'a | Abort | Fault

definition run_bind :: "'a run \<Rightarrow> ('a \<Rightarrow> 'b run) \<Rightarrow> 'b run" where
  "run_bind m f = (case m of Done x \<Rightarrow> f x | Abort \<Rightarrow> Abort | Fault \<Rightarrow> Fault)"

lemma run_bind_simps [simp, run_simps]:
  "run_bind (Done x) f = f x"
  "run_bind Abort f = Abort"
  "run_bind Fault f = Fault"
  by (simp_all add: run_bind_def)

lemma run_bind_eq_Done:
  "run_bind m f = Done y \<longleftrightarrow> (\<exists>x. m = Done x \<and> f x = Done y)"
  by (cases m) auto

lemma run_bind_assoc: "run_bind (run_bind m f) g = run_bind m (\<lambda>x. run_bind (f x) g)"
  by (cases m) auto

lemma run_bind_cong [fundef_cong]:
  "m = m' \<Longrightarrow> (\<And>x. m' = Done x \<Longrightarrow> f x = f' x) \<Longrightarrow> run_bind m f = run_bind m' f'"
  by (cases m') auto

definition run_map :: "('a \<Rightarrow> 'b) \<Rightarrow> 'a run \<Rightarrow> 'b run" where
  "run_map f m = run_bind m (\<lambda>x. Done (f x))"

lemma run_map_simps [simp, run_simps]:
  "run_map f (Done x) = Done (f x)"
  "run_map f Abort = Abort"
  "run_map f Fault = Fault"
  by (simp_all add: run_map_def)

lemma run_map_eq_Done: "run_map f m = Done y \<longleftrightarrow> (\<exists>x. m = Done x \<and> y = f x)"
  by (cases m) auto

section \<open>Checked memory\<close>

definition mem_read :: "'a list \<Rightarrow> nat \<Rightarrow> nat \<Rightarrow> 'a list run" where
  "mem_read xs off n = (if off + n \<le> length xs then Done (take n (drop off xs)) else Fault)"

definition mem_get :: "'a list \<Rightarrow> nat \<Rightarrow> 'a run" where
  "mem_get xs i = (if i < length xs then Done (xs ! i) else Fault)"

definition mem_write :: "'a list \<Rightarrow> nat \<Rightarrow> 'a list \<Rightarrow> 'a list run" where
  "mem_write xs off ys =
     (if off + length ys \<le> length xs
      then Done (take off xs @ ys @ drop (off + length ys) xs) else Fault)"

definition mem_set :: "'a list \<Rightarrow> nat \<Rightarrow> 'a \<Rightarrow> 'a list run" where
  "mem_set xs i x = (if i < length xs then Done (xs[i := x]) else Fault)"

lemma mem_read_in [mem_simps]:
  "off + n \<le> length xs \<Longrightarrow> mem_read xs off n = Done (take n (drop off xs))"
  by (simp add: mem_read_def)

lemma mem_get_in [mem_simps]: "i < length xs \<Longrightarrow> mem_get xs i = Done (xs ! i)"
  by (simp add: mem_get_def)

lemma mem_write_in [mem_simps]:
  "off + length ys \<le> length xs \<Longrightarrow>
   mem_write xs off ys = Done (take off xs @ ys @ drop (off + length ys) xs)"
  by (simp add: mem_write_def)

lemma mem_set_in [mem_simps]: "i < length xs \<Longrightarrow> mem_set xs i x = Done (xs[i := x])"
  by (simp add: mem_set_def)

lemma mem_read_eq_Done:
  "mem_read xs off n = Done ys \<longleftrightarrow> off + n \<le> length xs \<and> ys = take n (drop off xs)"
  by (auto simp: mem_read_def)

lemma mem_set_length: "mem_set xs i x = Done ys \<Longrightarrow> length ys = length xs"
  by (auto simp: mem_set_def split: if_splits)

section \<open>Text\<close>

definition B :: "string \<Rightarrow> byte list" where
  "B s = map of_char s"

lemma length_B [simp]: "length (B s) = length s"
  by (simp add: B_def)

section \<open>Exhaustive checks\<close>

lemma byte_all: "(\<forall>c :: byte. P c) \<longleftrightarrow> list_all (\<lambda>n. P (word_of_nat n)) [0..<256]"
proof
  assume all: "list_all (\<lambda>n. P (word_of_nat n)) [0..<256]"
  show "\<forall>c :: byte. P c"
  proof
    fix c :: byte
    have "unat c \<in> set [0..<256]" using unsigned_less [of c] by simp
    with all have "P (word_of_nat (unat c))" unfolding list_all_iff by (rule bspec)
    then show "P c" by simp
  qed
qed (simp add: list_all_iff)

lemma upt_8: "[0..<8] = [0, 1, 2, 3, 4, 5, 6, 7]"
  by code_simp

lemma upt_16: "[0..<16] = [0, 1, 2, 3, 4, 5, 6, 7, 8, 9, 10, 11, 12, 13, 14, 15]"
  by code_simp

lemma upt_32: "[0..<32] = [0, 1, 2, 3, 4, 5, 6, 7, 8, 9, 10, 11, 12, 13, 14, 15] @
    [16, 17, 18, 19, 20, 21, 22, 23, 24, 25, 26, 27, 28, 29, 30, 31]"
  by code_simp

lemma upt_64: "[0..<64] = [0..<32] @ [32, 33, 34, 35, 36, 37, 38, 39, 40, 41, 42, 43, 44, 45, 46, 47] @
    [48, 49, 50, 51, 52, 53, 54, 55, 56, 57, 58, 59, 60, 61, 62, 63]"
  by code_simp

lemmas upt_words = upt_64 upt_32 upt_16

lemma all_less_list: "n < k \<Longrightarrow> list_all P [0..<k] \<Longrightarrow> P n"
  by (simp add: list_all_iff)

section \<open>Integer conversions\<close>

definition to_i32 :: "int \<Rightarrow> int" where
  "to_i32 x = sint (word_of_int x :: u32)"

lemma to_i32_mod: "to_i32 x = (x + 2 ^ 31) mod 2 ^ 32 - 2 ^ 31"
  by (simp add: to_i32_def int_word_sint)

lemma to_i32_in_range: "- (2 ^ 31) \<le> x \<Longrightarrow> x < 2 ^ 31 \<Longrightarrow> to_i32 x = x"
  by (simp add: to_i32_mod)

lemma to_i32_bounds: "- (2 ^ 31) \<le> to_i32 x \<and> to_i32 x < 2 ^ 31"
  using pos_mod_bound [of "2 ^ 32" "x + 2 ^ 31"] pos_mod_sign [of "2 ^ 32" "x + 2 ^ 31"]
  by (simp add: to_i32_mod)

lemma sint_u32_unat: "sint (w :: u32) = to_i32 (int (unat w))"
  by (simp add: to_i32_def)

lemma sint_u32_small:
  assumes "unat (w :: u32) < 2 ^ 31"
  shows "sint w = int (unat w)"
proof -
  have "int (unat w) < int (2 ^ 31)" using assms by (simp only: of_nat_less_iff)
  then have "int (unat w) < 2 ^ 31" by (simp only: of_nat_power of_nat_numeral)
  moreover have "- (2 ^ 31) \<le> int (unat w)"
    by (rule order_trans [of _ 0]) simp_all
  ultimately show ?thesis unfolding sint_u32_unat by (intro to_i32_in_range)
qed

section \<open>Unsigned 32-bit sums\<close>

lemma unat_u32: "unat (w :: u32) < 2 ^ 32"
  using unsigned_less [of w] by simp

lemma unat_of_nat_u32: "n < 2 ^ 32 \<Longrightarrow> unat (of_nat n :: u32) = n"
  by (simp add: unat_of_nat take_bit_nat_eq_self)

lemma unat_add_small: "unat a + unat b < 2 ^ 32 \<Longrightarrow> unat (a + b :: u32) = unat a + unat b"
  by (simp add: unat_word_ariths)

lemma unat_room:
  assumes "unat (p :: u32) + unat s \<le> unat r"
  shows "unat (r - p - s) = unat r - unat p - unat s"
proof -
  have 1: "unat (r - p) = unat r - unat p"
    using assms by (simp add: unat_sub word_le_nat_alt)
  then have "s \<le> r - p" using assms by (simp add: word_le_nat_alt)
  with 1 show ?thesis by (simp add: unat_sub)
qed

lemma unat_grow:
  assumes "unat (r :: u32) + unat n < 2 ^ 32" and "(unat r + unat n) div 2 * 3 < 2 ^ 32"
  shows "unat ((r + n) div 2 * 3) = (unat r + unat n) div 2 * 3"
proof -
  have "unat ((r + n) div 2) = (unat r + unat n) div 2"
    using unat_add_small [OF assms(1)] by (simp add: unat_div_distrib)
  then show ?thesis using assms(2) by (simp add: unat_word_ariths)
qed

lemma grow_enough: "2 \<le> (n::nat) \<Longrightarrow> n \<le> n div 2 * 3"
  by presburger

section \<open>Lists\<close>

lemma take_drop_append_mid:
  "off \<le> length xs \<Longrightarrow> take n (drop off (take off xs @ ys @ zs)) = take n (ys @ zs)"
  by simp

lemma take_Suc_drop_nth: "i < length xs \<Longrightarrow> take (Suc i) xs = take i xs @ [xs ! i]"
  by (rule take_Suc_conv_app_nth)

lemma list_update_replicate_next:
  "n < m \<Longrightarrow> (xs @ replicate (m - n) z)[length xs := x] = (xs @ [x]) @ replicate (m - Suc n) z"
proof -
  assume "n < m"
  then have "m - n = Suc (m - Suc n)" by simp
  then show ?thesis by (simp add: list_update_append)
qed

end
