(* ===== verification/Buffer.thy ===== *)
theory Buffer
  imports Prelude
begin

text \<open>
  The byte buffer of src/toolkit/buffer.cpp and include/pump/toolkit/buffer.h:
  \<open>base_buffer\<close> and \<open>io_buffer\<close>, one record for both classes, one definition per
  member function, and the reference-counting handle \<open>shared_buffer\<close>.

  The heap allocator is a parameter \<open>al\<close>: \<open>al n\<close> is the block that
  \<open>pump_malloc(n)\<close> returns (its content is indeterminate), \<open>None\<close> a null pointer.
  \<open>alloc_ok\<close> is the one law it is used with: a block has the requested size.
  The catch branches around \<open>pump_malloc\<close>/\<open>pump_realloc\<close> are not modelled, because the
  C allocation functions report failure by a null pointer and never throw.
\<close>

section \<open>State\<close>

record io_buffer =
  iob_alloced :: bool
  iob_raw :: "byte list option"
  iob_raw_size :: u32
  iob_size :: u32
  iob_rpos :: u32
  iob_count :: int

type_synonym allocator = "u32 \<Rightarrow> byte list option"

definition alloc_ok :: "allocator \<Rightarrow> bool" where
  "alloc_ok al \<longleftrightarrow> (\<forall>n blk. al n = Some blk \<longrightarrow> length blk = unat n)"

definition pump_realloc :: "allocator \<Rightarrow> byte list option \<Rightarrow> u32 \<Rightarrow> byte list option" where
  "pump_realloc al old n =
     (case al n of
        None \<Rightarrow> None
      | Some blk \<Rightarrow>
          (case old of
             None \<Rightarrow> Some blk
           | Some o' \<Rightarrow> Some (take (unat n) o' @ drop (length o') blk)))"

definition raw_bytes :: "io_buffer \<Rightarrow> byte list" where
  "raw_bytes iob = (case iob_raw iob of None \<Rightarrow> [] | Some bs \<Rightarrow> bs)"

section \<open>base_buffer\<close>

definition iob_new :: "bool \<Rightarrow> io_buffer" where
  "iob_new free =
     \<lparr>iob_alloced = free, iob_raw = None, iob_raw_size = 0, iob_size = 0, iob_rpos = 0,
      iob_count = 1\<rparr>"

definition init_by_alloc :: "allocator \<Rightarrow> u32 \<Rightarrow> io_buffer \<Rightarrow> (bool \<times> io_buffer) run" where
  "init_by_alloc al n iob =
     (if n = 0 then Abort
      else if \<not> iob_alloced iob \<or> iob_raw iob \<noteq> None then Abort
      else case al n of
             None \<Rightarrow> Done (True, iob)
           | Some blk \<Rightarrow> Done (True, iob\<lparr>iob_raw := Some blk, iob_raw_size := n\<rparr>))"

definition init_by_copy ::
  "allocator \<Rightarrow> byte list option \<Rightarrow> u32 \<Rightarrow> io_buffer \<Rightarrow> (bool \<times> io_buffer) run" where
  "init_by_copy al b n iob =
     (case b of
        None \<Rightarrow> Abort
      | Some src \<Rightarrow>
          if n = 0 then Abort
          else if \<not> iob_alloced iob \<or> iob_raw iob \<noteq> None then Abort
          else
            (case al n of
               None \<Rightarrow> Done (False, iob)
             | Some blk \<Rightarrow>
                 run_bind (mem_read src 0 (unat n)) (\<lambda>bs.
                 run_bind (mem_write blk 0 bs) (\<lambda>blk'.
                 Done (True, iob\<lparr>iob_raw := Some blk', iob_raw_size := n\<rparr>)))))"

definition init_by_reference ::
  "byte list option \<Rightarrow> u32 \<Rightarrow> io_buffer \<Rightarrow> (bool \<times> io_buffer) run" where
  "init_by_reference b n iob =
     (if iob_alloced iob \<or> iob_raw iob \<noteq> None then Abort
      else if b = None \<and> n > 0 then Abort
      else Done (True, iob\<lparr>iob_raw := b, iob_raw_size := n\<rparr>))"

section \<open>io_buffer\<close>

definition iob_create :: "allocator \<Rightarrow> u32 \<Rightarrow> io_buffer option run" where
  "iob_create al n =
     (if n > 0
      then run_bind (init_by_alloc al n (iob_new True)) (\<lambda>(ok, iob).
             Done (if ok then Some iob else None))
      else Done (Some (iob_new True)))"

definition iob_create_by_copy ::
  "allocator \<Rightarrow> byte list option \<Rightarrow> u32 \<Rightarrow> io_buffer option run" where
  "iob_create_by_copy al b n =
     (if b \<noteq> None \<and> n > 0
      then run_bind (init_by_copy al b n (iob_new True)) (\<lambda>(ok, iob).
             Done (if ok then Some (iob\<lparr>iob_size := n\<rparr>) else None))
      else Done (Some (iob_new True)))"

definition iob_create_by_reference :: "byte list option \<Rightarrow> u32 \<Rightarrow> io_buffer option run" where
  "iob_create_by_reference b n =
     (if b \<noteq> None \<and> n > 0
      then run_bind (init_by_reference b n (iob_new False)) (\<lambda>(ok, iob).
             Done (if ok then Some (iob\<lparr>iob_size := n\<rparr>) else None))
      else Done (Some (iob_new False)))"

definition iob_clear :: "io_buffer \<Rightarrow> io_buffer" where
  "iob_clear iob = iob\<lparr>iob_size := 0, iob_rpos := 0\<rparr>"

text \<open>
  The part the two \<open>write\<close> overloads share: compact the data to the front of the block
  or grow the block when the free space behind the data is too small. All sums are
  \<open>uint32_t\<close> and wrap around.
\<close>

definition iob_reserve :: "allocator \<Rightarrow> u32 \<Rightarrow> io_buffer \<Rightarrow> (bool \<times> io_buffer) run" where
  "iob_reserve al n iob =
     (if n > iob_raw_size iob - iob_rpos iob - iob_size iob then
        (if n + iob_size iob < iob_raw_size iob then
           run_bind (mem_read (raw_bytes iob) (unat (iob_rpos iob)) (unat (iob_size iob))) (\<lambda>bs.
           run_bind (mem_write (raw_bytes iob) 0 bs) (\<lambda>raw'.
           Done (True, iob\<lparr>iob_raw := Some raw', iob_rpos := 0\<rparr>)))
         else
           (let new_size = (iob_raw_size iob + n) div 2 * 3 in
            case pump_realloc al (iob_raw iob) new_size of
              None \<Rightarrow> Done (False, iob)
            | Some r \<Rightarrow> Done (True, iob\<lparr>iob_raw := Some r, iob_raw_size := new_size\<rparr>)))
      else Done (True, iob))"

definition iob_append_raw :: "byte list \<Rightarrow> u32 \<Rightarrow> io_buffer \<Rightarrow> io_buffer run" where
  "iob_append_raw bs n iob =
     run_bind (mem_write (raw_bytes iob) (unat (iob_rpos iob + iob_size iob)) bs) (\<lambda>raw'.
     Done (iob\<lparr>iob_raw := Some raw', iob_size := iob_size iob + n\<rparr>))"

definition iob_write ::
  "allocator \<Rightarrow> byte list option \<Rightarrow> u32 \<Rightarrow> io_buffer \<Rightarrow> (bool \<times> io_buffer) run" where
  "iob_write al b n iob =
     (if \<not> iob_alloced iob then Abort
      else case b of
        None \<Rightarrow> Done (False, iob)
      | Some src \<Rightarrow>
          if n = 0 then Done (False, iob)
          else
            run_bind (if iob_raw iob = None then init_by_alloc al n iob else Done (True, iob))
              (\<lambda>(ok, iob1).
                if \<not> ok then Done (False, iob1)
                else
                  let iob2 = (if iob_rpos iob1 = iob_raw_size iob1 then iob_clear iob1 else iob1) in
                  run_bind (iob_reserve al n iob2) (\<lambda>(ok, iob3).
                    if \<not> ok then Done (False, iob3)
                    else
                      run_bind (mem_read src 0 (unat n)) (\<lambda>bs.
                      run_bind (iob_append_raw bs n iob3) (\<lambda>iob4. Done (True, iob4))))))"

definition iob_write_fill ::
  "allocator \<Rightarrow> byte \<Rightarrow> u32 \<Rightarrow> io_buffer \<Rightarrow> (bool \<times> io_buffer) run" where
  "iob_write_fill al c count iob =
     (if \<not> iob_alloced iob then Abort
      else if count = 0 then Done (False, iob)
      else
        run_bind
          (if iob_raw iob = None then init_by_alloc al count iob
           else
             let iob2 = (if iob_rpos iob = iob_raw_size iob then iob_clear iob else iob) in
             iob_reserve al count iob2)
          (\<lambda>(ok, iob3).
            if \<not> ok then Done (False, iob3)
            else
              run_bind (iob_append_raw (replicate (unat count) c) count iob3) (\<lambda>iob4.
              Done (True, iob4))))"

definition iob_read :: "u32 \<Rightarrow> io_buffer \<Rightarrow> (byte list option \<times> io_buffer) run" where
  "iob_read n iob =
     (if iob_size iob < n then Done (None, iob)
      else
        run_bind (mem_read (raw_bytes iob) (unat (iob_rpos iob)) (unat n)) (\<lambda>bs.
        Done (Some bs, iob\<lparr>iob_rpos := iob_rpos iob + n, iob_size := iob_size iob - n\<rparr>)))"

definition iob_read_byte :: "io_buffer \<Rightarrow> (byte option \<times> io_buffer) run" where
  "iob_read_byte iob =
     (if iob_size iob < 1 then Done (None, iob)
      else
        run_bind (mem_get (raw_bytes iob) (unat (iob_rpos iob))) (\<lambda>c.
        Done (Some c, iob\<lparr>iob_rpos := iob_rpos iob + 1, iob_size := iob_size iob - 1\<rparr>)))"

definition iob_shift :: "int \<Rightarrow> io_buffer \<Rightarrow> int \<times> io_buffer" where
  "iob_shift n iob =
     (if (if n > 0 then sint (iob_size iob) < n else sint (iob_rpos iob) < - n)
      then (-1, iob)
      else
        let iob' = iob\<lparr>iob_rpos := iob_rpos iob + word_of_int n,
                       iob_size := iob_size iob - word_of_int n\<rparr>
        in (sint (iob_size iob'), iob'))"

definition iob_data :: "io_buffer \<Rightarrow> nat option" where
  "iob_data iob = (if iob_size iob > 0 then Some (unat (iob_rpos iob)) else None)"

definition iob_reset_by_copy ::
  "allocator \<Rightarrow> byte list option \<Rightarrow> u32 \<Rightarrow> io_buffer \<Rightarrow> (bool \<times> io_buffer) run" where
  "iob_reset_by_copy al b n iob =
     (if \<not> iob_alloced iob then Abort
      else if b = None \<or> n = 0 then Done (False, iob)
      else iob_write al b n (iob_clear iob))"

definition iob_reset_by_reference ::
  "byte list option \<Rightarrow> u32 \<Rightarrow> io_buffer \<Rightarrow> (bool \<times> io_buffer) run" where
  "iob_reset_by_reference b n iob =
     (if iob_alloced iob then Abort
      else if b = None \<or> n = 0 then Done (False, iob)
      else Done (True, (iob_clear iob)\<lparr>iob_raw := b, iob_raw_size := n, iob_size := n\<rparr>))"

definition iob_refer :: "io_buffer \<Rightarrow> io_buffer" where
  "iob_refer iob = iob\<lparr>iob_count := iob_count iob + 1\<rparr>"

text \<open>\<open>None\<close>: the buffer object has been destroyed.\<close>

definition iob_unrefer :: "io_buffer \<Rightarrow> io_buffer option run" where
  "iob_unrefer iob =
     (let c = iob_count iob; iob' = iob\<lparr>iob_count := c - 1\<rparr> in
      if c = 1 then Done None else if c \<le> 0 then Abort else Done (Some iob'))"

section \<open>Well-formed buffers and their contents\<close>

definition iob_wf :: "io_buffer \<Rightarrow> bool" where
  "iob_wf iob \<longleftrightarrow>
     length (raw_bytes iob) = unat (iob_raw_size iob) \<and>
     unat (iob_rpos iob) + unat (iob_size iob) \<le> unat (iob_raw_size iob) \<and>
     (iob_raw iob \<noteq> None \<longrightarrow> 0 < iob_raw_size iob)"

definition iob_contents :: "io_buffer \<Rightarrow> byte list" where
  "iob_contents iob = take (unat (iob_size iob)) (drop (unat (iob_rpos iob)) (raw_bytes iob))"

text \<open>
  The conditions under which the \<open>uint32_t\<close> sums of the write path do not wrap around, the
  room it needs, and the effect a read of \<open>d\<close> bytes has on the two cursors.
\<close>

definition grow_fits :: "u32 \<Rightarrow> io_buffer \<Rightarrow> bool" where
  "grow_fits n iob \<longleftrightarrow> (unat (iob_raw_size iob) + unat n) div 2 * 3 < 2 ^ 32"

definition room_for :: "u32 \<Rightarrow> io_buffer \<Rightarrow> bool" where
  "room_for n iob \<longleftrightarrow>
     unat (iob_rpos iob) + unat (iob_size iob) + unat n \<le> unat (iob_raw_size iob)"

definition iob_advance :: "u32 \<Rightarrow> io_buffer \<Rightarrow> io_buffer" where
  "iob_advance d iob = iob\<lparr>iob_rpos := iob_rpos iob + d, iob_size := iob_size iob - d\<rparr>"

section \<open>Writing\<close>

lemma grow_fitsD:
  assumes "grow_fits n iob"
  shows "unat (iob_raw_size iob) + unat n < 2 ^ 32"
    and "unat ((iob_raw_size iob + n) div 2 * 3) = (unat (iob_raw_size iob) + unat n) div 2 * 3"
proof -
  show 1: "unat (iob_raw_size iob) + unat n < 2 ^ 32"
    using assms unfolding grow_fits_def by simp
  show "unat ((iob_raw_size iob + n) div 2 * 3) = (unat (iob_raw_size iob) + unat n) div 2 * 3"
    by (rule unat_grow [OF 1]) (use assms in \<open>simp add: grow_fits_def\<close>)
qed

lemma pump_realloc_Some:
  assumes "alloc_ok al" and "pump_realloc al (Some old) n = Some r" and "length old \<le> unat n"
  shows "length r = unat n \<and> take (length old) r = old"
  using assms by (auto simp: pump_realloc_def alloc_ok_def split: option.splits)

lemma iob_contents_raw:
  "iob_raw iob = Some raw \<Longrightarrow>
   iob_contents iob = take (unat (iob_size iob)) (drop (unat (iob_rpos iob)) raw)"
  by (simp add: iob_contents_def raw_bytes_def)

lemma length_iob_contents: "iob_wf iob \<Longrightarrow> length (iob_contents iob) = unat (iob_size iob)"
  by (auto simp: iob_wf_def iob_contents_def)

lemma iob_reserve_keeps:
  assumes wf: "iob_wf iob" and raw: "iob_raw iob = Some raw" and al: "alloc_ok al"
    and fits: "grow_fits n iob" and n: "0 < n"
  obtains ok iob' where "iob_reserve al n iob = Done (ok, iob')" "iob_wf iob'"
    "iob_contents iob' = iob_contents iob" "iob_raw iob' \<noteq> None"
    "iob_alloced iob' = iob_alloced iob" "iob_count iob' = iob_count iob"
    "ok \<Longrightarrow> room_for n iob'" "(\<forall>m. al m \<noteq> None) \<longrightarrow> ok" "iob_size iob' = iob_size iob"
proof -
  let ?r = "iob_raw_size iob" and ?p = "iob_rpos iob" and ?s = "iob_size iob"
  have len: "length raw = unat ?r" and ps: "unat ?p + unat ?s \<le> unat ?r"
    using wf raw by (auto simp: iob_wf_def raw_bytes_def)
  have pos: "0 < unat ?r" using wf raw by (auto simp: iob_wf_def unat_gt_0)
  have npos: "0 < unat n" using n by (simp add: unat_gt_0)
  have room: "unat (?r - ?p - ?s) = unat ?r - unat ?p - unat ?s" by (rule unat_room [OF ps])
  consider (enough) "\<not> n > ?r - ?p - ?s"
    | (move) "n > ?r - ?p - ?s" "n + ?s < ?r"
    | (grow) "n > ?r - ?p - ?s" "\<not> n + ?s < ?r" by blast
  then show thesis
  proof cases
    case enough
    then have "unat n \<le> unat ?r - unat ?p - unat ?s"
      using room by (simp add: word_le_nat_alt not_less)
    then have "room_for n iob" using ps npos by (simp add: room_for_def)
    with enough wf raw show thesis by (intro that [of True iob]) (auto simp: iob_reserve_def)
  next
    case move
    have "unat ?s \<le> unat ?r" and "unat n + unat ?s < 2 ^ 32"
      using ps grow_fitsD(1) [OF fits] by linarith+
    then have ns: "unat n + unat ?s < unat ?r"
      using move(2) unat_add_small [of n ?s] by (simp add: word_less_nat_alt)
    let ?bs = "take (unat ?s) (drop (unat ?p) raw)"
    let ?raw = "?bs @ drop (unat ?s) raw"
    let ?iob = "iob\<lparr>iob_raw := Some ?raw, iob_rpos := 0\<rparr>"
    have lbs: "length ?bs = unat ?s" using ps len by simp
    have "mem_read raw (unat ?p) (unat ?s) = Done ?bs" using ps len by (simp add: mem_read_in)
    moreover have "mem_write raw 0 ?bs = Done ?raw"
      using ps len lbs by (simp add: mem_write_def)
    ultimately have "iob_reserve al n iob = Done (True, ?iob)"
      using move raw by (simp add: iob_reserve_def raw_bytes_def)
    moreover have "iob_wf ?iob" using len ps wf raw by (simp add: iob_wf_def raw_bytes_def)
    moreover have "iob_contents ?iob = iob_contents iob"
      using lbs raw by (simp add: iob_contents_def raw_bytes_def)
    moreover have "room_for n ?iob" using ns by (simp add: room_for_def)
    ultimately show thesis by (intro that [of True ?iob]) auto
  next
    case grow
    let ?new = "(?r + n) div 2 * 3"
    have new: "unat ?new = (unat ?r + unat n) div 2 * 3" by (rule grow_fitsD(2) [OF fits])
    have ge: "unat ?r + unat n \<le> unat ?new"
      unfolding new by (rule grow_enough) (use pos npos in linarith)
    show thesis
    proof (cases "pump_realloc al (Some raw) ?new")
      case None
      then have "iob_reserve al n iob = Done (False, iob)"
        using grow raw by (simp add: iob_reserve_def Let_def)
      moreover from None have "al ?new = None" by (auto simp: pump_realloc_def split: option.splits)
      ultimately show thesis using wf raw by (intro that [of False iob]) auto
    next
      case (Some r)
      let ?iob = "iob\<lparr>iob_raw := Some r, iob_raw_size := ?new\<rparr>"
      have lr: "length r = unat ?new \<and> take (length raw) r = raw"
        by (rule pump_realloc_Some [OF al Some]) (use ge len in linarith)
      have "iob_reserve al n iob = Done (True, ?iob)"
        using grow raw Some by (simp add: iob_reserve_def Let_def)
      moreover have "iob_wf ?iob"
        using lr ge ps pos by (simp add: iob_wf_def raw_bytes_def word_less_nat_alt)
      moreover have "iob_contents ?iob = iob_contents iob"
      proof -
        have "take (unat ?s) (drop (unat ?p) r) = take (unat ?s) (drop (unat ?p) (take (length raw) r))"
          using ps len by (simp add: drop_take min_def)
        then show ?thesis using lr raw by (simp add: iob_contents_def raw_bytes_def)
      qed
      moreover have "room_for n ?iob" using ge ps by (simp add: room_for_def)
      ultimately show thesis by (intro that [of True ?iob]) auto
    qed
  qed
qed

lemma iob_append_raw_spec:
  assumes wf: "iob_wf iob" and raw: "iob_raw iob \<noteq> None" and room: "room_for n iob"
    and n: "length bs = unat n"
  obtains iob' where "iob_append_raw bs n iob = Done iob'" "iob_wf iob'"
    "iob_contents iob' = iob_contents iob @ bs" "iob_raw iob' \<noteq> None"
    "iob_alloced iob' = iob_alloced iob" "iob_count iob' = iob_count iob"
proof -
  obtain r where r: "iob_raw iob = Some r" using raw by auto
  let ?p = "iob_rpos iob" and ?s = "iob_size iob" and ?off = "unat (iob_rpos iob) + unat (iob_size iob)"
  have len: "length r = unat (iob_raw_size iob)" and pos: "0 < iob_raw_size iob"
    using wf r by (auto simp: iob_wf_def raw_bytes_def)
  have rs: "unat (iob_raw_size iob) < 2 ^ 32" by (rule unat_u32)
  have off: "unat (?p + ?s) = ?off"
    using room rs by (intro unat_add_small) (simp add: room_for_def)
  have sn: "unat (?s + n) = unat ?s + unat n"
    using room rs by (intro unat_add_small) (simp add: room_for_def)
  let ?r = "take ?off r @ bs @ drop (?off + unat n) r"
  let ?iob = "iob\<lparr>iob_raw := Some ?r, iob_size := ?s + n\<rparr>"
  have "iob_append_raw bs n iob = Done ?iob"
    using room n off len r by (simp add: iob_append_raw_def raw_bytes_def mem_write_def room_for_def)
  moreover have "iob_wf ?iob"
    using room n len sn pos by (auto simp: iob_wf_def raw_bytes_def room_for_def min_def)
  moreover have "iob_contents ?iob = iob_contents iob @ bs"
  proof -
    have "drop (unat ?p) (take ?off r) = take (unat ?s) (drop (unat ?p) r)"
      by (simp add: drop_take)
    moreover have "length (take (unat ?s) (drop (unat ?p) r)) = unat ?s"
      using room len by (simp add: room_for_def)
    ultimately show ?thesis
      using sn n r room len by (simp add: iob_contents_def raw_bytes_def room_for_def)
  qed
  ultimately show thesis by (intro that [of ?iob]) auto
qed

lemma init_by_alloc_fresh:
  assumes wf: "iob_wf iob" and "iob_alloced iob" and "iob_raw iob = None" and "0 < n"
    and "al n = Some blk" and "alloc_ok al"
  obtains iob' where "init_by_alloc al n iob = Done (True, iob')" "iob_wf iob'"
    "iob_raw iob' = Some blk" "iob_contents iob' = []" "iob_contents iob = []"
    "iob_alloced iob'" "iob_count iob' = iob_count iob" "iob_raw_size iob' = n"
    "iob_size iob' = 0" "iob_rpos iob' = 0" "iob_raw_size iob = 0"
proof -
  have z: "iob_raw_size iob = 0" "iob_size iob = 0" "iob_rpos iob = 0"
    using wf assms(3) by (auto simp: iob_wf_def raw_bytes_def unat_eq_0)
  let ?iob = "iob\<lparr>iob_raw := Some blk, iob_raw_size := n\<rparr>"
  show thesis
    using assms z
    by (intro that [of ?iob])
      (auto simp: init_by_alloc_def iob_wf_def raw_bytes_def iob_contents_def alloc_ok_def)
qed

lemma iob_clear_if_full:
  assumes "iob_wf iob"
  defines "iob2 \<equiv> (if iob_rpos iob = iob_raw_size iob then iob_clear iob else iob)"
  shows "iob_wf iob2" "iob_contents iob2 = iob_contents iob" "iob_raw iob2 = iob_raw iob"
    "iob_alloced iob2 = iob_alloced iob" "iob_count iob2 = iob_count iob"
    "iob_raw_size iob2 = iob_raw_size iob"
  using assms(1) by (auto simp: iob2_def iob_clear_def iob_wf_def iob_contents_def raw_bytes_def)

lemma iob_write_spec:
  assumes wf: "iob_wf iob" and alloced: "iob_alloced iob" and al: "alloc_ok al"
    and n: "length bs = unat n" "0 < n" and fits: "grow_fits n iob"
    and first: "iob_raw iob = None \<Longrightarrow> al n \<noteq> None \<and> (unat n + unat n) div 2 * 3 < 2 ^ 32"
  obtains ok iob' where "iob_write al (Some bs) n iob = Done (ok, iob')" "iob_wf iob'"
    "iob_contents iob' = iob_contents iob @ (if ok then bs else [])" "iob_alloced iob'"
    "iob_count iob' = iob_count iob" "(\<forall>m. al m \<noteq> None) \<longrightarrow> ok"
proof -
  obtain iob1 where iob1:
    "(if iob_raw iob = None then init_by_alloc al n iob else Done (True, iob)) = Done (True, iob1)"
    "iob_wf iob1" "iob_raw iob1 \<noteq> None" "iob_contents iob1 = iob_contents iob" "iob_alloced iob1"
    "iob_count iob1 = iob_count iob" "grow_fits n iob1"
  proof (cases "iob_raw iob")
    case None
    then obtain blk where "al n = Some blk" using first by auto
    from init_by_alloc_fresh [OF wf alloced None n(2) this al] first None show thesis
      by (metis grow_fits_def option.distinct(1) that)
  next
    case Some
    with wf alloced fits show thesis by (intro that [of iob]) auto
  qed
  define iob2 where "iob2 = (if iob_rpos iob1 = iob_raw_size iob1 then iob_clear iob1 else iob1)"
  note c = iob_clear_if_full [OF iob1(2), folded iob2_def]
  obtain raw where raw: "iob_raw iob2 = Some raw" using c(3) iob1(3) by auto
  have "grow_fits n iob2" using iob1(7) c(6) by (simp add: grow_fits_def)
  from iob_reserve_keeps [OF c(1) raw al this n(2)]
  obtain ok iob3 where r: "iob_reserve al n iob2 = Done (ok, iob3)" "iob_wf iob3"
    "iob_contents iob3 = iob_contents iob2" "iob_raw iob3 \<noteq> None"
    "iob_alloced iob3 = iob_alloced iob2" "iob_count iob3 = iob_count iob2"
    "ok \<Longrightarrow> room_for n iob3" "(\<forall>m. al m \<noteq> None) \<longrightarrow> ok" by metis
  have src: "mem_read bs 0 (unat n) = Done bs" using n by (simp add: mem_read_def)
  show thesis
  proof (cases ok)
    case False
    then have "iob_write al (Some bs) n iob = Done (False, iob3)"
      using alloced n iob1(1) r(1) by (simp add: iob_write_def Let_def iob2_def)
    with False r c iob1 show thesis by (intro that [of False iob3]) auto
  next
    case True
    from iob_append_raw_spec [OF r(2) r(4) r(7) [OF True] n(1)]
    obtain iob4 where a: "iob_append_raw bs n iob3 = Done iob4" "iob_wf iob4"
      "iob_contents iob4 = iob_contents iob3 @ bs" "iob_alloced iob4 = iob_alloced iob3"
      "iob_count iob4 = iob_count iob3" by metis
    have "iob_write al (Some bs) n iob = Done (True, iob4)"
      using alloced n iob1(1) r(1) True src a(1) by (simp add: iob_write_def Let_def iob2_def)
    with a r c iob1 show thesis by (intro that [of True iob4]) auto
  qed
qed

section \<open>Reading and shifting\<close>

lemma iob_advance_0 [simp]: "iob_advance 0 iob = iob"
  by (simp add: iob_advance_def)

lemma iob_advance_advance [simp]: "iob_advance d (iob_advance e iob) = iob_advance (e + d) iob"
  by (simp add: iob_advance_def algebra_simps)

lemma iob_advance_fields [simp]:
  "iob_raw (iob_advance d iob) = iob_raw iob" "iob_raw_size (iob_advance d iob) = iob_raw_size iob"
  "iob_size (iob_advance d iob) = iob_size iob - d" "iob_rpos (iob_advance d iob) = iob_rpos iob + d"
  "raw_bytes (iob_advance d iob) = raw_bytes iob" "iob_alloced (iob_advance d iob) = iob_alloced iob"
  "iob_count (iob_advance d iob) = iob_count iob"
  by (simp_all add: iob_advance_def raw_bytes_def)

lemma iob_advance_wf:
  assumes "iob_wf iob" and "unat d \<le> unat (iob_size iob)"
  shows "iob_wf (iob_advance d iob)" "iob_contents (iob_advance d iob) = drop (unat d) (iob_contents iob)"
    "unat (iob_rpos iob + d) = unat (iob_rpos iob) + unat d"
    "unat (iob_size iob - d) = unat (iob_size iob) - unat d"
proof -
  have b: "unat (iob_rpos iob) + unat (iob_size iob) \<le> unat (iob_raw_size iob)"
    using assms(1) by (simp add: iob_wf_def)
  show s: "unat (iob_size iob - d) = unat (iob_size iob) - unat d"
    using assms(2) by (simp add: unat_sub word_le_nat_alt)
  show r: "unat (iob_rpos iob + d) = unat (iob_rpos iob) + unat d"
    using b assms(2) unat_u32 [of "iob_raw_size iob"] by (intro unat_add_small) linarith
  show "iob_wf (iob_advance d iob)" using assms b s r by (auto simp: iob_wf_def)
  show "iob_contents (iob_advance d iob) = drop (unat d) (iob_contents iob)"
    using s r by (simp add: iob_contents_def drop_take add.commute)
qed

lemma iob_read_spec:
  assumes "iob_wf iob"
  shows "iob_read n iob =
    Done (if unat n \<le> unat (iob_size iob) then (Some (take (unat n) (iob_contents iob)), iob_advance n iob)
          else (None, iob))"
proof (cases "unat n \<le> unat (iob_size iob)")
  case True
  then have "\<not> iob_size iob < n" by (simp add: word_less_nat_alt)
  moreover have "unat (iob_rpos iob) + unat n \<le> length (raw_bytes iob)"
    using assms True by (simp add: iob_wf_def)
  ultimately show ?thesis
    using True by (simp add: iob_read_def mem_read_def iob_contents_def iob_advance_def min_def)
next
  case False
  then show ?thesis by (simp add: iob_read_def word_less_nat_alt)
qed

lemma iob_read_byte_spec:
  assumes "iob_wf iob"
  shows "iob_read_byte iob =
    Done (if 0 < unat (iob_size iob) then (Some (hd (iob_contents iob)), iob_advance 1 iob) else (None, iob))"
proof (cases "0 < unat (iob_size iob)")
  case True
  then have "\<not> iob_size iob < 1" by (simp add: word_less_nat_alt)
  moreover have "unat (iob_rpos iob) < length (raw_bytes iob)"
    using assms True by (simp add: iob_wf_def)
  ultimately show ?thesis
    using True
    by (simp add: iob_read_byte_def mem_get_def iob_contents_def iob_advance_def hd_drop_conv_nth)
next
  case False
  then show ?thesis by (simp add: iob_read_byte_def word_less_nat_alt)
qed

lemma word_of_neg_unat: "word_of_int (- int (unat (d :: u32))) = - d"
  by simp

lemma iob_shift_back:
  assumes wf: "iob_wf iob" and d: "unat d \<le> unat (iob_size iob)" and small: "unat (iob_raw_size iob) < 2 ^ 31"
  shows "iob_shift (- int (unat d)) (iob_advance d iob) = (int (unat (iob_size iob)), iob)"
proof -
  note a = iob_advance_wf [OF wf d]
  have b: "unat (iob_rpos iob) + unat (iob_size iob) \<le> unat (iob_raw_size iob)"
    using wf by (simp add: iob_wf_def)
  have "sint (iob_rpos iob + d) = int (unat (iob_rpos iob + d))"
    by (rule sint_u32_small) (use a b small d in linarith)
  then have "\<not> sint (iob_rpos iob + d) < int (unat d)" unfolding a(3) by linarith
  moreover have "sint (iob_size iob) = int (unat (iob_size iob))"
    by (rule sint_u32_small) (use b small in linarith)
  ultimately show ?thesis
    by (simp add: iob_shift_def Let_def iob_advance_def)
qed

lemma iob_shift_right:
  assumes wf: "iob_wf iob" and d: "unat d \<le> unat (iob_size iob)" and small: "unat (iob_raw_size iob) < 2 ^ 31"
  shows "iob_shift (int (unat d)) iob = (int (unat (iob_size iob) - unat d), iob_advance d iob)"
proof -
  note a = iob_advance_wf [OF wf d]
  have b: "unat (iob_rpos iob) + unat (iob_size iob) \<le> unat (iob_raw_size iob)"
    using wf by (simp add: iob_wf_def)
  have 1: "sint (iob_size iob) = int (unat (iob_size iob))"
    by (rule sint_u32_small) (use b small in linarith)
  have 2: "sint (iob_rpos iob) = int (unat (iob_rpos iob))"
    by (rule sint_u32_small) (use b small in linarith)
  have 3: "sint (iob_size iob - d) = int (unat (iob_size iob) - unat d)"
    unfolding a(4) [symmetric] by (rule sint_u32_small) (use a b small d in linarith)
  have "word_of_int (int (unat d)) = d" by simp
  moreover have "\<not> (if int (unat d) > 0 then sint (iob_size iob) < int (unat d) else sint (iob_rpos iob) < - int (unat d))"
    unfolding 1 2 using d by (simp del: of_nat_unat)
  ultimately show ?thesis using 3
    unfolding iob_shift_def Let_def iob_advance_def by simp
qed

lemma iob_shift_reject:
  assumes wf: "iob_wf iob" and small: "unat (iob_raw_size iob) < 2 ^ 31"
    and "n > int (unat (iob_size iob)) \<or> - n > int (unat (iob_rpos iob))"
  shows "iob_shift n iob = (-1, iob)"
proof -
  have b: "unat (iob_rpos iob) + unat (iob_size iob) \<le> unat (iob_raw_size iob)"
    using wf by (simp add: iob_wf_def)
  have 1: "sint (iob_size iob) = int (unat (iob_size iob))"
    by (rule sint_u32_small) (use b small in linarith)
  have 2: "sint (iob_rpos iob) = int (unat (iob_rpos iob))"
    by (rule sint_u32_small) (use b small in linarith)
  have "(if n > 0 then sint (iob_size iob) < n else sint (iob_rpos iob) < - n)"
    unfolding 1 2 using assms(3) by (auto simp del: of_nat_unat)
  then show ?thesis by (simp add: iob_shift_def)
qed

section \<open>The byte source interface\<close>

locale byte_source =
  fixes inv :: "'b \<Rightarrow> bool"
    and contents :: "'b \<Rightarrow> byte list"
    and rd :: "u32 \<Rightarrow> 'b \<Rightarrow> (byte list option \<times> 'b) run"
    and adv :: "u32 \<Rightarrow> 'b \<Rightarrow> 'b"
  assumes rd_enough: "inv b \<Longrightarrow> unat n \<le> length (contents b) \<Longrightarrow>
      rd n b = Done (Some (take (unat n) (contents b)), adv n b)"
    and rd_short: "inv b \<Longrightarrow> length (contents b) < unat n \<Longrightarrow> rd n b = Done (None, b)"
    and inv_adv: "inv b \<Longrightarrow> unat n \<le> length (contents b) \<Longrightarrow> inv (adv n b)"
    and contents_adv: "inv b \<Longrightarrow> unat n \<le> length (contents b) \<Longrightarrow>
      contents (adv n b) = drop (unat n) (contents b)"
begin

lemma rd_total: "inv b \<Longrightarrow> \<exists>r b'. rd n b = Done (r, b') \<and> inv b'"
  by (cases "unat n \<le> length (contents b)") (auto simp: rd_enough rd_short inv_adv)

lemma rd_prefix:
  assumes "inv b" and "contents b = xs @ ys" and "unat n = length xs"
  shows "rd n b = Done (Some xs, adv n b)" "inv (adv n b)" "contents (adv n b) = ys"
  using assms by (simp_all add: rd_enough inv_adv contents_adv)

lemma rd_conserves:
  assumes "inv b" and "rd n b = Done (r, b')"
  shows "contents b = (case r of None \<Rightarrow> [] | Some xs \<Rightarrow> xs) @ contents b'"
  using assms rd_enough [of b n] rd_short [of b n] contents_adv [of b n]
  by (cases "unat n \<le> length (contents b)") auto

lemma rd_twice:
  assumes "inv b" and "unat n + unat m \<le> length (contents b)" 
  shows "run_bind (rd n b) (\<lambda>(r, b'). rd m b') =
    Done (Some (take (unat m) (drop (unat n) (contents b))), adv m (adv n b))"
  using assms by (simp add: rd_enough inv_adv contents_adv)

end

interpretation iob: byte_source iob_wf iob_contents iob_read iob_advance
proof
  fix b :: io_buffer and n :: u32
  assume wf: "iob_wf b"
  note l = length_iob_contents [OF wf]
  { assume n: "unat n \<le> length (iob_contents b)"
    then show "iob_read n b = Done (Some (take (unat n) (iob_contents b)), iob_advance n b)"
      using l by (simp add: iob_read_spec [OF wf])
    from n show "iob_wf (iob_advance n b)"
      and "iob_contents (iob_advance n b) = drop (unat n) (iob_contents b)"
      using l iob_advance_wf(1,2) [OF wf, of n] by simp_all }
  { assume "length (iob_contents b) < unat n"
    then show "iob_read n b = Done (None, b)"
      using l by (simp add: iob_read_spec [OF wf]) }
qed

section \<open>What the buffer promises\<close>


definition zero_alloc :: allocator where
  "zero_alloc n = Some (replicate (unat n) 0)"

lemma zero_alloc_ok: "alloc_ok zero_alloc"
  by (simp add: alloc_ok_def zero_alloc_def)

lemma iob_new_wf: "iob_wf (iob_new a)" "iob_contents (iob_new a) = []" "iob_raw (iob_new a) = None"
  "iob_alloced (iob_new a) = a" "iob_raw_size (iob_new a) = 0"
  by (simp_all add: iob_wf_def iob_new_def raw_bytes_def iob_contents_def)


text \<open>
  What was written comes out again, in order: reading the bytes that were there
  before a successful write and then as many bytes as it wrote gives the written bytes and
  leaves the buffer empty.
\<close>

theorem iob_write_read_roundtrip:
  assumes "iob_wf iob" and "iob_alloced iob" and "alloc_ok al" and "\<forall>m. al m \<noteq> None"
    and "length bs = unat n" and "0 < n" and "grow_fits n iob" and "(unat n + unat n) div 2 * 3 < 2 ^ 32"
  shows "\<exists>iob' iob''. iob_write al (Some bs) n iob = Done (True, iob') \<and>
    run_bind (iob_read (iob_size iob) iob') (\<lambda>(r, b). iob_read n b) = Done (Some bs, iob'') \<and>
    iob_contents iob'' = []"
proof -
  have first: "iob_raw iob = None \<Longrightarrow> al n \<noteq> None \<and> (unat n + unat n) div 2 * 3 < 2 ^ 32"
    using assms(4,8) by simp
  obtain ok iob' where w: "iob_write al (Some bs) n iob = Done (ok, iob')" "iob_wf iob'"
    "iob_contents iob' = iob_contents iob @ (if ok then bs else [])" "iob_alloced iob'"
    "iob_count iob' = iob_count iob" "(\<forall>m. al m \<noteq> None) \<longrightarrow> ok"
    using iob_write_spec [OF assms(1-3,5-7) first] .
  from assms(4) have ok: ok using w(6) by blast
  have l: "length (iob_contents iob) = unat (iob_size iob)"
    by (rule length_iob_contents [OF assms(1)])
  note p1 = iob.rd_prefix [OF w(2) w(3) l [symmetric]]
  have "iob_contents (iob_advance (iob_size iob) iob') = bs @ []" using p1(3) ok by simp
  note p2 = iob.rd_prefix [OF p1(2) this assms(5) [symmetric]]
  have "run_bind (iob_read (iob_size iob) iob') (\<lambda>(r, b). iob_read n b) =
      Done (Some bs, iob_advance n (iob_advance (iob_size iob) iob'))"
    by (simp only: p1(1) p2(1) run_bind_simps case_prod_conv)
  moreover have "iob_write al (Some bs) n iob = Done (True, iob')" using w(1) ok by simp
  ultimately show ?thesis using p2(3) by blast
qed

theorem iob_write_read_roundtrip_witness:
  "\<exists>iob' iob''. iob_write zero_alloc (Some [1, 2, 3]) 3 (iob_new True) = Done (True, iob') \<and>
    run_bind (iob_read (iob_size (iob_new True)) iob') (\<lambda>(r, b). iob_read 3 b) =
      Done (Some [1, 2, 3], iob'') \<and> iob_contents iob'' = []"
  by (rule iob_write_read_roundtrip)
    (simp_all add: iob_new_wf zero_alloc_ok grow_fits_def, simp add: zero_alloc_def)

text \<open>
  A read can be undone: shifting left by the number of bytes read restores the buffer
  exactly, shifting right skips bytes as reading does, and a shift beyond the data or
  before the block is rejected and changes nothing.
\<close>

theorem iob_shift_undoes_read:
  assumes wf: "iob_wf iob" and small: "unat (iob_raw_size iob) < 2 ^ 31"
  shows "(if unat n \<le> unat (iob_size iob) then
      \<exists>iob'. iob_read n iob = Done (Some (take (unat n) (iob_contents iob)), iob') \<and>
        iob_shift (- int (unat n)) iob' = (int (unat (iob_size iob)), iob) \<and>
        iob_shift (int (unat n)) iob = (int (unat (iob_size iob) - unat n), iob')
    else iob_read n iob = Done (None, iob) \<and> iob_shift (int (unat n)) iob = (-1, iob))"
  using iob_read_spec [OF wf, of n] iob_shift_back [OF wf _ small, of n]
    iob_shift_right [OF wf _ small, of n] iob_shift_reject [OF wf small, of "int (unat n)"]
  by (simp del: of_nat_unat)

theorem iob_shift_undoes_read_witness:
  "let iob = (iob_new False)\<lparr>iob_raw := Some [7, 8, 9], iob_raw_size := 3, iob_size := 3\<rparr> in
   (if unat (2 :: u32) \<le> unat (iob_size iob) then
      \<exists>iob'. iob_read 2 iob = Done (Some (take (unat (2 :: u32)) (iob_contents iob)), iob') \<and>
        iob_shift (- int (unat (2 :: u32))) iob' = (int (unat (iob_size iob)), iob) \<and>
        iob_shift (int (unat (2 :: u32))) iob = (int (unat (iob_size iob) - unat (2 :: u32)), iob')
    else iob_read 2 iob = Done (None, iob) \<and> iob_shift (int (unat (2 :: u32))) iob = (-1, iob))"
  unfolding Let_def
  by (rule iob_shift_undoes_read) (simp_all add: iob_wf_def iob_new_def raw_bytes_def)

text \<open>
  The first allocation of an empty buffer reports success even when the allocator
  returned a null pointer, and filling the buffer then writes through that pointer.
\<close>

theorem iob_write_fill_unchecked_null:
  assumes "al n = None" and "0 < n"
  shows "init_by_alloc al n (iob_new True) = Done (True, iob_new True) \<and>
    iob_write_fill al c n (iob_new True) = Fault"
  using assms
  by (simp add: init_by_alloc_def iob_write_fill_def iob_append_raw_def iob_new_def raw_bytes_def
      mem_write_def unat_eq_0)

theorem iob_write_fill_unchecked_null_witness:
  "init_by_alloc (\<lambda>_. None) 5 (iob_new True) = Done (True, iob_new True) \<and>
    iob_write_fill (\<lambda>_. None) 65 5 (iob_new True) = Fault"
  by (rule iob_write_fill_unchecked_null) simp_all

section \<open>shared_buffer\<close>

text \<open>
  A \<open>shared_buffer\<close> is a pointer to an \<open>io_buffer\<close> (or null), so its operations need the
  heap: addresses to live buffers. Using the pointer of a destroyed buffer is a \<open>Fault\<close>.
  \<open>sb_state\<close> adds what the operations share: the handles of the program and the number
  of references that are held outside of handles, by plain pointers.
\<close>

type_synonym iob_heap = "nat \<Rightarrow> io_buffer option"
type_synonym shared_buffer = "nat option"

definition heap_refer :: "nat \<Rightarrow> iob_heap \<Rightarrow> iob_heap run" where
  "heap_refer a h =
     (case h a of None \<Rightarrow> Fault | Some iob \<Rightarrow> Done (h(a \<mapsto> iob_refer iob)))"

definition heap_unrefer :: "nat \<Rightarrow> iob_heap \<Rightarrow> iob_heap run" where
  "heap_unrefer a h =
     (case h a of
        None \<Rightarrow> Fault
      | Some iob \<Rightarrow> run_bind (iob_unrefer iob) (\<lambda>r. Done (h(a := r))))"

definition sb_refer :: "shared_buffer \<Rightarrow> iob_heap \<Rightarrow> iob_heap run" where
  "sb_refer b h = (case b of None \<Rightarrow> Done h | Some a \<Rightarrow> heap_refer a h)"

definition sb_unrefer :: "shared_buffer \<Rightarrow> iob_heap \<Rightarrow> iob_heap run" where
  "sb_unrefer b h = (case b of None \<Rightarrow> Done h | Some a \<Rightarrow> heap_unrefer a h)"

definition sb_copy :: "shared_buffer \<Rightarrow> iob_heap \<Rightarrow> (shared_buffer \<times> iob_heap) run" where
  "sb_copy b h = run_bind (sb_refer b h) (\<lambda>h'. Done (b, h'))"

definition sb_destroy :: "shared_buffer \<Rightarrow> iob_heap \<Rightarrow> iob_heap run" where
  "sb_destroy b h = sb_unrefer b h"

definition sb_assign ::
  "shared_buffer \<Rightarrow> shared_buffer \<Rightarrow> iob_heap \<Rightarrow> (shared_buffer \<times> iob_heap) run" where
  "sb_assign self b h =
     (if self = b then Done (self, h)
      else run_bind (sb_unrefer self h) (\<lambda>h1.
           run_bind (sb_refer b h1) (\<lambda>h2. Done (b, h2))))"

definition sb_write ::
  "allocator \<Rightarrow> byte list option \<Rightarrow> u32 \<Rightarrow> shared_buffer \<Rightarrow> iob_heap \<Rightarrow> (bool \<times> iob_heap) run" where
  "sb_write al b n sb h =
     (case sb of
        None \<Rightarrow> Done (False, h)
      | Some a \<Rightarrow>
          (case h a of
             None \<Rightarrow> Fault
           | Some iob \<Rightarrow>
               run_bind (iob_write al b n iob) (\<lambda>(ok, iob'). Done (ok, h(a \<mapsto> iob')))))"

definition sb_write_fill ::
  "allocator \<Rightarrow> byte \<Rightarrow> u32 \<Rightarrow> shared_buffer \<Rightarrow> iob_heap \<Rightarrow> (bool \<times> iob_heap) run" where
  "sb_write_fill al c n sb h =
     (case sb of
        None \<Rightarrow> Done (False, h)
      | Some a \<Rightarrow>
          (case h a of
             None \<Rightarrow> Fault
           | Some iob \<Rightarrow>
               run_bind (iob_write_fill al c n iob) (\<lambda>(ok, iob'). Done (ok, h(a \<mapsto> iob')))))"

definition sb_read ::
  "u32 \<Rightarrow> shared_buffer \<Rightarrow> iob_heap \<Rightarrow> (byte list option \<times> iob_heap) run" where
  "sb_read n sb h =
     (case sb of
        None \<Rightarrow> Done (None, h)
      | Some a \<Rightarrow>
          (case h a of
             None \<Rightarrow> Fault
           | Some iob \<Rightarrow> run_bind (iob_read n iob) (\<lambda>(r, iob'). Done (r, h(a \<mapsto> iob')))))"

definition sb_read_byte ::
  "shared_buffer \<Rightarrow> iob_heap \<Rightarrow> (byte option \<times> iob_heap) run" where
  "sb_read_byte sb h =
     (case sb of
        None \<Rightarrow> Done (None, h)
      | Some a \<Rightarrow>
          (case h a of
             None \<Rightarrow> Fault
           | Some iob \<Rightarrow> run_bind (iob_read_byte iob) (\<lambda>(r, iob'). Done (r, h(a \<mapsto> iob')))))"

definition sb_shift :: "int \<Rightarrow> shared_buffer \<Rightarrow> iob_heap \<Rightarrow> (int \<times> iob_heap) run" where
  "sb_shift n sb h =
     (case sb of
        None \<Rightarrow> Done (-1, h)
      | Some a \<Rightarrow>
          (case h a of
             None \<Rightarrow> Fault
           | Some iob \<Rightarrow> (let (r, iob') = iob_shift n iob in Done (r, h(a \<mapsto> iob')))))"

definition sb_data :: "shared_buffer \<Rightarrow> iob_heap \<Rightarrow> nat option run" where
  "sb_data sb h =
     (case sb of
        None \<Rightarrow> Done None
      | Some a \<Rightarrow> (case h a of None \<Rightarrow> Fault | Some iob \<Rightarrow> Done (iob_data iob)))"

definition sb_size :: "shared_buffer \<Rightarrow> iob_heap \<Rightarrow> u32 run" where
  "sb_size sb h =
     (case sb of
        None \<Rightarrow> Done 0
      | Some a \<Rightarrow> (case h a of None \<Rightarrow> Fault | Some iob \<Rightarrow> Done (iob_size iob)))"

record sb_state =
  sbs_heap :: iob_heap
  sbs_handles :: "shared_buffer list"
  sbs_plain :: "nat \<Rightarrow> nat"

datatype sb_op =
    SbAdopt nat
  | SbCopy nat
  | SbDestroy nat
  | SbAssign nat nat
  | SbAssignPtr nat nat

text \<open>
  One operation on the handles of a program: construction from a pointer (the handle
  takes over the reference the pointer stands for), copy construction, destruction, and the
  two assignments.
\<close>

fun sb_step :: "sb_op \<Rightarrow> sb_state \<Rightarrow> sb_state run" where
  "sb_step (SbAdopt a) s =
     Done (s\<lparr>sbs_handles := Some a # sbs_handles s,
             sbs_plain := (sbs_plain s)(a := sbs_plain s a - 1)\<rparr>)"
| "sb_step (SbCopy i) s =
     run_bind (sb_copy (sbs_handles s ! i) (sbs_heap s)) (\<lambda>(b, h).
     Done (s\<lparr>sbs_heap := h, sbs_handles := b # sbs_handles s\<rparr>))"
| "sb_step (SbDestroy i) s =
     run_bind (sb_destroy (sbs_handles s ! i) (sbs_heap s)) (\<lambda>h.
     Done (s\<lparr>sbs_heap := h,
             sbs_handles := take i (sbs_handles s) @ drop (Suc i) (sbs_handles s)\<rparr>))"
| "sb_step (SbAssign i j) s =
     run_bind (sb_assign (sbs_handles s ! i) (sbs_handles s ! j) (sbs_heap s)) (\<lambda>(b, h).
     Done (s\<lparr>sbs_heap := h, sbs_handles := (sbs_handles s)[i := b]\<rparr>))"
| "sb_step (SbAssignPtr i a) s =
     run_bind (sb_assign (sbs_handles s ! i) (Some a) (sbs_heap s)) (\<lambda>(b, h).
     Done (s\<lparr>sbs_heap := h, sbs_handles := (sbs_handles s)[i := b]\<rparr>))"

text \<open>What the operations ask of the program: handles that exist, pointers with a reference.\<close>

fun sb_legal :: "sb_op \<Rightarrow> sb_state \<Rightarrow> bool" where
  "sb_legal (SbAdopt a) s \<longleftrightarrow> 0 < sbs_plain s a"
| "sb_legal (SbCopy i) s \<longleftrightarrow> i < length (sbs_handles s)"
| "sb_legal (SbDestroy i) s \<longleftrightarrow> i < length (sbs_handles s)"
| "sb_legal (SbAssign i j) s \<longleftrightarrow> i < length (sbs_handles s) \<and> j < length (sbs_handles s)"
| "sb_legal (SbAssignPtr i a) s \<longleftrightarrow> i < length (sbs_handles s) \<and> 0 < sbs_plain s a"

definition sb_refs :: "sb_state \<Rightarrow> nat \<Rightarrow> nat" where
  "sb_refs s a = sbs_plain s a + count_list (sbs_handles s) (Some a)"

definition counts_ok :: "iob_heap \<Rightarrow> (nat \<Rightarrow> nat) \<Rightarrow> bool" where
  "counts_ok h f \<longleftrightarrow>
     (\<forall>a. case h a of None \<Rightarrow> f a = 0 | Some iob \<Rightarrow> 0 < f a \<and> iob_count iob = int (f a))"

definition sb_inv :: "sb_state \<Rightarrow> bool" where
  "sb_inv s \<longleftrightarrow> counts_ok (sbs_heap s) (sb_refs s)"

lemma counts_ok_None: "counts_ok h f \<Longrightarrow> h a = None \<longleftrightarrow> f a = 0"
  unfolding counts_ok_def by (drule spec [of _ a]) (simp split: option.splits)

lemma counts_ok_Some: "counts_ok h f \<Longrightarrow> h a = Some iob \<Longrightarrow> iob_count iob = int (f a)"
  unfolding counts_ok_def by (drule spec [of _ a]) simp

lemma counts_ok_upd:
  assumes "counts_ok h f"
    and "case r of None \<Rightarrow> n = 0 | Some iob \<Rightarrow> 0 < n \<and> iob_count iob = int n"
  shows "counts_ok (h(a := r)) (f(a := n))"
  unfolding counts_ok_def
proof (rule allI)
  fix x
  show "case (h(a := r)) x of None \<Rightarrow> (f(a := n)) x = 0
      | Some iob \<Rightarrow> 0 < (f(a := n)) x \<and> iob_count iob = int ((f(a := n)) x)"
  proof (cases "x = a")
    case True
    with assms(2) show ?thesis by (simp split: option.splits)
  next
    case False
    with spec [OF assms(1) [unfolded counts_ok_def], of x] show ?thesis
      by (simp split: option.splits)
  qed
qed

lemma heap_refer_ok:
  assumes ok: "counts_ok h f" and pos: "0 < f a"
  obtains h' where "heap_refer a h = Done h'" "counts_ok h' (f(a := f a + 1))"
proof -
  obtain iob where iob: "h a = Some iob" using counts_ok_None [OF ok, of a] pos by auto
  have "counts_ok (h(a \<mapsto> iob_refer iob)) (f(a := f a + 1))"
    by (rule counts_ok_upd [OF ok]) (simp add: iob_refer_def counts_ok_Some [OF ok iob])
  with iob show thesis by (intro that) (simp_all add: heap_refer_def)
qed

lemma heap_unrefer_ok:
  assumes ok: "counts_ok h f" and pos: "0 < f a"
  obtains h' where "heap_unrefer a h = Done h'" "counts_ok h' (f(a := f a - 1))"
proof -
  obtain iob where iob: "h a = Some iob" using counts_ok_None [OF ok, of a] pos by auto
  note c = counts_ok_Some [OF ok iob]
  define r where "r = (if f a = 1 then None else Some (iob\<lparr>iob_count := iob_count iob - 1\<rparr>))"
  have "iob_unrefer iob = Done r"
    using pos by (simp add: iob_unrefer_def r_def c Let_def)
  moreover have "counts_ok (h(a := r)) (f(a := f a - 1))"
    by (rule counts_ok_upd [OF ok]) (use pos in \<open>simp add: r_def c\<close>)
  ultimately show thesis using iob by (intro that [of "h(a := r)"]) (simp_all add: heap_unrefer_def)
qed

definition ref_add :: "shared_buffer \<Rightarrow> (nat \<Rightarrow> nat) \<Rightarrow> nat \<Rightarrow> nat" where
  "ref_add b f = (case b of None \<Rightarrow> f | Some a \<Rightarrow> f(a := f a + 1))"

definition ref_del :: "shared_buffer \<Rightarrow> (nat \<Rightarrow> nat) \<Rightarrow> nat \<Rightarrow> nat" where
  "ref_del b f = (case b of None \<Rightarrow> f | Some a \<Rightarrow> f(a := f a - 1))"

definition ref_live :: "shared_buffer \<Rightarrow> (nat \<Rightarrow> nat) \<Rightarrow> bool" where
  "ref_live b f = (case b of None \<Rightarrow> True | Some a \<Rightarrow> 0 < f a)"

lemmas ref_defs = ref_add_def ref_del_def ref_live_def

lemma sb_refer_ok:
  assumes "counts_ok h f" and "ref_live b f"
  obtains h' where "sb_refer b h = Done h'" "counts_ok h' (ref_add b f)"
proof (cases b)
  case None
  with assms that show thesis by (simp add: ref_defs sb_refer_def)
next
  case (Some a)
  with assms obtain h' where "heap_refer a h = Done h'" "counts_ok h' (f(a := f a + 1))"
    using heap_refer_ok [of h f a] by (auto simp: ref_defs)
  with Some that show thesis by (simp add: ref_defs sb_refer_def)
qed

lemma sb_unrefer_ok:
  assumes "counts_ok h f" and "ref_live b f"
  obtains h' where "sb_unrefer b h = Done h'" "counts_ok h' (ref_del b f)"
proof (cases b)
  case None
  with assms that show thesis by (simp add: ref_defs sb_unrefer_def)
next
  case (Some a)
  with assms obtain h' where "heap_unrefer a h = Done h'" "counts_ok h' (f(a := f a - 1))"
    using heap_unrefer_ok [of h f a] by (auto simp: ref_defs)
  with Some that show thesis by (simp add: ref_defs sb_unrefer_def)
qed

lemma sb_assign_ok:
  assumes c: "counts_ok h f" and live: "ref_live self f" "ref_live b f" and ne: "self \<noteq> b"
  obtains h' where "sb_assign self b h = Done (b, h')" "counts_ok h' (ref_add b (ref_del self f))"
proof -
  obtain h1 where h1: "sb_unrefer self h = Done h1" "counts_ok h1 (ref_del self f)"
    using sb_unrefer_ok [OF c live(1)] .
  have "ref_live b (ref_del self f)"
    using live ne by (auto simp: ref_defs split: option.splits)
  then obtain h2 where "sb_refer b h1 = Done h2" "counts_ok h2 (ref_add b (ref_del self f))"
    using sb_refer_ok [OF h1(2)] by blast
  with h1 ne show thesis by (intro that [of h2]) (simp_all add: sb_assign_def)
qed

lemma count_list_nth_split:
  assumes "i < length xs"
  shows "count_list xs x = count_list (take i xs @ drop (Suc i) xs) x + (if xs ! i = x then 1 else 0)"
    and "count_list (xs[i := y]) x =
      count_list (take i xs @ drop (Suc i) xs) x + (if y = x then 1 else 0)"
proof -
  have "xs = take i xs @ xs ! i # drop (Suc i) xs" using assms by (rule id_take_nth_drop)
  then have "count_list xs x = count_list (take i xs @ xs ! i # drop (Suc i) xs) x" by simp
  then show "count_list xs x = count_list (take i xs @ drop (Suc i) xs) x + (if xs ! i = x then 1 else 0)"
    by simp
  show "count_list (xs[i := y]) x =
      count_list (take i xs @ drop (Suc i) xs) x + (if y = x then 1 else 0)"
    using assms by (simp add: upd_conv_take_nth_drop)
qed

lemma handle_live:
  assumes "i < length (sbs_handles s)"
  shows "ref_live (sbs_handles s ! i) (sb_refs s)"
  using count_list_nth_split(1) [OF assms, of "sbs_handles s ! i"]
  by (auto simp: ref_defs sb_refs_def split: option.split)

lemma refs_add_handle:
  "sb_refs (s\<lparr>sbs_heap := h, sbs_handles := b # sbs_handles s\<rparr>) = ref_add b (sb_refs s)"
  by (rule ext) (auto simp: sb_refs_def ref_defs split: option.splits)

lemma refs_del_handle:
  assumes "i < length (sbs_handles s)"
  shows "sb_refs (s\<lparr>sbs_heap := h,
      sbs_handles := take i (sbs_handles s) @ drop (Suc i) (sbs_handles s)\<rparr>) =
    ref_del (sbs_handles s ! i) (sb_refs s)"
  using count_list_nth_split(1) [OF assms]
  by (intro ext) (auto simp: sb_refs_def ref_defs split: option.splits)

lemma refs_set_handle:
  assumes "i < length (sbs_handles s)"
  shows "sb_refs (s\<lparr>sbs_heap := h, sbs_handles := (sbs_handles s)[i := b]\<rparr>) =
    ref_add b (ref_del (sbs_handles s ! i) (sb_refs s))"
  using count_list_nth_split [OF assms]
  by (intro ext) (auto simp: sb_refs_def ref_defs split: option.splits)

lemma sb_assign_step:
  assumes inv: "sb_inv s" and i: "i < length (sbs_handles s)" and live: "ref_live b (sb_refs s)"
  obtains h where "sb_assign (sbs_handles s ! i) b (sbs_heap s) = Done (b, h)"
    "sb_inv (s\<lparr>sbs_heap := h, sbs_handles := (sbs_handles s)[i := b]\<rparr>)"
proof (cases "sbs_handles s ! i = b")
  case True
  moreover have "(sbs_handles s)[i := b] = sbs_handles s" using True by auto
  ultimately show thesis using inv
    by (intro that [of "sbs_heap s"]) (simp_all add: sb_assign_def sb_inv_def sb_refs_def)
next
  case False
  obtain h where "sb_assign (sbs_handles s ! i) b (sbs_heap s) = Done (b, h)"
    "counts_ok h (ref_add b (ref_del (sbs_handles s ! i) (sb_refs s)))"
    using sb_assign_ok [OF _ handle_live [OF i] live False] inv by (auto simp: sb_inv_def)
  then show thesis
    by (intro that [of h]) (simp_all add: sb_inv_def refs_set_handle [OF i])
qed

text \<open>
  The reference count of a shared buffer is the number of its handles and plain
  references, after any operation on handles; no operation touches a destroyed buffer or
  aborts, and a buffer is destroyed exactly when its last reference goes.
\<close>

theorem shared_buffer_counts:
  assumes "sb_inv s" and "sb_legal op s"
  shows "\<exists>s'. sb_step op s = Done s' \<and> sb_inv s' \<and>
    (\<forall>a. sbs_heap s' a = None \<longleftrightarrow> sb_refs s' a = 0)"
proof -
  have "\<exists>s'. sb_step op s = Done s' \<and> sb_inv s'"
  proof (cases op)
    case (SbAdopt a)
    then have "sb_refs (s\<lparr>sbs_handles := Some a # sbs_handles s,
             sbs_plain := (sbs_plain s)(a := sbs_plain s a - 1)\<rparr>) = sb_refs s"
      using assms(2) by (intro ext) (auto simp: sb_refs_def)
    with SbAdopt assms(1) show ?thesis by (simp add: sb_inv_def)
  next
    case (SbCopy i)
    then have i: "i < length (sbs_handles s)" using assms(2) by simp
    obtain h where "sb_refer (sbs_handles s ! i) (sbs_heap s) = Done h"
      "counts_ok h (ref_add (sbs_handles s ! i) (sb_refs s))"
      using sb_refer_ok [OF _ handle_live [OF i]] assms(1) by (auto simp: sb_inv_def)
    with SbCopy show ?thesis by (simp add: sb_copy_def sb_inv_def refs_add_handle)
  next
    case (SbDestroy i)
    then have i: "i < length (sbs_handles s)" using assms(2) by simp
    obtain h where "sb_unrefer (sbs_handles s ! i) (sbs_heap s) = Done h"
      "counts_ok h (ref_del (sbs_handles s ! i) (sb_refs s))"
      using sb_unrefer_ok [OF _ handle_live [OF i]] assms(1) by (auto simp: sb_inv_def)
    with SbDestroy show ?thesis by (simp add: sb_destroy_def sb_inv_def refs_del_handle [OF i])
  next
    case (SbAssign i j)
    with assms(2) have i: "i < length (sbs_handles s)" and j: "j < length (sbs_handles s)"
      by simp_all
    obtain h where "sb_assign (sbs_handles s ! i) (sbs_handles s ! j) (sbs_heap s) =
        Done (sbs_handles s ! j, h)"
      "sb_inv (s\<lparr>sbs_heap := h, sbs_handles := (sbs_handles s)[i := sbs_handles s ! j]\<rparr>)"
      using sb_assign_step [OF assms(1) i handle_live [OF j]] .
    with SbAssign show ?thesis by simp
  next
    case (SbAssignPtr i a)
    with assms(2) have i: "i < length (sbs_handles s)" and a: "ref_live (Some a) (sb_refs s)"
      by (simp_all add: ref_defs sb_refs_def)
    obtain h where "sb_assign (sbs_handles s ! i) (Some a) (sbs_heap s) = Done (Some a, h)"
      "sb_inv (s\<lparr>sbs_heap := h, sbs_handles := (sbs_handles s)[i := Some a]\<rparr>)"
      using sb_assign_step [OF assms(1) i a] .
    with SbAssignPtr show ?thesis by simp
  qed
  then show ?thesis using counts_ok_None by (metis sb_inv_def)
qed

definition sb_example :: sb_state where
  "sb_example = \<lparr>sbs_heap = [0 \<mapsto> iob_new True, 1 \<mapsto> iob_new True],
      sbs_handles = [Some 0, Some 1], sbs_plain = (\<lambda>_. 0)\<rparr>"

lemma sb_example_inv: "sb_inv sb_example"
  unfolding sb_inv_def counts_ok_def
proof (rule allI)
  fix a :: nat
  consider "a = 0" | "a = 1" | "a \<noteq> 0" "a \<noteq> 1" by blast
  then show "case sbs_heap sb_example a of
      None \<Rightarrow> sb_refs sb_example a = 0
    | Some iob \<Rightarrow> 0 < sb_refs sb_example a \<and> iob_count iob = int (sb_refs sb_example a)"
    by cases (simp_all add: sb_example_def sb_refs_def iob_new_def)
qed

theorem shared_buffer_counts_witness:
  "\<exists>s'. sb_step (SbAssign 1 0) sb_example = Done s' \<and> sb_inv s' \<and>
    (\<forall>a. sbs_heap s' a = None \<longleftrightarrow> sb_refs s' a = 0)"
  by (rule shared_buffer_counts [OF sb_example_inv]) (simp add: sb_example_def)

end
