(* ===== verification/Utils.thy ===== *)
theory Utils
  imports Prelude
begin

text \<open>
  The helper functions of src/utils.cpp: hexadecimal digits, byte-order conversion (the
  little-endian branch, which is the one compiled where \<open>LITTLE_ENDIAN\<close> is defined),
  rounding up to a power of two, and joining and splitting strings.

  An \<open>int32_t\<close> whose bits are shifted is its bit pattern, with the arithmetic right shift
  \<open>signed_drop_bit\<close>. \<open>split_string\<close> is given its separator as a regular expression; every
  call in the sources uses a set of characters, followed by \<open>" *"\<close> in one place, so a
  separator is such a set and a flag.
\<close>

section \<open>Digits, byte order, powers of two\<close>

definition dec_to_hex :: "byte \<Rightarrow> byte" where
  "dec_to_hex d =
     (if 0 \<le> d \<and> d \<le> 9 then 48 + d
      else if 10 \<le> d \<and> d \<le> 15 then 65 + d - 10
      else 0)"

definition hex_to_dec :: "byte \<Rightarrow> byte" where
  "hex_to_dec c =
     (if 48 \<le> sint c \<and> sint c \<le> 57 then c - 48
      else if 97 \<le> sint c \<and> sint c \<le> 102 then (c - 97) + 10
      else if 65 \<le> sint c \<and> sint c \<le> 70 then (c - 65) + 10
      else 0)"

definition transform_endian_i16 :: "u16 \<Rightarrow> u16" where
  "transform_endian_i16 v = drop_bit 8 v OR push_bit 8 v"

definition transform_endian_i32 :: "u32 \<Rightarrow> u32" where
  "transform_endian_i32 v =
     (drop_bit 24 v AND 0x000000ff) OR (drop_bit 8 v AND 0x0000ff00) OR
     (push_bit 8 v AND 0x00ff0000) OR (push_bit 24 v AND 0xff000000)"

definition transform_endian_i64 :: "u64 \<Rightarrow> u64" where
  "transform_endian_i64 v =
     (drop_bit 56 v AND 0x00000000000000ff) OR
     (drop_bit 40 v AND 0x000000000000ff00) OR
     (drop_bit 24 v AND 0x0000000000ff0000) OR
     (drop_bit 8 v AND 0x00000000ff000000) OR
     (push_bit 8 v AND 0x000000ff00000000) OR
     (push_bit 24 v AND 0x0000ff0000000000) OR
     (push_bit 40 v AND 0x00ff000000000000) OR
     (push_bit 56 v AND 0xff00000000000000)"

definition smear :: "nat \<Rightarrow> u32 \<Rightarrow> u32" where
  "smear k v = v OR signed_drop_bit k v"

definition ceil_to_power_of_two :: "u32 \<Rightarrow> u32" where
  "ceil_to_power_of_two v = smear 16 (smear 8 (smear 4 (smear 2 (smear 1 (v - 1))))) + 1"

section \<open>Joining and splitting\<close>

definition join_strings :: "byte list list \<Rightarrow> byte list \<Rightarrow> byte list" where
  "join_strings src sep =
     (case src of
        [] \<Rightarrow> []
      | x # xs \<Rightarrow> foldl (\<lambda>out s. out @ (sep @ s)) x xs)"

type_synonym separator = "byte list \<times> bool"

text \<open>The rest of the text behind a separator at its front.\<close>

fun sep_match :: "separator \<Rightarrow> byte list \<Rightarrow> byte list option" where
  "sep_match sep [] = None"
| "sep_match sep (c # r) =
     (if c \<in> set (fst sep) then Some (if snd sep then dropWhile (\<lambda>d. d = 32) r else r) else None)"

text \<open>The text before the first separator and the text behind it.\<close>

fun find_sep :: "separator \<Rightarrow> byte list \<Rightarrow> (byte list \<times> byte list) option" where
  "find_sep sep [] = None"
| "find_sep sep (c # r) =
     (case sep_match sep (c # r) of
        Some rest \<Rightarrow> Some ([], rest)
      | None \<Rightarrow> (case find_sep sep r of None \<Rightarrow> None | Some (tok, rest) \<Rightarrow> Some (c # tok, rest)))"

lemma find_sep_shorter: "find_sep sep s = Some (tok, rest) \<Longrightarrow> length rest < length s"
proof (induction sep s arbitrary: tok rule: find_sep.induct)
  case (2 sep c r)
  then show ?case
    using length_dropWhile_le [of "\<lambda>d. d = 32" r]
    by (auto split: if_splits option.splits)
qed simp

text \<open>
  The tokens of a \<open>std::sregex_token_iterator\<close> that selects the text between the matches:
  a text without a match is one token, and an empty text behind the last match is dropped.
\<close>

function split_rest :: "separator \<Rightarrow> byte list \<Rightarrow> byte list list" where
  "split_rest sep s =
     (case find_sep sep s of
        None \<Rightarrow> if s = [] then [] else [s]
      | Some (tok, rest) \<Rightarrow> tok # split_rest sep rest)"
  by pat_completeness auto
termination
  by (relation "measure (\<lambda>(sep, s). length s)") (auto dest: find_sep_shorter)

declare split_rest.simps [simp del]

definition split_string :: "byte list \<Rightarrow> separator \<Rightarrow> byte list list" where
  "split_string s sep =
     (case find_sep sep s of
        None \<Rightarrow> [s]
      | Some (tok, rest) \<Rightarrow> tok # split_rest sep rest)"

section \<open>Digits\<close>

lemma byte_below:
  assumes "(d :: byte) < 16"
  shows "list_all (\<lambda>n. P (word_of_nat n)) [0..<16] \<Longrightarrow> P d"
proof -
  assume all: "list_all (\<lambda>n. P (word_of_nat n)) [0..<16]"
  have "unat d < 16" using assms by (simp add: word_less_nat_alt)
  from all_less_list [OF this all] show "P d" by simp
qed

lemma hex_dec_inverse: "d < 16 \<Longrightarrow> hex_to_dec (dec_to_hex d) = d"
  by (erule byte_below) (simp add: upt_16 dec_to_hex_def hex_to_dec_def)

lemma dec_to_hex_out: "\<not> d < 16 \<Longrightarrow> dec_to_hex d = 0"
  by (auto simp: dec_to_hex_def word_le_nat_alt word_less_nat_alt)

section \<open>Byte order\<close>

text \<open>The bit that reversing \<open>k\<close> bytes moves to position \<open>n\<close>.\<close>

definition swap_bit :: "nat \<Rightarrow> nat \<Rightarrow> nat" where
  "swap_bit k n = 8 * (k - 1 - n div 8) + n mod 8"

lemma swap_bit_parts: "swap_bit k n div 8 = k - 1 - n div 8" "swap_bit k n mod 8 = n mod 8"
  by (simp_all add: swap_bit_def)

lemma swap_bit_less:
  assumes "n < 8 * k"
  shows "swap_bit k n < 8 * k"
proof -
  have "n mod 8 < 8" "k - 1 - n div 8 \<le> k - 1" by simp_all
  moreover have "0 < k" using assms by simp
  ultimately show ?thesis unfolding swap_bit_def by linarith
qed

lemma swap_bit_swap:
  assumes "n < 8 * k"
  shows "swap_bit k (swap_bit k n) = n"
proof -
  have "n div 8 < k" using assms by (simp add: div_less_iff_less_mult mult.commute)
  then have "k - 1 - (k - 1 - n div 8) = n div 8" by simp
  then show ?thesis
    unfolding swap_bit_def [of k "swap_bit k n"] swap_bit_parts by simp
qed

lemma byte_masks32:
  "(0x000000ff :: u32) = mask 8" "(0x0000ff00 :: u32) = push_bit 8 (mask 8)"
  "(0x00ff0000 :: u32) = push_bit 16 (mask 8)" "(0xff000000 :: u32) = push_bit 24 (mask 8)"
  by (simp_all add: mask_eq_exp_minus_1 push_bit_eq_mult)

lemma byte_masks64:
  "(0x00000000000000ff :: u64) = mask 8" "(0x000000000000ff00 :: u64) = push_bit 8 (mask 8)"
  "(0x0000000000ff0000 :: u64) = push_bit 16 (mask 8)" "(0x00000000ff000000 :: u64) = push_bit 24 (mask 8)"
  "(0x000000ff00000000 :: u64) = push_bit 32 (mask 8)" "(0x0000ff0000000000 :: u64) = push_bit 40 (mask 8)"
  "(0x00ff000000000000 :: u64) = push_bit 48 (mask 8)" "(0xff00000000000000 :: u64) = push_bit 56 (mask 8)"
  by (simp_all add: mask_eq_exp_minus_1 push_bit_eq_mult)

lemma transform_i16_bit:
  assumes "n < 16"
  shows "bit (transform_endian_i16 v) n \<longleftrightarrow> bit v (swap_bit 2 n)"
  by (rule all_less_list [OF assms])
    (auto simp: transform_endian_i16_def swap_bit_def bit_simps upt_16 numeral_2_eq_2 [symmetric] dest: bit_imp_le_length)

lemma transform_i32_bit:
  assumes "n < 32"
  shows "bit (transform_endian_i32 v) n \<longleftrightarrow> bit v (swap_bit 4 n)"
  unfolding transform_endian_i32_def byte_masks32
  by (rule all_less_list [OF assms])
    (simp add: swap_bit_def bit_simps upt_words numeral_2_eq_2 [symmetric])

lemma transform_i64_bit:
  assumes "n < 64"
  shows "bit (transform_endian_i64 v) n \<longleftrightarrow> bit v (swap_bit 8 n)"
  unfolding transform_endian_i64_def byte_masks64
  by (rule all_less_list [OF assms])
    (simp add: swap_bit_def bit_simps upt_words numeral_2_eq_2 [symmetric])

lemma transform_invol:
  "transform_endian_i16 (transform_endian_i16 v) = v"
  "transform_endian_i32 (transform_endian_i32 w) = w"
  "transform_endian_i64 (transform_endian_i64 x) = x"
  using swap_bit_less [of _ 2] swap_bit_swap [of _ 2] swap_bit_less [of _ 4] swap_bit_swap [of _ 4]
    swap_bit_less [of _ 8] swap_bit_swap [of _ 8]
  by (auto intro!: bit_word_eqI simp: transform_i16_bit transform_i32_bit transform_i64_bit)

section \<open>Powers of two\<close>

lemma unat_exp: "n < 31 \<Longrightarrow> unat (2 ^ n :: u32) = 2 ^ n"
  proof -
  assume "n < 31"
  then have "(2 :: nat) ^ n < 2 ^ 32" by (intro power_strict_increasing) simp_all
  moreover have "(2 ^ n :: u32) = word_of_nat (2 ^ n)" by simp
  ultimately show ?thesis by (simp only: unat_of_nat) (simp add: take_bit_nat_eq_self)
qed

text \<open>\<open>y\<close> has a bit wherever \<open>x\<close> has one at most \<open>m - 1\<close> places further up.\<close>

definition smeared :: "nat \<Rightarrow> u32 \<Rightarrow> u32 \<Rightarrow> bool" where
  "smeared m x y \<longleftrightarrow> (\<forall>i. bit y i \<longleftrightarrow> (\<exists>j<m. bit x (i + j)))"

lemma smear_bit:
  assumes "\<not> bit y 31"
  shows "bit (smear k y) i \<longleftrightarrow> bit y i \<or> bit y (i + k)"
proof -
  have len: "LENGTH(32) = 32" by simp
  have sd: "bit (signed_drop_bit k y) i = bit y (if 32 - k \<le> i \<and> i < 32 then 31 else k + i)"
    using bit_signed_drop_bit_iff [of k y i] unfolding len by simp
  have "bit (signed_drop_bit k y) i \<longleftrightarrow> bit y (i + k)"
  proof (cases "32 - k \<le> i")
    case True
    then have "\<not> bit y (i + k)" using bit_imp_le_length [of y "i + k"] by auto
    with True assms show ?thesis unfolding sd by (auto simp: add.commute)
  next
    case False
    then show ?thesis unfolding sd by (simp add: add.commute)
  qed
  then show ?thesis by (simp add: smear_def bit_or_iff)
qed

lemma smeared_step:
  assumes "smeared m x y" and "\<not> bit x 31"
  shows "smeared (m + m) x (smear m y)"
proof -
  have "\<not> bit y 31"
    using assms bit_imp_le_length [of x] by (fastforce simp: smeared_def)
  then have "bit (smear m y) i \<longleftrightarrow> (\<exists>j<m. bit x (i + j)) \<or> (\<exists>j<m. bit x (i + m + j))" for i
    using assms(1) by (simp add: smear_bit smeared_def)
  moreover have "(\<exists>j<m. bit x (i + j)) \<or> (\<exists>j<m. bit x (i + m + j)) \<longleftrightarrow> (\<exists>j<m + m. bit x (i + j))" for i
  proof
    assume "\<exists>j<m + m. bit x (i + j)"
    then obtain j where j: "j < m + m" "bit x (i + j)" by auto
    then show "(\<exists>j<m. bit x (i + j)) \<or> (\<exists>j<m. bit x (i + m + j))"
    proof (cases "j < m")
      case False
      then have "j - m < m" "i + m + (j - m) = i + j" using j(1) by linarith+
      with j(2) show ?thesis by metis
    qed auto
  next
    assume "(\<exists>j<m. bit x (i + j)) \<or> (\<exists>j<m. bit x (i + m + j))"
    then show "\<exists>j<m + m. bit x (i + j)"
      by (metis add.assoc add_strict_left_mono trans_less_add1)
  qed
  ultimately show ?thesis by (simp add: smeared_def)
qed

lemma smear_all:
  assumes "\<not> bit x 31"
  shows "smeared 32 x (smear 16 (smear 8 (smear 4 (smear 2 (smear 1 x)))))"
proof -
  have "smeared 1 x x" by (simp add: smeared_def)
  from smeared_step [OF this assms] have "smeared 2 x (smear 1 x)" by (simp only: one_add_one)
  from smeared_step [OF this assms] have "smeared 4 x (smear 2 (smear 1 x))" by simp
  from smeared_step [OF this assms] have "smeared 8 x (smear 4 (smear 2 (smear 1 x)))" by simp
  from smeared_step [OF this assms] have "smeared 16 x (smear 8 (smear 4 (smear 2 (smear 1 x))))" by simp
  from smeared_step [OF this assms] show ?thesis by simp
qed

lemma smeared_mask:
  assumes sm: "smeared 32 x y" and h: "bit x h" "\<forall>i>h. \<not> bit x i"
  shows "y = mask (Suc h)"
proof (rule bit_word_eqI)
  fix i assume "i < LENGTH(32)"
  then have i: "i < 32" by simp
  have h32: "h < 32" using bit_imp_le_length [OF h(1)] by simp
  show "bit y i \<longleftrightarrow> bit (mask (Suc h) :: u32) i"
  proof (cases "i \<le> h")
    case True
    then have "h - i < 32" "bit x (i + (h - i))" using h h32 by auto
    then have "bit y i" using sm by (auto simp: smeared_def)
    then show ?thesis using True i by (simp add: bit_mask_iff)
  next
    case False
    then have "\<not> bit y i" using sm h(2) by (auto simp: smeared_def)
    then show ?thesis using False by (simp add: bit_mask_iff)
  qed
qed

lemma top_bit:
  assumes "(x :: u32) \<noteq> 0"
  obtains h where "bit x h" "\<forall>i>h. \<not> bit x i" "2 ^ h \<le> unat x" "unat x < 2 ^ Suc h"
proof -
  let ?S = "{i. bit x i}"
  have fin: "finite ?S" by (rule finite_subset [of _ "{..<32}"]) (auto dest: bit_imp_le_length)
  have "?S \<noteq> {}" using assms by (auto simp: bit_eq_iff)
  define h where "h = Max ?S"
  have h: "bit x h" using Max_in [OF fin \<open>?S \<noteq> {}\<close>] by (simp add: h_def)
  have up: "\<forall>i>h. \<not> bit x i"
  proof (intro allI impI notI)
    fix i assume "h < i" and "bit x i"
    then show False using Max_ge [OF fin, of i] unfolding h_def [symmetric] by simp
  qed
  have "take_bit (Suc h) x = x"
    by (rule bit_word_eqI) (use up in \<open>auto simp: bit_take_bit_iff less_Suc_eq_le not_le [symmetric]\<close>)
  then have "unat x = take_bit (Suc h) (unat x)" by (metis unsigned_take_bit_eq)
  then have lt: "unat x < 2 ^ Suc h" by (metis take_bit_nat_less_exp)
  have "2 ^ h \<le> unat x"
  proof (rule ccontr)
    assume "\<not> 2 ^ h \<le> unat x"
    then have "take_bit h (unat x) = unat x" by (simp add: take_bit_nat_eq_self)
    moreover have "bit (unat x) h" using h by (simp add: bit_unsigned_iff bit_imp_le_length)
    ultimately show False by (metis bit_take_bit_iff less_irrefl)
  qed
  with h up lt that show thesis by blast
qed

text \<open>
  Rounding up gives the least power of two that is not smaller, for every positive
  argument up to \<open>2 ^ 30\<close>.
\<close>

theorem ceil_to_power_of_two_least:
  assumes "0 < unat v" and "unat v \<le> 2 ^ 30"
  shows "\<exists>k. unat (ceil_to_power_of_two v) = 2 ^ k \<and> unat v \<le> 2 ^ k \<and> 2 ^ k < 2 * unat v"
proof -
  let ?x = "v - 1"
  have x: "unat ?x = unat v - 1" using assms(1) by (simp add: unat_sub_if' unat_gt_0 Suc_leI)
  show ?thesis
  proof (cases "?x = 0")
    case True
    then have "unat v = 1" by simp
    moreover have "ceil_to_power_of_two v = 1"
      using True by (simp add: ceil_to_power_of_two_def smear_def)
    ultimately show ?thesis by (intro exI [of _ 0]) simp
  next
    case False
    then obtain h where h: "bit ?x h" "\<forall>i>h. \<not> bit ?x i" "2 ^ h \<le> unat ?x"
      "unat ?x < 2 ^ Suc h" by (rule top_bit)
    have "(2 :: nat) ^ h < 2 ^ 30" using h(3) x assms by linarith
    then have hs: "h < 30" using power_less_imp_less_exp [of "2 :: nat" h 30] by simp
    then have "\<not> bit ?x 31" using h(2) by simp
    from smeared_mask [OF smear_all [OF this] h(1,2)]
    have "ceil_to_power_of_two v = mask (Suc h) + 1" by (simp add: ceil_to_power_of_two_def)
    also have "\<dots> = 2 ^ Suc h" by (simp add: mask_eq_exp_minus_1)
    finally have "unat (ceil_to_power_of_two v) = 2 ^ Suc h"
      using hs unat_exp [of "Suc h"] by simp
    moreover have "unat v \<le> 2 ^ Suc h" "2 ^ Suc h < 2 * unat v" using h(3,4) x by simp_all
    ultimately show ?thesis by blast
  qed
qed

theorem ceil_to_power_of_two_least_witness:
  "\<exists>k. unat (ceil_to_power_of_two 1000) = 2 ^ k \<and> unat (1000 :: u32) \<le> 2 ^ k \<and>
    2 ^ k < 2 * unat (1000 :: u32)"
  by (rule ceil_to_power_of_two_least) simp_all

section \<open>Joining and splitting\<close>

definition sep_free :: "separator \<Rightarrow> byte list \<Rightarrow> bool" where
  "sep_free sep s \<longleftrightarrow> (\<forall>c\<in>set s. c \<notin> set (fst sep))"

lemma find_sep_free: "sep_free sep s \<Longrightarrow> find_sep sep s = None"
  by (induction s) (auto simp: sep_free_def)

lemma find_sep_at:
  assumes "sep_free sep s" and "c \<in> set (fst sep)"
  shows "find_sep sep (s @ c # r) = Some (s, if snd sep then dropWhile (\<lambda>d. d = 32) r else r)"
  using assms by (induction s) (auto simp: sep_free_def)

lemma join_strings_Cons: "join_strings (x # y # ys) sep = x @ sep @ join_strings (y # ys) sep"
proof -
  have "foldl (\<lambda>out s. out @ sep @ s) (a @ b) zs = a @ foldl (\<lambda>out s. out @ sep @ s) b zs" for a b zs
    by (induction zs arbitrary: b) simp_all
  then show ?thesis by (simp add: join_strings_def)
qed

lemma split_rest_join:
  assumes "c \<in> set (fst sep)" and "\<not> snd sep" and "xs \<noteq> []" and "\<forall>x\<in>set xs. sep_free sep x"
    and "last xs \<noteq> []"
  shows "split_rest sep (join_strings xs [c]) = xs"
  using assms(3-5)
proof (induction xs rule: induct_list012)
  case (2 x)
  then show ?case by (simp add: join_strings_def split_rest.simps find_sep_free)
next
  case (3 x y zs)
  then show ?case
    using find_sep_at [of sep x c] assms(1,2)
    by (simp add: join_strings_Cons split_rest.simps [of sep "x @ _"])
qed simp

text \<open>
  Splitting at a separator character undoes joining with it, when no part contains a
  separator and the last part is not empty.
\<close>

theorem split_join_strings:
  assumes "c \<in> set (fst sep)" and "\<not> snd sep" and "xs \<noteq> []" and "\<forall>x\<in>set xs. sep_free sep x"
    and "last xs \<noteq> []"
  shows "split_string (join_strings xs [c]) sep = xs"
proof (cases xs rule: remdups_adj.cases)
  case (2 x)
  then show ?thesis using assms by (simp add: split_string_def join_strings_def find_sep_free)
next
  case (3 x y zs)
  then show ?thesis
    using find_sep_at [of sep x c] assms split_rest_join [of c sep "y # zs"]
    by (simp add: split_string_def join_strings_Cons)
qed (use assms in simp)

theorem split_join_strings_witness:
  "split_string (join_strings [B ''a'', [], B ''bc''] [58]) ([58], False) = [B ''a'', [], B ''bc'']"
  by (rule split_join_strings) (simp_all add: sep_free_def B_def)

text \<open>
  The byte-order conversions reverse the bytes of their argument, and converting twice
  gives the argument back.
\<close>

theorem transform_endian_reverses:
  assumes "i < 16" and "j < 32" and "k < 64"
  shows "transform_endian_i16 (transform_endian_i16 v) = v \<and>
    transform_endian_i32 (transform_endian_i32 w) = w \<and>
    transform_endian_i64 (transform_endian_i64 x) = x \<and>
    (bit (transform_endian_i16 v) i \<longleftrightarrow> bit v (8 * (1 - i div 8) + i mod 8)) \<and>
    (bit (transform_endian_i32 w) j \<longleftrightarrow> bit w (8 * (3 - j div 8) + j mod 8)) \<and>
    (bit (transform_endian_i64 x) k \<longleftrightarrow> bit x (8 * (7 - k div 8) + k mod 8))"
  using assms
  by (simp add: transform_invol transform_i16_bit transform_i32_bit transform_i64_bit swap_bit_def)

theorem transform_endian_reverses_witness:
  "transform_endian_i64 (transform_endian_i64 0x0102030405060708) = 0x0102030405060708 \<and>
   (bit (transform_endian_i16 0x1234) 4 \<longleftrightarrow> bit (0x1234 :: u16) 12)"
  using transform_endian_reverses [of 4 5 6 "0x1234" 0 "0x0102030405060708"] by simp

end
