(* ===== verification/Base64.thy ===== *)
theory Base64
  imports Prelude
begin

text \<open>
  Base64 of src/codec/base64.cpp: the encoder and the decoder with their three- and
  four-byte work arrays, writing into an output string of a length computed beforehand (a
  write beyond it is a \<open>Fault\<close>), and the proof that decoding undoes encoding. The arrays
  \<open>a3\<close> and \<open>a4\<close> are the prefix filled so far, its length is the loop's \<open>i\<close>.
\<close>

section \<open>Definitions\<close>

definition kBase64Alphabet :: "byte list" where
  "kBase64Alphabet = B ''ABCDEFGHIJKLMNOPQRSTUVWXYZabcdefghijklmnopqrstuvwxyz0123456789+/''"

definition encoded_length :: "u32 \<Rightarrow> u32" where
  "encoded_length n = (n + 2 - ((n + 2) mod 3)) div 3 * 4"

definition a3_to_a4 :: "byte list \<Rightarrow> byte list" where
  "a3_to_a4 a3 =
     [drop_bit 2 (a3 ! 0 AND 0xfc),
      push_bit 4 (a3 ! 0 AND 0x03) + drop_bit 4 (a3 ! 1 AND 0xf0),
      push_bit 2 (a3 ! 1 AND 0x0f) + drop_bit 6 (a3 ! 2 AND 0xc0),
      a3 ! 2 AND 0x3f]"

definition a4_to_a3 :: "byte list \<Rightarrow> byte list" where
  "a4_to_a3 a4 =
     [push_bit 2 (a4 ! 0) + drop_bit 4 (a4 ! 1 AND 0x30),
      push_bit 4 (a4 ! 1 AND 0xf) + drop_bit 2 (a4 ! 2 AND 0x3c),
      push_bit 6 (a4 ! 2 AND 0x3) + a4 ! 3]"

definition b64_lookup :: "byte \<Rightarrow> byte" where
  "b64_lookup c =
     (if 65 \<le> c \<and> c \<le> 90 then c - 65
      else if 97 \<le> c \<and> c \<le> 122 then c - 71
      else if 48 \<le> c \<and> c \<le> 57 then c + 4
      else if c = 43 then 62
      else if c = 47 then 63
      else 255)"

text \<open>\<open>out[k++] = b\<close> for each \<open>b\<close>.\<close>

fun put_all :: "byte list \<Rightarrow> nat \<Rightarrow> byte list \<Rightarrow> (nat \<times> byte list) run" where
  "put_all [] k out = Done (k, out)"
| "put_all (b # bs) k out = run_bind (mem_set out k b) (\<lambda>out'. put_all bs (Suc k) out')"

fun alphabet_all :: "byte list \<Rightarrow> byte list run" where
  "alphabet_all [] = Done []"
| "alphabet_all (x # xs) =
     run_bind (mem_get kBase64Alphabet (unat x)) (\<lambda>c.
     run_bind (alphabet_all xs) (\<lambda>cs. Done (c # cs)))"

fun encode_loop ::
  "byte list \<Rightarrow> byte list \<Rightarrow> nat \<Rightarrow> byte list \<Rightarrow> (byte list \<times> nat \<times> byte list) run" where
  "encode_loop [] a3 enc_len out = Done (a3, enc_len, out)"
| "encode_loop (c # cs) a3 enc_len out =
     (let a3' = a3 @ [c] in
      if length a3' = 3 then
        run_bind (alphabet_all (a3_to_a4 a3')) (\<lambda>bs.
        run_bind (put_all bs enc_len out) (\<lambda>(enc_len', out').
        encode_loop cs [] enc_len' out'))
      else encode_loop cs a3' enc_len out)"

definition base64_encode :: "byte list \<Rightarrow> byte list run" where
  "base64_encode s =
     run_bind (encode_loop s [] 0 (replicate (unat (encoded_length (of_nat (length s)))) 0))
       (\<lambda>(a3, enc_len, out).
         if a3 \<noteq> [] then
           run_bind (alphabet_all (take (length a3 + 1)
                      (a3_to_a4 (a3 @ replicate (3 - length a3) 0)))) (\<lambda>bs.
           run_bind (put_all bs enc_len out) (\<lambda>(enc_len', out').
           run_bind (put_all (replicate (3 - length a3) 61) enc_len' out') (\<lambda>(_, out'').
           Done out'')))
         else Done out)"

text \<open>The characters \<open>=\<close> at the end are counted without a check for the front of the string.\<close>

definition decoded_length :: "byte list \<Rightarrow> u32 run" where
  "decoded_length s =
     (let eqs = takeWhile (\<lambda>c. c = 61) (rev s) in
      if length eqs = length s then Fault
      else Done ((6 * of_nat (length s)) div 8 - of_nat (length eqs)))"

fun decode_loop ::
  "byte list \<Rightarrow> byte list \<Rightarrow> nat \<Rightarrow> byte list \<Rightarrow> (byte list \<times> nat \<times> byte list) run" where
  "decode_loop [] a4 dec_len out = Done (a4, dec_len, out)"
| "decode_loop (c # cs) a4 dec_len out =
     (if c = 61 then Done (a4, dec_len, out)
      else
        let a4' = a4 @ [c] in
        if length a4' = 4 then
          run_bind (put_all (a4_to_a3 (map b64_lookup a4')) dec_len out) (\<lambda>(dec_len', out').
          decode_loop cs [] dec_len' out')
        else decode_loop cs a4' dec_len out)"

definition base64_decode :: "byte list \<Rightarrow> byte list run" where
  "base64_decode s =
     run_bind (decoded_length s) (\<lambda>n.
     run_bind (decode_loop s [] 0 (replicate (unat n) 0)) (\<lambda>(a4, dec_len, out).
       if a4 \<noteq> [] then
         run_bind (put_all (take (length a4 - 1)
                     (a4_to_a3 (map b64_lookup (a4 @ replicate (4 - length a4) 0)))) dec_len out)
           (\<lambda>(_, out'). Done out')
       else Done out))"

section \<open>The reference encoder\<close>

text \<open>Encoding as a recursion over groups of three bytes, without arrays or lengths.\<close>

definition b64_char :: "byte \<Rightarrow> byte" where
  "b64_char x = kBase64Alphabet ! unat x"

fun b64_spec :: "byte list \<Rightarrow> byte list" where
  "b64_spec [] = []"
| "b64_spec [a] = map b64_char (take 2 (a3_to_a4 [a, 0, 0])) @ [61, 61]"
| "b64_spec [a, b] = map b64_char (take 3 (a3_to_a4 [a, b, 0])) @ [61]"
| "b64_spec (a # b # c # s) = map b64_char (a3_to_a4 [a, b, c]) @ b64_spec s"

section \<open>Bit-level facts\<close>

lemma byte_eq_bits: "(\<And>n. n < 8 \<Longrightarrow> bit (a :: byte) n = bit b n) \<Longrightarrow> a = b"
  by (rule bit_word_eqI) simp

lemma byte_eq_list:
  "list_all (\<lambda>n. bit (a :: byte) n = bit b n) [0, 1, 2, 3, 4, 5, 6, 7] \<Longrightarrow> a = b"
  unfolding upt_8 [symmetric] by (rule byte_eq_bits) (rule all_less_list)

lemma a3_sums:
  "push_bit 4 (a AND 0x03) + drop_bit 4 (b AND 0xf0) =
     (push_bit 4 (a AND 0x03) OR drop_bit 4 (b AND 0xf0) :: byte)"
  "push_bit 2 (a AND 0x0f) + drop_bit 6 (b AND 0xc0) =
     (push_bit 2 (a AND 0x0f) OR drop_bit 6 (b AND 0xc0) :: byte)"
  by (rule disjunctive_add_eq_or, rule byte_eq_list, simp add: bit_simps)+

lemma a4_sums:
  "push_bit 2 a + drop_bit 4 (b AND 0x30) = (push_bit 2 a OR drop_bit 4 (b AND 0x30) :: byte)"
  "push_bit 4 (a AND 0xf) + drop_bit 2 (b AND 0x3c) =
     (push_bit 4 (a AND 0xf) OR drop_bit 2 (b AND 0x3c) :: byte)"
  "push_bit 6 (a AND 0x3) + (b AND 0x3f) = (push_bit 6 (a AND 0x3) OR (b AND 0x3f) :: byte)"
  by (rule disjunctive_add_eq_or, rule byte_eq_list, simp add: bit_simps)+

lemma nth_3: "[a, b, c] ! 0 = a" "[a, b, c] ! 1 = b" "[a, b, c] ! 2 = c"
  by simp_all

lemma nth_4: "[a, b, c, d] ! 0 = a" "[a, b, c, d] ! 1 = b" "[a, b, c, d] ! 2 = c"
  "[a, b, c, d] ! 3 = d"
  by (simp_all add: numeral_3_eq_3)

lemma a4_to_a3_inverse: "a4_to_a3 (a3_to_a4 [a, b, c]) = [a, b, c]"
  unfolding a3_to_a4_def a4_to_a3_def nth_3 a3_sums nth_4 a4_sums
  by (intro list.inject [THEN iffD2] conjI refl; rule byte_eq_list;
      simp add: bit_simps numeral_2_eq_2 [symmetric])

lemma a3_to_a4_small: "x \<in> set (a3_to_a4 [a, b, c]) \<Longrightarrow> unat x < 64"
proof -
  have small: "unat x < 64" if "\<not> bit x 6 \<and> \<not> bit x 7" for x :: byte
  proof -
    have "x = take_bit 6 x"
      by (rule byte_eq_list) (use that in \<open>simp add: bit_take_bit_iff\<close>)
    then have "unat x = take_bit 6 (unat x)" by (metis unsigned_take_bit_eq)
    then have "unat x < 2 ^ 6" by (metis take_bit_nat_less_exp)
    then show ?thesis by simp
  qed
  assume "x \<in> set (a3_to_a4 [a, b, c])"
  then have "\<not> bit x 6 \<and> \<not> bit x 7"
    unfolding a3_to_a4_def nth_3 a3_sums by (auto simp: bit_simps dest: bit_imp_le_length)
  then show ?thesis by (rule small)
qed

lemma kBase64Alphabet_codes:
  "kBase64Alphabet =
    [65, 66, 67, 68, 69, 70, 71, 72, 73, 74, 75, 76, 77, 78, 79, 80,
     81, 82, 83, 84, 85, 86, 87, 88, 89, 90, 97, 98, 99, 100, 101, 102,
     103, 104, 105, 106, 107, 108, 109, 110, 111, 112, 113, 114, 115, 116, 117, 118,
     119, 120, 121, 122, 48, 49, 50, 51, 52, 53, 54, 55, 56, 57, 43, 47]"
  by (simp add: kBase64Alphabet_def B_def)

lemma alphabet_lookups:
  "map b64_lookup kBase64Alphabet = map word_of_nat [0..<64]"
  unfolding kBase64Alphabet_codes upt_words by (simp add: b64_lookup_def)

lemma alphabet_not_pad: "61 \<notin> set kBase64Alphabet"
  unfolding kBase64Alphabet_codes by simp

lemma length_alphabet: "length kBase64Alphabet = 64"
  by (simp add: kBase64Alphabet_def)

lemma lookup_alphabet:
  assumes "unat x < 64"
  shows "b64_lookup (b64_char x) = x" "b64_char x \<noteq> 61" "mem_get kBase64Alphabet (unat x) = Done (b64_char x)"
proof -
  have "map b64_lookup kBase64Alphabet ! unat x = map word_of_nat [0..<64] ! unat x"
    by (simp only: alphabet_lookups)
  then show "b64_lookup (b64_char x) = x"
    using assms by (simp add: b64_char_def length_alphabet)
  show "b64_char x \<noteq> 61"
    using alphabet_not_pad nth_mem [of "unat x" kBase64Alphabet, unfolded length_alphabet, OF assms]
    by (auto simp: b64_char_def)
  show "mem_get kBase64Alphabet (unat x) = Done (b64_char x)"
    using assms by (simp add: mem_get_def b64_char_def length_alphabet)
qed

section \<open>The encoder\<close>

lemma put_all_spec:
  "n = length pre \<Longrightarrow> length bs \<le> k \<Longrightarrow>
   put_all bs n (pre @ replicate k 0) =
     Done (n + length bs, (pre @ bs) @ replicate (k - length bs) 0)"
proof (induction bs arbitrary: n pre k)
  case (Cons b bs)
  then have k: "0 < k" "length bs \<le> k - 1" by auto
  then have upd: "(pre @ replicate k 0)[n := b] = (pre @ [b]) @ replicate (k - 1) 0"
    using list_update_replicate_next [of 0 k pre 0 b] Cons.prems(1) by simp
  have "mem_set (pre @ replicate k 0) n b = Done ((pre @ [b]) @ replicate (k - 1) 0)"
    using k(1) Cons.prems(1) upd by (simp add: mem_set_def)
  with Cons.IH [of "Suc n" "pre @ [b]" "k - 1"] Cons.prems k show ?case by simp
qed simp

lemma alphabet_all_spec:
  "(\<And>x. x \<in> set xs \<Longrightarrow> unat x < 64) \<Longrightarrow> alphabet_all xs = Done (map b64_char xs)"
  by (induction xs) (simp_all add: lookup_alphabet)

lemma alphabet_all_a4: "alphabet_all (take n (a3_to_a4 [a, b, c])) = Done (map b64_char (take n (a3_to_a4 [a, b, c])))"
  by (rule alphabet_all_spec) (use a3_to_a4_small in \<open>blast dest: in_set_takeD\<close>)

lemma length_a3_to_a4 [simp]: "length (a3_to_a4 xs) = 4"
  by (simp add: a3_to_a4_def)

lemma length_b64_spec: "length (b64_spec s) = 4 * ((length s + 2) div 3)"
proof (induction s rule: b64_spec.induct)
  case (4 a b c s)
  have "(5 + length s) div 3 = Suc (Suc (Suc (length s)) div 3)" by presburger
  with 4 show ?case by simp
qed simp_all

definition encode_finish :: "byte list \<times> nat \<times> byte list \<Rightarrow> byte list run" where
  "encode_finish = (\<lambda>(a3, enc_len, out).
     if a3 \<noteq> [] then
       run_bind (alphabet_all (take (length a3 + 1)
                  (a3_to_a4 (a3 @ replicate (3 - length a3) 0)))) (\<lambda>bs.
       run_bind (put_all bs enc_len out) (\<lambda>(enc_len', out').
       run_bind (put_all (replicate (3 - length a3) 61) enc_len' out') (\<lambda>(_, out'').
       Done out'')))
     else Done out)"

lemma put_two:
  assumes "length xs + length ys \<le> k"
  shows "run_bind (put_all xs (length pre) (pre @ replicate k 0)) (\<lambda>(n, out).
      run_bind (put_all ys n out) (\<lambda>(_, out'). Done out')) =
    Done (pre @ (xs @ ys) @ replicate (k - length (xs @ ys)) 0)"
  using assms put_all_spec [of "length pre" pre xs k]
    put_all_spec [of "length pre + length xs" "pre @ xs" ys "k - length xs"]
  by (simp add: diff_diff_add)

lemma encode_tail:
  assumes "a3 \<in> {[a], [a, b]}" and "length (b64_spec a3) \<le> k"
  shows "encode_finish (a3, length pre, pre @ replicate k 0) =
    Done (pre @ b64_spec a3 @ replicate (k - length (b64_spec a3)) 0)"
proof -
  have z: "replicate 2 (0 :: byte) = [0, 0]" "replicate 2 (61 :: byte) = [61, 61]"
    by (simp_all add: numeral_2_eq_2)
  have "encode_finish ([a], length pre, pre @ replicate k 0) =
      Done (pre @ b64_spec [a] @ replicate (k - length (b64_spec [a])) 0)" if "4 \<le> k"
    using that alphabet_all_a4 [of 2 a 0 0]
      put_two [of "map b64_char (take 2 (a3_to_a4 [a, 0, 0]))" "[61, 61]" k pre]
    by (simp add: encode_finish_def z numeral_2_eq_2 [symmetric])
  moreover have "encode_finish ([a, b], length pre, pre @ replicate k 0) =
      Done (pre @ b64_spec [a, b] @ replicate (k - length (b64_spec [a, b])) 0)" if "4 \<le> k"
    using that alphabet_all_a4 [of 3 a b 0]
      put_two [of "map b64_char (take 3 (a3_to_a4 [a, b, 0]))" "[61]" k pre]
    by (simp add: encode_finish_def numeral_3_eq_3 [symmetric])
  ultimately show ?thesis using assms by (auto simp: length_b64_spec)
qed

lemma encode_loop_spec:
  "length (b64_spec s) \<le> k \<Longrightarrow>
   run_bind (encode_loop s [] (length pre) (pre @ replicate k 0)) encode_finish =
     Done (pre @ b64_spec s @ replicate (k - length (b64_spec s)) 0)"
proof (induction s arbitrary: pre k rule: b64_spec.induct)
  case 1
  then show ?case by (simp add: encode_finish_def)
next
  case (2 a)
  then show ?case using encode_tail [of "[a]" a] by simp
next
  case (3 a b)
  then show ?case using encode_tail [of "[a, b]" a b] by simp
next
  case (4 a b c s)
  let ?x = "map b64_char (a3_to_a4 [a, b, c])"
  have "alphabet_all (a3_to_a4 [a, b, c]) = Done ?x"
    using alphabet_all_a4 [of 4 a b c] by simp
  moreover have "put_all ?x (length pre) (pre @ replicate k 0) =
      Done (length (pre @ ?x), (pre @ ?x) @ replicate (k - 4) 0)"
    using 4(2) put_all_spec [of "length pre" pre ?x k] by simp
  ultimately show ?case
    using 4(1) [of "k - 4" "pre @ ?x"] 4(2) by (simp add: run_bind_assoc diff_diff_add)
qed

lemma encoded_length_spec:
  assumes "n + 2 < 3 * 2 ^ 30"
  shows "unat (encoded_length (of_nat n)) = 4 * ((n + 2) div 3)"
proof -
  have n: "unat (of_nat n + 2 :: u32) = n + 2"
    using assms by (simp add: unat_word_ariths unat_of_nat take_bit_nat_eq_self)
  let ?m = "of_nat n + 2 :: u32"
  have "unat (?m mod 3) = (n + 2) mod 3" using n by (simp add: unat_mod_distrib)
  moreover have "unat (?m - ?m mod 3) = unat ?m - unat (?m mod 3)"
    by (rule unat_sub) (use n in \<open>simp add: word_le_nat_alt unat_mod_distrib\<close>)
  ultimately have "unat ((?m - ?m mod 3) div 3) = (n + 2 - (n + 2) mod 3) div 3"
    using n by (simp add: unat_div_distrib)
  also have "\<dots> = (n + 2) div 3" by (simp add: minus_mod_eq_div_mult)
  finally have "unat ((?m - ?m mod 3) div 3) = (n + 2) div 3" .
  moreover have "(n + 2) div 3 * 4 < 2 ^ 32" using assms by simp
  ultimately show ?thesis
    by (simp add: encoded_length_def unat_word_ariths)
qed

lemma base64_encode_eq_spec:
  assumes "length s + 2 < 3 * 2 ^ 30"
  shows "base64_encode s = Done (b64_spec s)"
  using encode_loop_spec [of s "length (b64_spec s)" "[]"] encoded_length_spec [OF assms]
  by (simp add: base64_encode_def encode_finish_def [symmetric] length_b64_spec)

section \<open>The decoder\<close>

definition decode_finish :: "byte list \<times> nat \<times> byte list \<Rightarrow> byte list run" where
  "decode_finish = (\<lambda>(a4, dec_len, out).
     if a4 \<noteq> [] then
       run_bind (put_all (take (length a4 - 1)
                   (a4_to_a3 (map b64_lookup (a4 @ replicate (4 - length a4) 0)))) dec_len out)
         (\<lambda>(_, out'). Done out')
     else Done out)"

lemma a3_to_a4_cases:
  obtains x y z w where "a3_to_a4 [a, b, c] = [x, y, z, w]"
    "\<forall>v\<in>{x, y, z, w}. unat v < 64"
proof -
  obtain x y z w where "a3_to_a4 [a, b, c] = [x, y, z, w]"
    using a3_to_a4_def by blast
  moreover from this have "unat v < 64" if "v \<in> {x, y, z, w}" for v
    using that a3_to_a4_small [of v a b c] by simp
  ultimately show thesis using that by blast
qed

lemma decode_loop_spec:
  "length s \<le> k \<Longrightarrow>
   run_bind (decode_loop (b64_spec s) [] (length pre) (pre @ replicate k 0)) decode_finish =
     Done (pre @ s @ replicate (k - length s) 0)"
proof (induction s arbitrary: pre k rule: b64_spec.induct)
  case 1
  then show ?case by (simp add: decode_finish_def)
next
  case (2 a)
  obtain x y z w where x: "a3_to_a4 [a, 0, 0] = [x, y, z, w]" "\<forall>v\<in>{x, y, z, w}. unat v < 64"
    by (rule a3_to_a4_cases)
  have "a4_to_a3 [x, y, u, v] ! 0 = a4_to_a3 [x, y, z, w] ! 0" for u v
    by (simp add: a4_to_a3_def)
  then have "take 1 (a4_to_a3 [x, y, u, v]) = [a]" for u v
    using a4_to_a3_inverse [of a 0 0] x(1) by (simp add: a4_to_a3_def)
  then show ?case
    using 2 x put_all_spec [of "length pre" pre "[a]" k]
    by (simp add: decode_finish_def lookup_alphabet numeral_2_eq_2)
next
  case (3 a b)
  obtain x y z w where x: "a3_to_a4 [a, b, 0] = [x, y, z, w]" "\<forall>v\<in>{x, y, z, w}. unat v < 64"
    by (rule a3_to_a4_cases)
  have "take 2 (a4_to_a3 [x, y, z, v]) = take 2 (a4_to_a3 [x, y, z, w])" for v
    by (simp add: a4_to_a3_def)
  then have "take 2 (a4_to_a3 [x, y, z, v]) = [a, b]" for v
    using a4_to_a3_inverse [of a b 0] x(1) by (simp add: numeral_2_eq_2)
  then show ?case
    using 3 x put_all_spec [of "length pre" pre "[a, b]" k]
    by (simp add: decode_finish_def lookup_alphabet numeral_2_eq_2 numeral_3_eq_3)
next
  case (4 a b c s)
  obtain x y z w where x: "a3_to_a4 [a, b, c] = [x, y, z, w]" "\<forall>v\<in>{x, y, z, w}. unat v < 64"
    by (rule a3_to_a4_cases)
  have "a4_to_a3 [x, y, z, w] = [a, b, c]"
    using a4_to_a3_inverse [of a b c] x(1) by simp
  then show ?case
    using 4(1) [of "k - 3" "pre @ [a, b, c]"] 4(2) x put_all_spec [of "length pre" pre "[a, b, c]" k]
    by (simp add: lookup_alphabet numeral_3_eq_3 diff_diff_add)
qed

lemma b64_spec_char:
  assumes "s \<noteq> []"
  shows "\<exists>x\<in>set (b64_spec s). x \<noteq> 61"
proof -
  have "b64_char (a3_to_a4 [a, b, c] ! 0) \<noteq> 61" for a b c
    by (rule lookup_alphabet(2)) (rule a3_to_a4_small [OF nth_mem], simp)
  then show ?thesis
    using assms by (cases s rule: b64_spec.cases) (auto simp: a3_to_a4_def numeral_2_eq_2 numeral_3_eq_3)
qed

lemma div_Suc_3: "(Suc (Suc (Suc n)) + k) div 3 = Suc ((n + k) div 3)" for n k :: nat
  by presburger

lemma b64_spec_pads:
  "length (takeWhile (\<lambda>c. c = 61) (rev (b64_spec s))) = 3 * ((length s + 2) div 3) - length s"
proof (induction s rule: b64_spec.induct)
  case (2 a)
  obtain x y z w where "a3_to_a4 [a, 0, 0] = [x, y, z, w]" "\<forall>v\<in>{x, y, z, w}. unat v < 64"
    by (rule a3_to_a4_cases)
  then show ?case by (simp add: lookup_alphabet)
next
  case (3 a b)
  obtain x y z w where "a3_to_a4 [a, b, 0] = [x, y, z, w]" "\<forall>v\<in>{x, y, z, w}. unat v < 64"
    by (rule a3_to_a4_cases)
  then show ?case by (simp add: lookup_alphabet)
next
  case (4 a b c s)
  obtain x y z w where x: "a3_to_a4 [a, b, c] = [x, y, z, w]" "\<forall>v\<in>{x, y, z, w}. unat v < 64"
    by (rule a3_to_a4_cases)
  let ?r = "rev (map b64_char [x, y, z, w])"
  have spec: "rev (b64_spec (a # b # c # s)) = rev (b64_spec s) @ ?r" using x(1) by simp
  have "length (takeWhile (\<lambda>c. c = 61) (rev (b64_spec s) @ ?r)) =
      length (takeWhile (\<lambda>c. c = 61) (rev (b64_spec s)))"
  proof (cases "s = []")
    case True
    then show ?thesis using x(2) by (simp add: lookup_alphabet)
  next
    case False
    then obtain v where "v \<in> set (rev (b64_spec s))" "v \<noteq> 61" using b64_spec_char by auto
    then show ?thesis by (rule arg_cong [OF takeWhile_append1])
  qed
  moreover have "3 * ((length (a # b # c # s) + 2) div 3) - length (a # b # c # s) =
      3 * ((length s + 2) div 3) - length s"
  proof -
    have "(length (a # b # c # s) + 2) div 3 = Suc ((length s + 2) div 3)"
      using div_Suc_3 [of "length s" 2] by simp
    then show ?thesis by simp
  qed
  ultimately show ?case unfolding spec by (simp only: 4)
qed simp

lemma decoded_length_spec:
  assumes "s \<noteq> []" and "length s \<le> 2 ^ 28"
  obtains n where "decoded_length (b64_spec s) = Done n" "unat n = length s"
proof -
  let ?m = "(length s + 2) div 3"
  let ?e = "3 * ?m - length s"
  let ?n = "(6 * of_nat (length (b64_spec s))) div 8 - of_nat ?e :: u32"
  have pos: "0 < ?m" using assms(1) by (cases s) auto
  have e: "?e < 3" by presburger
  have "?e \<noteq> length (b64_spec s)" using pos e by (simp add: length_b64_spec)
  then have "decoded_length (b64_spec s) = Done ?n"
    by (simp add: decoded_length_def Let_def b64_spec_pads)
  moreover have "unat ?n = length s"
  proof -
    have big: "6 * (4 * ?m) < 2 ^ 32" using assms(2) by simp
    have six: "unat (6 * of_nat (4 * ?m) :: u32) = 6 * (4 * ?m)"
      using big by (simp only: unat_word_ariths unat_of_nat) (simp add: take_bit_nat_eq_self)
    have "unat ((6 * of_nat (4 * ?m)) div 8 :: u32) = 3 * ?m"
      unfolding unat_div_distrib six by simp
    moreover have "unat (of_nat ?e :: u32) = ?e" by (rule unat_of_nat_u32) (use e in simp)
    moreover have le: "length s \<le> 3 * ?m" by presburger
    ultimately show ?thesis
      unfolding length_b64_spec by (subst unat_sub) (simp_all add: word_le_nat_alt)
  qed
  ultimately show thesis by (rule that)
qed

section \<open>What the codec promises\<close>

text \<open>
  The encoder with its arrays and its precomputed output length computes the
  group-wise reference encoding, never writes outside of the output, and the length it
  computed beforehand is the length it fills.
\<close>

theorem base64_encode_refines:
  assumes "length s + 2 < 3 * 2 ^ 30"
  shows "base64_encode s = Done (b64_spec s) \<and>
    length (b64_spec s) = unat (encoded_length (of_nat (length s)))"
  using base64_encode_eq_spec [OF assms] encoded_length_spec [OF assms] by (simp add: length_b64_spec)

theorem base64_encode_refines_witness:
  "base64_encode (B ''hello'') = Done (b64_spec (B ''hello'')) \<and>
    length (b64_spec (B ''hello'')) = unat (encoded_length (of_nat (length (B ''hello''))))"
  by (rule base64_encode_refines) simp

text \<open>
  Decoding undoes encoding for every string that is not empty; no access leaves the
  arrays or the output.
\<close>

theorem base64_roundtrip:
  assumes "s \<noteq> []" and "length s \<le> 2 ^ 28"
  shows "run_bind (base64_encode s) base64_decode = Done s"
proof -
  have "base64_encode s = Done (b64_spec s)"
    by (rule base64_encode_eq_spec) (use assms(2) in simp)
  moreover obtain n where "decoded_length (b64_spec s) = Done n" "unat n = length s"
    using decoded_length_spec [OF assms] .
  ultimately show ?thesis
    using decode_loop_spec [of s "length s" "[]"]
    by (simp add: base64_decode_def decode_finish_def [symmetric])
qed

theorem base64_roundtrip_witness:
  "run_bind (base64_encode (B ''hello'')) base64_decode = Done (B ''hello'')"
  by (rule base64_roundtrip) (simp_all add: B_def)

text \<open>
  The length computation of the decoder scans for padding without a lower end: on the
  empty string and on a string of padding only it reads in front of the string.
\<close>

theorem decoded_length_overrun:
  "base64_decode (replicate n 61) = Fault"
  by (simp add: base64_decode_def decoded_length_def)

end
