(* ===== verification/Sha1.thy ===== *)
theory Sha1
  imports Prelude
begin

text \<open>
  SHA-1 of src/codec/sha1.cpp: the context, the transform with its sixteen-word circular
  message schedule and its rotating work variables, the chunking of \<open>sha1_update\<close>, the
  padding loop of \<open>sha1_final\<close>, and the reference algorithm of FIPS 180 they compute.

  The rounds \<open>R0\<close> to \<open>R4\<close> are macros on variable names; round \<open>i + 1\<close> names the variables of
  round \<open>i\<close> shifted by one place, so a round here returns the five variables in the order in
  which the next round takes them. A \<open>union\<close> of bytes and words is read in little-endian
  order. The position \<open>i\<close> of \<open>sha1_update\<close> is a natural number: it stays below the length
  of the data, and for a size that is not negative no sum with it wraps around.
\<close>

section \<open>The transform\<close>

definition rol :: "u32 \<Rightarrow> nat \<Rightarrow> u32" where
  "rol v n = push_bit n v OR drop_bit (32 - n) v"

definition le_word :: "byte list \<Rightarrow> u32" where
  "le_word bs = ucast (bs ! 0) OR push_bit 8 (ucast (bs ! 1)) OR
     push_bit 16 (ucast (bs ! 2)) OR push_bit 24 (ucast (bs ! 3))"

definition block_words :: "(byte list \<Rightarrow> u32) \<Rightarrow> byte list \<Rightarrow> u32 list" where
  "block_words f bs = map (\<lambda>i. f (take 4 (drop (4 * i) bs))) [0..<16]"

type_synonym sha_vars = "u32 \<times> u32 \<times> u32 \<times> u32 \<times> u32"

definition blk0 :: "nat \<Rightarrow> u32 list \<Rightarrow> u32 list" where
  "blk0 i l = l[i := (rol (l ! i) 24 AND 0xFF00FF00) OR (rol (l ! i) 8 AND 0x00FF00FF)]"

definition blk :: "nat \<Rightarrow> u32 list \<Rightarrow> u32 list" where
  "blk i l = l[i mod 16 :=
     rol (l ! ((i + 13) mod 16) XOR l ! ((i + 8) mod 16) XOR l ! ((i + 2) mod 16) XOR
          l ! (i mod 16)) 1]"

definition R0 :: "nat \<Rightarrow> sha_vars \<times> u32 list \<Rightarrow> sha_vars \<times> u32 list" where
  "R0 i = (\<lambda>((v, w, x, y, z), l). let l' = blk0 i l in
     ((z + (((w AND (x XOR y)) XOR y) + l' ! i + 0x5A827999 + rol v 5), v, rol w 30, x, y), l'))"

definition R1 :: "nat \<Rightarrow> sha_vars \<times> u32 list \<Rightarrow> sha_vars \<times> u32 list" where
  "R1 i = (\<lambda>((v, w, x, y, z), l). let l' = blk i l in
     ((z + (((w AND (x XOR y)) XOR y) + l' ! (i mod 16) + 0x5A827999 + rol v 5),
       v, rol w 30, x, y), l'))"

definition R2 :: "nat \<Rightarrow> sha_vars \<times> u32 list \<Rightarrow> sha_vars \<times> u32 list" where
  "R2 i = (\<lambda>((v, w, x, y, z), l). let l' = blk i l in
     ((z + ((w XOR x XOR y) + l' ! (i mod 16) + 0x6ED9EBA1 + rol v 5), v, rol w 30, x, y), l'))"

definition R3 :: "nat \<Rightarrow> sha_vars \<times> u32 list \<Rightarrow> sha_vars \<times> u32 list" where
  "R3 i = (\<lambda>((v, w, x, y, z), l). let l' = blk i l in
     ((z + ((((w OR x) AND y) OR (w AND x)) + l' ! (i mod 16) + 0x8F1BBCDC + rol v 5),
       v, rol w 30, x, y), l'))"

definition R4 :: "nat \<Rightarrow> sha_vars \<times> u32 list \<Rightarrow> sha_vars \<times> u32 list" where
  "R4 i = (\<lambda>((v, w, x, y, z), l). let l' = blk i l in
     ((z + ((w XOR x XOR y) + l' ! (i mod 16) + 0xCA62C1D6 + rol v 5), v, rol w 30, x, y), l'))"

definition sha1_transform :: "sha_vars \<Rightarrow> byte list \<Rightarrow> sha_vars" where
  "sha1_transform st buffer =
     (let (a0, b0, c0, d0, e0) = st;
          s16 = fold R0 [0..<16] (st, block_words le_word buffer);
          s20 = fold R1 [16..<20] s16;
          s40 = fold R2 [20..<40] s20;
          s60 = fold R3 [40..<60] s40;
          ((a, b, c, d, e), _) = fold R4 [60..<80] s60
      in (a0 + a, b0 + b, c0 + c, d0 + d, e0 + e))"

section \<open>The context\<close>

record sha1_context =
  sha_state :: sha_vars
  sha_count0 :: u32
  sha_count1 :: u32
  sha_buffer :: "byte list"

definition sha_init_state :: sha_vars where
  "sha_init_state = (0x67452301, 0xEFCDAB89, 0x98BADCFE, 0x10325476, 0xC3D2E1F0)"

definition sha1_init :: "sha1_context \<Rightarrow> sha1_context" where
  "sha1_init ctx = ctx\<lparr>sha_state := sha_init_state, sha_count0 := 0, sha_count1 := 0\<rparr>"

function update_blocks ::
  "byte list \<Rightarrow> nat \<Rightarrow> nat \<Rightarrow> sha_vars \<Rightarrow> (nat \<times> sha_vars) run" where
  "update_blocks data len i st =
     (if i + 63 < len then
        run_bind (mem_read data i 64) (\<lambda>b.
        update_blocks data len (i + 64) (sha1_transform st b))
      else Done (i, st))"
  by pat_completeness auto
termination
  by (relation "measure (\<lambda>(data, len, i, st). len - i)") auto

declare update_blocks.simps [simp del]

definition sha1_update :: "byte list \<Rightarrow> int \<Rightarrow> sha1_context \<Rightarrow> sha1_context run" where
  "sha1_update data sz ctx =
     (let len = (word_of_int sz :: u32);
          j0 = sha_count0 ctx;
          count0 = j0 + push_bit 3 len;
          count1 = (if count0 < j0 then sha_count1 ctx + 1 else sha_count1 ctx) + drop_bit 29 len;
          ctx1 = ctx\<lparr>sha_count0 := count0, sha_count1 := count1\<rparr>;
          j = drop_bit 3 j0 AND 63
      in
      run_bind
        (if j + len > 63 then
           let i = 64 - unat j in
           run_bind (mem_read data 0 i) (\<lambda>bs.
           run_bind (mem_write (sha_buffer ctx1) (unat j) bs) (\<lambda>buf.
           run_bind (update_blocks data (unat len) i (sha1_transform (sha_state ctx1) buf))
             (\<lambda>(i', st). Done (0, i', ctx1\<lparr>sha_buffer := buf, sha_state := st\<rparr>))))
         else Done (unat j, 0, ctx1))
        (\<lambda>(j, i, ctx2).
          run_bind (mem_read data i (unat len - i)) (\<lambda>bs.
          run_bind (mem_write (sha_buffer ctx2) j bs) (\<lambda>buf.
          Done (ctx2\<lparr>sha_buffer := buf\<rparr>)))))"

section \<open>Padding and digest\<close>

lemma sha1_update_count0:
  "sha1_update data sz ctx = Done ctx' \<Longrightarrow>
   sha_count0 ctx' = sha_count0 ctx + push_bit 3 (word_of_int sz)"
  by (auto simp: sha1_update_def Let_def run_bind_eq_Done split: if_splits)

lemma count_and_504: "(c :: u32) AND 504 = push_bit 3 (drop_bit 3 c AND 63)"
proof (rule bit_word_eqI)
  fix n assume "n < LENGTH(32)"
  then have "n < 32" by simp
  then show "bit (c AND 504) n \<longleftrightarrow> bit (push_bit 3 (drop_bit 3 c AND 63)) n"
    by (rule all_less_list) (simp add: upt_words bit_simps numeral_2_eq_2 [symmetric])
qed

definition count_slot :: "u32 \<Rightarrow> nat" where
  "count_slot c = unat c div 8 mod 64"

lemma unat_slot: "unat (drop_bit 3 (c :: u32) AND 63) = count_slot c"
proof -
  have "drop_bit 3 c AND 63 = take_bit 6 (drop_bit 3 c)"
    by (simp add: take_bit_eq_mask mask_eq_exp_minus_1)
  then show ?thesis
    using unat_u32 [of c]
    by (simp only: count_slot_def unsigned_take_bit_eq unsigned_drop_bit_eq)
      (simp add: take_bit_eq_mod drop_bit_eq_div)
qed

lemma count_slot_next: "count_slot (c + 8) = (count_slot c + 1) mod 64"
proof -
  let ?u = "unat c"
  have wrap: "unat (c + 8) = (?u + 8) mod 4294967296" by (simp add: unat_word_ariths)
  have u: "?u < 4294967296" using unat_u32 [of c] by simp
  have step: "(?u + 8) div 8 = ?u div 8 + 1" by simp
  show ?thesis
  proof (cases "?u + 8 < 4294967296")
    case True
    then show ?thesis unfolding count_slot_def wrap by (simp add: step mod_Suc_eq)
  next
    case False
    then have "?u div 8 = 536870911" using u by (intro div_nat_eqI) simp_all
    moreover have "(?u + 8) mod 4294967296 div 8 = 0"
      using False u by (simp add: mod_if [of "?u + 8"])
    ultimately show ?thesis unfolding count_slot_def wrap by simp
  qed
qed

lemma pad_measure:
  assumes "c AND 504 \<noteq> 448"
  shows "(120 - count_slot (c + 8)) mod 64 < (120 - count_slot c) mod 64"
proof -
  have "count_slot c < 64" by (simp add: count_slot_def)
  moreover have "list_all (\<lambda>q. q \<noteq> 56 \<longrightarrow> (120 - (q + 1) mod 64) mod 64 < (120 - q) mod 64) [0..<64]"
    by code_simp
  ultimately have "count_slot c \<noteq> 56 \<longrightarrow>
      (120 - (count_slot c + 1) mod 64) mod 64 < (120 - count_slot c) mod 64"
    by (rule all_less_list)
  moreover have "count_slot c \<noteq> 56"
  proof
    assume "count_slot c = 56"
    then have "drop_bit 3 c AND 63 = 56" using unat_slot [of c] word_unat_eq_iff [of "drop_bit 3 c AND 63" 56] by simp
    with assms show False by (simp add: count_and_504)
  qed
  ultimately show ?thesis unfolding count_slot_next by blast
qed

text \<open>The loop of \<open>sha1_final\<close> that appends zero bytes up to eight bytes before a block's end.\<close>

function pad_zeros :: "sha1_context \<Rightarrow> sha1_context run" where
  "pad_zeros ctx =
     (if sha_count0 ctx AND 504 \<noteq> 448
      then run_bind (sha1_update [0] 1 ctx) pad_zeros
      else Done ctx)"
  by pat_completeness auto
termination
proof (relation "measure (\<lambda>ctx. (120 - count_slot (sha_count0 ctx)) mod 64)")
  fix ctx x
  assume "sha_count0 ctx AND 504 \<noteq> 448" and "sha1_update [0] 1 ctx = Done x"
  then show "(x, ctx) \<in> measure (\<lambda>ctx. (120 - count_slot (sha_count0 ctx)) mod 64)"
    using pad_measure [of "sha_count0 ctx"] sha1_update_count0 [of "[0]" 1 ctx x] by simp
qed simp

declare pad_zeros.simps [simp del]

definition final_count :: "sha1_context \<Rightarrow> byte list" where
  "final_count ctx =
     map (\<lambda>i. ucast (drop_bit ((3 - i mod 4) * 8)
                (if i \<ge> 4 then sha_count0 ctx else sha_count1 ctx) AND 255)) [0..<8]"

definition state_word :: "sha_vars \<Rightarrow> nat \<Rightarrow> u32" where
  "state_word st k = (let (a, b, c, d, e) = st in [a, b, c, d, e] ! k)"

definition state_digest :: "sha_vars \<Rightarrow> byte list" where
  "state_digest st =
     map (\<lambda>i. ucast (drop_bit ((3 - i mod 4) * 8) (state_word st (i div 4)) AND 255)) [0..<20]"

definition sha1_final :: "sha1_context \<Rightarrow> byte list run" where
  "sha1_final ctx =
     (let finalcount = final_count ctx in
      run_bind (sha1_update [0x80] 1 ctx) (\<lambda>ctx1.
      run_bind (pad_zeros ctx1) (\<lambda>ctx2.
      run_bind (sha1_update finalcount 8 ctx2) (\<lambda>ctx3.
      Done (state_digest (sha_state ctx3))))))"

fun sha1_bytes :: "byte list \<Rightarrow> nat \<Rightarrow> nat \<Rightarrow> sha1_context \<Rightarrow> sha1_context run" where
  "sha1_bytes data i 0 ctx = Done ctx"
| "sha1_bytes data i (Suc k) ctx =
     run_bind (mem_read data i 1) (\<lambda>b.
     run_bind (sha1_update b 1 ctx) (\<lambda>ctx'.
     sha1_bytes data (i + 1) k ctx'))"

text \<open>\<open>ctx\<close> is the uninitialised context on the stack.\<close>

definition sha1 :: "sha1_context \<Rightarrow> byte list \<Rightarrow> int \<Rightarrow> byte list run" where
  "sha1 ctx data sz =
     run_bind (sha1_bytes data 0 (unat (word_of_int sz :: u32)) (sha1_init ctx)) sha1_final"

section \<open>The reference algorithm\<close>

text \<open>The message schedule, the round functions and the block function of FIPS 180.\<close>

definition be_word :: "byte list \<Rightarrow> u32" where
  "be_word bs = ucast (bs ! 3) OR push_bit 8 (ucast (bs ! 2)) OR
     push_bit 16 (ucast (bs ! 1)) OR push_bit 24 (ucast (bs ! 0))"

fun fips_w :: "u32 list \<Rightarrow> nat \<Rightarrow> u32" where
  "fips_w m t =
     (if t < 16 then m ! t
      else rol (fips_w m (t - 3) XOR fips_w m (t - 8) XOR fips_w m (t - 14) XOR fips_w m (t - 16)) 1)"

declare fips_w.simps [simp del]

definition fips_f :: "nat \<Rightarrow> u32 \<Rightarrow> u32 \<Rightarrow> u32 \<Rightarrow> u32" where
  "fips_f t x y z =
     (if t < 20 then (x AND y) XOR (NOT x AND z)
      else if t < 40 then x XOR y XOR z
      else if t < 60 then (x AND y) XOR (x AND z) XOR (y AND z)
      else x XOR y XOR z)"

definition fips_k :: "nat \<Rightarrow> u32" where
  "fips_k t = (if t < 20 then 0x5a827999 else if t < 40 then 0x6ed9eba1
               else if t < 60 then 0x8f1bbcdc else 0xca62c1d6)"

definition fips_round :: "u32 list \<Rightarrow> nat \<Rightarrow> sha_vars \<Rightarrow> sha_vars" where
  "fips_round m t = (\<lambda>(a, b, c, d, e).
     (rol a 5 + fips_f t b c d + e + fips_k t + fips_w m t, a, rol b 30, c, d))"

definition fips_compress :: "sha_vars \<Rightarrow> byte list \<Rightarrow> sha_vars" where
  "fips_compress st block =
     (let (a0, b0, c0, d0, e0) = st;
          (a, b, c, d, e) = fold (fips_round (block_words be_word block)) [0..<80] st
      in (a0 + a, b0 + b, c0 + c, d0 + d, e0 + e))"

function fips_blocks :: "sha_vars \<Rightarrow> byte list \<Rightarrow> sha_vars" where
  "fips_blocks st msg =
     (if length msg < 64 then st else fips_blocks (fips_compress st (take 64 msg)) (drop 64 msg))"
  by pat_completeness auto
termination
  by (relation "measure (\<lambda>(st, msg). length msg)") auto

declare fips_blocks.simps [simp del]

definition be64 :: "nat \<Rightarrow> byte list" where
  "be64 n = map (\<lambda>i. word_of_nat (n div 2 ^ (8 * (7 - i)))) [0..<8]"

definition fips_pad :: "nat \<Rightarrow> byte list" where
  "fips_pad n = 0x80 # replicate ((119 - n mod 64) mod 64) 0 @ be64 (8 * n)"

definition fips_sha1 :: "byte list \<Rightarrow> byte list" where
  "fips_sha1 msg = state_digest (fips_blocks sha_init_state (msg @ fips_pad (length msg)))"

section \<open>The transform computes the block function\<close>

lemma round_functions:
  "((w AND (x XOR y)) XOR y) = ((w AND x) XOR (NOT w AND y) :: u32)"
  "(((w OR x) AND y) OR (w AND x)) = ((w AND x) XOR (w AND y) XOR (x AND y) :: u32)"
  by (rule bit_word_eqI; auto simp: bit_simps)+

lemma round_sum: "z + (f + w + k + r) = r + f + z + k + (w :: u32)"
  by (simp only: ac_simps)

lemma swap_word:
  "(rol (le_word bs) 24 AND 0xFF00FF00) OR (rol (le_word bs) 8 AND 0x00FF00FF) = be_word bs"
proof (rule bit_word_eqI)
  fix n assume "n < LENGTH(32)"
  then have "n < 32" by simp
  then show "bit ((rol (le_word bs) 24 AND 0xFF00FF00) OR (rol (le_word bs) 8 AND 0x00FF00FF)) n \<longleftrightarrow>
      bit (be_word bs) n"
    unfolding rol_def le_word_def be_word_def
    by (rule all_less_list)
      (auto simp: upt_words bit_simps numeral_2_eq_2 [symmetric] dest: bit_imp_le_length)
qed

lemma length_block_words [simp]: "length (block_words f bs) = 16"
  by (simp add: block_words_def)

lemma block_words_nth: "i < 16 \<Longrightarrow> block_words f bs ! i = f (take 4 (drop (4 * i) bs))"
  by (simp add: block_words_def)

lemma R0_fips:
  assumes "t < 16" and "l ! t = block_words le_word bs ! t" and "length l = 16"
  shows "R0 t (s, l) = (fips_round (block_words be_word bs) t s, l[t := block_words be_word bs ! t])"
proof -
  obtain v w x y z where "s = (v, w, x, y, z)" by (cases s)
  moreover have "blk0 t l = l[t := block_words be_word bs ! t]"
    using assms by (simp add: blk0_def block_words_nth swap_word)
  ultimately show ?thesis
    using assms
    by (simp add: R0_def Let_def fips_round_def fips_f_def fips_k_def fips_w.simps round_functions
        round_sum)
qed

lemma R0_phase:
  "t \<le> 16 \<Longrightarrow> fold R0 [0..<t] (s, block_words le_word bs) =
     (fold (fips_round (block_words be_word bs)) [0..<t] s,
      take t (block_words be_word bs) @ drop t (block_words le_word bs))"
proof (induction t)
  case (Suc t)
  let ?l = "take t (block_words be_word bs) @ drop t (block_words le_word bs)"
  have "t < 16" using Suc.prems by simp
  then have "R0 t (fold (fips_round (block_words be_word bs)) [0..<t] s, ?l) =
      (fips_round (block_words be_word bs) t (fold (fips_round (block_words be_word bs)) [0..<t] s),
       ?l[t := block_words be_word bs ! t])"
    by (intro R0_fips) (simp_all add: nth_append)
  moreover have "?l[t := block_words be_word bs ! t] =
      take (Suc t) (block_words be_word bs) @ drop (Suc t) (block_words le_word bs)"
    using \<open>t < 16\<close> by (simp add: list_update_append Cons_nth_drop_Suc [symmetric] take_Suc_conv_app_nth)
  ultimately show ?case using Suc by simp
qed simp

definition sched_inv :: "u32 list \<Rightarrow> nat \<Rightarrow> u32 list \<Rightarrow> bool" where
  "sched_inv m t l \<longleftrightarrow> length l = 16 \<and> (\<forall>j<t. t \<le> j + 16 \<longrightarrow> l ! (j mod 16) = fips_w m j)"

lemma mod16_back:
  fixes t :: nat
  assumes "16 \<le> t"
  shows "(t + 13) mod 16 = (t - 3) mod 16" "(t + 8) mod 16 = (t - 8) mod 16"
    "(t + 2) mod 16 = (t - 14) mod 16" "t mod 16 = (t - 16) mod 16"
proof -
  obtain k where "t = k + 16" using assms by (metis add.commute le_Suc_ex)
  moreover have "(k + 29) mod 16 = (k + 13) mod 16" "(k + 24) mod 16 = (k + 8) mod 16"
    "(k + 18) mod 16 = (k + 2) mod 16"
    using mod_add_self2 [of "k + 13" 16] mod_add_self2 [of "k + 8" 16] mod_add_self2 [of "k + 2" 16]
    by (simp_all only: add.assoc) simp_all
  ultimately show "(t + 13) mod 16 = (t - 3) mod 16" "(t + 8) mod 16 = (t - 8) mod 16"
    "(t + 2) mod 16 = (t - 14) mod 16" "t mod 16 = (t - 16) mod 16"
    by (simp_all add: add.commute)
qed

lemma mod16_inj:
  fixes j t :: nat
  assumes "t mod 16 = j mod 16" and "j < t" and "t < j + 16"
  shows False
proof -
  have "16 dvd t - j" using assms mod_eq_dvd_iff_nat [of j t 16] by simp
  then have "16 \<le> t - j" using assms(2) by (intro dvd_imp_le) simp_all
  with assms(3) show False by simp
qed

lemma blk_fips:
  assumes inv: "sched_inv m t l" and t: "16 \<le> t"
  shows "blk t l ! (t mod 16) = fips_w m t" "sched_inv m (Suc t) (blk t l)"
proof -
  have l: "length l = 16" and w: "\<And>j. j < t \<Longrightarrow> t \<le> j + 16 \<Longrightarrow> l ! (j mod 16) = fips_w m j"
    using inv by (auto simp: sched_inv_def)
  have "blk t l = l[t mod 16 := fips_w m t]"
    unfolding blk_def mod16_back(1-3) [OF t]
    using t w [of "t - 3"] w [of "t - 8"] w [of "t - 14"] w [of "t - 16"] mod16_back(4) [OF t]
    by (simp add: fips_w.simps [of m t])
  note upd = this
  then show "blk t l ! (t mod 16) = fips_w m t" using l by simp
  have "l[t mod 16 := fips_w m t] ! (j mod 16) = fips_w m j" if "j < Suc t" "Suc t \<le> j + 16" for j
  proof (cases "j = t")
    case False
    then have "j < t" "t < j + 16" using that by simp_all
    moreover from this have "t mod 16 \<noteq> j mod 16" using mod16_inj by blast
    ultimately show ?thesis using w by simp
  qed (use l in simp)
  then show "sched_inv m (Suc t) (blk t l)" using l by (simp add: sched_inv_def upd)
qed

lemma rounds_fips:
  assumes step: "\<And>t s l. lo \<le> t \<Longrightarrow> t < hi \<Longrightarrow> sched_inv m t l \<Longrightarrow>
      R t (s, l) = (fips_round m t s, blk t l)"
    and lo: "16 \<le> lo" "lo \<le> hi" and inv: "sched_inv m lo l"
  obtains l' where "fold R [lo..<hi] (s, l) = (fold (fips_round m) [lo..<hi] s, l')" "sched_inv m hi l'"
proof -
  have "\<exists>l'. fold R [lo..<k] (s, l) = (fold (fips_round m) [lo..<k] s, l') \<and> sched_inv m k l'"
    if "lo \<le> k" "k \<le> hi" for k
    using that
  proof (induction k rule: dec_induct)
    case base
    then show ?case using inv by auto
  next
    case (step n)
    then obtain l' where l': "fold R [lo..<n] (s, l) = (fold (fips_round m) [lo..<n] s, l')" "sched_inv m n l'"
      by auto
    with step assms(1) [of n l'] blk_fips(2) [OF l'(2)] lo show ?case by auto
  qed
  with lo that show thesis by blast
qed

lemma round_step:
  assumes "sched_inv m t l" and "16 \<le> t"
  shows "t < 20 \<Longrightarrow> R1 t (s, l) = (fips_round m t s, blk t l)"
    and "20 \<le> t \<Longrightarrow> t < 40 \<Longrightarrow> R2 t (s, l) = (fips_round m t s, blk t l)"
    and "40 \<le> t \<Longrightarrow> t < 60 \<Longrightarrow> R3 t (s, l) = (fips_round m t s, blk t l)"
    and "60 \<le> t \<Longrightarrow> R4 t (s, l) = (fips_round m t s, blk t l)"
  using blk_fips(1) [OF assms] assms(2)
  by (cases s; simp add: R1_def R2_def R3_def R4_def Let_def fips_round_def fips_f_def fips_k_def
      round_functions round_sum)+

lemma fold_upt_join: "lo \<le> mid \<Longrightarrow> mid \<le> hi \<Longrightarrow> fold f [mid..<hi] (fold f [lo..<mid] s) = fold f [lo..<hi] s"
  using upt_add_eq_append [of lo mid "hi - mid"] by simp

lemma sha1_transform_fips: "sha1_transform st bs = fips_compress st bs"
proof -
  let ?m = "block_words be_word bs"
  let ?f = "fold (fips_round ?m)"
  have p0: "fold R0 [0..<16] (st, block_words le_word bs) = (?f [0..<16] st, ?m)"
    using R0_phase [of 16 st bs] by simp
  have i16: "sched_inv ?m 16 ?m" by (simp add: sched_inv_def fips_w.simps)
  obtain l1 where p1: "fold R1 [16..<20] (?f [0..<16] st, ?m) = (?f [16..<20] (?f [0..<16] st), l1)"
    "sched_inv ?m 20 l1"
    by (rule rounds_fips [of 16 20 ?m R1, OF round_step(1) _ _ i16]) auto
  obtain l2 where p2: "fold R2 [20..<40] (?f [0..<20] st, l1) = (?f [20..<40] (?f [0..<20] st), l2)"
    "sched_inv ?m 40 l2"
    by (rule rounds_fips [of 20 40 ?m R2, OF round_step(2) _ _ p1(2)]) auto
  obtain l3 where p3: "fold R3 [40..<60] (?f [0..<40] st, l2) = (?f [40..<60] (?f [0..<40] st), l3)"
    "sched_inv ?m 60 l3"
    by (rule rounds_fips [of 40 60 ?m R3, OF round_step(3) _ _ p2(2)]) auto
  obtain l4 where p4: "fold R4 [60..<80] (?f [0..<60] st, l3) = (?f [60..<80] (?f [0..<60] st), l4)"
    by (rule rounds_fips [of 60 80 ?m R4, OF round_step(4) _ _ p3(2)]) auto
  have j: "?f [16..<20] (?f [0..<16] st) = ?f [0..<20] st"
    "?f [20..<40] (?f [0..<20] st) = ?f [0..<40] st"
    "?f [40..<60] (?f [0..<40] st) = ?f [0..<60] st"
    "?f [60..<80] (?f [0..<60] st) = ?f [0..<80] st"
    by (rule fold_upt_join; simp)+
  have "fold R4 [60..<80] (fold R3 [40..<60] (fold R2 [20..<40] (fold R1 [16..<20]
      (fold R0 [0..<16] (st, block_words le_word bs))))) = (?f [0..<80] st, l4)"
    by (simp only: p0 p1(1) p2(1) p3(1) p4 j)
  then show ?thesis
    by (simp only: sha1_transform_def fips_compress_def Let_def case_prod_unfold fst_conv)
qed

section \<open>Blocks and tails of a message\<close>

definition tail64 :: "byte list \<Rightarrow> byte list" where
  "tail64 msg = drop (64 * (length msg div 64)) msg"

lemma length_tail64: "length (tail64 msg) = length msg mod 64"
  by (simp add: tail64_def minus_mult_div_eq_mod)

lemma tail64_short: "length msg < 64 \<Longrightarrow> tail64 msg = msg"
  by (simp add: tail64_def)

lemma tail64_block: "length b = 64 \<Longrightarrow> tail64 (b @ msg) = tail64 msg"
  by (simp add: tail64_def div_add_self1)

lemma fips_blocks_short: "length msg < 64 \<Longrightarrow> fips_blocks st msg = st"
  by (subst fips_blocks.simps) simp

lemma fips_blocks_block: "length b = 64 \<Longrightarrow> fips_blocks st (b @ msg) = fips_blocks (fips_compress st b) msg"
  by (subst fips_blocks.simps) simp

lemma block_split:
  assumes "\<not> length msg < 64"
  obtains b m where "msg = b @ m" "length b = (64 :: nat)"
  using that [of "take 64 msg" "drop 64 msg"] assms by simp

lemma tail64_append: "tail64 (msg @ data) = tail64 (tail64 msg @ data)"
proof (induction msg rule: length_induct)
  case (1 msg)
  show ?case
  proof (cases "length msg < 64")
    case False
    then obtain b m where m: "msg = b @ m" "length b = 64" by (rule block_split)
    then have "tail64 (m @ data) = tail64 (tail64 m @ data)" using 1 by simp
    with m show ?thesis by (simp add: tail64_block)
  qed (simp add: tail64_short)
qed

lemma fips_blocks_append:
  "fips_blocks st (msg @ data) = fips_blocks (fips_blocks st msg) (tail64 msg @ data)"
proof (induction "length msg" arbitrary: msg st rule: less_induct)
  case less
  show ?case
  proof (cases "length msg < 64")
    case False
    then obtain b m where m: "msg = b @ m" "length b = 64" by (rule block_split)
    then have "fips_blocks s (m @ data) = fips_blocks (fips_blocks s m) (tail64 m @ data)" for s
      by (intro less) simp
    with m show ?thesis by (simp add: tail64_block fips_blocks_block)
  qed (simp add: tail64_short fips_blocks_short)
qed

lemma update_blocks_spec:
  "i \<le> length data \<Longrightarrow> update_blocks data (length data) i st =
     Done (i + 64 * ((length data - i) div 64), fips_blocks st (drop i data))"
proof (induction "length data - i" arbitrary: i st rule: less_induct)
  case less
  show ?case
  proof (cases "i + 63 < length data")
    case True
    let ?b = "take 64 (drop i data)"
    have split: "drop i data = ?b @ drop (i + 64) data"
      by (metis append_take_drop_id drop_drop add.commute)
    have "update_blocks data (length data) (i + 64) (fips_compress st ?b) =
        Done (i + 64 + 64 * ((length data - (i + 64)) div 64),
          fips_blocks (fips_compress st ?b) (drop (i + 64) data))"
      by (rule less) (use True in simp_all)
    moreover have "(length data - i) div 64 = Suc ((length data - (i + 64)) div 64)"
      using True by (subst div_if) simp
    moreover have "fips_blocks st (drop i data) = fips_blocks (fips_compress st ?b) (drop (i + 64) data)"
      by (subst split, rule fips_blocks_block) (use True in simp)
    ultimately show ?thesis
      using True by (subst update_blocks.simps) (simp add: mem_read_def sha1_transform_fips)
  next
    case False
    then show ?thesis
      by (subst update_blocks.simps) (simp add: fips_blocks_short)
  qed
qed

section \<open>The context represents the message read so far\<close>

definition sha_rep :: "sha1_context \<Rightarrow> byte list \<Rightarrow> bool" where
  "sha_rep ctx msg \<longleftrightarrow>
     length (sha_buffer ctx) = 64 \<and>
     sha_count0 ctx = of_nat (8 * length msg) \<and>
     sha_count1 ctx = of_nat (8 * length msg div 2 ^ 32) \<and>
     sha_state ctx = fips_blocks sha_init_state msg \<and>
     take (length msg mod 64) (sha_buffer ctx) = tail64 msg"

lemma sha1_init_rep: "length (sha_buffer ctx) = 64 \<Longrightarrow> sha_rep (sha1_init ctx) []"
  by (simp add: sha_rep_def sha1_init_def fips_blocks_short tail64_def)

lemma slot_rep: "count_slot (of_nat (8 * n)) = n mod 64"
proof -
  have "unat (of_nat (8 * n) :: u32) = 8 * (n mod 536870912)"
    by (simp only: unat_of_nat) (simp add: take_bit_eq_mod mult_mod_right)
  moreover have "n mod 536870912 mod 64 = n mod 64"
    by (rule mod_mod_cancel) (rule dvdI [of _ _ 8388608], simp)
  ultimately show ?thesis by (simp add: count_slot_def)
qed

lemma carry_sum:
  fixes x y M :: nat
  assumes "x < M" and "y < M"
  shows "(x + y) div M = (if (x + y) mod M < x then 1 else 0)"
proof (cases "x + y < M")
  case False
  then have "(x + y) div M = 1" "(x + y) mod M = x + y - M"
    using assms by (auto intro!: div_nat_eqI simp: le_mod_geq)
  with False assms show ?thesis by simp
qed simp

lemma carry:
  fixes A B M :: nat
  assumes "0 < M"
  shows "(A + B) div M = (if (A + B) mod M < A mod M then A div M + 1 else A div M) + B div M"
proof -
  have s: "(A + B) div M = A div M + B div M + (A mod M + B mod M) div M"
    by (rule div_add1_eq)
  have c: "(A mod M + B mod M) div M = (if (A + B) mod M < A mod M then 1 else 0)"
    using carry_sum [of "A mod M" M "B mod M"] assms by (simp only: mod_add_eq mod_less_divisor)
  show ?thesis by (simp only: s c split: if_split) simp
qed

lemma count_update:
  fixes m n :: nat
  assumes "n < 2 ^ 32"
  defines "c0 \<equiv> of_nat (8 * m) :: u32" and "len \<equiv> of_nat n :: u32"
  shows "c0 + push_bit 3 len = of_nat (8 * (m + n))"
    and "(if c0 + push_bit 3 len < c0 then of_nat (8 * m div 2 ^ 32) + 1 else of_nat (8 * m div 2 ^ 32)) +
        drop_bit 29 len = (of_nat (8 * (m + n) div 2 ^ 32) :: u32)"
proof -
  show c0: "c0 + push_bit 3 len = of_nat (8 * (m + n))"
    by (simp add: c0_def len_def push_bit_eq_mult algebra_simps)
  have "unat (of_nat (8 * (m + n)) :: u32) = (8 * m + 8 * n) mod 2 ^ 32"
    by (simp only: unat_of_nat) (simp add: take_bit_eq_mod distrib_left)
  moreover have "unat c0 = (8 * m) mod 2 ^ 32"
    by (simp only: c0_def unat_of_nat) (simp add: take_bit_eq_mod)
  ultimately have less: "c0 + push_bit 3 len < c0 \<longleftrightarrow> (8 * m + 8 * n) mod 2 ^ 32 < (8 * m) mod 2 ^ 32"
    unfolding c0 by (simp add: word_less_nat_alt)
  have "drop_bit 29 len = of_nat (8 * n div 2 ^ 32)"
  proof -
    have "unat len = n" unfolding len_def by (rule unat_of_nat_u32 [OF assms(1)])
    then have "unat (drop_bit 29 len) = n div 2 ^ 29"
      using assms(1) by (simp only: unsigned_drop_bit_eq) (simp add: drop_bit_eq_div take_bit_nat_eq_self)
    moreover have "unat (of_nat (8 * n div 2 ^ 32) :: u32) = 8 * n div 2 ^ 32"
      by (rule unat_of_nat_u32) (use assms(1) in simp)
    moreover have "8 * n div 2 ^ 32 = n div 2 ^ 29" by simp
    ultimately show ?thesis by (simp only: word_unat_eq_iff)
  qed
  then show "(if c0 + push_bit 3 len < c0 then of_nat (8 * m div 2 ^ 32) + 1 else of_nat (8 * m div 2 ^ 32)) +
        drop_bit 29 len = (of_nat (8 * (m + n) div 2 ^ 32) :: u32)"
    using carry [of "2 ^ 32" "8 * m" "8 * n"] less by (simp add: distrib_left)
qed


lemma sha1_update_rep:
  assumes rep: "sha_rep ctx msg" and n: "length data < 2 ^ 31"
  obtains ctx' where "sha1_update data (int (length data)) ctx = Done ctx'" "sha_rep ctx' (msg @ data)"
proof -
  let ?n = "length data" and ?j = "length msg mod 64"
  let ?len = "word_of_int (int (length data)) :: u32"
  have len: "?len = of_nat ?n" by simp
  have ulen: "unat ?len = ?n" unfolding len by (rule unat_of_nat_u32) (use n in simp)
  have buf: "length (sha_buffer ctx) = 64" and st: "sha_state ctx = fips_blocks sha_init_state msg"
    and tl: "take ?j (sha_buffer ctx) = tail64 msg"
    and c0: "sha_count0 ctx = of_nat (8 * length msg)"
    and c1: "sha_count1 ctx = of_nat (8 * length msg div 2 ^ 32)"
    using rep by (simp_all add: sha_rep_def)
  let ?c0 = "sha_count0 ctx + push_bit 3 ?len"
  let ?c1 = "(if ?c0 < sha_count0 ctx then sha_count1 ctx + 1 else sha_count1 ctx) + drop_bit 29 ?len"
  let ?ctx1 = "ctx\<lparr>sha_count0 := ?c0, sha_count1 := ?c1\<rparr>"
  have cnt: "?c0 = of_nat (8 * length (msg @ data))" "?c1 = of_nat (8 * length (msg @ data) div 2 ^ 32)"
    unfolding c0 c1 len using count_update [of ?n "length msg"] n by simp_all
  let ?jw = "drop_bit 3 (sha_count0 ctx) AND 63"
  have uj: "unat ?jw = ?j" by (simp only: unat_slot c0 slot_rep)
  have j64: "?j < 64" by simp
  have "unat (?jw + ?len) = ?j + ?n"
    using unat_add_small [of ?jw ?len] uj ulen n j64 by simp
  then have cond: "?jw + ?len > 63 \<longleftrightarrow> 63 < ?j + ?n" by (simp add: word_less_nat_alt)
  have tlen: "length (tail64 msg) = ?j" by (rule length_tail64)
  show thesis
  proof (cases "63 < ?j + ?n")
    case False
    let ?buf = "take ?j (sha_buffer ctx) @ data @ drop (?j + ?n) (sha_buffer ctx)"
    let ?ctx = "?ctx1\<lparr>sha_buffer := ?buf\<rparr>"
    have "sha1_update data (int ?n) ctx = Done ?ctx"
      using False cond uj ulen buf
      by (simp add: sha1_update_def Let_def mem_read_def mem_write_def del: of_nat_unat)
    moreover have "sha_rep ?ctx (msg @ data)"
    proof -
      have "length (tail64 msg @ data) < 64" using False tlen by simp
      then have "tail64 (msg @ data) = tail64 msg @ data"
        and "fips_blocks sha_init_state (msg @ data) = fips_blocks sha_init_state msg"
        by (simp_all add: tail64_append [of msg] tail64_short fips_blocks_append [of _ msg] fips_blocks_short)
      moreover have "(length msg + ?n) mod 64 = ?j + ?n"
        using False mod_add_left_eq [of "length msg" 64 ?n] by simp
      ultimately show ?thesis
        using False cnt buf st tl tlen by (simp add: sha_rep_def)
    qed
    ultimately show thesis by (rule that)
  next
    case True
    define i where "i = 64 - ?j"
    define blk where "blk = tail64 msg @ take i data"
    define i' where "i' = i + 64 * ((?n - i) div 64)"
    define st' where "st' = fips_blocks (fips_compress (sha_state ctx) blk) (drop i data)"
    define rest where "rest = drop i' data"
    let ?ctx = "?ctx1\<lparr>sha_buffer := rest @ drop (length rest) blk, sha_state := st'\<rparr>"
    have i: "i \<le> ?n" "?j + i = 64" using True j64 by (simp_all add: i_def)
    have blk: "length blk = 64" using i tlen by (simp add: blk_def)
    have w: "mem_write (sha_buffer ctx) ?j (take i data) = Done blk"
      using buf i tl by (simp add: mem_write_def blk_def)
    have r: "mem_read data 0 i = Done (take i data)" using i by (simp add: mem_read_def)
    have u: "update_blocks data (unat ?len) i (sha1_transform (sha_state ctx) blk) = Done (i', st')"
      unfolding ulen sha1_transform_fips i'_def st'_def by (rule update_blocks_spec [OF i(1)])
    have rest: "rest = tail64 (drop i data)"
      unfolding rest_def i'_def tail64_def drop_drop length_drop by (simp only: add.commute)
    have lrest: "length rest = (?n - i) mod 64" unfolding rest length_tail64 length_drop ..
    then have l64: "length rest < 64" by simp
    have "i' \<le> i + (?n - i)" unfolding i'_def by (rule add_left_mono) (rule times_div_less_eq_dividend)
    then have i': "i' \<le> ?n" using i(1) by simp
    then have r2: "mem_read data i' (?n - i') = Done rest"
      by (simp add: mem_read_def rest_def)
    have w2: "mem_write blk 0 rest = Done (rest @ drop (length rest) blk)"
      using blk l64 by (simp add: mem_write_def)
    have "sha1_update data (int ?n) ctx = Done ?ctx"
      unfolding sha1_update_def Let_def
      using True cond ulen w r u r2 w2 by (simp add: uj i_def [symmetric])
    moreover have "sha_rep ?ctx (msg @ data)"
    proof -
      have split: "tail64 msg @ data = blk @ drop i data" by (simp add: blk_def)
      have t: "tail64 (msg @ data) = rest"
        unfolding tail64_append [of msg] split tail64_block [OF blk] rest ..
      moreover have "fips_blocks sha_init_state (msg @ data) = st'"
        unfolding fips_blocks_append [of _ msg] split fips_blocks_block [OF blk] st st'_def ..
      moreover have "length (msg @ data) mod 64 = length rest"
        using length_tail64 [of "msg @ data"] t by simp
      ultimately show ?thesis
        using cnt blk l64 by (simp add: sha_rep_def)
    qed
    ultimately show thesis by (rule that)
  qed
qed

section \<open>Padding\<close>

definition pad_count :: "nat \<Rightarrow> nat" where
  "pad_count n = (120 - n mod 64) mod 64"

lemma pad_count_Suc: "n mod 64 \<noteq> 56 \<Longrightarrow> pad_count n = Suc (pad_count (Suc n))"
proof -
  have "list_all (\<lambda>q. q \<noteq> 56 \<longrightarrow> (120 - q) mod 64 = Suc ((120 - Suc q mod 64) mod 64)) [0..<64]"
    by code_simp
  then have "n mod 64 \<noteq> 56 \<longrightarrow>
      (120 - n mod 64) mod 64 = Suc ((120 - Suc (n mod 64) mod 64) mod 64)"
    by (rule all_less_list [rotated]) simp
  then show "n mod 64 \<noteq> 56 \<Longrightarrow> pad_count n = Suc (pad_count (Suc n))"
    unfolding pad_count_def by (simp add: mod_Suc_eq)
qed

lemma count_is_448: "sha_rep ctx msg \<Longrightarrow> sha_count0 ctx AND 504 = 448 \<longleftrightarrow> length msg mod 64 = 56"
proof -
  assume "sha_rep ctx msg"
  then have c: "unat (drop_bit 3 (sha_count0 ctx) AND 63) = length msg mod 64"
    by (simp only: unat_slot sha_rep_def slot_rep)
  have inj: "push_bit 3 a = push_bit 3 b \<Longrightarrow> a AND 63 = a \<Longrightarrow> b AND 63 = b \<Longrightarrow> a = b" for a b :: u32
  proof -
    assume p: "push_bit 3 a = push_bit 3 b" and a: "a AND 63 = a" and b: "b AND 63 = b"
    have "drop_bit 3 (push_bit 3 (c AND 63)) = c AND 63" for c :: u32
    proof (rule bit_word_eqI)
      fix n assume "n < LENGTH(32)"
      then have "n < 32" by simp
      then show "bit (drop_bit 3 (push_bit 3 (c AND 63))) n \<longleftrightarrow> bit (c AND 63) n"
        by (rule all_less_list) (simp add: upt_words bit_simps)
    qed
    with p a b show "a = b" by metis
  qed
  have "sha_count0 ctx AND 504 = 448 \<longleftrightarrow> drop_bit 3 (sha_count0 ctx) AND 63 = 56"
  proof
    assume "sha_count0 ctx AND 504 = 448"
    then have "push_bit 3 (drop_bit 3 (sha_count0 ctx) AND 63) = push_bit 3 56"
      by (simp only: count_and_504 [symmetric]) simp
    then show "drop_bit 3 (sha_count0 ctx) AND 63 = 56"
      by (rule inj) (simp_all add: and.assoc)
  qed (simp add: count_and_504)
  then show ?thesis using c word_unat_eq_iff [of "drop_bit 3 (sha_count0 ctx) AND 63" 56] by simp
qed

lemma pad_zeros_rep:
  assumes "sha_rep ctx msg"
  shows "\<exists>ctx'. pad_zeros ctx = Done ctx' \<and> sha_rep ctx' (msg @ replicate (pad_count (length msg)) 0)"
  using assms
proof (induction "pad_count (length msg)" arbitrary: ctx msg)
  case 0
  then have "length msg mod 64 = 56" using pad_count_Suc [of "length msg"] by auto
  with 0 count_is_448 [OF 0(2)] show ?case
    by (intro exI [of _ ctx]) (subst pad_zeros.simps, simp)
next
  case (Suc k)
  have "length msg mod 64 \<noteq> 56" using Suc(2) by (auto simp: pad_count_def)
  then have k: "pad_count (length msg) = Suc (pad_count (length (msg @ [0])))"
    and ne: "sha_count0 ctx AND 504 \<noteq> 448"
    using pad_count_Suc [of "length msg"] count_is_448 [OF Suc(3)] by simp_all
  obtain ctx1 where c1: "sha1_update [0] 1 ctx = Done ctx1" "sha_rep ctx1 (msg @ [0])"
    using sha1_update_rep [OF Suc(3), of "[0]"] by auto
  from Suc(1) [OF _ c1(2)] Suc(2) k obtain ctx' where
    "pad_zeros ctx1 = Done ctx'" "sha_rep ctx' ((msg @ [0]) @ replicate (pad_count (length (msg @ [0]))) 0)"
    by auto
  with ne c1 k show ?case by (subst pad_zeros.simps) simp
qed

lemma count_byte:
  assumes "k \<le> 24"
  shows "(ucast (drop_bit k (of_nat a :: u32) AND 255) :: byte) = of_nat (drop_bit k a)"
proof (rule bit_word_eqI)
  fix n assume "n < LENGTH(8)"
  then have "n < 8" by simp
  moreover have "bit (255 :: u32) m" if "m < 8" for m
    using that by (rule all_less_list) (simp add: upt_8)
  ultimately show "bit (ucast (drop_bit k (of_nat a :: u32) AND 255) :: byte) n \<longleftrightarrow>
      bit (of_nat (drop_bit k a) :: byte) n"
    using assms by (simp add: bit_simps)
qed

lemma final_count_be64:
  assumes "sha_rep ctx msg"
  shows "final_count ctx = be64 (8 * length msg)"
proof -
  obtain a where a: "a = 8 * length msg" by simp
  have c: "sha_count0 ctx = of_nat a" "sha_count1 ctx = of_nat (drop_bit 32 a)"
    using assms by (simp_all only: sha_rep_def a drop_bit_eq_div)
  have "ucast (drop_bit ((3 - i mod 4) * 8)
      (if i \<ge> 4 then sha_count0 ctx else sha_count1 ctx) AND 255) = (of_nat (a div 2 ^ (8 * (7 - i))) :: byte)"
    if "i < 8" for i
  proof (cases "4 \<le> i")
    case True
    then have "i mod 4 = i - 4" using that by (simp add: le_mod_geq)
    then have "(3 - i mod 4) * 8 = 8 * (7 - i)" "8 * (7 - i) \<le> 24" using True by simp_all
    then show ?thesis using True by (simp only: c if_True count_byte drop_bit_eq_div [of _ a])
  next
    case False
    then have "32 + (3 - i mod 4) * 8 = 8 * (7 - i)" "(3 - i mod 4) * 8 \<le> 24" by simp_all
    then show ?thesis
      using False by (simp only: c if_False count_byte drop_bit_drop_bit add.commute) (simp only: drop_bit_eq_div)
  qed
  then show ?thesis unfolding final_count_def be64_def a by simp
qed

lemma sha1_final_rep:
  assumes rep: "sha_rep ctx msg"
  shows "sha1_final ctx = Done (state_digest (fips_blocks sha_init_state (msg @ fips_pad (length msg))))"
proof -
  obtain ctx1 where c1: "sha1_update [0x80] 1 ctx = Done ctx1" "sha_rep ctx1 (msg @ [0x80])"
    using sha1_update_rep [OF rep, of "[0x80]"] by auto
  obtain ctx2 where c2: "pad_zeros ctx1 = Done ctx2"
    "sha_rep ctx2 ((msg @ [0x80]) @ replicate (pad_count (length (msg @ [0x80]))) 0)"
    using pad_zeros_rep [OF c1(2)] by blast
  let ?fc = "be64 (8 * length msg)"
  have "length ?fc = 8" by (simp add: be64_def)
  then obtain ctx3 where c3: "sha1_update ?fc 8 ctx2 = Done ctx3"
    "sha_rep ctx3 (((msg @ [0x80]) @ replicate (pad_count (length (msg @ [0x80]))) 0) @ ?fc)"
    using sha1_update_rep [OF c2(2), of ?fc] by auto
  have "pad_count (length (msg @ [0x80])) = (119 - length msg mod 64) mod 64"
  proof -
    have "list_all (\<lambda>q. (120 - Suc q mod 64) mod 64 = (119 - q) mod 64) [0..<64]" by code_simp
    then have "(120 - Suc (length msg mod 64) mod 64) mod 64 = (119 - length msg mod 64) mod 64"
      by (rule all_less_list [rotated]) simp
    then show ?thesis by (simp add: pad_count_def mod_Suc_eq)
  qed
  then have "((msg @ [0x80]) @ replicate (pad_count (length (msg @ [0x80]))) 0) @ ?fc =
      msg @ fips_pad (length msg)"
    by (simp add: fips_pad_def)
  with c3(2) have "sha_state ctx3 = fips_blocks sha_init_state (msg @ fips_pad (length msg))"
    by (simp only: sha_rep_def)
  then show ?thesis
    using c1(1) c2(1) c3(1) final_count_be64 [OF rep] by (simp add: sha1_final_def Let_def)
qed

lemma sha1_bytes_rep:
  assumes "sha_rep ctx msg" and "i + k \<le> length data"
  shows "\<exists>ctx'. sha1_bytes data i k ctx = Done ctx' \<and> sha_rep ctx' (msg @ take k (drop i data))"
  using assms
proof (induction k arbitrary: i ctx msg)
  case (Suc k)
  let ?b = "take 1 (drop i data)"
  have b: "length ?b = 1" using Suc.prems by simp
  obtain ctx1 where c1: "sha1_update ?b 1 ctx = Done ctx1" "sha_rep ctx1 (msg @ ?b)"
    using sha1_update_rep [OF Suc.prems(1), of ?b] b by auto
  have "mem_read data i 1 = Done ?b" using Suc.prems by (simp add: mem_read_def)
  moreover have "take (Suc k) (drop i data) = ?b @ take k (drop (Suc i) data)"
    using take_add [of 1 k "drop i data"] by simp
  ultimately show ?case
    using Suc.IH [OF c1(2), of "i + 1"] Suc.prems c1(1) by simp
qed simp

section \<open>What the hash promises\<close>

text \<open>
  The transform, with its circular schedule of sixteen words and its combined round
  macros, is the block function of FIPS 180 with its schedule of eighty words.
\<close>

theorem sha1_transform_is_fips: "sha1_transform st block = fips_compress st block"
  by (rule sha1_transform_fips)

text \<open>
  Feeding a message in any pieces is feeding it at once: a context that represents
  what was read so far represents, after an update with any data shorter than \<open>2 ^ 31\<close>
  bytes, the message extended by the data; no access leaves the buffers.
\<close>

theorem sha1_update_streams:
  assumes "sha_rep ctx msg" and "length data < 2 ^ 31"
  shows "\<exists>ctx'. sha1_update data (int (length data)) ctx = Done ctx' \<and> sha_rep ctx' (msg @ data)"
  using sha1_update_rep [OF assms] by blast

theorem sha1_update_streams_witness:
  "\<exists>ctx'. sha1_update (B ''abc'') (int (length (B ''abc'')))
      (sha1_init \<lparr>sha_state = (0, 0, 0, 0, 0), sha_count0 = 7, sha_count1 = 7,
        sha_buffer = replicate 64 0\<rparr>) = Done ctx' \<and> sha_rep ctx' ([] @ B ''abc'')"
  by (rule sha1_update_streams [OF sha1_init_rep]) simp_all

text \<open>
  C40. \<open>sha1\<close> returns the FIPS 180 digest of its input, from an uninitialised context, for
  every size an \<open>int32_t\<close> can hold; in particular the padding loop ends.
\<close>

theorem sha1_computes_fips:
  assumes "length (sha_buffer ctx) = 64" and "length data < 2 ^ 31"
  shows "sha1 ctx data (int (length data)) = Done (fips_sha1 data)"
proof -
  have "unat (word_of_int (int (length data)) :: u32) = length data"
    using unat_of_nat_u32 [of "length data"] assms(2) by simp
  then show ?thesis
    using sha1_bytes_rep [OF sha1_init_rep [OF assms(1)], of 0 "length data" data]
      sha1_final_rep by (auto simp: sha1_def fips_sha1_def)
qed

theorem sha1_computes_fips_witness:
  "sha1 \<lparr>sha_state = (0, 0, 0, 0, 0), sha_count0 = 7, sha_count1 = 7, sha_buffer = replicate 64 0\<rparr>
     (B ''abc'') (int (length (B ''abc''))) = Done (fips_sha1 (B ''abc''))"
  by (rule sha1_computes_fips) simp_all

end
