(* ===== verification/Sort.thy ===== *)
theory Sort
  imports Prelude "HOL-Library.Multiset"
begin

text \<open>
  The sorting templates of include/pump/toolkit/sort.h on an array of ordered items. Indices
  are natural numbers; the index in front of the array that \<open>insert_sort\<close> may form is a
  \<open>Fault\<close>. A \<open>for\<close> loop is a recursion on the list of its indices, the other loops and the
  recursive functions come with their termination proofs.
\<close>

section \<open>Arrays and loops\<close>

definition arr_swap :: "'a list \<Rightarrow> nat \<Rightarrow> nat \<Rightarrow> 'a list run" where
  "arr_swap a i j =
     run_bind (mem_get a i) (\<lambda>x. run_bind (mem_get a j) (\<lambda>y.
       run_bind (mem_set a i y) (\<lambda>a1. mem_set a1 j x)))"

fun for_loop :: "(nat \<Rightarrow> 's \<Rightarrow> 's run) \<Rightarrow> nat list \<Rightarrow> 's \<Rightarrow> 's run" where
  "for_loop body [] s = Done s"
| "for_loop body (i # is) s = run_bind (body i s) (for_loop body is)"

section \<open>The sorts\<close>

definition bubble_step :: "nat \<Rightarrow> nat \<Rightarrow> 'a :: linorder list \<Rightarrow> 'a list run" where
  "bubble_step i j a =
     run_bind (mem_get a i) (\<lambda>x. run_bind (mem_get a j) (\<lambda>y. if x > y then arr_swap a i j else Done a))"

definition bubble_sort :: "'a :: linorder list \<Rightarrow> nat \<Rightarrow> nat \<Rightarrow> 'a list run" where
  "bubble_sort a left right = for_loop (\<lambda>i. for_loop (bubble_step i) [i + 1..<right]) [left..<right] a"

definition select_min :: "'a :: linorder list \<Rightarrow> nat \<Rightarrow> nat \<Rightarrow> nat run" where
  "select_min a i right =
     for_loop (\<lambda>j min_pos. run_bind (mem_get a j) (\<lambda>x. run_bind (mem_get a min_pos) (\<lambda>y.
       Done (if x < y then j else min_pos)))) [i + 1..<right] i"

definition select_sort :: "'a :: linorder list \<Rightarrow> nat \<Rightarrow> nat \<Rightarrow> 'a list run" where
  "select_sort a left right =
     for_loop (\<lambda>i a. run_bind (select_min a i right) (\<lambda>min_pos.
       if i \<noteq> min_pos then arr_swap a i min_pos else Done a)) [left..<right] a"

function insert_shift :: "'a :: linorder \<Rightarrow> nat \<Rightarrow> nat \<Rightarrow> 'a list \<Rightarrow> (nat \<times> 'a list) run" where
  "insert_shift tem left j a =
     (if j \<ge> left then
        (if j = 0 then Fault
         else
           run_bind (mem_get a (j - 1)) (\<lambda>x.
             if tem < x then run_bind (mem_set a j x) (insert_shift tem left (j - 1)) else Done (j, a)))
      else Done (j, a))"
  by pat_completeness auto
termination by (relation "measure (\<lambda>(tem, left, j, a). j)") auto

declare insert_shift.simps [simp del]

definition insert_step :: "nat \<Rightarrow> nat \<Rightarrow> 'a :: linorder list \<Rightarrow> 'a list run" where
  "insert_step left i a =
     run_bind (mem_get a i) (\<lambda>tem. run_bind (insert_shift tem left i a) (\<lambda>(j, a1). mem_set a1 j tem))"

definition insert_sort :: "'a :: linorder list \<Rightarrow> nat \<Rightarrow> nat \<Rightarrow> 'a list run" where
  "insert_sort a left right = for_loop (insert_step left) [left + 1..<right] a"

function scan_down :: "'a :: linorder \<Rightarrow> nat \<Rightarrow> nat \<Rightarrow> 'a list \<Rightarrow> nat run" where
  "scan_down pivot i j a =
     run_bind (mem_get a j) (\<lambda>x. if x \<ge> pivot \<and> j > i then scan_down pivot i (j - 1) a else Done j)"
  by pat_completeness auto
termination by (relation "measure (\<lambda>(pivot, i, j, a). j)") auto

function scan_up :: "'a :: linorder \<Rightarrow> nat \<Rightarrow> nat \<Rightarrow> 'a list \<Rightarrow> nat run" where
  "scan_up pivot i j a =
     run_bind (mem_get a i) (\<lambda>x. if x \<le> pivot \<and> i < j then scan_up pivot (i + 1) j a else Done i)"
  by pat_completeness auto
termination by (relation "measure (\<lambda>(pivot, i, j, a). j - i)") auto

declare scan_down.simps [simp del] scan_up.simps [simp del]

lemma scan_down_range: "scan_down pivot i j a = Done j' \<Longrightarrow> i \<le> j \<Longrightarrow> i \<le> j' \<and> j' \<le> j"
proof (induction pivot i j a rule: scan_down.induct)
  case (1 pivot i j a)
  then show ?case
    by (cases "mem_get a j") (simp_all add: scan_down.simps [of pivot i j] split: if_splits, linarith+)
qed

lemma scan_up_range: "scan_up pivot i j a = Done i' \<Longrightarrow> i \<le> j \<Longrightarrow> i \<le> i' \<and> i' \<le> j"
proof (induction pivot i j a rule: scan_up.induct)
  case (1 pivot i j a)
  then show ?case by (cases "mem_get a i") (auto simp: scan_up.simps [of pivot i j] split: if_splits)
qed

text \<open>The loop of \<open>__median_pos\<close>: one round, then the rest.\<close>

definition median_round :: "'a :: linorder \<Rightarrow> nat \<Rightarrow> nat \<Rightarrow> 'a list \<Rightarrow> (nat \<times> nat \<times> 'a list) run" where
  "median_round pivot i j a =
     run_bind (scan_down pivot i j a) (\<lambda>j1.
     run_bind (if j1 > i then run_map (\<lambda>a1. (i + 1, a1)) (arr_swap a i j1) else Done (i, a)) (\<lambda>(i1, a1).
     run_bind (scan_up pivot i1 j1 a1) (\<lambda>i2.
       if i2 < j1 then run_map (\<lambda>a2. (i2, j1 - 1, a2)) (arr_swap a1 i2 j1) else Done (i2, j1, a1))))"

lemma median_round_range:
  assumes "median_round pivot i j a = Done (i2, j2, a2)" and "i < j"
  shows "i \<le> i2 \<and> i2 \<le> j2 \<and> j2 \<le> j \<and> j2 - i2 < j - i"
proof -
  obtain j1 where s1: "scan_down pivot i j a = Done j1"
    using assms(1) by (cases "scan_down pivot i j a") (simp_all add: median_round_def)
  let ?swap = "if j1 > i then run_map (\<lambda>a1. (i + 1, a1)) (arr_swap a i j1) else Done (i, a)"
  obtain i1 a1 where s3: "?swap = Done (i1, a1)"
    using assms(1) s1 by (cases ?swap) (simp_all add: median_round_def, metis prod.exhaust)
  obtain k where s2: "scan_up pivot i1 j1 a1 = Done k"
    using assms(1) s1 s3 by (cases "scan_up pivot i1 j1 a1") (simp_all add: median_round_def)
  then have s4: "(if k < j1 then run_map (\<lambda>a2. (k, j1 - 1, a2)) (arr_swap a1 k j1) else Done (k, j1, a1)) = Done (i2, j2, a2)"
    using assms(1) s1 s3 by (simp add: median_round_def)
  then have "k = i2" by (auto simp: run_map_eq_Done split: if_splits)
  note s = s1 s2 [unfolded this] s3 s4 [unfolded this]
  have i1: "i1 = (if j1 > i then i + 1 else i)" and j2: "j2 = (if i2 < j1 then j1 - 1 else j1)"
    using s(3,4) by (auto simp: run_map_eq_Done split: if_splits)
  have "i \<le> j1 \<and> j1 \<le> j" using scan_down_range [OF s(1)] assms(2) by simp
  moreover have "i1 \<le> i2 \<and> i2 \<le> j1" using scan_up_range [OF s(2)] i1 calculation by simp
  ultimately show ?thesis using i1 j2 assms(2) by (auto split: if_splits)
qed

function median_loop :: "'a :: linorder \<Rightarrow> nat \<Rightarrow> nat \<Rightarrow> 'a list \<Rightarrow> (nat \<times> 'a list) run" where
  "median_loop pivot i j a =
     (if i < j then run_bind (median_round pivot i j a) (\<lambda>(i2, j2, a2). median_loop pivot i2 j2 a2) else Done (i, a))"
  by pat_completeness auto
termination
  by (relation "measure (\<lambda>(pivot, i, j, a). j - i)") (auto dest: median_round_range)

declare median_loop.simps [simp del]

definition median_pos :: "'a :: linorder list \<Rightarrow> nat \<Rightarrow> nat \<Rightarrow> (nat \<times> 'a list) run" where
  "median_pos a left right = run_bind (mem_get a left) (\<lambda>pivot. median_loop pivot left (right - 1) a)"

lemma median_loop_range: "median_loop pivot i j a = Done (pos, a') \<Longrightarrow> i \<le> j \<Longrightarrow> i \<le> pos \<and> pos \<le> j"
proof (induction pivot i j a rule: median_loop.induct)
  case (1 pivot i j a)
  show ?case
  proof (cases "i < j")
    case True
    then obtain i2 j2 a2 where r: "median_round pivot i j a = Done (i2, j2, a2)" "median_loop pivot i2 j2 a2 = Done (pos, a')"
      using 1(2) by (subst (asm) median_loop.simps) (auto simp: run_bind_eq_Done)
    have "i \<le> i2 \<and> i2 \<le> j2 \<and> j2 \<le> j" using median_round_range [OF r(1) True] by simp
    with 1(1) [OF True r(1) refl refl r(2)] show ?thesis by simp
  next
    case False
    then show ?thesis using 1(2,3) by (subst (asm) median_loop.simps) simp
  qed
qed

function quick_sort :: "'a :: linorder list \<Rightarrow> nat \<Rightarrow> nat \<Rightarrow> 'a list run" where
  "quick_sort a left right =
     (if right - left > 10 then
        run_bind (median_pos a left right) (\<lambda>(pos, a1).
          run_bind (quick_sort a1 left pos) (\<lambda>a2. quick_sort a2 (pos + 1) right))
      else insert_sort a left right)"
  by pat_completeness auto
termination
  by (relation "measure (\<lambda>(a, left, right). right - left)")
    (auto simp: median_pos_def run_bind_eq_Done dest!: median_loop_range)

declare quick_sort.simps [simp del]

text \<open>\<open>largest\<close>: the index of the largest of a node and its children.\<close>

definition largest_child :: "'a :: linorder list \<Rightarrow> nat \<Rightarrow> nat \<Rightarrow> nat run" where
  "largest_child a s i =
     (let l = i * 2; r = i * 2 + 1 in
      run_bind (if l < s then run_bind (mem_get a l) (\<lambda>x. run_bind (mem_get a i) (\<lambda>y. Done (if x > y then l else i)))
                else Done i) (\<lambda>largest.
        if r < s then run_bind (mem_get a r) (\<lambda>x. run_bind (mem_get a largest) (\<lambda>y. Done (if x > y then r else largest)))
        else Done largest))"

lemma largest_child_range: "largest_child a s i = Done k \<Longrightarrow> k \<noteq> i \<Longrightarrow> i < k \<and> k < s"
  by (cases "i = 0") (auto simp: largest_child_def Let_def run_bind_eq_Done split: if_splits)

function max_heapify :: "'a :: linorder list \<Rightarrow> nat \<Rightarrow> nat \<Rightarrow> 'a list run" where
  "max_heapify a s i =
     run_bind (largest_child a s i) (\<lambda>largest.
       if largest \<noteq> i then run_bind (arr_swap a i largest) (\<lambda>a1. max_heapify a1 s largest) else Done a)"
  by pat_completeness auto
termination
  by (relation "measure (\<lambda>(a, s, i). s - i)") (auto dest!: largest_child_range)

declare max_heapify.simps [simp del]

definition build_max_heap :: "'a :: linorder list \<Rightarrow> nat \<Rightarrow> 'a list run" where
  "build_max_heap a s = for_loop (\<lambda>i a. max_heapify a s i) (rev [0..<s div 2 + 1]) a"

definition heap_sort :: "'a :: linorder list \<Rightarrow> nat \<Rightarrow> 'a list run" where
  "heap_sort a s =
     run_bind (build_max_heap a s) (\<lambda>a1. run_map fst
       (for_loop (\<lambda>i (a, s). run_bind (arr_swap a 0 i) (\<lambda>a1. run_map (\<lambda>a2. (a2, s - 1)) (max_heapify a1 (s - 1) 0)))
         (rev [1..<s]) (a1, s)))"

section \<open>Sorting a range in place\<close>

text \<open>\<open>range_perm\<close>: the items of the range are permuted, the others stay.\<close>

definition range_perm :: "nat \<Rightarrow> nat \<Rightarrow> 'a list \<Rightarrow> 'a list \<Rightarrow> bool" where
  "range_perm l r a a' \<longleftrightarrow>
     length a' = length a \<and> take l a' = take l a \<and> drop r a' = drop r a \<and> mset a' = mset a"

definition range_sorted :: "nat \<Rightarrow> nat \<Rightarrow> 'a :: linorder list \<Rightarrow> bool" where
  "range_sorted l r a \<longleftrightarrow> (\<forall>i j. l \<le> i \<longrightarrow> i \<le> j \<longrightarrow> j < r \<longrightarrow> a ! i \<le> a ! j)"

definition slice :: "nat \<Rightarrow> nat \<Rightarrow> 'a list \<Rightarrow> 'a list" where
  "slice l r a = drop l (take r a)"

lemma range_perm_refl [simp]: "range_perm l r a a"
  by (simp add: range_perm_def)

lemma range_perm_trans [trans]: "range_perm l r a b \<Longrightarrow> range_perm l r b c \<Longrightarrow> range_perm l r a c"
  by (simp add: range_perm_def)

lemma range_perm_length: "range_perm l r a a' \<Longrightarrow> length a' = length a"
  by (simp add: range_perm_def)

lemma range_perm_wider:
  assumes "range_perm l r a a'" and "l' \<le> l" and "r \<le> r'"
  shows "range_perm l' r' a a'"
proof -
  have "take l' a' = take l' (take l a')" "drop r' a' = drop (r' - r) (drop r a')"
    "take l' a = take l' (take l a)" "drop r' a = drop (r' - r) (drop r a)"
    using assms(2,3) by (simp_all add: min_def)
  then show ?thesis using assms(1) unfolding range_perm_def by metis
qed

lemma range_perm_outside:
  assumes "range_perm l r a a'" and "k < l \<or> r \<le> k" and "k < length a"
  shows "a' ! k = a ! k"
  using assms(2)
proof
  assume "k < l"
  then show ?thesis using assms(1) nth_take [of k l a'] nth_take [of k l a] by (simp add: range_perm_def)
next
  assume "r \<le> k"
  then show ?thesis using assms(1,3) nth_drop [of r a' "k - r"] nth_drop [of r a "k - r"]
    by (simp add: range_perm_def)
qed

lemma split_range:
  assumes "l \<le> r" and "r \<le> length a"
  shows "a = take l a @ slice l r a @ drop r a"
proof -
  have "take l (take r a) = take l a" using assms by (simp add: min_def)
  then show ?thesis unfolding slice_def by (metis append_assoc append_take_drop_id)
qed

lemma range_perm_slice:
  assumes "range_perm l r a a'" and "l \<le> r" and "r \<le> length a"
  shows "mset (slice l r a') = mset (slice l r a)"
proof -
  have "mset (take l a') + mset (slice l r a') + mset (drop r a') = mset (take l a) + mset (slice l r a) + mset (drop r a)"
    using split_range [OF assms(2,3)] split_range [of l r a'] assms unfolding range_perm_def
    by (metis mset_append union_assoc)
  then show ?thesis using assms(1) by (simp add: range_perm_def)
qed

lemma slice_nth: "k < r - l \<Longrightarrow> r \<le> length a \<Longrightarrow> slice l r a ! k = a ! (l + k)"
  by (simp add: slice_def)

lemma slice_set: "r \<le> length a \<Longrightarrow> set (slice l r a) = (!) a ` {l..<r}"
proof -
  assume r: "r \<le> length a"
  have "x \<in> set (slice l r a) \<longleftrightarrow> (\<exists>k. l \<le> k \<and> k < r \<and> x = a ! k)" for x
  proof
    assume "x \<in> set (slice l r a)"
    then obtain k where "k < r - l" "slice l r a ! k = x" using r by (auto simp: in_set_conv_nth slice_def)
    then show "\<exists>k. l \<le> k \<and> k < r \<and> x = a ! k" using slice_nth [OF _ r] by (intro exI [of _ "l + k"]) auto
  next
    assume "\<exists>k. l \<le> k \<and> k < r \<and> x = a ! k"
    then obtain k where k: "l \<le> k" "k < r" "x = a ! k" by blast
    then have "slice l r a ! (k - l) = x" "k - l < length (slice l r a)" using r slice_nth [of "k - l" r l a]
      by (simp_all add: slice_def)
    then show "x \<in> set (slice l r a)" using nth_mem by blast
  qed
  then show ?thesis by force
qed

text \<open>What holds of all items of a range holds of them when they are permuted.\<close>

lemma range_perm_all:
  assumes "range_perm l r a a'" and "l \<le> r" and "r \<le> length a"
    and "\<And>k. l \<le> k \<Longrightarrow> k < r \<Longrightarrow> P (a ! k)" and "l \<le> k" and "k < r"
  shows "P (a' ! k)"
proof -
  have "set (slice l r a') = set (slice l r a)" using range_perm_slice [OF assms(1-3)] by (metis set_mset_mset)
  moreover have "a' ! k \<in> set (slice l r a')"
    using assms(1,3,5,6) slice_set [of r a' l] by (simp add: range_perm_length)
  ultimately have "a' ! k \<in> (!) a ` {l..<r}" using slice_set [OF assms(3), of l] by simp
  then show ?thesis using assms(4) by auto
qed

lemma arr_swap_in:
  "i < length a \<Longrightarrow> j < length a \<Longrightarrow> arr_swap a i j = Done (a[i := a ! j, j := a ! i])"
  by (simp add: arr_swap_def mem_get_def mem_set_def)

lemma swap_range_perm:
  assumes "l \<le> i" "i < r" "l \<le> j" "j < r" "i < length a" "j < length a"
  shows "range_perm l r a (a[i := a ! j, j := a ! i])"
  using assms by (simp add: range_perm_def mset_swap)

lemma swap_nth:
  "i < length a \<Longrightarrow> j < length a \<Longrightarrow> k < length a \<Longrightarrow>
    a[i := a ! j, j := a ! i] ! k = (if k = i then a ! j else if k = j then a ! i else a ! k)"
  by (auto simp: nth_list_update)

lemma sorted_slice: "range_sorted l r a \<Longrightarrow> r \<le> length a \<Longrightarrow> sorted (slice l r a)"
  unfolding sorted_iff_nth_mono by (auto simp: range_sorted_def slice_nth) (simp_all add: slice_def)

lemma sorted_range_is_sort:
  assumes "range_perm l r a a'" and "range_sorted l r a'" and "l \<le> r" and "r \<le> length a"
  shows "a' = take l a @ sort (slice l r a) @ drop r a"
proof -
  have "sorted (slice l r a')" using sorted_slice [OF assms(2)] assms(1,4) by (simp add: range_perm_length)
  then have "sort (slice l r a) = slice l r a'"
    using range_perm_slice [OF assms(1,3,4)] by (intro properties_for_sort) simp_all
  then show ?thesis using split_range [of l r a'] assms unfolding range_perm_def by metis
qed

text \<open>The contract of a sort, and what follows from it.\<close>

locale range_sort =
  fixes srt :: "'a :: linorder list \<Rightarrow> nat \<Rightarrow> nat \<Rightarrow> 'a list run"
    and fit :: "'a list \<Rightarrow> nat \<Rightarrow> nat \<Rightarrow> bool"
  assumes sorts: "fit a l r \<Longrightarrow> l \<le> r \<Longrightarrow> r \<le> length a \<Longrightarrow>
      \<exists>a'. srt a l r = Done a' \<and> range_perm l r a a' \<and> range_sorted l r a'"
begin

lemma is_sort:
  assumes "fit a l r" and "l \<le> r" and "r \<le> length a"
  shows "srt a l r = Done (take l a @ sort (slice l r a) @ drop r a)"
proof -
  obtain a' where "srt a l r = Done a'" "range_perm l r a a'" "range_sorted l r a'" using sorts [OF assms] by blast
  then show ?thesis using sorted_range_is_sort assms(2,3) by simp
qed

lemma sorts_all: "fit a 0 (length a) \<Longrightarrow> srt a 0 (length a) = Done (sort a)"
  using is_sort [of a 0 "length a"] by (simp add: slice_def)

end

text \<open>Loops keep what each round keeps.\<close>

lemma for_loop_up:
  assumes "m \<le> n" and "P m s" and "\<And>i s. m \<le> i \<Longrightarrow> i < n \<Longrightarrow> P i s \<Longrightarrow> \<exists>s'. body i s = Done s' \<and> P (Suc i) s'"
  shows "\<exists>s'. for_loop body [m..<n] s = Done s' \<and> P n s'"
  using assms
proof (induction "n - m" arbitrary: m s)
  case (Suc k)
  then have "m < n" by simp
  then obtain s1 where s1: "body m s = Done s1" "P (Suc m) s1" using Suc.prems by blast
  have "\<exists>s'. for_loop body [Suc m..<n] s1 = Done s' \<and> P n s'"
    using Suc.hyps(2) \<open>m < n\<close> s1(2) Suc.prems(3) by (intro Suc.hyps(1)) auto
  then show ?case using s1(1) \<open>m < n\<close> by (simp add: upt_conv_Cons)
qed simp

lemma for_loop_down:
  assumes "m \<le> n" and "P n s" and "\<And>i s. m \<le> i \<Longrightarrow> i < n \<Longrightarrow> P (Suc i) s \<Longrightarrow> \<exists>s'. body i s = Done s' \<and> P i s'"
  shows "\<exists>s'. for_loop body (rev [m..<n]) s = Done s' \<and> P m s'"
  using assms
proof (induction "n - m" arbitrary: n s)
  case (Suc k)
  then obtain n' where n': "n = Suc n'" "m \<le> n'" by (cases n) auto
  then obtain s1 where s1: "body n' s = Done s1" "P n' s1" using Suc.prems by blast
  have "\<exists>s'. for_loop body (rev [m..<n']) s1 = Done s' \<and> P m s'"
    using Suc.hyps(2) n' s1(2) Suc.prems(3) by (intro Suc.hyps(1)) auto
  then show ?case using s1(1) n' by (simp add: upt_Suc)
qed simp

section \<open>Bubble sort and selection sort\<close>

text \<open>
  In front of \<open>i\<close> the range is sorted and has the least items; \<open>ahead\<close> says it of one more
  item compared with those up to \<open>j\<close>.
\<close>

definition sorted_upto :: "nat \<Rightarrow> nat \<Rightarrow> nat \<Rightarrow> 'a :: linorder list \<Rightarrow> bool" where
  "sorted_upto l i r a \<longleftrightarrow> (\<forall>k k'. l \<le> k \<longrightarrow> k < i \<longrightarrow> k \<le> k' \<longrightarrow> k' < r \<longrightarrow> a ! k \<le> a ! k')"

lemma sorted_upto_all: "sorted_upto l r r a \<Longrightarrow> range_sorted l r a"
  by (auto simp: sorted_upto_def range_sorted_def)

lemma sorted_upto_Suc:
  assumes "range_perm i r a a'" and "r \<le> length a" and "sorted_upto l i r a"
    and "\<forall>k. i < k \<longrightarrow> k < r \<longrightarrow> a' ! i \<le> a' ! k" and "i < r"
  shows "sorted_upto l (Suc i) r a'"
  unfolding sorted_upto_def
proof (intro allI impI)
  fix k k' assume k: "l \<le> k" "k < Suc i" "k \<le> k'" "k' < r"
  show "a' ! k \<le> a' ! k'"
  proof (cases "k = i")
    case True
    then show ?thesis using assms(4) k by (cases "k' = i") auto
  next
    case False
    then have low: "k < i" "a' ! k = a ! k" using k assms(2,5) range_perm_outside [OF assms(1)] by auto
    show ?thesis
    proof (cases "k' < i")
      case True
      then show ?thesis using low k assms(2,3,5) range_perm_outside [OF assms(1), of k'] by (auto simp: sorted_upto_def)
    next
      case False
      have "a ! k \<le> a ! m" if "i \<le> m" "m < r" for m
        using assms(3) k(1) low(1) that by (simp add: sorted_upto_def)
      then have "a ! k \<le> a' ! k'"
        using False k(4) assms(5) by (intro range_perm_all [OF assms(1) _ assms(2), of "\<lambda>x. a ! k \<le> x"]) auto
      then show ?thesis using low by simp
    qed
  qed
qed

lemma bubble_inner:
  assumes "i < r" and "r \<le> length a" and "l \<le> i" and "sorted_upto l i r a"
  shows "\<exists>a'. for_loop (bubble_step i) [i + 1..<r] a = Done a' \<and> range_perm l r a a' \<and> sorted_upto l (Suc i) r a'"
proof -
  let ?P = "\<lambda>j a'. range_perm i r a a' \<and> (\<forall>k. i < k \<longrightarrow> k < j \<longrightarrow> a' ! i \<le> a' ! k)"
  have "\<exists>a'. for_loop (bubble_step i) [i + 1..<r] a = Done a' \<and> ?P r a'"
  proof (rule for_loop_up [where P = ?P])
    fix j a1 assume j: "i + 1 \<le> j" "j < r" and P: "?P j a1"
    have len: "length a1 = length a" using P range_perm_length by blast
    show "\<exists>a2. bubble_step i j a1 = Done a2 \<and> ?P (Suc j) a2"
    proof (cases "a1 ! i > a1 ! j")
      case True
      let ?b = "a1[i := a1 ! j, j := a1 ! i]"
      have "bubble_step i j a1 = Done ?b" using True j assms(1,2) len by (simp add: bubble_step_def mem_get_def arr_swap_in)
      moreover have "range_perm i r a ?b"
        using P swap_range_perm [of i i r j a1] j assms(1,2) len range_perm_trans by (metis Suc_eq_plus1 Suc_leD le_refl less_le_trans)
      moreover have "?b ! i \<le> ?b ! k" if "i < k" "k < Suc j" for k
        using P True that j assms(1,2) len by (auto simp: swap_nth less_Suc_eq)
      ultimately show ?thesis by blast
    next
      case False
      then have "bubble_step i j a1 = Done a1" using j assms(1,2) len by (simp add: bubble_step_def mem_get_def)
      then show ?thesis using P False by (auto simp: less_Suc_eq)
    qed
  qed (use assms(1) in auto)
  then obtain a' where a': "for_loop (bubble_step i) [i + 1..<r] a = Done a'" "range_perm i r a a'"
    "\<forall>k. i < k \<longrightarrow> k < r \<longrightarrow> a' ! i \<le> a' ! k" by blast
  then have "sorted_upto l (Suc i) r a'" using sorted_upto_Suc [OF a'(2) assms(2,4)] assms(1) by blast
  then show ?thesis using a' range_perm_wider [OF a'(2) assms(3)] by blast
qed

lemma bubble_sorts:
  assumes "l \<le> r" and "r \<le> length a"
  shows "\<exists>a'. bubble_sort a l r = Done a' \<and> range_perm l r a a' \<and> range_sorted l r a'"
proof -
  let ?P = "\<lambda>i a'. range_perm l r a a' \<and> sorted_upto l i r a'"
  have "\<exists>a'. for_loop (\<lambda>i. for_loop (bubble_step i) [i + 1..<r]) [l..<r] a = Done a' \<and> ?P r a'"
  proof (rule for_loop_up [where P = ?P])
    fix i a1 assume i: "l \<le> i" "i < r" and P: "?P i a1"
    have "r \<le> length a1" using P assms(2) range_perm_length [of l r a a1] by simp
    then show "\<exists>a2. for_loop (bubble_step i) [i + 1..<r] a1 = Done a2 \<and> ?P (Suc i) a2"
      using bubble_inner [of i r a1 l] i P range_perm_trans [of l r a a1] by blast
  qed (use assms(1) in \<open>simp_all add: sorted_upto_def\<close>)
  then show ?thesis unfolding bubble_sort_def using sorted_upto_all by blast
qed

lemma select_min_least:
  assumes "i < r" and "r \<le> length a"
  shows "\<exists>m. select_min a i r = Done m \<and> i \<le> m \<and> m < r \<and> (\<forall>k. i \<le> k \<longrightarrow> k < r \<longrightarrow> a ! m \<le> a ! k)"
proof -
  let ?P = "\<lambda>j m. i \<le> m \<and> m < j \<and> (\<forall>k. i \<le> k \<longrightarrow> k < j \<longrightarrow> a ! m \<le> a ! k)"
  have "\<exists>m. select_min a i r = Done m \<and> ?P r m"
    unfolding select_min_def
  proof (rule for_loop_up [where P = ?P])
    fix j m assume j: "i + 1 \<le> j" "j < r" and P: "?P j m"
    have "?P (Suc j) (if a ! j < a ! m then j else m)"
      using P j by (auto simp: less_Suc_eq intro: less_imp_le le_less_trans order_trans)
    then show "\<exists>m'. run_bind (mem_get a j) (\<lambda>x. run_bind (mem_get a m) (\<lambda>y. Done (if x < y then j else m))) = Done m' \<and> ?P (Suc j) m'"
      using P j assms(2) by (simp add: mem_get_def)
  qed (use assms(1) in \<open>auto simp: less_Suc_eq dest: le_antisym\<close>)
  then show ?thesis by blast
qed

lemma select_sorts:
  assumes "l \<le> r" and "r \<le> length a"
  shows "\<exists>a'. select_sort a l r = Done a' \<and> range_perm l r a a' \<and> range_sorted l r a'"
proof -
  let ?P = "\<lambda>i a'. range_perm l r a a' \<and> sorted_upto l i r a'"
  let ?body = "\<lambda>i a. run_bind (select_min a i r) (\<lambda>m. if i \<noteq> m then arr_swap a i m else Done a)"
  have "\<exists>a'. for_loop ?body [l..<r] a = Done a' \<and> ?P r a'"
  proof (rule for_loop_up [where P = ?P])
    fix i a1 assume i: "l \<le> i" "i < r" and P: "?P i a1"
    have r: "r \<le> length a1" using P assms(2) range_perm_length [of l r a a1] by simp
    obtain m where m: "select_min a1 i r = Done m" "i \<le> m" "m < r" "\<And>k. i \<le> k \<Longrightarrow> k < r \<Longrightarrow> a1 ! m \<le> a1 ! k"
      using select_min_least [OF i(2) r] by blast
    define a2 where "a2 = a1[i := a1 ! m, m := a1 ! i]"
    have b: "?body i a1 = Done a2" using m r i by (simp add: a2_def arr_swap_in)
    have p: "range_perm i r a1 a2" unfolding a2_def using swap_range_perm [of i i r m a1] m i r by simp
    have "a2 ! i \<le> a2 ! k" if "i < k" "k < r" for k using m i r that by (auto simp: a2_def swap_nth)
    then have "sorted_upto l (Suc i) r a2" using sorted_upto_Suc [OF p r] P i by blast
    then show "\<exists>a2. ?body i a1 = Done a2 \<and> ?P (Suc i) a2"
      using b P range_perm_trans range_perm_wider [OF p i(1)] by blast
  qed (use assms(1) in \<open>simp_all add: sorted_upto_def\<close>)
  then show ?thesis unfolding select_sort_def using sorted_upto_all by blast
qed

interpretation bubble: range_sort bubble_sort "\<lambda>_ _ _. True"
  by unfold_locales (rule bubble_sorts)

interpretation selection: range_sort select_sort "\<lambda>_ _ _. True"
  by unfold_locales (rule select_sorts)

section \<open>Insertion sort\<close>

text \<open>
  The item in front of the range, or the first one of the array, must not exceed an item of
  the range: it ends the inner loop.
\<close>

definition guarded :: "'a :: linorder list \<Rightarrow> nat \<Rightarrow> nat \<Rightarrow> bool" where
  "guarded a l r \<longleftrightarrow> (\<forall>k. l \<le> k \<longrightarrow> k < r \<longrightarrow> a ! (l - 1) \<le> a ! k)"

lemma insert_shift_finds:
  assumes "l \<le> j" and "j < length a" and "l = 0 \<Longrightarrow> 0 < j" and "a ! (l - 1) \<le> tem" and "range_sorted l j a"
  shows "\<exists>j' a'. insert_shift tem l j a = Done (j', a') \<and> l \<le> j' \<and> j' \<le> j \<and> length a' = length a \<and>
    range_perm l (Suc j) (a[j := tem]) (a'[j' := tem]) \<and> (\<forall>k. k < j' \<longrightarrow> a' ! k = a ! k) \<and>
    (\<forall>k. j' < k \<longrightarrow> k \<le> j \<longrightarrow> a' ! k = a ! (k - 1)) \<and> (\<forall>k. l \<le> k \<longrightarrow> k < j' \<longrightarrow> a ! k \<le> tem) \<and>
    (\<forall>k. j' \<le> k \<longrightarrow> k < j \<longrightarrow> tem < a ! k)"
  using assms
proof (induction tem l j a rule: insert_shift.induct)
  case (1 tem l j a)
  have j0: "j \<noteq> 0" using 1(2-) by (cases "l = 0") auto
  show ?case
  proof (cases "tem < a ! (j - 1)")
    case False
    then have "insert_shift tem l j a = Done (j, a)"
      using 1(2,3) j0 by (simp add: insert_shift.simps [of tem l j] mem_get_def)
    moreover have "a ! k \<le> tem" if "l \<le> k" "k < j" for k
    proof -
      have "a ! k \<le> a ! (j - 1)" using 1(6) that by (simp add: range_sorted_def)
      then show ?thesis using False by simp
    qed
    ultimately show ?thesis using 1(2) by (intro exI [of _ j] exI [of _ a]) auto
  next
    case True
    define b where "b = a[j := a ! (j - 1)]"
    have bs: "mem_get a (j - 1) = Done (a ! (j - 1))" "mem_set a j (a ! (j - 1)) = Done b" "length b = length a"
      "b ! (l - 1) = a ! (l - 1)" "range_sorted l (j - 1) b"
      using 1(2,3,6) j0 by (auto simp: b_def mem_get_def mem_set_def range_sorted_def)
    have lj: "l \<le> j - 1" using True 1(2,5) by (cases "j = l") auto
    have "l = 0 \<Longrightarrow> 0 < j - 1" using True 1(5) j0 by (cases "j = 1") auto
    moreover have "j - 1 < length a" using 1(3) by simp
    ultimately obtain j' a' where r: "insert_shift tem l (j - 1) b = Done (j', a')" "l \<le> j'" "j' \<le> j - 1" "length a' = length b"
      "range_perm l (Suc (j - 1)) (b[j - 1 := tem]) (a'[j' := tem])" "\<forall>k. k < j' \<longrightarrow> a' ! k = b ! k"
      "\<forall>k. j' < k \<longrightarrow> k \<le> j - 1 \<longrightarrow> a' ! k = b ! (k - 1)" "\<forall>k. l \<le> k \<longrightarrow> k < j' \<longrightarrow> b ! k \<le> tem"
      "\<forall>k. j' \<le> k \<longrightarrow> k < j - 1 \<longrightarrow> tem < b ! k"
      using 1(1) [OF 1(2) j0 bs(1) True bs(2) lj] 1(5) bs(3-5) by auto
    have s: "insert_shift tem l j a = Done (j', a')"
      using r(1) True 1(2,3) j0 by (simp add: insert_shift.simps [of tem l j] mem_get_def mem_set_def b_def)
    have "b[j - 1 := tem] = a[j := tem, j - 1 := (a[j := tem]) ! j, j := (a[j := tem]) ! (j - 1)]"
      using 1(3) j0 by (intro nth_equalityI) (auto simp: b_def nth_list_update)
    then have "range_perm l (Suc j) (a[j := tem]) (b[j - 1 := tem])"
      using swap_range_perm [of l "j - 1" "Suc j" j "a[j := tem]"] 1(2,3) lj by simp
    then have p: "range_perm l (Suc j) (a[j := tem]) (a'[j' := tem])"
      using range_perm_trans range_perm_wider [OF r(5)] j0 by (metis Suc_pred' le_refl le_SucI less_or_eq_imp_le not_gr0)
    have top: "a' ! j = a ! (j - 1)"
    proof -
      have "(a'[j' := tem]) ! j = (b[j - 1 := tem]) ! j"
        using range_perm_outside [OF r(5), of j] 1(3) j0 by (simp add: b_def)
      then show ?thesis using r(3) j0 1(3) by (simp add: b_def)
    qed
    have "a' ! k = a ! (k - 1)" if "j' < k" "k \<le> j" for k
      using that top r(7) j0 by (cases "k = j") (auto simp: b_def)
    moreover have "tem < a ! k" if "j' \<le> k" "k < j" for k
      using that True r(9) by (cases "k = j - 1") (auto simp: b_def)
    ultimately show ?thesis using s r p j0 by (intro exI [of _ j'] exI [of _ a']) (auto simp: b_def)
  qed
qed

lemma insert_step_sorts:
  assumes "l < i" and "i < length a" and "a ! (l - 1) \<le> a ! i" and "range_sorted l i a"
  shows "\<exists>a'. insert_step l i a = Done a' \<and> range_perm l (Suc i) a a' \<and> range_sorted l (Suc i) a'"
proof -
  let ?tem = "a ! i"
  obtain j' a1 where s: "insert_shift ?tem l i a = Done (j', a1)" "l \<le> j'" "j' \<le> i" "length a1 = length a"
      "range_perm l (Suc i) (a[i := ?tem]) (a1[j' := ?tem])" "\<forall>k. k < j' \<longrightarrow> a1 ! k = a ! k"
      "\<forall>k. j' < k \<longrightarrow> k \<le> i \<longrightarrow> a1 ! k = a ! (k - 1)" "\<forall>k. l \<le> k \<longrightarrow> k < j' \<longrightarrow> a ! k \<le> ?tem"
      "\<forall>k. j' \<le> k \<longrightarrow> k < i \<longrightarrow> ?tem < a ! k"
    using insert_shift_finds [of l i a ?tem] assms by auto
  have nth: "a1[j' := ?tem] ! k = (if k < j' then a ! k else if k = j' then ?tem else a ! (k - 1))" if "k \<le> i" for k
    using s(3,4,6,7) assms(2) that by (auto simp: nth_list_update)
  have low: "a ! k \<le> a ! k'" if "l \<le> k" "k \<le> k'" "k' < i" for k k' using assms(4) that by (auto simp: range_sorted_def)
  have "a1[j' := ?tem] ! k \<le> a1[j' := ?tem] ! k'" if "l \<le> k" "k \<le> k'" "k' < Suc i" for k k'
  proof -
    consider "k' < j'" | "k' = j'" | "j' < k'" by linarith
    then show ?thesis
    proof cases
      case 1
      then show ?thesis using nth [of k] nth [of k'] that low [of k k'] s(3) by simp
    next
      case 2
      then show ?thesis using nth [of k] nth [of k'] that s(8) by auto
    next
      case 3
      have high: "?tem < a ! (k' - 1)" using 3 that s(9) by auto
      consider "k < j'" | "k = j'" | "j' < k" by linarith
      then show ?thesis
      proof cases
        case 1
        then show ?thesis using nth [of k] nth [of k'] that 3 low [of k "k' - 1"] by auto
      next
        case 2
        then show ?thesis using nth [of k] nth [of k'] that 3 high by auto
      next
        case 3
        then show ?thesis using nth [of k] nth [of k'] that low [of "k - 1" "k' - 1"] s(2) by auto
      qed
    qed
  qed
  then have "range_sorted l (Suc i) (a1[j' := ?tem])" unfolding range_sorted_def by blast
  moreover have "insert_step l i a = Done (a1[j' := ?tem])"
    using s(1,3,4) assms(2) by (simp add: insert_step_def mem_get_def mem_set_def)
  ultimately show ?thesis using s(5) by simp
qed

lemma guarded_keeps:
  assumes "guarded a l r" and "range_perm l k a a'" and "l < k" and "k \<le> r" and "r \<le> length a" and "range_sorted l k a'"
  shows "guarded a' l r"
proof -
  have g: "a ! (l - 1) \<le> a ! m" if "l \<le> m" "m < r" for m using assms(1) that by (simp add: guarded_def)
  have all: "a ! (l - 1) \<le> a' ! m" if "l \<le> m" "m < r" for m
    using that range_perm_all [OF range_perm_wider [OF assms(2) le_refl assms(4)] _ assms(5), of "\<lambda>x. a ! (l - 1) \<le> x" m] g by auto
  have "a' ! (l - 1) \<le> a ! (l - 1)"
  proof (cases l)
    case 0
    have "a' ! 0 \<le> a ! 0"
    proof -
      obtain m where "m < k" "a' ! m = a ! 0"
      proof -
        have "a ! 0 \<in> set (slice 0 k a')"
          using range_perm_slice [of 0 k a a'] assms(2-5) 0 slice_set [of k a 0] by (metis imageI atLeastLessThan_iff le0 le_trans set_mset_mset)
        then show thesis using slice_set [of k a' 0] assms(2,4,5) that by (auto simp: range_perm_length)
      qed
      moreover from this(1) have "a' ! 0 \<le> a' ! m" using assms(6) 0 by (simp add: range_sorted_def)
      ultimately show ?thesis by simp
    qed
    then show ?thesis using 0 by simp
  next
    case (Suc n)
    then show ?thesis using range_perm_outside [OF assms(2), of n] assms(3-5) by simp
  qed
  then show ?thesis using all by (auto simp: guarded_def intro: order_trans)
qed

lemma range_sorted_one: "range_sorted l (Suc l) a"
  unfolding range_sorted_def
proof (intro allI impI)
  fix i j assume "l \<le> i" "i \<le> j" "j < Suc l"
  then have "i = j" by linarith
  then show "a ! i \<le> a ! j" by simp
qed

lemma insert_sorts:
  assumes "guarded a l r" and "l \<le> r" and "r \<le> length a"
  shows "\<exists>a'. insert_sort a l r = Done a' \<and> range_perm l r a a' \<and> range_sorted l r a'"
proof (cases "l < r")
  case False
  then have "insert_sort a l r = Done a" by (simp add: insert_sort_def)
  then show ?thesis using False by (auto simp: range_sorted_def)
next
  case True
  let ?P = "\<lambda>i a'. range_perm l i a a' \<and> range_sorted l i a'"
  have "\<exists>a'. for_loop (insert_step l) [l + 1..<r] a = Done a' \<and> ?P r a'"
  proof (rule for_loop_up [where P = ?P])
    fix i a1 assume i: "l + 1 \<le> i" "i < r" and P: "?P i a1"
    have "guarded a1 l r" using guarded_keeps [OF assms(1)] P i assms(3) by auto
    then have "a1 ! (l - 1) \<le> a1 ! i" using i by (simp add: guarded_def)
    then obtain a2 where "insert_step l i a1 = Done a2" "range_perm l (Suc i) a1 a2" "range_sorted l (Suc i) a2"
      using insert_step_sorts [of l i a1] P i assms(3) range_perm_length [of l i a a1] by auto
    then show "\<exists>a2. insert_step l i a1 = Done a2 \<and> ?P (Suc i) a2"
      using P range_perm_trans range_perm_wider [of l i a a1 l "Suc i"] by (metis le_SucI le_refl)
  qed (use True range_sorted_one in auto)
  then show ?thesis by (simp add: insert_sort_def)
qed

interpretation insertion: range_sort insert_sort guarded
  by unfold_locales (rule insert_sorts)

text \<open>With no such item the inner loop runs in front of the array.\<close>

lemma insert_shift_falls:
  "j < length a \<Longrightarrow> (\<And>k. k < j \<Longrightarrow> tem < a ! k) \<Longrightarrow> insert_shift tem 0 j a = Fault"
proof (induction j arbitrary: a)
  case (Suc j)
  have "insert_shift tem 0 j (a[Suc j := a ! j]) = Fault" using Suc.prems by (intro Suc.IH) auto
  then show ?case using Suc.prems by (simp add: insert_shift.simps [of tem 0 "Suc j"] mem_get_def mem_set_def)
qed (simp add: insert_shift.simps)

lemma for_loop_append: "for_loop body (is @ js) s = run_bind (for_loop body is s) (for_loop body js)"
proof (induction "is" arbitrary: s)
  case (Cons i "is")
  then show ?case by (cases "body i s") simp_all
qed simp

lemma insert_sort_falls:
  assumes "r \<le> length a" and "\<not> guarded a 0 r"
  shows "insert_sort a 0 r = Fault"
proof -
  define i where "i = (LEAST k. k < r \<and> a ! k < a ! 0)"
  obtain k0 where "k0 < r \<and> a ! k0 < a ! 0" using assms(2) by (auto simp: guarded_def not_le)
  then have i: "i < r" "a ! i < a ! 0" unfolding i_def by (auto intro: LeastI2)
  have before: "a ! 0 \<le> a ! k" if "k < i" for k
    using not_less_Least [of k "\<lambda>k. k < r \<and> a ! k < a ! 0"] that i(1) by (force simp: i_def [symmetric])
  have pos: "0 < i" using i(2) by (cases i) auto
  obtain a1 where a1: "insert_sort a 0 i = Done a1" "range_perm 0 i a a1"
    using insert_sorts [of a 0 i] before i(1) assms(1) by (auto simp: guarded_def)
  have len: "length a1 = length a" and ai: "a1 ! i = a ! i"
    using a1(2) range_perm_outside [OF a1(2), of i] i(1) assms(1) by (simp_all add: range_perm_length)
  have "a1 ! i < a1 ! k" if "k < i" for k
    using that range_perm_all [OF a1(2), of "\<lambda>x. a ! i < x" k] before i assms(1) ai by (auto intro: less_le_trans)
  then have "insert_step 0 i a1 = Fault"
    using i(1) assms(1) len by (simp add: insert_step_def mem_get_def insert_shift_falls)
  moreover have "[1..<r] = [1..<i] @ i # [Suc i..<r]"
    using pos i(1) upt_add_eq_append [of 1 i "r - i"] by (simp add: upt_conv_Cons)
  ultimately show ?thesis using a1(1) by (simp add: insert_sort_def for_loop_append)
qed

section \<open>Quicksort\<close>

lemma scan_down_finds:
  "i \<le> j \<Longrightarrow> j < length a \<Longrightarrow> \<exists>j'. scan_down pivot i j a = Done j' \<and> i \<le> j' \<and> j' \<le> j \<and>
    (\<forall>k. j' < k \<longrightarrow> k \<le> j \<longrightarrow> pivot \<le> a ! k) \<and> (i < j' \<longrightarrow> a ! j' < pivot)"
proof (induction pivot i j a rule: scan_down.induct)
  case (1 pivot i j a)
  show ?case
  proof (cases "a ! j \<ge> pivot \<and> j > i")
    case True
    have "i \<le> j - 1" "j - 1 < length a" using True 1(3) by auto
    then obtain j' where j': "scan_down pivot i (j - 1) a = Done j'" "i \<le> j'" "j' \<le> j - 1"
        "\<forall>k. j' < k \<longrightarrow> k \<le> j - 1 \<longrightarrow> pivot \<le> a ! k" "i < j' \<longrightarrow> a ! j' < pivot"
      using 1(1) [of "a ! j"] 1(3) True by (auto simp: mem_get_def)
    have "pivot \<le> a ! k" if "j' < k" "k \<le> j" for k using that True j'(4) by (cases "k = j") auto
    then show ?thesis using j' True 1(3) by (auto simp: scan_down.simps [of pivot i j] mem_get_def)
  next
    case False
    then show ?thesis using 1(2,3) by (auto simp: scan_down.simps [of pivot i j] mem_get_def)
  qed
qed

lemma scan_up_finds:
  "i \<le> j \<Longrightarrow> j < length a \<Longrightarrow> \<exists>i'. scan_up pivot i j a = Done i' \<and> i \<le> i' \<and> i' \<le> j \<and>
    (\<forall>k. i \<le> k \<longrightarrow> k < i' \<longrightarrow> a ! k \<le> pivot) \<and> (i' < j \<longrightarrow> pivot < a ! i')"
proof (induction pivot i j a rule: scan_up.induct)
  case (1 pivot i j a)
  show ?case
  proof (cases "a ! i \<le> pivot \<and> i < j")
    case True
    obtain i' where i': "scan_up pivot (i + 1) j a = Done i'" "i + 1 \<le> i'" "i' \<le> j"
        "\<forall>k. i + 1 \<le> k \<longrightarrow> k < i' \<longrightarrow> a ! k \<le> pivot" "i' < j \<longrightarrow> pivot < a ! i'"
      using 1(1) [of "a ! i"] 1(2,3) True by (auto simp: mem_get_def)
    have "a ! k \<le> pivot" if "i \<le> k" "k < i'" for k using that True i'(4) by (cases "k = i") auto
    then show ?thesis using i' True 1(3) by (auto simp: scan_up.simps [of pivot i j] mem_get_def)
  next
    case False
    then show ?thesis using 1(2,3) by (auto simp: scan_up.simps [of pivot i j] mem_get_def)
  qed
qed

text \<open>The pivot is at \<open>i\<close>; what was passed on either side is in order with it.\<close>

definition parted :: "nat \<Rightarrow> nat \<Rightarrow> 'a :: linorder \<Rightarrow> nat \<Rightarrow> nat \<Rightarrow> 'a list \<Rightarrow> bool" where
  "parted l r pivot i j a \<longleftrightarrow> l \<le> i \<and> i \<le> j \<and> j < r \<and> a ! i = pivot \<and>
     (\<forall>k. l \<le> k \<longrightarrow> k < i \<longrightarrow> a ! k \<le> pivot) \<and> (\<forall>k. j < k \<longrightarrow> k < r \<longrightarrow> pivot \<le> a ! k)"

lemma median_round_parts:
  assumes "parted l r pivot i j a" and "i < j" and "r \<le> length a"
  shows "\<exists>i2 j2 a2. median_round pivot i j a = Done (i2, j2, a2) \<and> range_perm l r a a2 \<and> parted l r pivot i2 j2 a2"
proof -
  have p: "l \<le> i" "j < r" "a ! i = pivot" "\<And>k. l \<le> k \<Longrightarrow> k < i \<Longrightarrow> a ! k \<le> pivot" "\<And>k. j < k \<Longrightarrow> k < r \<Longrightarrow> pivot \<le> a ! k"
    using assms(1) by (auto simp: parted_def)
  obtain j1 where j1: "scan_down pivot i j a = Done j1" "i \<le> j1" "j1 \<le> j"
      "\<And>k. j1 < k \<Longrightarrow> k \<le> j \<Longrightarrow> pivot \<le> a ! k" "i < j1 \<Longrightarrow> a ! j1 < pivot"
    using scan_down_finds [of i j a pivot] assms(2,3) p(2) by auto
  have above: "pivot \<le> a ! k" if "j1 < k" "k < r" for k using j1(4) p(5) that by (cases "k \<le> j") auto
  show ?thesis
  proof (cases "i < j1")
    case False
    then have "j1 = i" using j1(2) by simp
    then have "median_round pivot i j a = Done (i, i, a)"
      using j1(1) assms(3) p(1,2) j1(3) by (simp add: median_round_def scan_up.simps [of pivot i i] mem_get_def)
    moreover have "parted l r pivot i i a" using p above \<open>j1 = i\<close> assms(2) by (auto simp: parted_def)
    ultimately show ?thesis using range_perm_refl by blast
  next
    case True
    define a1 where "a1 = a[i := a ! j1, j1 := a ! i]"
    have len: "i < length a" "j1 < length a" "length a1 = length a" using p(2) j1(3) True assms(3) by (simp_all add: a1_def)
    have nth: "a1 ! k = (if k = i then a ! j1 else if k = j1 then pivot else a ! k)" if "k < length a" for k
      using swap_nth [OF len(1,2) that] p(3) by (simp add: a1_def)
    have perm: "range_perm l r a a1" unfolding a1_def using swap_range_perm [of l i r j1 a] p(1,2) j1(3) True len by simp
    have below1: "a1 ! k \<le> pivot" if "l \<le> k" "k < i + 1" for k
      using that nth [of k] p(4) j1(5) [OF True] len True by (cases "k = i") auto
    have above1: "pivot \<le> a1 ! k" if "j1 \<le> k" "k < r" for k
      using that nth [of k] above True assms(3) by (cases "k = j1") auto
    obtain i2 where i2: "scan_up pivot (i + 1) j1 a1 = Done i2" "i + 1 \<le> i2" "i2 \<le> j1"
        "\<And>k. i + 1 \<le> k \<Longrightarrow> k < i2 \<Longrightarrow> a1 ! k \<le> pivot" "i2 < j1 \<Longrightarrow> pivot < a1 ! i2"
      using scan_up_finds [of "i + 1" j1 a1 pivot] True len by auto
    have below2: "a1 ! k \<le> pivot" if "l \<le> k" "k < i2" for k using that below1 i2(4) by (cases "k < i + 1") auto
    show ?thesis
    proof (cases "i2 < j1")
      case False
      then have "i2 = j1" using i2(3) by simp
      then have "median_round pivot i j a = Done (j1, j1, a1)"
        using j1(1) i2(1) True len by (simp add: median_round_def arr_swap_in a1_def)
      moreover have "parted l r pivot j1 j1 a1"
        using below2 above1 nth [OF len(2)] \<open>i2 = j1\<close> p(1,2) j1(3) True by (auto simp: parted_def)
      ultimately show ?thesis using perm by blast
    next
      case i2_less: True
      define a2 where "a2 = a1[i2 := a1 ! j1, j1 := a1 ! i2]"
      have len2: "i2 < length a1" "j1 < length a1" using i2_less len by simp_all
      have nth2: "a2 ! k = (if k = i2 then pivot else if k = j1 then a1 ! i2 else a1 ! k)" if "k < length a" for k
        using swap_nth [OF len2, of k] that len nth [OF len(2)] True by (simp add: a2_def)
      have "median_round pivot i j a = Done (i2, j1 - 1, a2)"
        using j1(1) i2(1) True i2_less len len2 by (simp add: median_round_def arr_swap_in a1_def a2_def)
      moreover have "range_perm l r a a2"
        unfolding a2_def
        by (rule range_perm_trans [OF perm swap_range_perm]) (use p(1,2) j1(3) i2(2) i2_less len2 in auto)
      moreover have "a2 ! k \<le> pivot" if "l \<le> k" "k < i2" for k using that below2 nth2 [of k] i2_less len by simp
      moreover have "pivot \<le> a2 ! k" if "j1 - 1 < k" "k < r" for k
        using that above1 [of k] nth2 [of k] i2(5) [OF i2_less] i2_less assms(3) by (cases "k = j1") auto
      moreover have "a2 ! i2 = pivot" using nth2 [of i2] len2 len by simp
      ultimately show ?thesis
        using i2(2) i2_less p(1,2) j1(3) by (intro exI [of _ i2] exI [of _ "j1 - 1"] exI [of _ a2]) (auto simp: parted_def)
    qed
  qed
qed

lemma median_loop_parts:
  "parted l r pivot i j a \<Longrightarrow> r \<le> length a \<Longrightarrow>
    \<exists>pos a'. median_loop pivot i j a = Done (pos, a') \<and> range_perm l r a a' \<and> parted l r pivot pos pos a'"
proof (induction pivot i j a rule: median_loop.induct)
  case (1 pivot i j a)
  show ?case
  proof (cases "i < j")
    case True
    obtain i2 j2 a2 where m: "median_round pivot i j a = Done (i2, j2, a2)" "range_perm l r a a2" "parted l r pivot i2 j2 a2"
      using median_round_parts [OF 1(2) True 1(3)] by blast
    have "r \<le> length a2" using m(2) 1(3) by (simp add: range_perm_length)
    then obtain pos a' where "median_loop pivot i2 j2 a2 = Done (pos, a')" "range_perm l r a2 a'" "parted l r pivot pos pos a'"
      using 1(1) [OF True m(1) refl refl m(3)] by blast
    then show ?thesis using m(1,2) True range_perm_trans by (subst median_loop.simps) auto
  next
    case False
    then have "i = j" using 1(2) by (simp add: parted_def)
    then show ?thesis using 1(2) by (subst median_loop.simps) auto
  qed
qed

lemma median_pos_parts:
  assumes "l < r" and "r \<le> length a"
  shows "\<exists>pos a'. median_pos a l r = Done (pos, a') \<and> range_perm l r a a' \<and> l \<le> pos \<and> pos < r \<and>
    (\<forall>k. l \<le> k \<longrightarrow> k < pos \<longrightarrow> a' ! k \<le> a' ! pos) \<and> (\<forall>k. pos < k \<longrightarrow> k < r \<longrightarrow> a' ! pos \<le> a' ! k)"
proof -
  have "parted l r (a ! l) l (r - 1) a" using assms by (auto simp: parted_def)
  then obtain pos a' where "median_loop (a ! l) l (r - 1) a = Done (pos, a')" "range_perm l r a a'" "parted l r (a ! l) pos pos a'"
    using median_loop_parts assms(2) by blast
  then show ?thesis using assms by (auto simp: median_pos_def mem_get_def parted_def)
qed

lemma quick_sorts:
  "0 < l \<Longrightarrow> guarded a l r \<Longrightarrow> l \<le> r \<Longrightarrow> r \<le> length a \<Longrightarrow>
    \<exists>a'. quick_sort a l r = Done a' \<and> range_perm l r a a' \<and> range_sorted l r a'"
proof (induction a l r rule: quick_sort.induct)
  case (1 a l r)
  show ?case
  proof (cases "r - l > 10")
    case False
    then show ?thesis using insert_sorts [OF 1(4-6)] by (simp add: quick_sort.simps [of a])
  next
    case True
    then have "l < r" by simp
    then obtain pos a1 where m: "median_pos a l r = Done (pos, a1)" "range_perm l r a a1" "l \<le> pos" "pos < r"
        "\<And>k. l \<le> k \<Longrightarrow> k < pos \<Longrightarrow> a1 ! k \<le> a1 ! pos" "\<And>k. pos < k \<Longrightarrow> k < r \<Longrightarrow> a1 ! pos \<le> a1 ! k"
      using median_pos_parts [of l r a] 1(6) by blast
    have len1: "r \<le> length a1" using m(2) 1(6) by (simp add: range_perm_length)
    have "a ! (l - 1) \<le> a1 ! k" if "l \<le> k" "k < r" for k
      using that 1(4) range_perm_all [OF m(2) 1(5,6), of "\<lambda>x. a ! (l - 1) \<le> x" k] by (auto simp: guarded_def)
    moreover have "a1 ! (l - 1) = a ! (l - 1)" using range_perm_outside [OF m(2), of "l - 1"] 1(3,5,6) by simp
    ultimately have "guarded a1 l pos" using m(4) by (simp add: guarded_def)
    then obtain a2 where q: "quick_sort a1 l pos = Done a2" "range_perm l pos a1 a2" "range_sorted l pos a2"
      using 1(1) [OF True m(1) refl 1(3) _ m(3)] m(4) len1 by auto
    have len2: "r \<le> length a2" using q(2) len1 by (simp add: range_perm_length)
    have same2: "a2 ! k = a1 ! k" if "pos \<le> k" "k < r" for k using range_perm_outside [OF q(2), of k] that len1 by simp
    have low: "a2 ! k \<le> a2 ! pos" if "l \<le> k" "k < pos" for k
      using range_perm_all [OF q(2) m(3), of "\<lambda>x. x \<le> a1 ! pos" k] that m(4,5) len1 same2 [of pos] by auto
    have high: "a2 ! pos \<le> a2 ! k" if "pos < k" "k < r" for k using that m(4,6) same2 by simp
    then have "guarded a2 (pos + 1) r" by (simp add: guarded_def)
    then obtain a3 where t: "quick_sort a2 (pos + 1) r = Done a3" "range_perm (pos + 1) r a2 a3" "range_sorted (pos + 1) r a3"
      using 1(2) [OF True m(1) refl q(1)] m(4) len2 by auto
    have same3: "a3 ! k = a2 ! k" if "k \<le> pos" for k using range_perm_outside [OF t(2), of k] that m(4) len2 by simp
    have high3: "a2 ! pos \<le> a3 ! k" if "pos < k" "k < r" for k
      using range_perm_all [OF t(2) _ len2, of "\<lambda>x. a2 ! pos \<le> x" k] high that m(4) by auto
    have "a3 ! k \<le> a3 ! k'" if "l \<le> k" "k \<le> k'" "k' < r" for k k'
    proof -
      have le: "a3 ! k \<le> a2 ! pos" if "k \<le> pos" using that low \<open>l \<le> k\<close> same3 by (cases "k = pos") auto
      consider "k' < pos" | "k' = pos" | "k \<le> pos" "pos < k'" | "pos < k" by linarith
      then show ?thesis
      proof cases
        case 1
        then show ?thesis using that same3 q(3) by (simp add: range_sorted_def)
      next
        case 2
        then show ?thesis using le same3 [of pos] that by simp
      next
        case 3
        then show ?thesis using le high3 [of k'] that by (auto intro: order_trans)
      next
        case 4
        then show ?thesis using t(3) that by (simp add: range_sorted_def)
      qed
    qed
    then have "range_sorted l r a3" unfolding range_sorted_def by blast
    moreover have "range_perm l r a1 a2" "range_perm l r a2 a3"
      using range_perm_wider [OF q(2)] range_perm_wider [OF t(2)] m(3,4) by simp_all
    then have "range_perm l r a a3" using m(2) range_perm_trans by blast
    moreover have "quick_sort a l r = Done a3" using True m(1) q(1) t(1) by (simp add: quick_sort.simps [of a])
    ultimately show ?thesis by blast
  qed
qed

interpretation quick: range_sort quick_sort "\<lambda>a l r. 0 < l \<and> guarded a l r"
  by unfold_locales (use quick_sorts in blast)

section \<open>Heap sort\<close>

text \<open>
  The parent of \<open>k\<close> is \<open>k div 2\<close>; the root \<open>0\<close> has one child, \<open>1\<close>. \<open>heap_but\<close>: only the node
  \<open>i\<close> may be smaller than its children.
\<close>

definition heap_from :: "nat \<Rightarrow> nat \<Rightarrow> 'a :: linorder list \<Rightarrow> bool" where
  "heap_from m s a \<longleftrightarrow> (\<forall>k. 1 \<le> k \<longrightarrow> k < s \<longrightarrow> m \<le> k div 2 \<longrightarrow> a ! k \<le> a ! (k div 2))"

definition heap_but :: "nat \<Rightarrow> nat \<Rightarrow> nat \<Rightarrow> 'a :: linorder list \<Rightarrow> bool" where
  "heap_but m s i a \<longleftrightarrow>
     (\<forall>k. 1 \<le> k \<longrightarrow> k < s \<longrightarrow> m \<le> k div 2 \<longrightarrow> k div 2 \<noteq> i \<longrightarrow> a ! k \<le> a ! (k div 2)) \<and>
     (\<forall>k. 1 \<le> k \<longrightarrow> k < s \<longrightarrow> k div 2 = i \<longrightarrow> 1 \<le> i \<longrightarrow> m \<le> i div 2 \<longrightarrow> a ! k \<le> a ! (i div 2))"

lemma child_cases: "1 \<le> c \<Longrightarrow> c div 2 = i \<longleftrightarrow> c = i * 2 + 1 \<or> (c = i * 2 \<and> i \<noteq> 0)" for c i :: nat
  by auto

lemma largest_child_finds:
  assumes "i < s" and "s \<le> length a"
  shows "\<exists>k. largest_child a s i = Done k \<and> (k = i \<or> 1 \<le> k \<and> k div 2 = i \<and> i < k) \<and> k < s \<and> a ! i \<le> a ! k \<and>
    (\<forall>c. 1 \<le> c \<longrightarrow> c < s \<longrightarrow> c div 2 = i \<longrightarrow> a ! c \<le> a ! k)"
proof -
  define k1 where "k1 = (if i * 2 < s \<and> a ! (i * 2) > a ! i then i * 2 else i)"
  define k where "k = (if i * 2 + 1 < s \<and> a ! (i * 2 + 1) > a ! k1 then i * 2 + 1 else k1)"
  have k1: "k1 < s" "a ! i \<le> a ! k1" "i * 2 < s \<Longrightarrow> a ! (i * 2) \<le> a ! k1" "k1 = i \<or> (k1 = i * 2 \<and> i \<noteq> 0)"
    using assms(1) by (auto simp: k1_def)
  have "largest_child a s i = Done k"
    using assms k1(1) by (simp add: largest_child_def Let_def mem_get_def k_def k1_def)
  moreover have "k < s" "a ! i \<le> a ! k" "a ! k1 \<le> a ! k" "i * 2 + 1 < s \<Longrightarrow> a ! (i * 2 + 1) \<le> a ! k"
    using k1 by (auto simp: k_def)
  moreover have "k = i \<or> 1 \<le> k \<and> k div 2 = i \<and> i < k" using k1(4) by (auto simp: k_def)
  ultimately show ?thesis using k1(3) by (intro exI [of _ k]) (auto simp: child_cases intro: order_trans)
qed

lemma heap_but_swap:
  assumes "heap_but m s i a" and "m \<le> i" and "1 \<le> k" and "k div 2 = i" and "i < k" and "k < s" and "s \<le> length a"
    and "a ! i \<le> a ! k" and "\<And>c. 1 \<le> c \<Longrightarrow> c < s \<Longrightarrow> c div 2 = i \<Longrightarrow> a ! c \<le> a ! k"
  shows "heap_but m s k (a[i := a ! k, k := a ! i])"
proof -
  let ?b = "a[i := a ! k, k := a ! i]"
  have h1: "\<And>c. 1 \<le> c \<Longrightarrow> c < s \<Longrightarrow> m \<le> c div 2 \<Longrightarrow> c div 2 \<noteq> i \<Longrightarrow> a ! c \<le> a ! (c div 2)"
    and h2: "\<And>c. 1 \<le> c \<Longrightarrow> c < s \<Longrightarrow> c div 2 = i \<Longrightarrow> 1 \<le> i \<Longrightarrow> m \<le> i div 2 \<Longrightarrow> a ! c \<le> a ! (i div 2)"
    using assms(1) by (simp_all add: heap_but_def)
  have bi: "?b ! i = a ! k" and bk: "?b ! k = a ! i" and bo: "\<And>c. c \<noteq> i \<Longrightarrow> c \<noteq> k \<Longrightarrow> ?b ! c = a ! c"
    using assms(5-7) by (simp_all add: nth_list_update)
  have "?b ! c \<le> ?b ! (c div 2)" if c: "1 \<le> c" "c < s" "m \<le> c div 2" "c div 2 \<noteq> k" for c
  proof (cases "c div 2 = i")
    case True
    have "c \<noteq> i" using True c(1) by auto
    then have "?b ! c \<le> a ! k" using bk bo [of c] assms(8) assms(9) [OF c(1,2) True] by (cases "c = k") simp_all
    then show ?thesis using True bi by simp
  next
    case False
    then have p: "?b ! (c div 2) = a ! (c div 2)" and "c \<noteq> k" using bo c(4) assms(4) by auto
    show ?thesis
    proof (cases "c = i")
      case True
      then show ?thesis using h2 [OF assms(3,6,4)] c(1,3) bi p by simp
    next
      case False
      then show ?thesis using h1 [OF c(1-3)] \<open>c div 2 \<noteq> i\<close> bo [OF False \<open>c \<noteq> k\<close>] p by simp
    qed
  qed
  moreover have "?b ! c \<le> ?b ! (k div 2)" if c: "1 \<le> c" "c < s" "c div 2 = k" for c
  proof -
    have "k < c" using c(3) assms(3) by auto
    moreover have "a ! c \<le> a ! (c div 2)" using h1 [OF c(1,2)] c(3) assms(2,5) by simp
    ultimately show ?thesis using c(3) bi bo [of c] assms(4,5) by simp
  qed
  ultimately show ?thesis unfolding heap_but_def by blast
qed

lemma heapify_heaps:
  "heap_but m s i a \<Longrightarrow> m \<le> i \<Longrightarrow> s \<le> length a \<Longrightarrow>
    \<exists>a'. max_heapify a s i = Done a' \<and> range_perm 0 s a a' \<and> heap_from m s a'"
proof (induction a s i rule: max_heapify.induct)
  case (1 a s i)
  show ?case
  proof (cases "i < s")
    case False
    then have "largest_child a s i = Done i" by (simp add: largest_child_def)
    moreover have "heap_from m s a" using 1(2) False by (fastforce simp: heap_from_def heap_but_def)
    ultimately show ?thesis by (auto simp: max_heapify.simps [of a])
  next
    case True
    obtain k where k: "largest_child a s i = Done k" "k = i \<or> 1 \<le> k \<and> k div 2 = i \<and> i < k" "k < s" "a ! i \<le> a ! k"
        "\<And>c. 1 \<le> c \<Longrightarrow> c < s \<Longrightarrow> c div 2 = i \<Longrightarrow> a ! c \<le> a ! k"
      using largest_child_finds [OF True 1(4)] by blast
    show ?thesis
    proof (cases "k = i")
      case eq: True
      have "a ! c \<le> a ! (c div 2)" if "1 \<le> c" "c < s" "m \<le> c div 2" for c
        using that 1(2) k(5) eq by (cases "c div 2 = i") (auto simp: heap_but_def)
      then have "heap_from m s a" by (simp add: heap_from_def)
      then show ?thesis using k(1) eq by (auto simp: max_heapify.simps [of a])
    next
      case False
      define b where "b = a[i := a ! k, k := a ! i]"
      have len: "i < length a" "k < length a" using True k(3) 1(4) by simp_all
      have b: "arr_swap a i k = Done b" "length b = length a" "range_perm 0 s a b"
        using arr_swap_in [OF len] swap_range_perm [of 0 i s k a] True k(3) len by (simp_all add: b_def)
      have "heap_but m s k b" unfolding b_def using heap_but_swap [of m s i a k] 1(2-4) k False by blast
      then obtain a' where "max_heapify b s k = Done a'" "range_perm 0 s b a'" "heap_from m s a'"
        using 1(1) [OF k(1) False b(1)] 1(3,4) k(2) False b(2) by auto
      then show ?thesis using k(1) False b range_perm_trans by (auto simp: max_heapify.simps [of a])
    qed
  qed
qed

lemma build_heaps:
  assumes "s \<le> length a"
  shows "\<exists>a'. build_max_heap a s = Done a' \<and> range_perm 0 s a a' \<and> heap_from 0 s a'"
proof -
  let ?P = "\<lambda>m a'. range_perm 0 s a a' \<and> heap_from m s a'"
  have "\<exists>a'. for_loop (\<lambda>i a. max_heapify a s i) (rev [0..<s div 2 + 1]) a = Done a' \<and> ?P 0 a'"
  proof (rule for_loop_down [where P = ?P])
    fix i a1 assume P: "?P (Suc i) a1"
    have "heap_but i s i a1" using P by (auto simp: heap_but_def heap_from_def)
    then show "\<exists>a2. max_heapify a1 s i = Done a2 \<and> ?P i a2"
      using heapify_heaps [of i s i a1] P assms range_perm_length [of 0 s a a1] range_perm_trans [of 0 s a a1] by auto
  qed (auto simp: heap_from_def dest: div_le_mono [of _ _ 2])
  then show ?thesis by (simp add: build_max_heap_def)
qed

lemma heap_root: "heap_from 0 s a \<Longrightarrow> k < s \<Longrightarrow> a ! k \<le> a ! 0"
proof (induction k rule: less_induct)
  case (less k)
  show ?case
  proof (cases "k = 0")
    case False
    then have "a ! k \<le> a ! (k div 2)" "a ! (k div 2) \<le> a ! 0" using less by (auto simp: heap_from_def)
    then show ?thesis by simp
  qed simp
qed

text \<open>Behind \<open>i\<close> the array is sorted, and has the greatest items.\<close>

definition sorted_from :: "nat \<Rightarrow> nat \<Rightarrow> 'a :: linorder list \<Rightarrow> bool" where
  "sorted_from i s a \<longleftrightarrow> (\<forall>k k'. i \<le> k' \<longrightarrow> k' < s \<longrightarrow> k \<le> k' \<longrightarrow> a ! k \<le> a ! k')"

lemma heap_round:
  assumes "heap_from 0 (Suc i) a" and "sorted_from (Suc i) s a" and "1 \<le> i" and "i < s" and "s \<le> length a"
  shows "\<exists>a'. run_bind (arr_swap a 0 i) (\<lambda>a1. run_map (\<lambda>a2. (a2, i)) (max_heapify a1 i 0)) = Done (a', i) \<and>
    range_perm 0 (Suc i) a a' \<and> heap_from 0 i a' \<and> sorted_from i s a'"
proof -
  define b where "b = a[0 := a ! i, i := a ! 0]"
  have len: "0 < length a" "i < length a" using assms(4,5) by linarith+
  have b: "arr_swap a 0 i = Done b" "length b = length a" "range_perm 0 (Suc i) a b"
    using arr_swap_in [OF len] swap_range_perm [of 0 0 "Suc i" i a] len by (simp_all add: b_def)
  have "b ! k \<le> b ! (k div 2)" if "1 \<le> k" "k < i" "k div 2 \<noteq> 0" for k
  proof -
    have "b ! k = a ! k" "b ! (k div 2) = a ! (k div 2)" using that by (auto simp: b_def nth_list_update)
    then show ?thesis using assms(1) that by (simp add: heap_from_def)
  qed
  then have "heap_but 0 i 0 b" by (auto simp: heap_but_def)
  then obtain a' where a': "max_heapify b i 0 = Done a'" "range_perm 0 i b a'" "heap_from 0 i a'"
    using heapify_heaps [of 0 i 0 b] b(2) len by auto
  have p: "range_perm 0 (Suc i) a a'" using range_perm_trans [OF b(3)] range_perm_wider [OF a'(2)] by simp
  have top: "a' ! i = a ! 0" using range_perm_outside [OF a'(2), of i] b(2) len by (simp add: b_def)
  have le_root: "a' ! k \<le> a ! 0" if "k < Suc i" for k
    using range_perm_all [OF p, of "\<lambda>x. x \<le> a ! 0" k] heap_root [OF assms(1)] that len by simp
  have "a' ! k \<le> a' ! k'" if "i \<le> k'" "k' < s" "k \<le> k'" for k k'
  proof (cases "k' = i")
    case True
    then show ?thesis using le_root [of k] top that by simp
  next
    case False
    then have k': "Suc i \<le> k'" "a' ! k' = a ! k'" using that range_perm_outside [OF p, of k'] assms(5) by auto
    have below: "a ! m \<le> a ! k'" if "m \<le> k'" for m
      using assms(2) k'(1) \<open>k' < s\<close> that unfolding sorted_from_def by blast
    show ?thesis
    proof (cases "k < Suc i")
      case True
      then show ?thesis using range_perm_all [OF p, of "\<lambda>x. x \<le> a ! k'" k] below k' len by simp
    next
      case False
      then show ?thesis using range_perm_outside [OF p, of k] below [of k] that k'(2) assms(5) by simp
    qed
  qed
  then have "sorted_from i s a'" unfolding sorted_from_def by blast
  then show ?thesis using a' b(1) p by auto
qed

lemma heap_sorts:
  assumes "s \<le> length a"
  shows "\<exists>a'. heap_sort a s = Done a' \<and> range_perm 0 s a a' \<and> range_sorted 0 s a'"
proof -
  obtain a1 where a1: "build_max_heap a s = Done a1" "range_perm 0 s a a1" "heap_from 0 s a1"
    using build_heaps [OF assms] by blast
  show ?thesis
  proof (cases "1 \<le> s")
    case False
    then show ?thesis using a1 by (auto simp: heap_sort_def range_sorted_def)
  next
    case True
    let ?body = "\<lambda>i (a, s). run_bind (arr_swap a 0 i) (\<lambda>a1. run_map (\<lambda>a2. (a2, s - 1)) (max_heapify a1 (s - 1) 0))"
    let ?P = "\<lambda>i (a', n). n = i \<and> range_perm 0 s a a' \<and> heap_from 0 i a' \<and> sorted_from i s a'"
    have "\<exists>r. for_loop ?body (rev [1..<s]) (a1, s) = Done r \<and> ?P 1 r"
    proof (rule for_loop_down [where P = ?P])
      fix i st assume i: "1 \<le> i" "i < s" and P: "?P (Suc i) st"
      obtain a2 where st: "st = (a2, Suc i)" "range_perm 0 s a a2" "heap_from 0 (Suc i) a2" "sorted_from (Suc i) s a2"
        using P by (cases st) auto
      have "s \<le> length a2" using st(2) assms by (simp add: range_perm_length)
      then obtain a3 where a3: "run_bind (arr_swap a2 0 i) (\<lambda>a1. run_map (\<lambda>a2. (a2, i)) (max_heapify a1 i 0)) = Done (a3, i)"
          "range_perm 0 (Suc i) a2 a3" "heap_from 0 i a3" "sorted_from i s a3"
        using heap_round [OF st(3,4) i] by blast
      have "range_perm 0 s a a3" using range_perm_trans [OF st(2)] range_perm_wider [OF a3(2)] i(2) by simp
      then show "\<exists>st'. ?body i st = Done st' \<and> ?P i st'" using a3 st(1) by auto
    qed (use True a1 in \<open>auto simp: sorted_from_def\<close>)
    then obtain a' n where r: "for_loop ?body (rev [1..<s]) (a1, s) = Done (a', n)" "range_perm 0 s a a'" "sorted_from 1 s a'"
      by auto
    have "a' ! k \<le> a' ! k'" if "k \<le> k'" "k' < s" for k k'
      using r(3) that by (cases "k' = 0") (auto simp: sorted_from_def)
    then have "range_sorted 0 s a'" by (simp add: range_sorted_def)
    then show ?thesis using a1(1) r by (simp add: heap_sort_def)
  qed
qed

interpretation heap: range_sort "\<lambda>a l r. heap_sort a r" "\<lambda>_ l _. l = 0"
  by unfold_locales (use heap_sorts in blast)

section \<open>The sorts as they are\<close>

text \<open>
  C13. Bubble sort, selection sort and heap sort stay inside the array and give what sorting
  gives: the items of the range in order, everything else untouched.
\<close>

theorem sorts_sort:
  assumes "l \<le> r" and "r \<le> length a"
  shows "bubble_sort a l r = Done (take l a @ sort (slice l r a) @ drop r a) \<and>
    select_sort a l r = bubble_sort a l r \<and> heap_sort a r = Done (sort (take r a) @ drop r a)"
  using bubble.is_sort [OF _ assms] selection.is_sort [OF _ assms] heap.is_sort [of 0 r a] assms(2) by (simp add: slice_def)

theorem sorts_sort_witness:
  "bubble_sort [9, 3, 2, 1 :: int] 1 4 = Done [9, 1, 2, 3] \<and> heap_sort [9, 3, 2, 1 :: int] 4 = Done [1, 2, 3, 9]"
  using sorts_sort [of 1 4 "[9, 3, 2, 1 :: int]"] by (simp add: slice_def)

text \<open>
  Insertion sort of an array from its begin sorts it when the first item is a least one;
  otherwise it reads in front of the array.
\<close>

theorem insert_sort_outcome:
  assumes "r \<le> length a"
  shows "insert_sort a 0 r = (if \<forall>k<r. a ! 0 \<le> a ! k then Done (sort (take r a) @ drop r a) else Fault)"
proof -
  have "guarded a 0 r \<longleftrightarrow> (\<forall>k<r. a ! 0 \<le> a ! k)" by (simp add: guarded_def)
  then show ?thesis using insertion.is_sort [of a 0 r] insert_sort_falls [OF assms] assms by (simp add: slice_def)
qed

theorem insert_sort_outcome_witness: "insert_sort [1, 3, 2 :: int] 0 3 = Done [1, 2, 3] \<and> insert_sort [3, 1 :: int] 0 2 = Fault"
proof -
  have "\<forall>k<3. [1, 3, 2 :: int] ! 0 \<le> [1, 3, 2] ! k" "\<not> (\<forall>k<2. [3, 1 :: int] ! 0 \<le> [3, 1] ! k)"
    by (auto simp: less_Suc_eq numeral_3_eq_3 numeral_2_eq_2)
  then show ?thesis using insert_sort_outcome [of 3 "[1, 3, 2 :: int]"] insert_sort_outcome [of 2 "[3, 1 :: int]"] by simp
qed

text \<open>
  C12. Quicksort of a range returns and sorts it, whatever its size, when the item in front of
  it does not exceed any of its items: its recursion ends because the pivot lies inside the
  range, and the small ranges, which insertion sort takes, are bounded by the pivot in front of
  them.
\<close>

theorem quick_sort_sorts:
  assumes "0 < l" and "l \<le> r" and "r \<le> length a" and "\<forall>k. l \<le> k \<longrightarrow> k < r \<longrightarrow> a ! (l - 1) \<le> a ! k"
  shows "quick_sort a l r = Done (take l a @ sort (slice l r a) @ drop r a)"
  using quick.is_sort [of l a r] assms by (simp add: guarded_def)

definition ex_items :: "int list" where
  "ex_items = [0, 7, 3, 9, 1, 12, 5, 5, 8, 2, 11, 4, 6]"

theorem quick_sort_sorts_witness: "quick_sort ex_items 1 13 = Done [0, 1, 2, 3, 4, 5, 5, 6, 7, 8, 9, 11, 12]"
proof -
  have "list_all (\<lambda>k. ex_items ! 0 \<le> ex_items ! k) [0..<13]" by code_simp
  then have "\<forall>k. 1 \<le> k \<longrightarrow> k < 13 \<longrightarrow> ex_items ! (1 - 1) \<le> ex_items ! k" by (auto simp: list_all_iff)
  then show ?thesis using quick_sort_sorts [of 1 13 ex_items] by (simp add: ex_items_def slice_def)
qed

end
