(* ===== verification/Queue.thy ===== *)
theory Queue
  imports Prelude Utils
begin

text \<open>
  The queues of include/pump/toolkit: \<open>freelock_m2m_queue\<close> (a ring of nodes that grows),
  \<open>freelock_o2o_queue\<close> (a ring of blocks, each a ring of elements) and \<open>freelock_queue\<close>, which
  adds a count of elements to one of them. Here every operation runs as one step, between
  the steps of other threads; a wait that only another thread could end is the outcome
  \<open>Spins\<close>.

  Nodes and blocks are numbers, in the order of their creation; the memory is a function
  from them. A template parameter is an argument. \<open>new_ok\<close>: whether the allocation of
  another block succeeds.
\<close>

datatype 'a wait = Ret 'a | Spins

section \<open>What a client relies on\<close>

locale fifo_queue =
  fixes push :: "'a \<Rightarrow> 'q \<Rightarrow> (bool \<times> 'q) wait"
    and pop :: "'q \<Rightarrow> ('a option \<times> 'q) wait"
    and contents :: "'q \<Rightarrow> 'a list"
    and queue_inv :: "'q \<Rightarrow> bool"
  assumes push_law: "queue_inv q \<Longrightarrow> \<exists>q'. push x q = Ret (True, q') \<and> queue_inv q' \<and> contents q' = contents q @ [x]"
    and pop_law: "queue_inv q \<Longrightarrow> \<exists>q'. pop q = Ret (case contents q of [] \<Rightarrow> None | x # _ \<Rightarrow> Some x, q') \<and>
      queue_inv q' \<and> contents q' = tl (contents q)"

section \<open>freelock_m2m_queue\<close>

record 'a m2m =
  mq_next :: "nat \<Rightarrow> nat"
  mq_ready :: "nat \<Rightarrow> bool"
  mq_data :: "nat \<Rightarrow> 'a option"
  mq_nodes :: nat
  mq_capacity :: int
  mq_head :: nat
  mq_tail :: nat

text \<open>A new block: \<open>n\<close> nodes, each linked to the one behind it.\<close>

definition m2m_block :: "nat \<Rightarrow> 'a m2m \<Rightarrow> 'a m2m" where
  "m2m_block n q = q\<lparr>mq_next := (\<lambda>i. if mq_nodes q \<le> i \<and> i < mq_nodes q + n then i + 1 else mq_next q i),
     mq_ready := (\<lambda>i. if mq_nodes q \<le> i \<and> i < mq_nodes q + n then False else mq_ready q i),
     mq_nodes := mq_nodes q + n\<rparr>"

text \<open>The blocks behind the first one: \<open>k\<close> rounds, with the last node so far.\<close>

fun m2m_blocks :: "nat \<Rightarrow> nat \<Rightarrow> nat \<Rightarrow> 'a m2m \<Rightarrow> nat \<times> 'a m2m" where
  "m2m_blocks n 0 tail q = (tail, q)"
| "m2m_blocks n (Suc k) tail q =
     (let first = mq_nodes q;
          q1 = m2m_block n q
      in m2m_blocks n k (first + n - 1)
           (q1\<lparr>mq_next := (mq_next q1)(tail := first), mq_capacity := to_i32 (mq_capacity q1 + int n)\<rparr>))"

definition m2m_new :: "nat \<Rightarrow> nat \<Rightarrow> 'a m2m" where
  "m2m_new n sz =
     (let q0 = \<lparr>mq_next = (\<lambda>_. 0), mq_ready = (\<lambda>_. False), mq_data = (\<lambda>_. None), mq_nodes = 0,
                mq_capacity = 0, mq_head = 0, mq_tail = 0\<rparr>;
          s = max sz n;
          q1 = (m2m_block n q0)\<lparr>mq_capacity := int n\<rparr>;
          (tail, q2) = m2m_blocks n ((s - n + n - 1) div n) (n - 1) q1
      in q2\<lparr>mq_next := (mq_next q2)(tail := 0), mq_head := 0, mq_tail := tail\<rparr>)"

definition m2m_extend :: "nat \<Rightarrow> bool \<Rightarrow> nat \<Rightarrow> 'a m2m \<Rightarrow> bool \<times> 'a m2m" where
  "m2m_extend n new_ok enode q =
     (if \<not> new_ok then (False, q)
      else
        (let first = mq_nodes q;
             q1 = m2m_block n q;
             q2 = q1\<lparr>mq_next := (mq_next q1)(first + n - 1 := mq_next q1 enode)\<rparr>;
             q3 = q2\<lparr>mq_next := (mq_next q2)(enode := first)\<rparr>
         in (True, q3\<lparr>mq_head := mq_next q3 enode, mq_capacity := to_i32 (mq_capacity q3 + int n)\<rparr>)))"

text \<open>
  Without another thread the compare-and-swap of the head succeeds, and a failed extension
  is tried again for ever.
\<close>

definition m2m_push :: "nat \<Rightarrow> bool \<Rightarrow> 'a \<Rightarrow> 'a m2m \<Rightarrow> (bool \<times> 'a m2m) wait" where
  "m2m_push n new_ok x q =
     (let node = mq_head q;
          (claimed, q1) =
            (if mq_next q node \<noteq> mq_tail q then (True, q\<lparr>mq_head := mq_next q node\<rparr>)
             else m2m_extend n new_ok node q)
      in if \<not> claimed then Spins
         else if mq_ready q1 node then Spins
         else Ret (True, q1\<lparr>mq_data := (mq_data q1)(node := Some x), mq_ready := (mq_ready q1)(node := True)\<rparr>))"

definition m2m_pop :: "'a m2m \<Rightarrow> ('a option \<times> 'a m2m) wait" where
  "m2m_pop q =
     (let node = mq_next q (mq_tail q) in
      if \<not> mq_ready q node then Ret (None, q)
      else
        (let q1 = q\<lparr>mq_tail := node\<rparr>
         in Ret (mq_data q1 node, q1\<lparr>mq_data := (mq_data q1)(node := None), mq_ready := (mq_ready q1)(node := False)\<rparr>)))"

definition m2m_empty :: "'a m2m \<Rightarrow> bool" where
  "m2m_empty q \<longleftrightarrow> mq_next q (mq_tail q) = mq_head q"

text \<open>The destructor: which elements are destroyed, from the node behind the tail to the head.\<close>

fun m2m_destroy_loop :: "nat \<Rightarrow> nat \<Rightarrow> nat \<Rightarrow> 'a m2m \<Rightarrow> nat list wait" where
  "m2m_destroy_loop 0 beg end_node q = (if beg = end_node then Ret [] else Spins)"
| "m2m_destroy_loop (Suc k) beg end_node q =
     (if beg = end_node then Ret []
      else
        (case m2m_destroy_loop k (mq_next q beg) end_node q of
           Spins \<Rightarrow> Spins
         | Ret ns \<Rightarrow> Ret (if mq_ready q beg then beg # ns else ns)))"

definition m2m_destroy :: "'a m2m \<Rightarrow> nat list wait" where
  "m2m_destroy q = m2m_destroy_loop (mq_nodes q) (mq_next q (mq_tail q)) (mq_head q) q"

section \<open>Rings\<close>

fun path :: "(nat \<Rightarrow> nat) \<Rightarrow> nat list \<Rightarrow> nat \<Rightarrow> bool" where
  "path nxt [] e \<longleftrightarrow> True"
| "path nxt (x # xs) e \<longleftrightarrow> nxt x = hd (xs @ [e]) \<and> path nxt xs e"

lemma hd_snoc: "r \<noteq> [] \<Longrightarrow> hd (zs @ z # r) = hd (zs @ [z])"
  by (cases zs) auto

lemma path_append: "path nxt (xs @ ys) e \<longleftrightarrow> path nxt xs (hd (ys @ [e])) \<and> path nxt ys e"
  by (induction xs) (auto simp: hd_append)

lemma path_cong: "(\<And>x. x \<in> set xs \<Longrightarrow> nxt x = nxt' x) \<Longrightarrow> path nxt xs e = path nxt' xs e"
  by (induction xs) auto

lemma hd_upt: "hd ([a..<a + n] @ [a + n]) = a"
  by (cases n) (simp_all add: upt_conv_Cons del: upt_Suc)

lemma path_upt: "(\<And>i. a \<le> i \<Longrightarrow> i < a + n \<Longrightarrow> nxt i = i + 1) \<Longrightarrow> path nxt [a..<a + n] (a + n)"
proof (induction n arbitrary: a)
  case (Suc n)
  have "path nxt [Suc a..<Suc a + n] (Suc a + n)" by (rule Suc.IH) (use Suc.prems in auto)
  moreover have "[a..<a + Suc n] = a # [Suc a..<Suc a + n]" by (simp add: upt_conv_Cons)
  ultimately show ?case using Suc.prems [of a] hd_upt [of "Suc a" n] by simp
qed simp

text \<open>
  A queue is well formed when its nodes form one ring that starts behind the tail: first the
  nodes with an element, then the head and other free nodes, at last the tail.
\<close>

definition m2m_ring :: "nat \<Rightarrow> 'a m2m \<Rightarrow> nat list \<Rightarrow> nat \<Rightarrow> bool" where
  "m2m_ring n q ring h \<longleftrightarrow>
     0 < n \<and> distinct ring \<and> set ring = {..<mq_nodes q} \<and> path (mq_next q) ring (hd ring) \<and>
     Suc h < length ring \<and> mq_head q = ring ! h \<and> mq_tail q = last ring \<and>
     (\<forall>i<length ring. mq_ready q (ring ! i) \<longleftrightarrow> i < h) \<and>
     (\<forall>i<h. mq_data q (ring ! i) \<noteq> None)"

definition m2m_inv :: "nat \<Rightarrow> 'a m2m \<Rightarrow> bool" where
  "m2m_inv n q \<longleftrightarrow> (\<exists>ring h. m2m_ring n q ring h)"

definition m2m_count :: "'a m2m \<Rightarrow> nat" where
  "m2m_count q = card {i. i < mq_nodes q \<and> mq_ready q i}"

text \<open>The elements in order, following the links from behind the tail.\<close>

fun m2m_walk :: "nat \<Rightarrow> nat \<Rightarrow> 'a m2m \<Rightarrow> 'a list" where
  "m2m_walk 0 node q = []"
| "m2m_walk (Suc k) node q =
     (if mq_ready q node
      then (case mq_data q node of None \<Rightarrow> [] | Some x \<Rightarrow> x # m2m_walk k (mq_next q node) q)
      else [])"

definition m2m_contents :: "'a m2m \<Rightarrow> 'a list" where
  "m2m_contents q = m2m_walk (mq_nodes q) (mq_next q (mq_tail q)) q"

lemma path_nth: "path nxt xs e \<Longrightarrow> i < length xs \<Longrightarrow> nxt (xs ! i) = (xs @ [e]) ! Suc i"
proof (induction xs arbitrary: i)
  case (Cons x xs)
  then show ?case by (cases i) (auto simp: hd_append hd_conv_nth nth_append)
qed simp

lemma m2m_walk_ring:
  assumes "path (mq_next q) xs e" and "\<forall>x\<in>set xs. mq_ready q x \<and> mq_data q x \<noteq> None" and "\<not> mq_ready q e"
    and "length xs < k"
  shows "m2m_walk k (hd (xs @ [e])) q = map (\<lambda>x. the (mq_data q x)) xs"
  using assms
proof (induction xs arbitrary: k)
  case Nil
  then show ?case by (cases k) auto
next
  case (Cons x xs)
  then show ?case by (cases k) auto
qed

lemma ring_parts:
  assumes "m2m_ring n q ring h"
  obtains xs y zs z where "ring = xs @ y # zs @ [z]" "length xs = h" "mq_head q = y" "mq_tail q = z"
    "mq_next q z = hd (xs @ [y])"
    "path (mq_next q) xs y" "mq_next q y = hd (zs @ [z])" "path (mq_next q) zs z"
    "\<forall>x\<in>set xs. mq_ready q x \<and> mq_data q x \<noteq> None" "\<forall>x\<in>set (y # zs @ [z]). \<not> mq_ready q x"
proof -
  note r = assms [unfolded m2m_ring_def]
  have h: "h < length ring" using r by simp
  have "drop (Suc h) ring \<noteq> []" using r by simp
  then obtain zs z where zs: "drop (Suc h) ring = zs @ [z]" by (cases "drop (Suc h) ring" rule: rev_cases) auto
  define xs y where "xs = take h ring" and "y = ring ! h"
  have ring: "ring = xs @ y # zs @ [z]" using id_take_nth_drop [OF h] zs by (simp add: xs_def y_def)
  have len: "length xs = h" using h by (simp add: xs_def)
  have hdr: "hd ring = hd (xs @ [y])" by (simp add: ring hd_append)
  have "path (mq_next q) (xs @ y # zs @ [z]) (hd ring)" using r ring by simp
  then have p: "path (mq_next q) xs y" "mq_next q y = hd (zs @ [z])" "path (mq_next q) zs z" "mq_next q z = hd (xs @ [y])"
    by (simp_all add: path_append hdr hd_snoc)
  have "last ring = z" by (simp add: ring)
  then have ht: "mq_head q = y" "mq_tail q = z" using r by (simp_all add: y_def)
  have rdy: "mq_ready q (ring ! i) \<longleftrightarrow> i < h" if "i < length ring" for i using r that by simp
  have a: "\<forall>x\<in>set xs. mq_ready q x \<and> mq_data q x \<noteq> None"
  proof
    fix x assume "x \<in> set xs"
    then obtain i where i: "i < h" "x = ring ! i" using h by (auto simp: xs_def in_set_conv_nth)
    then show "mq_ready q x \<and> mq_data q x \<noteq> None" using r rdy [of i] h by simp
  qed
  have b: "\<forall>x\<in>set (y # zs @ [z]). \<not> mq_ready q x"
  proof
    fix x assume "x \<in> set (y # zs @ [z])"
    then obtain i where i: "i < length (y # zs @ [z])" "x = (y # zs @ [z]) ! i" unfolding in_set_conv_nth by blast
    then have "x = ring ! (h + i)" "h + i < length ring" using ring len by (simp_all add: nth_append)
    then show "\<not> mq_ready q x" using rdy [of "h + i"] by simp
  qed
  show thesis by (rule that [OF ring len ht p(4,1,2,3) a b])
qed

lemma ring_build:
  assumes "0 < n" and "ring = xs @ y # zs @ [z]" and "distinct ring" and "set ring = {..<mq_nodes q}"
    and "mq_head q = y" "mq_tail q = z" "mq_next q z = hd (xs @ [y])"
    "path (mq_next q) xs y" "mq_next q y = hd (zs @ [z])" "path (mq_next q) zs z"
    "\<forall>x\<in>set xs. mq_ready q x \<and> mq_data q x \<noteq> None" "\<forall>x\<in>set (y # zs @ [z]). \<not> mq_ready q x"
  shows "m2m_ring n q ring (length xs)" and "m2m_contents q = map (\<lambda>x. the (mq_data q x)) xs"
proof -
  have hdr: "hd ring = hd (xs @ [y])" by (simp add: assms(2) hd_append)
  have "mq_ready q (ring ! i) \<longleftrightarrow> i < length xs" if "i < length ring" for i
  proof (cases "i < length xs")
    case True
    then show ?thesis using assms(11) by (simp add: assms(2) nth_append)
  next
    case False
    then have "ring ! i = (y # zs @ [z]) ! (i - length xs)" "i - length xs < length (y # zs @ [z])"
      using that by (simp_all add: assms(2) nth_append)
    then have "ring ! i \<in> set (y # zs @ [z])" by (simp only: nth_mem)
    then show ?thesis using assms(12) False by blast
  qed
  moreover have "path (mq_next q) ring (hd ring)" using assms by (simp add: path_append hdr hd_snoc)
  moreover have "mq_data q (ring ! i) \<noteq> None" if "i < length xs" for i
    using assms(11) that by (simp add: assms(2) nth_append)
  ultimately show "m2m_ring n q ring (length xs)" using assms by (simp add: m2m_ring_def nth_append)
  have "length ring = mq_nodes q" using distinct_card [OF assms(3)] assms(4) by simp
  then have "length xs < mq_nodes q" using assms(2) by simp
  then show "m2m_contents q = map (\<lambda>x. the (mq_data q x)) xs"
    using m2m_walk_ring [of q xs y] assms by (simp add: m2m_contents_def)
qed

lemma m2m_contents_ring:
  assumes "m2m_ring n q ring h"
  shows "m2m_contents q = map (\<lambda>x. the (mq_data q x)) (take h ring)"
proof -
  note r = assms [unfolded m2m_ring_def]
  obtain xs y zs z where p: "ring = xs @ y # zs @ [z]" "length xs = h" "mq_head q = y" "mq_tail q = z"
    "mq_next q z = hd (xs @ [y])" "path (mq_next q) xs y" "mq_next q y = hd (zs @ [z])" "path (mq_next q) zs z"
    "\<forall>x\<in>set xs. mq_ready q x \<and> mq_data q x \<noteq> None" "\<forall>x\<in>set (y # zs @ [z]). \<not> mq_ready q x"
    using assms by (rule ring_parts)
  have "m2m_contents q = map (\<lambda>x. the (mq_data q x)) xs"
    by (rule ring_build(2) [of n ring xs y zs z]) (use r p in simp_all)
  then show ?thesis using p(1,2) by simp
qed

lemma m2m_push_claim:
  assumes "m2m_ring n q ring h" and "mq_next q (mq_head q) \<noteq> mq_tail q"
  shows "\<exists>q'. m2m_push n ok x q = Ret (True, q') \<and> m2m_inv n q' \<and> m2m_contents q' = m2m_contents q @ [x]"
proof -
  note r = assms(1) [unfolded m2m_ring_def]
  obtain xs y zs z where p: "ring = xs @ y # zs @ [z]" "length xs = h" "mq_head q = y" "mq_tail q = z"
    "mq_next q z = hd (xs @ [y])" "path (mq_next q) xs y" "mq_next q y = hd (zs @ [z])" "path (mq_next q) zs z"
    "\<forall>x\<in>set xs. mq_ready q x \<and> mq_data q x \<noteq> None" "\<forall>x\<in>set (y # zs @ [z]). \<not> mq_ready q x"
    using assms(1) by (rule ring_parts)
  obtain y' zs' where zs: "zs = y' # zs'" using assms(2) p(3,4,7) by (cases zs) auto
  let ?q = "q\<lparr>mq_head := y', mq_data := (mq_data q)(y := Some x), mq_ready := (mq_ready q)(y := True)\<rparr>"
  have d: "distinct (xs @ y # (y' # zs') @ [z])" using r p(1) zs by simp
  have push: "m2m_push n ok x q = Ret (True, ?q)" using p zs assms(2) by (simp add: m2m_push_def)
  have path: "path (mq_next q) (xs @ [y]) y'" using p(6,7) zs by (simp add: path_append)
  have ring: "m2m_ring n ?q ring (length (xs @ [y]))" "m2m_contents ?q = map (\<lambda>x. the (mq_data ?q x)) (xs @ [y])"
    by (rule ring_build [of n ring "xs @ [y]" y' zs' z ?q]; use r p zs d path in \<open>auto simp: hd_append\<close>)+
  moreover have "map (\<lambda>v. the (mq_data ?q v)) xs = map (\<lambda>v. the (mq_data q v)) xs" using d by auto
  moreover have "m2m_contents q = map (\<lambda>v. the (mq_data q v)) xs" using m2m_contents_ring [OF assms(1)] p(1,2) by simp
  ultimately show ?thesis using push unfolding m2m_inv_def by (intro exI [of _ ?q]) auto
qed

lemma m2m_extend_eq:
  assumes "e < mq_nodes q" and "0 < n"
  shows "m2m_extend n True e q = (True, q\<lparr>
    mq_next := (\<lambda>i. if mq_nodes q \<le> i \<and> i < mq_nodes q + n then i + 1 else mq_next q i)
      (mq_nodes q + n - 1 := mq_next q e, e := mq_nodes q),
    mq_ready := (\<lambda>i. if mq_nodes q \<le> i \<and> i < mq_nodes q + n then False else mq_ready q i),
    mq_nodes := mq_nodes q + n, mq_head := mq_nodes q, mq_capacity := to_i32 (mq_capacity q + int n)\<rparr>)"
  using assms by (cases q) (simp add: m2m_extend_def m2m_block_def cong: if_cong)

lemma ring_extend:
  assumes "m2m_ring n q (xs @ [y, z]) (length xs)"
    and nxt: "nxt y = a" "nxt (a + n - 1) = z" "\<And>i. a \<le> i \<Longrightarrow> i < a + n - 1 \<Longrightarrow> nxt i = i + 1"
      "\<And>v. v < a \<Longrightarrow> v \<noteq> y \<Longrightarrow> nxt v = mq_next q v"
    and rdy: "rdy y" "\<And>i. a \<le> i \<Longrightarrow> i < a + n \<Longrightarrow> \<not> rdy i" "\<And>v. v < a \<Longrightarrow> v \<noteq> y \<Longrightarrow> rdy v = mq_ready q v"
    and a: "a = mq_nodes q"
    and q': "mq_next q' = nxt" "mq_ready q' = rdy" "mq_data q' = (mq_data q)(y := Some x)" "mq_nodes q' = a + n"
      "mq_head q' = a" "mq_tail q' = mq_tail q"
  shows "m2m_inv n q' \<and> m2m_contents q' = m2m_contents q @ [x]"
proof -
  note r = assms(1) [unfolded m2m_ring_def]
  have n: "0 < n" and d0: "distinct (xs @ [y, z])" and all: "set (xs @ [y, z]) = {..<a}" using r a by simp_all
  have tail: "mq_tail q = z" using r by simp
  have path0: "path (mq_next q) xs y" "mq_next q z = hd (xs @ [y])"
    using r by (simp_all add: path_append hd_snoc hd_append split: if_splits)
  have rdy0: "mq_ready q ((xs @ [y, z]) ! i) \<longleftrightarrow> i < length xs" if "i < length xs + 2" for i using r that by simp
  have used0: "\<forall>v\<in>set xs. mq_ready q v \<and> mq_data q v \<noteq> None"
  proof
    fix v assume "v \<in> set xs"
    then obtain i where i: "i < length xs" "v = xs ! i" by (auto simp: in_set_conv_nth)
    then show "mq_ready q v \<and> mq_data q v \<noteq> None" using rdy0 [of i] r by (simp add: nth_append)
  qed
  have z0: "\<not> mq_ready q z" using rdy0 [of "Suc (length xs)"] by (simp add: nth_append)
  have lt: "y < a" "z < a" "\<forall>v\<in>set xs. v < a" using all by auto
  let ?B = "[Suc a..<a + n]"
  let ?ring = "(xs @ [y]) @ a # ?B @ [z]"
  have upt: "[a..<a + n] = a # ?B" using n by (simp add: upt_conv_Cons)
  have dist: "distinct ?ring" using d0 lt by auto
  have "set ?ring = set (xs @ [y, z]) \<union> set (a # ?B)" by (simp add: insert_commute)
  also have "\<dots> = {..<a} \<union> {a..<a + n}" unfolding all upt [symmetric] by simp
  also have "\<dots> = {..<mq_nodes q'}" unfolding q' by (rule ivl_disj_un_one) simp
  finally have range: "set ?ring = {..<mq_nodes q'}" .
  have pxs: "path nxt (xs @ [y]) a"
  proof -
    have "path nxt xs y = path (mq_next q) xs y" by (rule path_cong) (use nxt(4) lt d0 in auto)
    then show ?thesis using path0(1) nxt(1) by (simp add: path_append)
  qed
  have "path nxt [a..<a + (n - 1)] (a + (n - 1))" by (rule path_upt) (use nxt(3) in simp)
  moreover have "[a..<a + n] = [a..<a + (n - 1)] @ [a + (n - 1)]" using n by (cases n) simp_all
  ultimately have "path nxt [a..<a + n] z" using nxt(2) n by (simp add: path_append)
  then have blk: "nxt a = hd (?B @ [z])" "path nxt ?B z" unfolding upt by simp_all
  have nz: "nxt z = hd ((xs @ [y]) @ [a])" using nxt(4) [of z] lt d0 path0(2) by (auto simp: hd_append)
  have used: "\<forall>v\<in>set (xs @ [y]). mq_ready q' v \<and> mq_data q' v \<noteq> None"
    using used0 rdy(1) rdy(3) lt d0 by (auto simp: q')
  have free: "\<forall>v\<in>set (a # ?B @ [z]). \<not> mq_ready q' v"
    using rdy(2) rdy(3) [of z] z0 lt d0 n by (auto simp: q')
  note b = ring_build [of n ?ring "xs @ [y]" a ?B z q', unfolded q', OF n refl dist range [unfolded q'] refl tail nz pxs blk]
  have "m2m_ring n q' ?ring (length (xs @ [y]))" by (rule b(1)) (use used free in \<open>simp_all only: q'\<close>)
  moreover have "m2m_contents q' = map (\<lambda>v. the (mq_data q' v)) (xs @ [y])"
    using b(2) used free unfolding q' by blast
  moreover have "map (\<lambda>v. the (mq_data q' v)) xs = map (\<lambda>v. the (mq_data q v)) xs" using d0 by (auto simp: q')
  moreover have "m2m_contents q = map (\<lambda>v. the (mq_data q v)) xs" using m2m_contents_ring [OF assms(1)] by simp
  ultimately show ?thesis by (auto simp: m2m_inv_def q')
qed

lemma m2m_push_extend:
  assumes "m2m_ring n q ring h" and "mq_next q (mq_head q) = mq_tail q"
  shows "\<exists>q'. m2m_push n True x q = Ret (True, q') \<and> m2m_inv n q' \<and> m2m_contents q' = m2m_contents q @ [x]"
proof -
  note r = assms(1) [unfolded m2m_ring_def]
  obtain xs y zs z where p: "ring = xs @ y # zs @ [z]" "length xs = h" "mq_head q = y" "mq_tail q = z"
    "mq_next q z = hd (xs @ [y])" "path (mq_next q) xs y" "mq_next q y = hd (zs @ [z])" "path (mq_next q) zs z"
    "\<forall>x\<in>set xs. mq_ready q x \<and> mq_data q x \<noteq> None" "\<forall>x\<in>set (y # zs @ [z]). \<not> mq_ready q x"
    using assms(1) by (rule ring_parts)
  have "distinct (xs @ y # zs @ [z])" "set (xs @ y # zs @ [z]) = {..<mq_nodes q}" and n: "0 < n" using r p(1) by simp_all
  then have zs: "zs = []" and y: "y < mq_nodes q" using assms(2) p(3,4,7) by (cases zs; auto)+
  define a where "a = mq_nodes q"
  define nxt where "nxt = (\<lambda>i. if a \<le> i \<and> i < a + n then i + 1 else mq_next q i)(a + n - 1 := z, y := a)"
  define rdy where "rdy = (\<lambda>i. if a \<le> i \<and> i < a + n then False else mq_ready q i)"
  define q1 where "q1 = q\<lparr>mq_next := nxt, mq_ready := rdy, mq_nodes := a + n, mq_head := a,
      mq_capacity := to_i32 (mq_capacity q + int n)\<rparr>"
  have "m2m_extend n True y q = (True, q1)"
    using m2m_extend_eq [OF y n] p(4) assms(2) p(3) by (simp add: q1_def nxt_def rdy_def a_def)
  moreover have "\<not> rdy y" using p(10) by (simp add: rdy_def)
  ultimately have push: "m2m_push n True x q = Ret (True, q1\<lparr>mq_data := (mq_data q1)(y := Some x), mq_ready := rdy(y := True)\<rparr>)"
    using p(3,4) assms(2) by (simp add: m2m_push_def) (simp add: q1_def)
  have "m2m_inv n (q1\<lparr>mq_data := (mq_data q1)(y := Some x), mq_ready := rdy(y := True)\<rparr>) \<and>
      m2m_contents (q1\<lparr>mq_data := (mq_data q1)(y := Some x), mq_ready := rdy(y := True)\<rparr>) = m2m_contents q @ [x]"
    by (rule ring_extend [of n q xs y z nxt a "rdy(y := True)"])
      (use assms(1) p(1,2) zs y n in \<open>auto simp: nxt_def rdy_def q1_def a_def\<close>)
  with push show ?thesis by blast
qed

lemma m2m_push_spec:
  assumes "m2m_inv n q"
  shows "\<exists>q'. m2m_push n True x q = Ret (True, q') \<and> m2m_inv n q' \<and> m2m_contents q' = m2m_contents q @ [x]"
proof -
  obtain ring h where r: "m2m_ring n q ring h" using assms by (auto simp: m2m_inv_def)
  show ?thesis
    using m2m_push_claim [OF r, of True x] m2m_push_extend [OF r, of x] by fastforce
qed

lemma m2m_pop_spec:
  assumes "m2m_inv n q"
  shows "\<exists>q'. m2m_pop q = Ret (case m2m_contents q of [] \<Rightarrow> None | x # _ \<Rightarrow> Some x, q') \<and> m2m_inv n q' \<and>
    m2m_contents q' = tl (m2m_contents q)"
proof -
  obtain ring h where rr: "m2m_ring n q ring h" using assms by (auto simp: m2m_inv_def)
  note r = rr [unfolded m2m_ring_def]
  obtain xs y zs z where p: "ring = xs @ y # zs @ [z]" "length xs = h" "mq_head q = y" "mq_tail q = z"
    "mq_next q z = hd (xs @ [y])" "path (mq_next q) xs y" "mq_next q y = hd (zs @ [z])" "path (mq_next q) zs z"
    "\<forall>x\<in>set xs. mq_ready q x \<and> mq_data q x \<noteq> None" "\<forall>x\<in>set (y # zs @ [z]). \<not> mq_ready q x"
    using rr by (rule ring_parts)
  have c: "m2m_contents q = map (\<lambda>v. the (mq_data q v)) xs" using m2m_contents_ring [OF rr] p(1,2) by simp
  show ?thesis
  proof (cases xs)
    case Nil
    then show ?thesis using c p assms by (simp add: m2m_pop_def)
  next
    case (Cons v vs)
    let ?q = "q\<lparr>mq_tail := v, mq_data := (mq_data q)(v := None), mq_ready := (mq_ready q)(v := False)\<rparr>"
    have d: "distinct (v # vs @ y # zs @ [z])" and all: "set (v # vs @ y # zs @ [z]) = {..<mq_nodes q}"
      using r p(1) Cons by simp_all
    have pop: "m2m_pop q = Ret (mq_data q v, ?q)" using p Cons by (simp add: m2m_pop_def)
    let ?ring = "vs @ y # (zs @ [z]) @ [v]"
    have n: "0 < n" using r by simp
    have paths: "path (mq_next q) vs y" "path (mq_next q) (zs @ [z]) v" "mq_next q v = hd (vs @ [y])"
      using p(5,6,8) Cons by (simp_all add: path_append)
    have dist: "distinct ?ring" using d by auto
    have range: "set ?ring = {..<mq_nodes ?q}" using all by auto
    have used: "\<forall>u\<in>set vs. mq_ready ?q u \<and> mq_data ?q u \<noteq> None" using p(9) Cons d by auto
    have free: "\<forall>u\<in>set (y # (zs @ [z]) @ [v]). \<not> mq_ready ?q u" using p(10) by auto
    note b = ring_build [of n ?ring vs y "zs @ [z]" v ?q]
    have "m2m_ring n ?q ?ring (length vs)"
      by (rule b(1)) (use n dist range p(3,7) paths used free in \<open>simp_all add: hd_snoc del: fun_upd_apply\<close>)
    moreover have "m2m_contents ?q = map (\<lambda>u. the (mq_data ?q u)) vs"
      by (rule b(2)) (use n dist range p(3,7) paths used free in \<open>simp_all add: hd_snoc del: fun_upd_apply\<close>)
    moreover have "map (\<lambda>u. the (mq_data ?q u)) vs = map (\<lambda>u. the (mq_data q u)) vs" using d by auto
    moreover have "mq_data q v = Some (the (mq_data q v))" using p(9) Cons by auto
    ultimately show ?thesis using pop c Cons unfolding m2m_inv_def by (intro exI [of _ ?q]) auto
  qed
qed

interpretation m2m: fifo_queue "m2m_push n True" m2m_pop m2m_contents "m2m_inv n" for n
  by unfold_locales (rule m2m_push_spec, assumption, rule m2m_pop_spec)

text \<open>A new queue is empty and well formed.\<close>

definition m2m_chain :: "'a m2m \<Rightarrow> nat \<Rightarrow> bool" where
  "m2m_chain q t \<longleftrightarrow> mq_nodes q = Suc t \<and> (\<forall>i<t. mq_next q i = Suc i) \<and> (\<forall>i\<le>t. \<not> mq_ready q i)"

lemma m2m_blocks_chain:
  "m2m_chain q t \<Longrightarrow> 0 < n \<Longrightarrow> m2m_blocks n k t q = (t', q') \<Longrightarrow> m2m_chain q' t' \<and> t \<le> t'"
proof (induction k arbitrary: t q)
  case (Suc k)
  let ?q1 = "m2m_block n q"
  let ?q2 = "?q1\<lparr>mq_next := (mq_next ?q1)(t := Suc t), mq_capacity := to_i32 (mq_capacity ?q1 + int n)\<rparr>"
  have "m2m_chain ?q2 (Suc t + n - 1)" using Suc.prems(1,2) by (auto simp: m2m_chain_def m2m_block_def)
  moreover have "m2m_blocks n k (Suc t + n - 1) ?q2 = (t', q')"
    using Suc.prems(1,3) by (simp add: m2m_chain_def Let_def)
  ultimately show ?case using Suc.IH [of ?q2 "Suc t + n - 1"] Suc.prems(2) by fastforce
qed simp

lemma m2m_new_inv:
  assumes "2 \<le> n"
  shows "m2m_inv n (m2m_new n sz :: 'a m2m) \<and> m2m_contents (m2m_new n sz :: 'a m2m) = []"
proof -
  define q1 :: "'a m2m" where "q1 = (m2m_block n \<lparr>mq_next = (\<lambda>_. 0), mq_ready = (\<lambda>_. False), mq_data = (\<lambda>_. None), mq_nodes = 0,
      mq_capacity = 0, mq_head = 0, mq_tail = 0\<rparr>)\<lparr>mq_capacity := int n\<rparr>"
  obtain t q2 where b: "m2m_blocks n ((max sz n - n + n - 1) div n) (n - 1) q1 = (t, q2)" by fastforce
  have "m2m_chain q1 (n - 1)" using assms by (auto simp: m2m_chain_def m2m_block_def q1_def)
  then have c: "m2m_chain q2 t" "n - 1 \<le> t" using m2m_blocks_chain [OF _ _ b] assms by auto
  let ?q = "q2\<lparr>mq_next := (mq_next q2)(t := 0), mq_head := 0, mq_tail := t\<rparr>"
  have new: "m2m_new n sz = ?q" using b by (simp add: m2m_new_def Let_def q1_def)
  obtain k where t: "t = Suc k" using c(2) assms by (cases t) auto
  have "path (mq_next ?q) [Suc 0..<Suc 0 + k] (Suc 0 + k)" by (rule path_upt) (use c(1) t in \<open>auto simp: m2m_chain_def\<close>)
  then have p: "path (mq_next ?q) [Suc 0..<t] t" by (simp add: t)
  have h: "mq_next ?q 0 = hd ([Suc 0..<t] @ [t])"
    using c(1) t hd_upt [of "Suc 0" k] by (simp add: m2m_chain_def)
  note r = ring_build [of n "[] @ 0 # [Suc 0..<t] @ [t]" "[]" 0 "[Suc 0..<t]" t ?q]
  have facts: "0 < n" "distinct ([] @ 0 # [Suc 0..<t] @ [t])" "set ([] @ 0 # [Suc 0..<t] @ [t]) = {..<mq_nodes ?q}"
    "\<forall>x\<in>set (0 # [Suc 0..<t] @ [t]). \<not> mq_ready ?q x"
    using assms c(1) t by (auto simp: m2m_chain_def)
  have "m2m_ring n ?q ([] @ 0 # [Suc 0..<t] @ [t]) (length ([] :: nat list))"
    by (rule r(1)) (use facts p h in simp_all)
  moreover have "m2m_contents ?q = map (\<lambda>x. the (mq_data ?q x)) []"
    by (rule r(2)) (use facts p h in simp_all)
  ultimately show ?thesis unfolding new m2m_inv_def by auto
qed

section \<open>freelock_o2o_queue\<close>

record 'a o2o =
  oq_bsize :: nat
  oq_next :: "nat \<Rightarrow> nat"
  oq_head :: "nat \<Rightarrow> nat"
  oq_ctail :: "nat \<Rightarrow> nat"
  oq_tail :: "nat \<Rightarrow> nat"
  oq_chead :: "nat \<Rightarrow> nat"
  oq_data :: "nat \<Rightarrow> nat \<Rightarrow> 'a option"
  oq_blocks :: nat
  oq_capacity :: int
  oq_blk_head :: nat
  oq_blk_tail :: nat

definition o2o_next_pos :: "'a o2o \<Rightarrow> nat \<Rightarrow> nat" where
  "o2o_next_pos q p = (p + 1) AND (oq_bsize q - 1)"

definition o2o_new :: "nat \<Rightarrow> nat \<Rightarrow> 'a o2o" where
  "o2o_new n sz =
     (let bsize = unat (ceil_to_power_of_two (of_nat n));
          count = sz div (bsize + 1) + 1
      in \<lparr>oq_bsize = bsize, oq_next = (\<lambda>b. if b + 1 < count then b + 1 else 0), oq_head = (\<lambda>_. 0), oq_ctail = (\<lambda>_. 0),
          oq_tail = (\<lambda>_. 0), oq_chead = (\<lambda>_. 0), oq_data = (\<lambda>_ _. None), oq_blocks = count,
          oq_capacity = to_i32 (int bsize * int count), oq_blk_head = 0, oq_blk_tail = 0\<rparr>)"

definition o2o_store :: "nat \<Rightarrow> nat \<Rightarrow> 'a option \<Rightarrow> 'a o2o \<Rightarrow> 'a o2o" where
  "o2o_store b p v q = q\<lparr>oq_data := (oq_data q)(b := (oq_data q b)(p := v))\<rparr>"

definition o2o_push :: "bool \<Rightarrow> 'a \<Rightarrow> 'a o2o \<Rightarrow> bool \<times> 'a o2o" where
  "o2o_push new_ok x q =
     (let blk = oq_blk_tail q;
          tail = oq_tail q blk;
          next_tail = o2o_next_pos q tail;
          q0 = (if next_tail \<noteq> oq_chead q blk then q else q\<lparr>oq_chead := (oq_chead q)(blk := oq_head q blk)\<rparr>)
      in if next_tail \<noteq> oq_chead q blk \<or> next_tail \<noteq> oq_chead q0 blk then
           (let q1 = o2o_store blk tail (Some x) q0
            in (True, q1\<lparr>oq_tail := (oq_tail q1)(blk := next_tail)\<rparr>))
         else if oq_next q0 blk \<noteq> oq_blk_head q0 then
           (let blk = oq_next q0 blk;
                q1 = q0\<lparr>oq_chead := (oq_chead q0)(blk := oq_head q0 blk)\<rparr>;
                tail = oq_chead q1 blk;
                q2 = o2o_store blk tail (Some x) q1
            in (True, q2\<lparr>oq_tail := (oq_tail q2)(blk := o2o_next_pos q2 tail), oq_blk_tail := blk\<rparr>))
         else if \<not> new_ok then (False, q0)
         else
           (let new = oq_blocks q0;
                q1 = q0\<lparr>oq_blocks := new + 1, oq_next := (oq_next q0)(new := oq_next q0 blk, blk := new),
                     oq_head := (oq_head q0)(new := 0), oq_chead := (oq_chead q0)(new := 0)\<rparr>;
                q2 = o2o_store new 0 (Some x) q1
            in (True, q2\<lparr>oq_ctail := (oq_ctail q2)(new := 1), oq_tail := (oq_tail q2)(new := 1), oq_blk_tail := new,
                 oq_capacity := to_i32 (oq_capacity q2 + int (oq_bsize q2))\<rparr>)))"

text \<open>Taking the element at the head of a block.\<close>

definition o2o_take :: "nat \<Rightarrow> nat \<Rightarrow> 'a o2o \<Rightarrow> 'a option \<times> 'a o2o" where
  "o2o_take blk head q =
     (oq_data q blk head,
      (o2o_store blk head None q)\<lparr>oq_head := (oq_head q)(blk := o2o_next_pos q head)\<rparr>)"

definition o2o_pop :: "'a o2o \<Rightarrow> 'a option \<times> 'a o2o" where
  "o2o_pop q =
     (let blk = oq_blk_head q;
          head = oq_head q blk;
          q0 = (if head \<noteq> oq_ctail q blk then q else q\<lparr>oq_ctail := (oq_ctail q)(blk := oq_tail q blk)\<rparr>)
      in if head \<noteq> oq_ctail q blk \<or> head \<noteq> oq_ctail q0 blk then o2o_take blk head q0
         else if blk \<noteq> oq_blk_tail q0 then
           (let q1 = q0\<lparr>oq_ctail := (oq_ctail q0)(blk := oq_tail q0 blk)\<rparr> in
            if head = oq_ctail q1 blk then
              (let blk = oq_next q1 blk;
                   q2 = q1\<lparr>oq_blk_head := blk\<rparr>;
                   head = oq_head q2 blk;
                   q3 = q2\<lparr>oq_ctail := (oq_ctail q2)(blk := oq_tail q2 blk)\<rparr>
               in o2o_take blk head q3)
            else o2o_take blk head q1)
         else (None, q0))"

definition o2o_empty :: "'a o2o \<Rightarrow> bool" where
  "o2o_empty q \<longleftrightarrow>
     (let blk = oq_blk_head q in oq_head q blk = oq_tail q blk \<and> blk = oq_blk_tail q)"

text \<open>The destructor: the blocks it frees, in order.\<close>

fun o2o_destroy_loop :: "nat \<Rightarrow> nat \<Rightarrow> 'a o2o \<Rightarrow> nat list" where
  "o2o_destroy_loop 0 blk q = []"
| "o2o_destroy_loop (Suc k) blk q =
     blk # (if oq_next q blk \<noteq> oq_blk_tail q then o2o_destroy_loop k (oq_next q blk) q else [])"

definition o2o_destroy :: "'a o2o \<Rightarrow> nat list" where
  "o2o_destroy q = o2o_destroy_loop (oq_blocks q) (oq_blk_head q) q"

section \<open>The blocks of a freelock_o2o_queue\<close>

text \<open>
  Positions count modulo the block size. For a proof they are taken from counters that only
  grow: \<open>H\<close> elements taken and \<open>T\<close> stored so far, and what the two ends have cached of the
  other's position, \<open>C\<close> and \<open>D\<close>.
\<close>

definition block_ok :: "'a o2o \<Rightarrow> nat \<Rightarrow> nat \<Rightarrow> nat \<Rightarrow> nat \<Rightarrow> nat \<Rightarrow> bool" where
  "block_ok q b C H D T \<longleftrightarrow>
     (let n = oq_bsize q in
      oq_head q b = H mod n \<and> oq_chead q b = C mod n \<and> oq_ctail q b = D mod n \<and> oq_tail q b = T mod n \<and>
      C \<le> H \<and> H \<le> D \<and> D \<le> T \<and> T < C + n \<and> (\<forall>j. H \<le> j \<and> j < T \<longrightarrow> oq_data q b (j mod n) \<noteq> None))"

text \<open>The number of elements in a block and the elements, from its own positions.\<close>

definition o2o_count :: "'a o2o \<Rightarrow> nat \<Rightarrow> nat" where
  "o2o_count q b = (oq_tail q b + oq_bsize q - oq_head q b) mod oq_bsize q"

definition o2o_items :: "'a o2o \<Rightarrow> nat \<Rightarrow> 'a list" where
  "o2o_items q b = map (\<lambda>i. the (oq_data q b ((oq_head q b + i) mod oq_bsize q))) [0..<o2o_count q b]"

definition block_inv :: "'a o2o \<Rightarrow> nat \<Rightarrow> bool" where
  "block_inv q b \<longleftrightarrow> (\<exists>C H D T. block_ok q b C H D T)"

lemma mod_window:
  assumes "a \<le> b" and "b \<le> a + (n :: nat)" and "0 < n"
  shows "b mod n = a mod n \<longleftrightarrow> b = a \<or> b = a + n"
proof
  assume "b mod n = a mod n"
  then have "n dvd b - a" using assms(1) by (simp add: mod_eq_dvd_iff_nat)
  then obtain k where "b - a = n * k" by (elim dvdE)
  moreover have "b - a \<le> n" using assms by simp
  ultimately have "k \<le> 1" using assms(3) by (metis mult_le_cancel1 mult.right_neutral)
  then have "k = 0 \<or> k = 1" by auto
  then show "b = a \<or> b = a + n" using \<open>b - a = n * k\<close> assms(1) by auto
qed auto

lemma block_count:
  assumes "block_ok q b C H D T"
  shows "o2o_count q b = T - H" and "T - H < oq_bsize q"
proof -
  let ?n = "oq_bsize q"
  have b: "oq_head q b = H mod ?n" "oq_tail q b = T mod ?n" "H \<le> T" "T < H + ?n"
    using assms by (auto simp: block_ok_def Let_def)
  have n: "0 < ?n" using b by simp
  define h d where "h = H mod ?n" and "d = T - H"
  have hd: "h < ?n" "d < ?n" using b n by (simp_all add: h_def d_def)
  have "T = H + d" using b by (simp add: d_def)
  then have "T mod ?n = (h + d) mod ?n" by (simp add: h_def mod_add_left_eq)
  moreover have "((h + d) mod ?n + ?n - h) mod ?n = d"
  proof (cases "h + d < ?n")
    case True
    then show ?thesis using hd by simp
  next
    case False
    then have "(h + d) mod ?n = h + d - ?n" using hd by (simp add: le_mod_geq)
    then show ?thesis using False hd by simp
  qed
  ultimately show "o2o_count q b = T - H" using b by (simp add: o2o_count_def h_def d_def)
  show "T - H < ?n" using b by linarith
qed

lemma block_items:
  assumes "block_ok q b C H D T"
  shows "o2o_items q b = map (\<lambda>j. the (oq_data q b (j mod oq_bsize q))) [H..<T]"
proof -
  have h: "oq_head q b = H mod oq_bsize q" "H \<le> T" using assms by (auto simp: block_ok_def Let_def)
  have "[H..<T] = map (\<lambda>i. H + i) [0..<T - H]" using h(2) by (intro nth_equalityI) simp_all
  then show ?thesis using block_count(1) [OF assms] h(1) by (simp add: o2o_items_def mod_add_left_eq)
qed

lemma next_pos:
  assumes "oq_bsize q = 2 ^ k"
  shows "o2o_next_pos q (T mod oq_bsize q) = Suc T mod oq_bsize q"
proof -
  have "o2o_next_pos q (T mod oq_bsize q) = take_bit k (T mod 2 ^ k + 1)"
    by (simp add: o2o_next_pos_def assms take_bit_eq_mask mask_eq_exp_minus_1)
  also have "\<dots> = Suc T mod 2 ^ k" by (simp add: take_bit_eq_mod mod_simps)
  finally show ?thesis by (simp add: assms)
qed


text \<open>A block in use, seen by its own fields: what the two ends do to it.\<close>

lemma block_cong:
  assumes "oq_bsize q' = oq_bsize q" and "oq_head q' b = oq_head q b" and "oq_tail q' b = oq_tail q b"
    and "oq_chead q' b = oq_chead q b" and "oq_ctail q' b = oq_ctail q b" and "oq_data q' b = oq_data q b"
  shows "block_inv q' b = block_inv q b" and "o2o_items q' b = o2o_items q b"
  using assms by (simp_all add: block_inv_def block_ok_def o2o_items_def o2o_count_def)

lemma items_cong:
  assumes "oq_bsize q' = oq_bsize q" and "oq_head q' b = oq_head q b" and "oq_tail q' b = oq_tail q b"
    and "oq_data q' b = oq_data q b"
  shows "o2o_items q' b = o2o_items q b"
  using assms by (simp add: o2o_items_def o2o_count_def)

lemma block_refresh_chead:
  assumes "block_inv q b"
  shows "block_inv (q\<lparr>oq_chead := (oq_chead q)(b := oq_head q b)\<rparr>) b"
proof -
  obtain C H D T where "block_ok q b C H D T" using assms by (auto simp: block_inv_def)
  then have "block_ok (q\<lparr>oq_chead := (oq_chead q)(b := oq_head q b)\<rparr>) b H H D T" by (auto simp: block_ok_def Let_def)
  then show ?thesis unfolding block_inv_def by blast
qed

lemma block_refresh_ctail:
  assumes "block_inv q b"
  shows "block_inv (q\<lparr>oq_ctail := (oq_ctail q)(b := oq_tail q b)\<rparr>) b"
proof -
  obtain C H D T where "block_ok q b C H D T" using assms by (auto simp: block_inv_def)
  then have "block_ok (q\<lparr>oq_ctail := (oq_ctail q)(b := oq_tail q b)\<rparr>) b C H T T" by (auto simp: block_ok_def Let_def)
  then show ?thesis unfolding block_inv_def by blast
qed

lemma block_empty_iff:
  assumes "block_inv q b"
  shows "o2o_items q b = [] \<longleftrightarrow> oq_head q b = oq_tail q b"
proof -
  obtain C H D T where ok: "block_ok q b C H D T" using assms by (auto simp: block_inv_def)
  then have b: "oq_head q b = H mod oq_bsize q" "oq_tail q b = T mod oq_bsize q" "H \<le> T" "T < H + oq_bsize q"
    by (auto simp: block_ok_def Let_def)
  then have "oq_tail q b = oq_head q b \<longleftrightarrow> T = H" using mod_window [of H T "oq_bsize q"] by auto
  then show ?thesis using block_items [OF ok] b(3) by auto
qed

lemma block_push:
  assumes "block_inv q b" and "oq_bsize q = 2 ^ k" and "o2o_next_pos q (oq_tail q b) \<noteq> oq_chead q b"
    and q': "oq_bsize q' = oq_bsize q" "oq_head q' b = oq_head q b" "oq_chead q' b = oq_chead q b"
      "oq_ctail q' b = oq_ctail q b" "oq_tail q' b = o2o_next_pos q (oq_tail q b)"
      "oq_data q' b = (oq_data q b)(oq_tail q b := Some x)"
  shows "block_inv q' b \<and> o2o_items q' b = o2o_items q b @ [x]"
proof -
  obtain C H D T where ok: "block_ok q b C H D T" using assms(1) by (auto simp: block_inv_def)
  let ?n = "oq_bsize q"
  have b: "oq_head q b = H mod ?n" "oq_chead q b = C mod ?n" "oq_ctail q b = D mod ?n" "oq_tail q b = T mod ?n"
    "C \<le> H" "H \<le> D" "D \<le> T" "T < C + ?n" "\<And>j. H \<le> j \<Longrightarrow> j < T \<Longrightarrow> oq_data q b (j mod ?n) \<noteq> None"
    using ok by (auto simp: block_ok_def Let_def)
  have nx: "o2o_next_pos q (oq_tail q b) = Suc T mod ?n" using next_pos [OF assms(2)] b(4) by simp
  have "Suc T \<noteq> C + ?n" using assms(3) nx b(2) by auto
  then have room: "Suc T < C + ?n" using b(8) by linarith
  have other: "j mod ?n \<noteq> T mod ?n" if "H \<le> j" "j < T" for j
  proof
    assume "j mod ?n = T mod ?n"
    then have "T = j \<or> T = j + ?n" using mod_window [of j T ?n] that b(5,8) by simp
    then show False using that b(5,8) by linarith
  qed
  have data: "oq_data q' b (j mod ?n) = (if j = T then Some x else oq_data q b (j mod ?n))"
    if "H \<le> j" "j \<le> T" for j
    using q'(6) b(4) other [of j] that by auto
  have ok': "block_ok q' b C H D (Suc T)"
    using b room q' nx data by (auto simp: block_ok_def Let_def less_Suc_eq)
  have "o2o_items q' b = map (\<lambda>j. the (oq_data q' b (j mod ?n))) [H..<Suc T]"
    using block_items [OF ok'] q'(1) by simp
  also have "\<dots> = map (\<lambda>j. the (oq_data q' b (j mod ?n))) [H..<T] @ [x]" using b(6,7) data by simp
  also have "map (\<lambda>j. the (oq_data q' b (j mod ?n))) [H..<T] = o2o_items q b"
    unfolding block_items [OF ok] by (rule map_cong) (auto simp: data)
  finally show ?thesis using ok' by (auto simp: block_inv_def)
qed

lemma block_take:
  assumes "block_inv q b" and "oq_bsize q = 2 ^ k" and "oq_head q b \<noteq> oq_ctail q b"
    and q': "oq_bsize q' = oq_bsize q" "oq_head q' b = o2o_next_pos q (oq_head q b)" "oq_chead q' b = oq_chead q b"
      "oq_ctail q' b = oq_ctail q b" "oq_tail q' b = oq_tail q b"
      "oq_data q' b = (oq_data q b)(oq_head q b := None)"
  shows "block_inv q' b \<and> o2o_items q b = the (oq_data q b (oq_head q b)) # o2o_items q' b \<and>
    oq_data q b (oq_head q b) \<noteq> None"
proof -
  obtain C H D T where ok: "block_ok q b C H D T" using assms(1) by (auto simp: block_inv_def)
  let ?n = "oq_bsize q"
  have b: "oq_head q b = H mod ?n" "oq_chead q b = C mod ?n" "oq_ctail q b = D mod ?n" "oq_tail q b = T mod ?n"
    "C \<le> H" "H \<le> D" "D \<le> T" "T < C + ?n" "\<And>j. H \<le> j \<Longrightarrow> j < T \<Longrightarrow> oq_data q b (j mod ?n) \<noteq> None"
    using ok by (auto simp: block_ok_def Let_def)
  have nx: "o2o_next_pos q (oq_head q b) = Suc H mod ?n" using next_pos [OF assms(2)] b(1) by simp
  have HD: "H < D" using assms(3) b(1,3,6) by (cases "H = D") auto
  have other: "j mod ?n \<noteq> H mod ?n" if "H < j" "j < T" for j
  proof
    assume "j mod ?n = H mod ?n"
    then have "j = H \<or> j = H + ?n" using mod_window [of H j ?n] that b(5,8) by simp
    then show False using that b(5,8) by linarith
  qed
  have data: "oq_data q' b (j mod ?n) = oq_data q b (j mod ?n)" if "Suc H \<le> j" "j < T" for j
    using q'(6) b(1) other [of j] that by auto
  have ok': "block_ok q' b C (Suc H) D T"
    using b HD q' nx data by (auto simp: block_ok_def Let_def)
  have "o2o_items q b = map (\<lambda>j. the (oq_data q b (j mod ?n))) [H..<T]" by (rule block_items [OF ok])
  also have "[H..<T] = H # [Suc H..<T]" using HD b(7) by (simp add: upt_conv_Cons)
  also have "map (\<lambda>j. the (oq_data q b (j mod ?n))) \<dots> =
      the (oq_data q b (H mod ?n)) # map (\<lambda>j. the (oq_data q b (j mod ?n))) [Suc H..<T]" by simp
  also have "map (\<lambda>j. the (oq_data q b (j mod ?n))) [Suc H..<T] = o2o_items q' b"
    unfolding block_items [OF ok'] q'(1) by (rule map_cong) (auto simp: data)
  finally show ?thesis using ok' b HD by (auto simp: block_inv_def)
qed


section \<open>The ring of blocks\<close>

text \<open>
  The blocks form one ring: first those from the head block to the tail block (\<open>front\<close>), then
  the ones in reserve (\<open>back\<close>), which are empty. Only the head block of the front may be
  empty.
\<close>

definition o2o_ring :: "'a o2o \<Rightarrow> nat list \<Rightarrow> nat list \<Rightarrow> bool" where
  "o2o_ring q front back \<longleftrightarrow>
     (\<exists>k>0. oq_bsize q = 2 ^ k) \<and> distinct (front @ back) \<and> set (front @ back) = {..<oq_blocks q} \<and> front \<noteq> [] \<and>
     path (oq_next q) (front @ back) (hd front) \<and> oq_blk_head q = hd front \<and> oq_blk_tail q = last front \<and>
     (\<forall>b<oq_blocks q. block_inv q b) \<and> (\<forall>b\<in>set (tl front). oq_head q b \<noteq> oq_tail q b) \<and>
     (\<forall>b\<in>set back. oq_head q b = oq_tail q b)"

definition o2o_inv :: "'a o2o \<Rightarrow> bool" where
  "o2o_inv q \<longleftrightarrow> (\<exists>front back. o2o_ring q front back)"

text \<open>The elements in order, following the links from the head block to the tail block.\<close>

fun o2o_walk :: "nat \<Rightarrow> nat \<Rightarrow> 'a o2o \<Rightarrow> 'a list" where
  "o2o_walk 0 b q = []"
| "o2o_walk (Suc k) b q =
     o2o_items q b @ (if b = oq_blk_tail q then [] else o2o_walk k (oq_next q b) q)"

definition o2o_contents :: "'a o2o \<Rightarrow> 'a list" where
  "o2o_contents q = o2o_walk (oq_blocks q) (oq_blk_head q) q"

lemma o2o_walk_path:
  assumes "front \<noteq> []" and "distinct front" and "path (oq_next q) front e" and "oq_blk_tail q = last front"
    and "length front \<le> k"
  shows "o2o_walk k (hd front) q = concat (map (o2o_items q) front)"
  using assms
proof (induction front arbitrary: k)
  case (Cons b bs)
  obtain j where k: "k = Suc j" using Cons.prems(5) by (cases k) auto
  show ?case
  proof (cases bs)
    case Nil
    then show ?thesis using Cons.prems k by simp
  next
    case (Cons c cs)
    then have "b \<noteq> oq_blk_tail q" "oq_next q b = hd bs" using Cons.prems by (auto simp: hd_append)
    then show ?thesis using Cons.IH [of j] Cons.prems k Cons by simp
  qed
qed simp

lemma o2o_contents_ring:
  assumes "o2o_ring q front back"
  shows "o2o_contents q = concat (map (o2o_items q) front)"
proof -
  note r = assms [unfolded o2o_ring_def]
  have "length (front @ back) = oq_blocks q" using distinct_card [of "front @ back"] r by simp
  then have "length front \<le> oq_blocks q" by simp
  moreover have "path (oq_next q) front (hd (back @ [hd front]))" "distinct front" using r by (simp_all add: path_append)
  ultimately show ?thesis using o2o_walk_path [of front q _ "oq_blocks q"] r by (simp add: o2o_contents_def)
qed

text \<open>What the steps leave alone: everything but the fields of one block and the two ends.\<close>

definition o2o_frame :: "'a o2o \<Rightarrow> 'a o2o \<Rightarrow> nat \<Rightarrow> bool" where
  "o2o_frame q q' b \<longleftrightarrow>
     oq_bsize q' = oq_bsize q \<and> oq_blocks q' = oq_blocks q \<and> oq_next q' = oq_next q \<and>
     (\<forall>c. c \<noteq> b \<longrightarrow> oq_head q' c = oq_head q c \<and> oq_tail q' c = oq_tail q c \<and> oq_chead q' c = oq_chead q c \<and>
       oq_ctail q' c = oq_ctail q c \<and> oq_data q' c = oq_data q c)"

lemma frame_block:
  assumes "o2o_frame q q' b" and "c \<noteq> b"
  shows "block_inv q' c = block_inv q c" and "o2o_items q' c = o2o_items q c"
    and "oq_head q' c = oq_head q c" and "oq_tail q' c = oq_tail q c"
  using assms block_cong [of q' q c] by (simp_all add: o2o_frame_def)

lemma frame_items: "o2o_frame q q' b \<Longrightarrow> b \<notin> set cs \<Longrightarrow> map (o2o_items q') cs = map (o2o_items q) cs"
  by (rule map_cong) (auto intro: frame_block(2))

lemma ring_frame:
  assumes "o2o_ring q front back" and "o2o_frame q q' b" and "block_inv q' b"
    and "front' @ back' = front @ back" "front' \<noteq> []" "hd front' = hd front"
    and "oq_blk_head q' = hd front'" and "oq_blk_tail q' = last front'"
    and "\<forall>b\<in>set (tl front'). oq_head q' b \<noteq> oq_tail q' b" and "\<forall>b\<in>set back'. oq_head q' b = oq_tail q' b"
  shows "o2o_ring q' front' back'"
proof -
  note r = assms(1) [unfolded o2o_ring_def]
  have same: "oq_bsize q' = oq_bsize q" "oq_blocks q' = oq_blocks q" "oq_next q' = oq_next q"
    using assms(2) by (simp_all add: o2o_frame_def)
  have "\<forall>c<oq_blocks q. block_inv q' c"
    using frame_block(1) [OF assms(2)] assms(3) r by (metis)
  then show ?thesis unfolding o2o_ring_def assms(4,6) same using r assms(5-) by simp
qed

lemma ring_refresh:
  assumes "o2o_ring q front back" and "o2o_frame q q' b" and "block_inv q' b"
    and "oq_head q' b = oq_head q b" "oq_tail q' b = oq_tail q b" "oq_data q' b = oq_data q b"
    and "oq_blk_head q' = oq_blk_head q" "oq_blk_tail q' = oq_blk_tail q"
  shows "o2o_ring q' front back" and "map (o2o_items q') bs = map (o2o_items q) bs"
proof -
  have "oq_head q' c = oq_head q c" "oq_tail q' c = oq_tail q c" for c
    using frame_block(3,4) [OF assms(2), of c] assms(4,5) by (cases "c = b"; simp)+
  then show "o2o_ring q' front back"
    using assms by (intro ring_frame [OF assms(1-3)]) (auto simp: o2o_ring_def)
  have "o2o_items q' c = o2o_items q c" for c
    using frame_block(2) [OF assms(2), of c] items_cong [of q' q c] assms by (cases "c = b") (auto simp: o2o_frame_def)
  then show "map (o2o_items q') bs = map (o2o_items q) bs" by simp
qed


lemma ring_push_here:
  assumes "o2o_ring q (f @ [b]) back" and "o2o_next_pos q (oq_tail q b) \<noteq> oq_chead q b" and "o2o_frame q q' b"
    and "oq_blk_head q' = oq_blk_head q" "oq_blk_tail q' = b"
    and "oq_head q' b = oq_head q b" "oq_chead q' b = oq_chead q b"
      "oq_ctail q' b = oq_ctail q b" "oq_tail q' b = o2o_next_pos q (oq_tail q b)"
      "oq_data q' b = (oq_data q b)(oq_tail q b := Some x)"
  shows "o2o_ring q' (f @ [b]) back" and "concat (map (o2o_items q') (f @ [b])) = concat (map (o2o_items q) (f @ [b])) @ [x]"
proof -
  note r = assms(1) [unfolded o2o_ring_def]
  obtain k where k: "oq_bsize q = 2 ^ k" using r by blast
  have "block_inv q b" using r by auto
  then have p: "block_inv q' b" "o2o_items q' b = o2o_items q b @ [x]"
    using block_push [of q b k q' x] k assms(2-) by (simp_all add: o2o_frame_def)
  have ne: "oq_head q' b \<noteq> oq_tail q' b" using block_empty_iff [OF p(1)] p(2) by simp
  have f: "b \<notin> set f" "b \<notin> set back" using r by auto
  have fr: "oq_head q' c = oq_head q c \<and> oq_tail q' c = oq_tail q c" if "c \<noteq> b" for c
    using frame_block(3,4) [OF assms(3) that] by simp
  have "oq_head q' c \<noteq> oq_tail q' c" if "c \<in> set (tl (f @ [b]))" for c
    using that r ne fr [of c] by (cases "c = b") auto
  moreover have "oq_head q' c = oq_tail q' c" if "c \<in> set back" for c using that r f fr [of c] by (cases "c = b") auto
  ultimately show "o2o_ring q' (f @ [b]) back"
    using r assms(4,5) by (intro ring_frame [OF assms(1,3) p(1)]) simp_all
  show "concat (map (o2o_items q') (f @ [b])) = concat (map (o2o_items q) (f @ [b])) @ [x]"
    unfolding map_append frame_items [OF assms(3) f(1)] by (simp add: p(2))
qed

lemma ring_push_next:
  assumes "o2o_ring q front (b # back)" and "oq_chead q b = oq_head q b" and "o2o_frame q q' b"
    and "oq_blk_head q' = oq_blk_head q" "oq_blk_tail q' = b"
    and "oq_head q' b = oq_head q b" "oq_chead q' b = oq_chead q b"
      "oq_ctail q' b = oq_ctail q b" "oq_tail q' b = o2o_next_pos q (oq_tail q b)"
      "oq_data q' b = (oq_data q b)(oq_tail q b := Some x)"
  shows "o2o_ring q' (front @ [b]) back"
    and "concat (map (o2o_items q') (front @ [b])) = concat (map (o2o_items q) front) @ [x]"
proof -
  note r = assms(1) [unfolded o2o_ring_def]
  obtain k where k: "0 < k" "oq_bsize q = 2 ^ k" using r by blast
  have b: "block_inv q b" "oq_head q b = oq_tail q b" using r by auto
  then obtain C H D T where "block_ok q b C H D T" by (auto simp: block_inv_def)
  then have T: "oq_tail q b = T mod oq_bsize q" by (simp add: block_ok_def Let_def)
  have "1 < oq_bsize q" using k one_less_power [of "2 :: nat" k] by simp
  then have "Suc T mod oq_bsize q \<noteq> T mod oq_bsize q" using mod_window [of T "Suc T" "oq_bsize q"] by simp
  then have "o2o_next_pos q (oq_tail q b) \<noteq> oq_chead q b" using next_pos [OF k(2), of T] T assms(2) b(2) by simp
  then have p: "block_inv q' b" "o2o_items q' b = o2o_items q b @ [x]"
    using block_push [of q b k q' x] b k assms(3-) by (simp_all add: o2o_frame_def)
  have e: "o2o_items q b = []" using block_empty_iff [OF b(1)] b(2) by simp
  have ne: "oq_head q' b \<noteq> oq_tail q' b" using block_empty_iff [OF p(1)] p(2) by simp
  have f: "b \<notin> set front" "b \<notin> set back" "front \<noteq> []" using r by auto
  have fr: "oq_head q' c = oq_head q c \<and> oq_tail q' c = oq_tail q c" if "c \<noteq> b" for c
    using frame_block(3,4) [OF assms(3) that] by simp
  have "oq_head q' c \<noteq> oq_tail q' c" if "c \<in> set (tl (front @ [b]))" for c
    using that r ne fr [of c] f(3) by (cases "c = b") auto
  moreover have "oq_head q' c = oq_tail q' c" if "c \<in> set back" for c using that r f fr [of c] by (cases "c = b") auto
  ultimately show "o2o_ring q' (front @ [b]) back"
    using r assms(4,5) by (intro ring_frame [OF assms(1,3) p(1)]) simp_all
  show "concat (map (o2o_items q') (front @ [b])) = concat (map (o2o_items q) front) @ [x]"
    unfolding map_append frame_items [OF assms(3) f(1)] by (simp add: p(2) e)
qed


lemma ring_take:
  assumes "o2o_ring q (b # f) back" and "oq_head q b \<noteq> oq_ctail q b" and "o2o_frame q q' b"
    and "oq_blk_head q' = oq_blk_head q" "oq_blk_tail q' = oq_blk_tail q"
    and "oq_head q' b = o2o_next_pos q (oq_head q b)" "oq_chead q' b = oq_chead q b"
      "oq_ctail q' b = oq_ctail q b" "oq_tail q' b = oq_tail q b"
      "oq_data q' b = (oq_data q b)(oq_head q b := None)"
  shows "o2o_ring q' (b # f) back"
    and "\<exists>x. oq_data q b (oq_head q b) = Some x \<and>
      concat (map (o2o_items q) (b # f)) = x # concat (map (o2o_items q') (b # f))"
proof -
  note r = assms(1) [unfolded o2o_ring_def]
  obtain k where k: "oq_bsize q = 2 ^ k" using r by blast
  have "block_inv q b" using r by auto
  then have p: "block_inv q' b" "o2o_items q b = the (oq_data q b (oq_head q b)) # o2o_items q' b"
    "oq_data q b (oq_head q b) \<noteq> None"
    using block_take [of q b k q'] k assms(2-) by (simp_all add: o2o_frame_def)
  have f: "b \<notin> set f" "b \<notin> set back" using r by auto
  have fr: "oq_head q' c = oq_head q c \<and> oq_tail q' c = oq_tail q c" if "c \<noteq> b" for c
    using frame_block(3,4) [OF assms(3) that] by simp
  have "oq_head q' c \<noteq> oq_tail q' c" if "c \<in> set (tl (b # f))" for c
    using that r f fr [of c] by (cases "c = b") auto
  moreover have "oq_head q' c = oq_tail q' c" if "c \<in> set back" for c using that r f fr [of c] by (cases "c = b") auto
  ultimately show "o2o_ring q' (b # f) back"
    using r assms(4,5) by (intro ring_frame [OF assms(1,3) p(1)]) simp_all
  obtain x where x: "oq_data q b (oq_head q b) = Some x" using p(3) by blast
  have "concat (map (o2o_items q) (b # f)) = x # concat (map (o2o_items q') (b # f))"
    unfolding list.map frame_items [OF assms(3) f(1)] by (simp add: p(2) x)
  then show "\<exists>x. oq_data q b (oq_head q b) = Some x \<and>
      concat (map (o2o_items q) (b # f)) = x # concat (map (o2o_items q') (b # f))" using x by blast
qed

text \<open>The drained head block joins the reserve.\<close>

lemma ring_advance:
  assumes "o2o_ring q (b # c # f) back" and "oq_head q b = oq_tail q b"
  shows "o2o_ring (q\<lparr>oq_blk_head := c\<rparr>) (c # f) (back @ [b])" and "o2o_items q b = []"
proof -
  note r = assms(1) [unfolded o2o_ring_def]
  have same: "block_inv (q\<lparr>oq_blk_head := c\<rparr>) v = block_inv q v" for v by (rule block_cong(1)) simp_all
  have "block_inv q b" using r by auto
  then show "o2o_items q b = []" using block_empty_iff assms(2) by blast
  have "path (oq_next q) (b # (c # f) @ back) b" using r by simp
  then have p: "path (oq_next q) ((c # f) @ back) b" "oq_next q b = c" by simp_all
  have "path (oq_next q) (((c # f) @ back) @ [b]) c" using p by (simp only: path_append) simp
  then show "o2o_ring (q\<lparr>oq_blk_head := c\<rparr>) (c # f) (back @ [b])"
    unfolding o2o_ring_def using r assms(2) by (auto simp: same)
qed

text \<open>A new block behind the tail block, when none is in reserve.\<close>

lemma ring_new_block:
  assumes "o2o_ring q front []" and "new = oq_blocks q"
    and q': "oq_bsize q' = oq_bsize q" "oq_blocks q' = Suc new"
      "oq_next q' = (oq_next q)(new := oq_next q (oq_blk_tail q), oq_blk_tail q := new)"
      "oq_head q' = (oq_head q)(new := 0)" "oq_tail q' = (oq_tail q)(new := 1)"
      "oq_chead q' = (oq_chead q)(new := 0)" "oq_ctail q' = (oq_ctail q)(new := 1)"
      "oq_data q' = (oq_data q)(new := (oq_data q new)(0 := Some x))"
      "oq_blk_head q' = oq_blk_head q" "oq_blk_tail q' = new"
  shows "o2o_ring q' (front @ [new]) []"
    and "concat (map (o2o_items q') (front @ [new])) = concat (map (o2o_items q) front) @ [x]"
proof -
  note r = assms(1) [unfolded o2o_ring_def]
  obtain k where k: "0 < k" "oq_bsize q = 2 ^ k" using r by blast
  have n: "1 < oq_bsize q" using k one_less_power [of "2 :: nat" k] by simp
  have lt: "\<forall>c\<in>set front. c < new" using r assms(2) by auto
  have old: "block_inv q' c = block_inv q c" "o2o_items q' c = o2o_items q c" if "c < new" for c
    using block_cong [of q' q c] that q' by simp_all
  have ok: "block_ok q' new 0 0 1 1" using n q' by (auto simp: block_ok_def Let_def)
  then have new: "block_inv q' new" by (auto simp: block_inv_def)
  have items: "o2o_items q' new = [x]" using block_items [OF ok] q' by simp
  obtain f t where ft: "front = f @ [t]" using r by (cases front rule: rev_cases) auto
  have t: "oq_blk_tail q = t" "t < new" using r ft lt by auto
  have "path (oq_next q) f t" "oq_next q t = hd front" using r ft by (auto simp: path_append)
  moreover have "path (oq_next q') f t = path (oq_next q) f t"
    by (rule path_cong) (use r ft lt t q'(3) in auto)
  ultimately have "path (oq_next q') (front @ [new]) (hd front)"
    using q'(3) t ft by (simp add: path_append hd_append)
  moreover have "\<forall>c<Suc new. block_inv q' c" using old new r assms(2) by (auto simp: less_Suc_eq)
  moreover have "\<forall>c\<in>set (tl (front @ [new])). oq_head q' c \<noteq> oq_tail q' c"
    using r lt q' by (auto simp: tl_append split: list.splits)
  moreover have "set (front @ [new]) = {..<Suc new}" using r assms(2) by auto
  moreover have "distinct (front @ [new])" using r lt by auto
  moreover have "oq_blk_head q' = hd (front @ [new])" using r q' by simp
  ultimately show "o2o_ring q' (front @ [new]) []"
    unfolding o2o_ring_def using k q' r by (auto simp: hd_append)
  have "map (o2o_items q') front = map (o2o_items q) front" using lt old by (intro map_cong) auto
  then show "concat (map (o2o_items q') (front @ [new])) = concat (map (o2o_items q) front) @ [x]"
    by (simp only: map_append concat_append) (simp add: items)
qed


lemma ring_refresh_chead:
  assumes "o2o_ring q front back" and "b < oq_blocks q"
  defines "q' \<equiv> q\<lparr>oq_chead := (oq_chead q)(b := oq_head q b)\<rparr>"
  shows "o2o_ring q' front back" and "map (o2o_items q') bs = map (o2o_items q) bs"
proof -
  have "block_inv q b" using assms(1,2) by (simp add: o2o_ring_def)
  then have inv: "block_inv q' b" unfolding q'_def by (rule block_refresh_chead)
  have f: "o2o_frame q q' b" by (simp add: q'_def o2o_frame_def)
  show "o2o_ring q' front back" by (rule ring_refresh(1) [OF assms(1) f inv]) (simp_all add: q'_def)
  show "map (o2o_items q') bs = map (o2o_items q) bs"
    by (rule ring_refresh(2) [OF assms(1) f inv]) (simp_all add: q'_def)
qed

lemma ring_refresh_ctail:
  assumes "o2o_ring q front back" and "b < oq_blocks q"
  defines "q' \<equiv> q\<lparr>oq_ctail := (oq_ctail q)(b := oq_tail q b)\<rparr>"
  shows "o2o_ring q' front back" and "map (o2o_items q') bs = map (o2o_items q) bs"
proof -
  have "block_inv q b" using assms(1,2) by (simp add: o2o_ring_def)
  then have inv: "block_inv q' b" unfolding q'_def by (rule block_refresh_ctail)
  have f: "o2o_frame q q' b" by (simp add: q'_def o2o_frame_def)
  show "o2o_ring q' front back" by (rule ring_refresh(1) [OF assms(1) f inv]) (simp_all add: q'_def)
  show "map (o2o_items q') bs = map (o2o_items q) bs"
    by (rule ring_refresh(2) [OF assms(1) f inv]) (simp_all add: q'_def)
qed

text \<open>The three branches of a push.\<close>

lemma o2o_push_room:
  assumes "o2o_ring q front back" and "o2o_next_pos q (oq_tail q (oq_blk_tail q)) \<noteq> oq_chead q (oq_blk_tail q)"
  shows "\<exists>q'. o2o_push ok x q = (True, q') \<and> o2o_inv q' \<and> o2o_contents q' = o2o_contents q @ [x]"
proof -
  note r = assms(1) [unfolded o2o_ring_def]
  obtain f b where fb: "front = f @ [b]" using r by (cases front rule: rev_cases) auto
  have b: "oq_blk_tail q = b" using r fb by simp
  define q' where "q' = (o2o_store b (oq_tail q b) (Some x) q)\<lparr>oq_tail := (oq_tail q)(b := o2o_next_pos q (oq_tail q b))\<rparr>"
  have push: "o2o_push ok x q = (True, q')" using assms(2) b by (simp add: o2o_push_def Let_def q'_def o2o_store_def)
  have fr: "o2o_frame q q' b" by (simp add: q'_def o2o_frame_def o2o_store_def)
  have f: "oq_blk_head q' = oq_blk_head q" "oq_blk_tail q' = b" "oq_head q' b = oq_head q b" "oq_chead q' b = oq_chead q b"
      "oq_ctail q' b = oq_ctail q b" "oq_tail q' b = o2o_next_pos q (oq_tail q b)"
      "oq_data q' b = (oq_data q b)(oq_tail q b := Some x)" using b by (simp_all add: q'_def o2o_store_def)
  note p = ring_push_here [OF assms(1) [unfolded fb] assms(2) [unfolded b] fr f]
  show ?thesis
    using push p o2o_contents_ring [OF p(1)] o2o_contents_ring [OF assms(1)] fb
    by (intro exI [of _ q']) (auto simp: o2o_inv_def)
qed

lemma o2o_push_next:
  assumes "o2o_ring q front (c # back)"
  shows "\<exists>q'. (let q1 = q\<lparr>oq_chead := (oq_chead q)(c := oq_head q c)\<rparr>;
                tail = oq_chead q1 c;
                q2 = o2o_store c tail (Some x) q1
            in (True, q2\<lparr>oq_tail := (oq_tail q2)(c := o2o_next_pos q2 tail), oq_blk_tail := c\<rparr>)) = (True, q') \<and>
     o2o_inv q' \<and> o2o_contents q' = o2o_contents q @ [x]"
proof -
  note r = assms(1) [unfolded o2o_ring_def]
  define q1 where "q1 = q\<lparr>oq_chead := (oq_chead q)(c := oq_head q c)\<rparr>"
  define q' where "q' = (o2o_store c (oq_chead q1 c) (Some x) q1)\<lparr>oq_tail := (oq_tail q1)(c := o2o_next_pos q1 (oq_chead q1 c)),
      oq_blk_tail := c\<rparr>"
  have c: "c < oq_blocks q" "oq_head q c = oq_tail q c" using r by auto
  note q1 = ring_refresh_chead [OF assms(1) c(1), folded q1_def]
  have ch: "oq_chead q1 c = oq_tail q1 c" "oq_chead q1 c = oq_head q1 c" using c(2) by (simp_all add: q1_def)
  have fr: "o2o_frame q1 q' c" by (simp add: q'_def o2o_frame_def o2o_store_def)
  have f: "oq_blk_head q' = oq_blk_head q1" "oq_blk_tail q' = c" "oq_head q' c = oq_head q1 c" "oq_chead q' c = oq_chead q1 c"
      "oq_ctail q' c = oq_ctail q1 c" "oq_tail q' c = o2o_next_pos q1 (oq_tail q1 c)"
      "oq_data q' c = (oq_data q1 c)(oq_tail q1 c := Some x)" using ch(1) by (simp_all add: q'_def o2o_store_def)
  note p = ring_push_next [OF q1(1) ch(2) fr f]
  have "o2o_contents q' = o2o_contents q @ [x]"
    using p(2) q1(2) [of front] o2o_contents_ring [OF p(1)] o2o_contents_ring [OF assms(1)] by simp
  moreover have "o2o_inv q'" using p(1) by (auto simp: o2o_inv_def)
  ultimately show ?thesis
    unfolding Let_def q1_def [symmetric] by (intro exI [of _ q']) (simp add: q'_def o2o_store_def o2o_next_pos_def)
qed


lemma o2o_push_new:
  assumes "o2o_ring q front []"
  shows "\<exists>q'. (let new = oq_blocks q;
                q1 = q\<lparr>oq_blocks := new + 1, oq_next := (oq_next q)(new := oq_next q (oq_blk_tail q), oq_blk_tail q := new),
                     oq_head := (oq_head q)(new := 0), oq_chead := (oq_chead q)(new := 0)\<rparr>;
                q2 = o2o_store new 0 (Some x) q1
            in (True, q2\<lparr>oq_ctail := (oq_ctail q2)(new := 1), oq_tail := (oq_tail q2)(new := 1), oq_blk_tail := new,
                 oq_capacity := to_i32 (oq_capacity q2 + int (oq_bsize q2))\<rparr>)) = (True, q') \<and>
     o2o_inv q' \<and> o2o_contents q' = o2o_contents q @ [x]"
proof -
  define new where "new = oq_blocks q"
  define q' where "q' = q\<lparr>oq_blocks := new + 1, oq_next := (oq_next q)(new := oq_next q (oq_blk_tail q), oq_blk_tail q := new),
      oq_head := (oq_head q)(new := 0), oq_chead := (oq_chead q)(new := 0), oq_data := (oq_data q)(new := (oq_data q new)(0 := Some x)),
      oq_ctail := (oq_ctail q)(new := 1), oq_tail := (oq_tail q)(new := 1), oq_blk_tail := new,
      oq_capacity := to_i32 (oq_capacity q + int (oq_bsize q))\<rparr>"
  have f: "oq_bsize q' = oq_bsize q" "oq_blocks q' = Suc new"
      "oq_next q' = (oq_next q)(new := oq_next q (oq_blk_tail q), oq_blk_tail q := new)"
      "oq_head q' = (oq_head q)(new := 0)" "oq_tail q' = (oq_tail q)(new := 1)"
      "oq_chead q' = (oq_chead q)(new := 0)" "oq_ctail q' = (oq_ctail q)(new := 1)"
      "oq_data q' = (oq_data q)(new := (oq_data q new)(0 := Some x))"
      "oq_blk_head q' = oq_blk_head q" "oq_blk_tail q' = new" by (simp_all add: q'_def)
  note p = ring_new_block [OF assms new_def f]
  have "o2o_contents q' = o2o_contents q @ [x]"
    using p(2) o2o_contents_ring [OF p(1)] o2o_contents_ring [OF assms] by simp
  moreover have "o2o_inv q'" using p(1) by (auto simp: o2o_inv_def)
  ultimately show ?thesis
    unfolding Let_def by (intro exI [of _ q']) (simp add: q'_def new_def o2o_store_def)
qed

lemma o2o_push_full:
  assumes "o2o_ring q front back" and "o2o_next_pos q (oq_tail q (oq_blk_tail q)) = oq_chead q (oq_blk_tail q)"
    and "oq_chead q (oq_blk_tail q) = oq_head q (oq_blk_tail q)"
  shows "\<exists>q'. o2o_push True x q = (True, q') \<and> o2o_inv q' \<and> o2o_contents q' = o2o_contents q @ [x]"
proof -
  note r = assms(1) [unfolded o2o_ring_def]
  have same: "q\<lparr>oq_chead := (oq_chead q)(oq_blk_tail q := oq_head q (oq_blk_tail q))\<rparr> = q"
    using assms(3) by (simp add: fun_upd_idem)
  obtain f b where fb: "front = f @ [b]" using r by (cases front rule: rev_cases) auto
  have b: "oq_blk_tail q = b" using r fb by simp
  have nb: "oq_next q b = hd (back @ [hd front])" using r fb by (simp add: path_append hd_append split: if_splits)
  show ?thesis
  proof (cases "back")
    case Nil
    then have "oq_next q b = oq_blk_head q" using nb r by simp
    then have "o2o_push True x q = (let new = oq_blocks q;
                q1 = q\<lparr>oq_blocks := new + 1, oq_next := (oq_next q)(new := oq_next q (oq_blk_tail q), oq_blk_tail q := new),
                     oq_head := (oq_head q)(new := 0), oq_chead := (oq_chead q)(new := 0)\<rparr>;
                q2 = o2o_store new 0 (Some x) q1
            in (True, q2\<lparr>oq_ctail := (oq_ctail q2)(new := 1), oq_tail := (oq_tail q2)(new := 1), oq_blk_tail := new,
                 oq_capacity := to_i32 (oq_capacity q2 + int (oq_bsize q2))\<rparr>))"
      using assms(2,3) b same by (simp add: o2o_push_def Let_def)
    then show ?thesis using o2o_push_new [OF assms(1) [unfolded Nil], of x] by simp
  next
    case (Cons c cs)
    then have "oq_next q b = c" using nb by simp
    moreover have "hd front \<noteq> c" using r Cons by (cases front) auto
    ultimately have "o2o_push True x q = (let q1 = q\<lparr>oq_chead := (oq_chead q)(c := oq_head q c)\<rparr>;
                tail = oq_chead q1 c;
                q2 = o2o_store c tail (Some x) q1
            in (True, q2\<lparr>oq_tail := (oq_tail q2)(c := o2o_next_pos q2 tail), oq_blk_tail := c\<rparr>))"
      using assms(2,3) b same r by (simp add: o2o_push_def Let_def)
    then show ?thesis using o2o_push_next [OF assms(1) [unfolded Cons], of x] by simp
  qed
qed

lemma o2o_push_refresh:
  assumes "o2o_next_pos q (oq_tail q (oq_blk_tail q)) = oq_chead q (oq_blk_tail q)"
  shows "o2o_push ok x q = o2o_push ok x (q\<lparr>oq_chead := (oq_chead q)(oq_blk_tail q := oq_head q (oq_blk_tail q))\<rparr>)"
proof -
  have "o2o_next_pos (q\<lparr>oq_chead := v\<rparr>) p = o2o_next_pos q p" for p v by (simp add: o2o_next_pos_def)
  then show ?thesis using assms by (simp add: o2o_push_def Let_def)
qed

lemma o2o_push_spec:
  assumes "o2o_inv q"
  shows "\<exists>q'. o2o_push True x q = (True, q') \<and> o2o_inv q' \<and> o2o_contents q' = o2o_contents q @ [x]"
proof -
  obtain front bk where r: "o2o_ring q front bk" using assms by (auto simp: o2o_inv_def)
  let ?b = "oq_blk_tail q"
  show ?thesis
  proof (cases "o2o_next_pos q (oq_tail q ?b) = oq_chead q ?b")
    case False
    then show ?thesis using o2o_push_room [OF r] by blast
  next
    case True
    define q0 where "q0 = q\<lparr>oq_chead := (oq_chead q)(?b := oq_head q ?b)\<rparr>"
    have push: "o2o_push True x q = o2o_push True x q0" unfolding q0_def by (rule o2o_push_refresh [OF True])
    have "?b < oq_blocks q" using r by (auto simp: o2o_ring_def)
    note r0 = ring_refresh_chead [OF r this, folded q0_def]
    have c: "o2o_contents q0 = o2o_contents q"
      using o2o_contents_ring [OF r] o2o_contents_ring [OF r0(1)] r0(2) [of front] by simp
    have ch: "oq_chead q0 (oq_blk_tail q0) = oq_head q0 (oq_blk_tail q0)" by (simp add: q0_def)
    show ?thesis
      using o2o_push_room [OF r0(1), of True x] o2o_push_full [OF r0(1) _ ch, of x] push c by metis
  qed
qed


text \<open>The branches of a pop.\<close>

lemma o2o_take_ring:
  assumes "o2o_ring q (b # f) bk" and "oq_head q b \<noteq> oq_ctail q b"
  shows "\<exists>y q'. o2o_take b (oq_head q b) q = (Some y, q') \<and> o2o_inv q' \<and> o2o_contents q = y # o2o_contents q'"
proof -
  define q' where "q' = (o2o_store b (oq_head q b) None q)\<lparr>oq_head := (oq_head q)(b := o2o_next_pos q (oq_head q b))\<rparr>"
  have fr: "o2o_frame q q' b" by (simp add: q'_def o2o_frame_def o2o_store_def)
  have f: "oq_blk_head q' = oq_blk_head q" "oq_blk_tail q' = oq_blk_tail q"
      "oq_head q' b = o2o_next_pos q (oq_head q b)" "oq_chead q' b = oq_chead q b"
      "oq_ctail q' b = oq_ctail q b" "oq_tail q' b = oq_tail q b"
      "oq_data q' b = (oq_data q b)(oq_head q b := None)" by (simp_all add: q'_def o2o_store_def)
  note p = ring_take [OF assms(1,2) fr f]
  obtain y where "oq_data q b (oq_head q b) = Some y"
    "concat (map (o2o_items q) (b # f)) = y # concat (map (o2o_items q') (b # f))" using p(2) by blast
  then have "o2o_take b (oq_head q b) q = (Some y, q') \<and> o2o_inv q' \<and> o2o_contents q = y # o2o_contents q'"
    using o2o_contents_ring [OF p(1)] o2o_contents_ring [OF assms(1)] p(1)
    by (auto simp: o2o_take_def q'_def o2o_inv_def)
  then show ?thesis by blast
qed

lemma o2o_pop_here:
  assumes "o2o_ring q front bk" and "oq_head q (oq_blk_head q) \<noteq> oq_ctail q (oq_blk_head q)"
  shows "\<exists>y q'. o2o_pop q = (Some y, q') \<and> o2o_inv q' \<and> o2o_contents q = y # o2o_contents q'"
proof -
  obtain f where f: "front = oq_blk_head q # f" using assms(1) by (cases front) (auto simp: o2o_ring_def)
  have "o2o_pop q = o2o_take (oq_blk_head q) (oq_head q (oq_blk_head q)) q"
    using assms(2) by (simp add: o2o_pop_def Let_def)
  then show ?thesis using o2o_take_ring [OF assms(1) [unfolded f] assms(2)] by simp
qed

lemma o2o_pop_refresh:
  assumes "oq_head q (oq_blk_head q) = oq_ctail q (oq_blk_head q)"
  shows "o2o_pop q = o2o_pop (q\<lparr>oq_ctail := (oq_ctail q)(oq_blk_head q := oq_tail q (oq_blk_head q))\<rparr>)"
  using assms by (simp add: o2o_pop_def Let_def fun_upd_idem)

lemma o2o_pop_drained:
  assumes "o2o_ring q front bk" and "oq_head q (oq_blk_head q) = oq_ctail q (oq_blk_head q)"
    and "oq_ctail q (oq_blk_head q) = oq_tail q (oq_blk_head q)"
  shows "(o2o_pop q = (None, q) \<and> o2o_contents q = []) \<or>
    (\<exists>y q'. o2o_pop q = (Some y, q') \<and> o2o_inv q' \<and> o2o_contents q = y # o2o_contents q')"
proof -
  note r = assms(1) [unfolded o2o_ring_def]
  define b where "b = oq_blk_head q"
  obtain f where f: "front = b # f" using r by (cases front) (auto simp: b_def)
  have same: "q\<lparr>oq_ctail := (oq_ctail q)(b := oq_tail q b)\<rparr> = q" using assms(3) by (simp add: b_def fun_upd_idem)
  have inv: "block_inv q b" using r f by auto
  have e: "oq_head q b = oq_ctail q b" "oq_head q b = oq_tail q b" using assms(2,3) by (simp_all add: b_def)
  have bh: "oq_blk_head q = b" "oq_blk_tail q = last front" using r by (simp_all add: b_def)
  have none: "o2o_items q b = []" using block_empty_iff [OF inv] e by simp
  show ?thesis
  proof (cases f)
    case Nil
    then have "o2o_pop q = (None, q)" using e bh f same by (simp add: o2o_pop_def)
    moreover have "o2o_contents q = []" using o2o_contents_ring [OF assms(1)] f Nil none by simp
    ultimately show ?thesis by blast
  next
    case (Cons c cs)
    define q2 where "q2 = q\<lparr>oq_blk_head := c\<rparr>"
    have r': "o2o_ring q (b # c # cs) bk" using assms(1) f Cons by simp
    have adv: "o2o_ring q2 (c # cs) (bk @ [b])" unfolding q2_def by (rule ring_advance(1) [OF r' e(2)])
    define q3 where "q3 = q2\<lparr>oq_ctail := (oq_ctail q2)(c := oq_tail q2 c)\<rparr>"
    have "c < oq_blocks q2" using adv by (auto simp: o2o_ring_def)
    note r3 = ring_refresh_ctail [OF adv this, folded q3_def]
    have "oq_head q c \<noteq> oq_tail q c" using r f Cons by simp
    then have ne: "oq_head q3 c \<noteq> oq_ctail q3 c" by (simp add: q3_def q2_def)
    have "b \<noteq> oq_blk_tail q" "oq_next q b = c" using r f Cons by auto
    then have "o2o_pop q = o2o_take c (oq_head q3 c) q3"
      using e same bh(1) by (simp add: o2o_pop_def q3_def q2_def)
    moreover have "o2o_items q2 = o2o_items q" by (rule ext) (rule items_cong; simp add: q2_def)
    then have "o2o_contents q3 = o2o_contents q"
      using o2o_contents_ring [OF r3(1)] o2o_contents_ring [OF r'] arg_cong [OF r3(2) [of "c # cs"], of concat] none
      by simp
    ultimately show ?thesis using o2o_take_ring [OF r3(1) ne] by simp
  qed
qed

lemma o2o_pop_cases:
  assumes "o2o_inv q"
  shows "(\<exists>q'. o2o_pop q = (None, q') \<and> o2o_inv q' \<and> o2o_contents q = [] \<and> o2o_contents q' = []) \<or>
    (\<exists>y q'. o2o_pop q = (Some y, q') \<and> o2o_inv q' \<and> o2o_contents q = y # o2o_contents q')"
proof -
  obtain front bk where r: "o2o_ring q front bk" using assms by (auto simp: o2o_inv_def)
  let ?b = "oq_blk_head q"
  show ?thesis
  proof (cases "oq_head q ?b = oq_ctail q ?b")
    case False
    then show ?thesis using o2o_pop_here [OF r] by blast
  next
    case True
    define q0 where "q0 = q\<lparr>oq_ctail := (oq_ctail q)(?b := oq_tail q ?b)\<rparr>"
    have pop: "o2o_pop q = o2o_pop q0" unfolding q0_def by (rule o2o_pop_refresh [OF True])
    have "?b < oq_blocks q" using r by (auto simp: o2o_ring_def)
    note r0 = ring_refresh_ctail [OF r this, folded q0_def]
    have c: "o2o_contents q0 = o2o_contents q"
      using o2o_contents_ring [OF r] o2o_contents_ring [OF r0(1)] r0(2) [of front] by simp
    have ct: "oq_ctail q0 (oq_blk_head q0) = oq_tail q0 (oq_blk_head q0)" by (simp add: q0_def)
    have inv: "o2o_inv q0" using r0(1) by (auto simp: o2o_inv_def)
    show ?thesis
    proof (cases "oq_head q0 (oq_blk_head q0) = oq_ctail q0 (oq_blk_head q0)")
      case True
      then show ?thesis using o2o_pop_drained [OF r0(1) True ct] pop c inv by auto
    next
      case False
      then show ?thesis using o2o_pop_here [OF r0(1) False] pop c by simp
    qed
  qed
qed

text \<open>The single threaded queue as an operation that always returns.\<close>

definition o2o_push_op :: "'a \<Rightarrow> 'a o2o \<Rightarrow> (bool \<times> 'a o2o) wait" where
  "o2o_push_op x q = Ret (o2o_push True x q)"

definition o2o_pop_op :: "'a o2o \<Rightarrow> ('a option \<times> 'a o2o) wait" where
  "o2o_pop_op q = Ret (o2o_pop q)"

interpretation o2o: fifo_queue o2o_push_op o2o_pop_op o2o_contents o2o_inv
proof unfold_locales
  fix q :: "'a o2o" and x
  assume q: "o2o_inv q"
  show "\<exists>q'. o2o_push_op x q = Ret (True, q') \<and> o2o_inv q' \<and> o2o_contents q' = o2o_contents q @ [x]"
    using o2o_push_spec [OF q, of x] by (auto simp: o2o_push_op_def)
  show "\<exists>q'. o2o_pop_op q = Ret (case o2o_contents q of [] \<Rightarrow> None | x # _ \<Rightarrow> Some x, q') \<and> o2o_inv q' \<and>
      o2o_contents q' = tl (o2o_contents q)"
    using o2o_pop_cases [OF q] by (auto simp: o2o_pop_op_def)
qed


text \<open>A new queue is empty and well formed.\<close>

lemma path_upt_last:
  "(\<And>i. a \<le> i \<Longrightarrow> i < a + n \<Longrightarrow> nxt i = i + 1) \<Longrightarrow> nxt (a + n) = e \<Longrightarrow> path nxt [a..<a + Suc n] e"
  using path_upt [of a n nxt] by (simp add: path_append)

lemma o2o_new_ring:
  assumes "unat (ceil_to_power_of_two (of_nat n :: 32 word)) = 2 ^ k" and "0 < k"
  shows "\<exists>bk. o2o_ring (o2o_new n sz :: 'a o2o) [0] bk"
proof -
  let ?q = "o2o_new n sz :: 'a o2o"
  define c where "c = sz div (2 ^ k + 1)"
  have q: "oq_bsize ?q = 2 ^ k" "oq_blocks ?q = Suc c" "oq_head ?q = (\<lambda>_. 0)" "oq_tail ?q = (\<lambda>_. 0)" "oq_blk_head ?q = 0"
    "oq_blk_tail ?q = 0" "oq_next ?q = (\<lambda>b. if b + 1 < Suc c then b + 1 else 0)"
    using assms(1) by (simp_all add: o2o_new_def Let_def c_def)
  have "block_ok ?q b 0 0 0 0" for b using q assms(1) by (simp add: block_ok_def o2o_new_def Let_def)
  then have inv: "block_inv ?q b" for b unfolding block_inv_def by blast
  have "path (oq_next ?q) [0..<0 + Suc c] 0" by (rule path_upt_last) (simp_all add: q)
  moreover have "[0..<0 + Suc c] = [0] @ [1..<Suc c]" by (simp add: upt_conv_Cons del: upt_Suc)
  ultimately have "path (oq_next ?q) ([0] @ [1..<Suc c]) 0" by (simp only:)
  then have "o2o_ring ?q [0] [1..<Suc c]" using q inv assms(2) by (auto simp: o2o_ring_def)
  then show ?thesis by blast
qed

section \<open>freelock_queue\<close>

text \<open>
  A queue and the count of its \<open>light_semaphore\<close>: with one step at a time no thread waits for
  the semaphore, so its count is the number of elements enqueued and not yet dequeued. A
  template over the queue: the two operations are arguments.
\<close>

record 'q fq =
  fq_queue :: 'q
  fq_count :: int

definition fq_enqueue :: "('a \<Rightarrow> 'q \<Rightarrow> (bool \<times> 'q) wait) \<Rightarrow> 'a \<Rightarrow> 'q fq \<Rightarrow> (bool \<times> 'q fq) wait" where
  "fq_enqueue push x f =
     (case push x (fq_queue f) of
        Spins \<Rightarrow> Spins
      | Ret (ok, q) \<Rightarrow>
          Ret (if ok then (True, f\<lparr>fq_queue := q, fq_count := fq_count f + 1\<rparr>) else (False, f\<lparr>fq_queue := q\<rparr>)))"

text \<open>The loop that pops until it succeeds: with a queue that stays empty it spins.\<close>

definition fq_pop :: "('q \<Rightarrow> ('a option \<times> 'q) wait) \<Rightarrow> 'q fq \<Rightarrow> ('a \<times> 'q fq) wait" where
  "fq_pop pop f =
     (case pop (fq_queue f) of
        Spins \<Rightarrow> Spins
      | Ret (None, q) \<Rightarrow> Spins
      | Ret (Some x, q) \<Rightarrow> Ret (x, f\<lparr>fq_queue := q\<rparr>))"

definition fq_try_dequeue :: "('q \<Rightarrow> ('a option \<times> 'q) wait) \<Rightarrow> 'q fq \<Rightarrow> ('a option \<times> 'q fq) wait" where
  "fq_try_dequeue pop f =
     (if fq_count f > 0 then
        (case fq_pop pop (f\<lparr>fq_count := fq_count f - 1\<rparr>) of
           Spins \<Rightarrow> Spins
         | Ret (x, f') \<Rightarrow> Ret (Some x, f'))
      else Ret (None, f))"

text \<open>
  \<open>dequeue\<close> waits for the semaphore: alone, a thread that finds no count waits for ever, and
  with a timeout it puts the count back and returns false.
\<close>

definition fq_dequeue :: "bool \<Rightarrow> ('q \<Rightarrow> ('a option \<times> 'q) wait) \<Rightarrow> 'q fq \<Rightarrow> ('a option \<times> 'q fq) wait" where
  "fq_dequeue timed pop f =
     (if fq_count f > 0 then fq_try_dequeue pop f
      else if timed then Ret (None, f)
      else Spins)"

text \<open>A program over one queue and what its dequeues return.\<close>

datatype 'a fq_op = Enqueue 'a | Try_dequeue

fun fq_run :: "('a \<Rightarrow> 'q \<Rightarrow> (bool \<times> 'q) wait) \<Rightarrow> ('q \<Rightarrow> ('a option \<times> 'q) wait) \<Rightarrow> 'a fq_op list \<Rightarrow> 'q fq \<Rightarrow>
    'a option list wait" where
  "fq_run push pop [] f = Ret []"
| "fq_run push pop (Enqueue x # ops) f =
     (case fq_enqueue push x f of
        Spins \<Rightarrow> Spins
      | Ret (ok, f') \<Rightarrow> fq_run push pop ops f')"
| "fq_run push pop (Try_dequeue # ops) f =
     (case fq_try_dequeue pop f of
        Spins \<Rightarrow> Spins
      | Ret (r, f') \<Rightarrow>
          (case fq_run push pop ops f' of
             Spins \<Rightarrow> Spins
           | Ret rs \<Rightarrow> Ret (r # rs)))"

text \<open>The specification: a list.\<close>

fun list_run :: "'a fq_op list \<Rightarrow> 'a list \<Rightarrow> 'a option list" where
  "list_run [] xs = []"
| "list_run (Enqueue x # ops) xs = list_run ops (xs @ [x])"
| "list_run (Try_dequeue # ops) [] = None # list_run ops []"
| "list_run (Try_dequeue # ops) (x # xs) = Some x # list_run ops xs"

context fifo_queue
begin

definition fq_inv :: "'q fq \<Rightarrow> bool" where
  "fq_inv f \<longleftrightarrow> queue_inv (fq_queue f) \<and> fq_count f = int (length (contents (fq_queue f)))"

lemma enqueue_spec:
  assumes "fq_inv f"
  shows "\<exists>f'. fq_enqueue push x f = Ret (True, f') \<and> fq_inv f' \<and>
    contents (fq_queue f') = contents (fq_queue f) @ [x]"
  using assms push_law [of "fq_queue f" x] by (fastforce simp: fq_inv_def fq_enqueue_def)

lemma try_dequeue_spec:
  assumes "fq_inv f"
  shows "\<exists>f'. fq_try_dequeue pop f = Ret (case contents (fq_queue f) of [] \<Rightarrow> None | x # _ \<Rightarrow> Some x, f') \<and>
    fq_inv f' \<and> contents (fq_queue f') = tl (contents (fq_queue f))"
proof (cases "contents (fq_queue f)")
  case Nil
  then show ?thesis using assms by (simp add: fq_inv_def fq_try_dequeue_def)
next
  case (Cons y ys)
  then show ?thesis
    using assms pop_law [of "fq_queue f"] by (fastforce simp: fq_inv_def fq_try_dequeue_def fq_pop_def)
qed

text \<open>A dequeue returns exactly when there is an element or it has a timeout.\<close>

lemma dequeue_spec:
  assumes "fq_inv f"
  shows "fq_dequeue timed pop f =
    (if contents (fq_queue f) = [] \<and> \<not> timed then Spins else fq_try_dequeue pop f)"
  using assms by (auto simp: fq_inv_def fq_dequeue_def fq_try_dequeue_def)

lemma fq_run_list:
  assumes "fq_inv f"
  shows "fq_run push pop ops f = Ret (list_run ops (contents (fq_queue f)))"
  using assms
proof (induction ops arbitrary: f)
  case (Cons op ops)
  show ?case
  proof (cases op)
    case (Enqueue x)
    then show ?thesis using Cons.IH enqueue_spec [OF Cons.prems, of x] by fastforce
  next
    case Try_dequeue
    obtain f' where f': "fq_try_dequeue pop f = Ret (case contents (fq_queue f) of [] \<Rightarrow> None | x # _ \<Rightarrow> Some x, f')"
      "fq_inv f'" "contents (fq_queue f') = tl (contents (fq_queue f))"
      using try_dequeue_spec [OF Cons.prems] by blast
    show ?thesis using Cons.IH [OF f'(2)] f' Try_dequeue by (cases "contents (fq_queue f)") simp_all
  qed
qed simp

end

section \<open>The queues of the program\<close>

definition fq_new :: "'q \<Rightarrow> 'q fq" where
  "fq_new q = \<lparr>fq_queue = q, fq_count = 0\<rparr>"

lemma o2o_new_ready:
  assumes "2 \<le> n" and "n \<le> 2 ^ 30"
  shows "\<exists>bk. o2o_ring (o2o_new n sz :: 'a o2o) [0] bk \<and> o2o_items (o2o_new n sz :: 'a o2o) 0 = []"
proof -
  let ?q = "o2o_new n sz :: 'a o2o"
  have n: "unat (of_nat n :: 32 word) = n" using assms(2) by (simp add: unat_of_nat take_bit_eq_mod)
  obtain k where k: "unat (ceil_to_power_of_two (of_nat n)) = 2 ^ k" "n \<le> 2 ^ k"
    using ceil_to_power_of_two_least [of "of_nat n"] assms n by auto
  have "0 < k" using k(2) assms(1) by (cases k) auto
  then obtain bk where "o2o_ring ?q [0] bk" using o2o_new_ring [OF k(1)] by blast
  moreover have "block_ok ?q 0 0 0 0 0" using k(1) by (simp add: block_ok_def o2o_new_def Let_def)
  then have "o2o_items ?q 0 = []" using block_items by fastforce
  ultimately show ?thesis by blast
qed

text \<open>
  C25. A \<open>freelock_queue\<close> over a \<open>freelock_m2m_queue\<close> is a queue: whatever the sequence of
  enqueues and dequeues, each returns, and what the dequeues give is what a list gives, the
  growth of the ring included.
\<close>

theorem m2m_queue_is_fifo:
  fixes ops :: "'a fq_op list"
  assumes "2 \<le> n"
  shows "fq_run (m2m_push n True) m2m_pop ops (fq_new (m2m_new n sz)) = Ret (list_run ops [])"
proof -
  have "m2m_inv n (m2m_new n sz :: 'a m2m)" "m2m_contents (m2m_new n sz :: 'a m2m) = []"
    using m2m_new_inv [OF assms] by blast+
  then show ?thesis
    using m2m.fq_run_list [of n "fq_new (m2m_new n sz)" ops] by (simp add: m2m.fq_inv_def fq_new_def)
qed

theorem m2m_queue_is_fifo_witness:
  "fq_run (m2m_push 2 True) m2m_pop [Enqueue (7 :: nat), Enqueue 8, Enqueue 9, Try_dequeue] (fq_new (m2m_new 2 0)) =
    Ret [Some 7]"
  using m2m_queue_is_fifo [of 2 "[Enqueue (7 :: nat), Enqueue 8, Enqueue 9, Try_dequeue]" 0] by simp

text \<open>
  The same for a \<open>freelock_o2o_queue\<close> that is used by one thread at a time, with blocks of
  at least two elements: the ring in each block, the ring of blocks and the positions the two
  ends cache behave as one list.
\<close>

theorem o2o_queue_is_fifo:
  fixes ops :: "'a fq_op list"
  assumes "2 \<le> n" and "n \<le> 2 ^ 30"
  shows "fq_run o2o_push_op o2o_pop_op ops (fq_new (o2o_new n sz)) = Ret (list_run ops [])"
proof -
  obtain bk where r: "o2o_ring (o2o_new n sz :: 'a o2o) [0] bk" "o2o_items (o2o_new n sz :: 'a o2o) 0 = []"
    using o2o_new_ready [OF assms] by blast
  have "o2o_contents (o2o_new n sz :: 'a o2o) = []" using o2o_contents_ring [OF r(1)] r(2) by simp
  moreover have "o2o_inv (o2o_new n sz :: 'a o2o)" using r(1) by (auto simp: o2o_inv_def)
  ultimately show ?thesis
    using o2o.fq_run_list [of "fq_new (o2o_new n sz)" ops] by (simp add: o2o.fq_inv_def fq_new_def)
qed

theorem o2o_queue_is_fifo_witness:
  "fq_run o2o_push_op o2o_pop_op [Enqueue (7 :: nat), Enqueue 8, Enqueue 9, Try_dequeue] (fq_new (o2o_new 2 0)) =
    Ret [Some 7]"
  using o2o_queue_is_fifo [of 2 "[Enqueue (7 :: nat), Enqueue 8, Enqueue 9, Try_dequeue]" 0] by simp

lemma destroy_loop_path:
  "path (oq_next q) bs e \<Longrightarrow> bs \<noteq> [] \<Longrightarrow> oq_blk_tail q = e \<Longrightarrow> e \<notin> set (tl bs) \<Longrightarrow> length bs \<le> k \<Longrightarrow>
    o2o_destroy_loop k (hd bs) q = bs"
proof (induction bs arbitrary: k)
  case (Cons b bs)
  obtain j where k: "k = Suc j" using Cons.prems(5) by (cases k) auto
  show ?case
  proof (cases bs)
    case Nil
    then show ?thesis using Cons.prems k by simp
  next
    case (Cons c cs)
    have "o2o_destroy_loop j (hd bs) q = bs"
      by (rule Cons.IH) (use Cons.prems Cons k in auto)
    then show ?thesis using Cons.prems Cons k by auto
  qed
qed simp

lemma o2o_destroy_ring:
  assumes "o2o_ring q front bk"
  shows "o2o_destroy q = (if length front = 1 then front @ bk else butlast front)"
proof -
  note r = assms [unfolded o2o_ring_def]
  have len: "length (front @ bk) = oq_blocks q" using distinct_card [of "front @ bk"] r by simp
  obtain f t where ft: "front = f @ [t]" using r by (cases front rule: rev_cases) auto
  show ?thesis
  proof (cases f)
    case Nil
    then have "o2o_destroy_loop (oq_blocks q) (hd (front @ bk)) q = front @ bk"
      using r ft len by (intro destroy_loop_path [of q _ t]) auto
    then show ?thesis using r ft Nil by (simp add: o2o_destroy_def)
  next
    case (Cons b bs)
    have "path (oq_next q) f t" using r ft by (simp add: path_append)
    then have "o2o_destroy_loop (oq_blocks q) (hd f) q = f"
      using r ft len Cons by (intro destroy_loop_path [of q _ t]) auto
    then show ?thesis using r ft Cons by (simp add: o2o_destroy_def)
  qed
qed

text \<open>
  The destructor of a \<open>freelock_o2o_queue\<close> frees every block exactly once when the head
  block is the tail block; otherwise it stops in front of the tail block and leaks that block
  (with the elements in it) and every block in reserve.
\<close>

theorem o2o_destructor_frees:
  assumes "o2o_inv q"
  shows "if oq_blk_head q = oq_blk_tail q
    then distinct (o2o_destroy q) \<and> set (o2o_destroy q) = {..<oq_blocks q}
    else oq_blk_tail q < oq_blocks q \<and> oq_blk_tail q \<notin> set (o2o_destroy q)"
proof -
  obtain front bk where ring: "o2o_ring q front bk" using assms by (auto simp: o2o_inv_def)
  note r = ring [unfolded o2o_ring_def]
  obtain f t where ft: "front = f @ [t]" using r by (cases front rule: rev_cases) auto
  have "oq_blk_head q = oq_blk_tail q \<longleftrightarrow> f = []" using r ft by (cases f) auto
  then show ?thesis using r ft o2o_destroy_ring [OF ring] by auto
qed

theorem o2o_destructor_frees_witness:
  "let q = snd (o2o_push True 8 (snd (o2o_push True (7 :: nat) (o2o_new 2 0))))
   in oq_blocks q = 2 \<and> oq_blk_tail q = 1 \<and> 1 \<notin> set (o2o_destroy q)"
proof -
  define q where "q = snd (o2o_push True 8 (snd (o2o_push True (7 :: nat) (o2o_new 2 0))))"
  have c: "ceil_to_power_of_two 2 = 2" by (simp add: ceil_to_power_of_two_def smear_def)
  have "o2o_inv (o2o_new 2 0 :: nat o2o)" using o2o_new_ready [of 2 0] by (auto simp: o2o_inv_def)
  then have "o2o_inv q" unfolding q_def using o2o_push_spec by (metis snd_conv)
  moreover have f: "oq_blk_head q = 0" "oq_blk_tail q = 1" "oq_blocks q = 2"
    by (simp_all add: q_def o2o_new_def o2o_push_def o2o_store_def o2o_next_pos_def c)
  ultimately show ?thesis using o2o_destructor_frees [of q] f unfolding Let_def q_def [symmetric] by simp
qed

end
