(* ===== verification/Arr_Queue.thy ===== *)
theory Arr_Queue
  imports Queue
begin

text \<open>
  The queue over an array of fixed size (include/pump/toolkit/freelock_arr_queue.h), every
  operation as one step. The two counters are \<open>int32_t\<close> in the code; here they are 32 bit words,
  so that a counter wraps around. The outcome of waiting for another thread is \<open>Spins\<close>, an
  index outside of the nodes a \<open>Fault\<close>.
\<close>

record 'a arrq =
  aq_size :: u32
  aq_mask :: u32
  aq_nodes :: "(bool \<times> 'a option) list"
  aq_read :: u32
  aq_write :: u32

definition arrq_new :: "bool \<Rightarrow> u32 \<Rightarrow> 'a arrq run" where
  "arrq_new new_ok sz =
     (let s = ceil_to_power_of_two sz in
      if \<not> new_ok then Abort
      else Done \<lparr>aq_size = s, aq_mask = s - 1, aq_nodes = replicate (unat sz) (False, None), aq_read = 0, aq_write = 1\<rparr>)"

definition count_to_index :: "u32 \<Rightarrow> 'a arrq \<Rightarrow> nat" where
  "count_to_index count q = unat (count AND aq_mask q)"

definition arrq_push :: "'a \<Rightarrow> 'a arrq \<Rightarrow> (bool \<times> 'a arrq) wait run" where
  "arrq_push x q =
     (if aq_write q = aq_read q then Done (Ret (False, q))
      else
        let q1 = q\<lparr>aq_write := aq_write q + 1\<rparr>; i = count_to_index (aq_write q) q in
        run_bind (mem_get (aq_nodes q1) i) (\<lambda>node.
          if fst node then Done Spins
          else run_map (\<lambda>nodes. Ret (True, q1\<lparr>aq_nodes := nodes\<rparr>)) (mem_set (aq_nodes q1) i (True, Some x))))"

definition arrq_pop :: "'a arrq \<Rightarrow> ('a option \<times> 'a arrq) wait run" where
  "arrq_pop q =
     (if aq_read q + 1 = aq_write q then Done (Ret (None, q))
      else
        let q1 = q\<lparr>aq_read := aq_read q + 1\<rparr>; i = count_to_index (aq_read q + 1) q in
        run_bind (mem_get (aq_nodes q1) i) (\<lambda>node.
          if \<not> fst node then Done Spins
          else run_map (\<lambda>nodes. Ret (snd node, q1\<lparr>aq_nodes := nodes\<rparr>)) (mem_set (aq_nodes q1) i (False, None))))"

definition arrq_size :: "'a arrq \<Rightarrow> int" where
  "arrq_size q =
     (if sint (aq_write q) \<ge> sint (aq_read q) then sint (aq_write q) - sint (aq_read q)
      else to_i32 (sint (aq_size q) + sint (aq_write q) - sint (aq_read q)))"

definition arrq_empty :: "'a arrq \<Rightarrow> bool" where
  "arrq_empty q \<longleftrightarrow> arrq_size q > 0"

definition arrq_capacity :: "'a arrq \<Rightarrow> int" where
  "arrq_capacity q = sint (aq_size q)"

text \<open>The nodes whose elements the destructor destroys.\<close>

definition arrq_destroy :: "'a arrq \<Rightarrow> nat list" where
  "arrq_destroy q = map (\<lambda>i. count_to_index (word_of_int i) q) [sint (aq_read q)..sint (aq_write q) - 1]"

section \<open>What a client of a bounded queue relies on\<close>

text \<open>A sequence of operations and what the pops give, on a queue and on a list with a bound.\<close>

datatype 'a bq_op = BqPush 'a | BqPop

fun bq_run ::
  "('a \<Rightarrow> 'q \<Rightarrow> (bool \<times> 'q) wait run) \<Rightarrow> ('q \<Rightarrow> ('a option \<times> 'q) wait run) \<Rightarrow> 'a bq_op list \<Rightarrow> 'q \<Rightarrow>
    ('a option list \<times> 'q) wait run" where
  "bq_run push pop [] q = Done (Ret ([], q))"
| "bq_run push pop (BqPush x # ops) q =
     run_bind (push x q) (\<lambda>w. case w of Spins \<Rightarrow> Done Spins | Ret (ok, q1) \<Rightarrow> bq_run push pop ops q1)"
| "bq_run push pop (BqPop # ops) q =
     run_bind (pop q) (\<lambda>w. case w of
        Spins \<Rightarrow> Done Spins
      | Ret (x, q1) \<Rightarrow> run_map (map_wait (\<lambda>(xs, q2). (x # xs, q2))) (bq_run push pop ops q1))"



section \<open>The ring\<close>

text \<open>For \<open>n\<close> nodes, a power of two: the \<open>cnt\<close> elements begin at the node \<open>base\<close>.\<close>

definition arrq_count :: "'a arrq \<Rightarrow> nat" where
  "arrq_count q = unat (aq_write q - aq_read q) - 1"

definition arrq_base :: "'a arrq \<Rightarrow> nat" where
  "arrq_base q = unat (aq_read q + 1)"

definition arrq_at :: "nat \<Rightarrow> 'a arrq \<Rightarrow> nat \<Rightarrow> bool \<times> 'a option" where
  "arrq_at n q i = aq_nodes q ! ((arrq_base q + i) mod n)"

definition arrq_contents :: "nat \<Rightarrow> 'a arrq \<Rightarrow> 'a list" where
  "arrq_contents n q = map (\<lambda>i. the (snd (arrq_at n q i))) [0..<arrq_count q]"

definition arrq_inv :: "nat \<Rightarrow> 'a arrq \<Rightarrow> bool" where
  "arrq_inv n q \<longleftrightarrow> (\<exists>k \<le> 30. n = 2 ^ k) \<and> aq_mask q = of_nat n - 1 \<and> length (aq_nodes q) = n \<and>
     aq_write q \<noteq> aq_read q \<and> arrq_count q \<le> n \<and>
     (\<forall>i < n. fst (arrq_at n q i) = (i < arrq_count q)) \<and> (\<forall>i < arrq_count q. snd (arrq_at n q i) \<noteq> None)"

lemma index_mod:
  assumes "k \<le> 30" and "aq_mask q = of_nat (2 ^ k) - 1"
  shows "count_to_index c q = unat c mod 2 ^ k"
proof -
  have "aq_mask q = mask k" using assms(2) by (simp add: mask_eq_exp_minus_1)
  then have "count_to_index c q = unat (take_bit k c)" by (simp add: count_to_index_def take_bit_eq_mask)
  also have "\<dots> = take_bit k (unat c)" by (rule unsigned_take_bit_eq)
  finally show ?thesis by (simp only: take_bit_eq_mod)
qed











section \<open>The queue as a list\<close>

lemma ceil_power:
  assumes "k \<le> 30"
  shows "ceil_to_power_of_two (2 ^ k) = 2 ^ k"
proof -
  have u: "unat (2 ^ k :: u32) = 2 ^ k" using assms by (intro unat_exp) simp
  have "(2 :: nat) ^ k \<le> 2 ^ 30" using assms by (intro power_increasing) simp_all
  then obtain m where m: "unat (ceil_to_power_of_two (2 ^ k)) = 2 ^ m" "(2 :: nat) ^ k \<le> 2 ^ m" "(2 :: nat) ^ m < 2 * 2 ^ k"
    using ceil_to_power_of_two_least [of "2 ^ k"] u by auto
  have "k \<le> m" using m(2) by simp
  moreover have "m < Suc k" using m(3) power_less_imp_less_exp [of "2 :: nat" m "Suc k"] by simp
  ultimately have "m = k" by simp
  then show ?thesis using m(1) u by (simp add: word_unat_eq_iff)
qed

lemma arrq_new_inv:
  assumes "k \<le> 30" and "arrq_new True (2 ^ k) = Done q"
  shows "arrq_inv (2 ^ k) q \<and> arrq_contents (2 ^ k) q = []"
proof -
  have u: "unat (2 ^ k :: u32) = 2 ^ k" using assms(1) by (intro unat_exp) simp
  have q: "q = \<lparr>aq_size = 2 ^ k, aq_mask = 2 ^ k - 1, aq_nodes = replicate (2 ^ k) (False, None), aq_read = 0, aq_write = 1\<rparr>"
    using assms(2) u by (simp add: arrq_new_def ceil_power [OF assms(1)] Let_def)
  then show ?thesis using assms(1)
    by (auto simp: arrq_inv_def arrq_contents_def arrq_count_def arrq_at_def)
qed



text \<open>
  The queue reports one element more than it holds, and that it is empty whatever it
  holds, as long as its counters have not wrapped around.
\<close>

theorem arr_queue_misreports:
  assumes "arrq_inv n q" and "sint (aq_read q) < sint (aq_write q)"
  shows "arrq_size q = int (length (arrq_contents n q)) + 1 \<and> arrq_empty q"
proof -
  have "sint (aq_write q) - sint (aq_read q) < 2 ^ 32"
    using sint_range_size [of "aq_write q"] sint_range_size [of "aq_read q"] by (simp add: word_size)
  moreover have "uint (aq_write q - aq_read q) = (sint (aq_write q) - sint (aq_read q)) mod 2 ^ 32"
  proof -
    have m: "uint w = sint w mod 2 ^ 32" for w :: u32 using uint_sint [of w] by (simp only: take_bit_eq_mod) simp
    have "uint (aq_write q - aq_read q) = (uint (aq_write q) - uint (aq_read q)) mod 2 ^ 32"
      by (simp add: uint_word_ariths)
    then show ?thesis unfolding m [of "aq_write q"] m [of "aq_read q"] by (simp only: mod_diff_eq)
  qed
  ultimately have "int (unat (aq_write q - aq_read q)) = sint (aq_write q) - sint (aq_read q)"
    using assms(2) by simp
  then have "sint (aq_write q) - sint (aq_read q) = int (arrq_count q) + 1" unfolding arrq_count_def using assms(2) by linarith
  then show ?thesis using assms(2) by (simp add: arrq_empty_def arrq_size_def arrq_contents_def)
qed

theorem arr_queue_misreports_witness:
  "\<exists>q :: nat arrq. arrq_new True 2 = Done q \<and> arrq_size q = 1 \<and> arrq_empty q"
proof -
  obtain q :: "nat arrq" where q: "arrq_new True (2 ^ 1) = Done q" by (simp add: arrq_new_def Let_def)
  then have "sint (aq_read q) < sint (aq_write q)" by (auto simp: arrq_new_def Let_def)
  moreover have "arrq_inv (2 ^ 1) q" "arrq_contents (2 ^ 1) q = []" using arrq_new_inv [OF _ q] by simp_all
  ultimately show ?thesis using arr_queue_misreports [of "2 ^ 1" q] q by auto
qed

text \<open>The queue behind the first pushes.\<close>

definition arrq_filled :: "u32 \<Rightarrow> nat \<Rightarrow> 'a list \<Rightarrow> 'a arrq" where
  "arrq_filled s n xs =
     \<lparr>aq_size = s, aq_mask = s - 1,
      aq_nodes = (False, None) # map (\<lambda>x. (True, Some x)) xs @ replicate (n - 1 - length xs) (False, None),
      aq_read = 0, aq_write = of_nat (length xs) + 1\<rparr>"

lemma filled_index:
  assumes "k \<le> 30" and "m + 1 < 2 ^ k"
  shows "count_to_index (of_nat m + 1) (arrq_filled (2 ^ k) n xs) = m + 1"
proof -
  have "(2 :: nat) ^ k \<le> 2 ^ 30" using assms(1) by (intro power_increasing) simp_all
  then have "unat (of_nat (m + 1) :: u32) = m + 1" using assms(2) by (intro unat_of_nat_u32) simp
  then have "unat (of_nat m + 1 :: u32) = m + 1" by (simp add: add.commute)
  then show ?thesis using index_mod [OF assms(1), of "arrq_filled (2 ^ k) n xs"] assms(2)
    by (simp add: arrq_filled_def)
qed

lemma push_filled:
  assumes "k \<le> 30" and "n < 2 ^ k" and "length xs < n"
  shows "arrq_push x (arrq_filled (2 ^ k) n xs) =
    (if length xs + 1 < n then Done (Ret (True, arrq_filled (2 ^ k) n (xs @ [x]))) else Fault)"
proof -
  let ?q = "arrq_filled (2 ^ k) n xs"
  have i: "count_to_index (aq_write ?q) ?q = length xs + 1"
    using filled_index [of k "length xs" n xs] assms by (simp add: arrq_filled_def)
  have len: "length (aq_nodes ?q) = n" using assms(3) by (simp add: arrq_filled_def)
  have ne: "aq_write ?q \<noteq> aq_read ?q"
  proof
    assume "aq_write ?q = aq_read ?q"
    then have "count_to_index (aq_write ?q) ?q = 0" by (simp add: arrq_filled_def count_to_index_def)
    then show False using i by simp
  qed
  show ?thesis
  proof (cases "length xs + 1 < n")
    case True
    then obtain r where r: "n - 1 - length xs = Suc r" by (cases "n - 1 - length xs") auto
    then have "n - 1 - length (xs @ [x]) = r" by simp
    moreover have "aq_nodes ?q ! (length xs + 1) = (False, None)" using r by (simp add: arrq_filled_def nth_append)
    moreover have "(aq_nodes ?q)[length xs + 1 := (True, Some x)] =
        (False, None) # map (\<lambda>x. (True, Some x)) (xs @ [x]) @ replicate r (False, None)"
      using r by (simp add: arrq_filled_def list_update_append)
    ultimately show ?thesis using ne i len True
      by (simp add: arrq_push_def Let_def mem_get_def mem_set_def) (simp add: arrq_filled_def)
  next
    case False
    then show ?thesis using ne i len by (simp add: arrq_push_def Let_def mem_get_def)
  qed
qed

lemma push_beyond:
  "k \<le> 30 \<Longrightarrow> n < 2 ^ k \<Longrightarrow> length xs < n \<Longrightarrow> length xs + length ys = n \<Longrightarrow>
    bq_run arrq_push arrq_pop (map BqPush ys) (arrq_filled (2 ^ k) n xs) = Fault"
proof (induction ys arbitrary: xs)
  case (Cons y ys)
  show ?case
  proof (cases "length xs + 1 < n")
    case True
    then show ?thesis using Cons.IH [of "xs @ [y]"] Cons.prems push_filled [OF Cons.prems(1-3), of y] by simp
  next
    case False
    then show ?thesis using push_filled [OF Cons.prems(1-3), of y] by simp
  qed
qed simp

text \<open>
  C15. A queue whose size is not a power of two has fewer nodes than its mask lets indices be:
  the push that follows \<open>size - 1\<close> others reaches behind the array.
\<close>

theorem arr_queue_overruns:
  assumes "0 < n" and "n \<le> 2 ^ 30" and "\<forall>k. n \<noteq> 2 ^ k" and "arrq_new True (of_nat n) = Done q" and "length xs = n"
  shows "bq_run arrq_push arrq_pop (map BqPush xs) q = Fault"
proof -
  have u: "unat (of_nat n :: u32) = n" using assms(2) by (intro unat_of_nat_u32) simp
  obtain k where k: "unat (ceil_to_power_of_two (of_nat n)) = 2 ^ k" "n \<le> 2 ^ k" "2 ^ k < 2 * n"
    using ceil_to_power_of_two_least [of "of_nat n"] u assms(1,2) by auto
  have "(2 :: nat) ^ k < 2 ^ Suc 30" using k(3) assms(2) by simp
  then have k30: "k \<le> 30" using power_less_imp_less_exp [of "2 :: nat" k "Suc 30"] by simp
  then have "ceil_to_power_of_two (of_nat n) = 2 ^ k" using k(1) unat_exp [of k] by (simp add: word_unat_eq_iff)
  moreover have "n < 2 ^ k" using k(2) assms(3) by (auto simp: le_less)
  moreover have "q = arrq_filled (2 ^ k) n []"
    using assms(1,4) calculation(1) u by (cases n) (auto simp: arrq_new_def Let_def arrq_filled_def)
  ultimately show ?thesis using push_beyond [OF k30, of n "[]" xs] assms(1,5) by simp
qed

theorem arr_queue_overruns_witness:
  "\<exists>q :: nat arrq. arrq_new True 3 = Done q \<and> bq_run arrq_push arrq_pop [BqPush 1, BqPush 2, BqPush 3] q = Fault"
proof -
  obtain q :: "nat arrq" where q: "arrq_new True (of_nat 3) = Done q" by (simp add: arrq_new_def Let_def)
  have "\<forall>k. (3 :: nat) \<noteq> 2 ^ k"
  proof
    fix k show "(3 :: nat) \<noteq> 2 ^ k" by (cases k) (auto, presburger)
  qed
  from arr_queue_overruns [OF _ _ this q, of "[1, 2, 3]"] q show ?thesis by auto
qed

text \<open>The destructor of a new queue destroys an element that was never made.\<close>

lemma arrq_destroy_new: "arrq_new True 4 = Done q \<Longrightarrow> arrq_destroy q = [0]"
  by (auto simp: arrq_new_def Let_def arrq_destroy_def count_to_index_def)

end
