(* ===== verification/Locks.thy ===== *)
theory Locks
  imports Prelude
begin

text \<open>
  The locks of include/pump/toolkit and src/toolkit, with the steps of several threads
  interleaved: \<open>spin_mutex\<close> and \<open>light_semaphore\<close>. Each access to an atomic object is one
  step (memory order is not modelled: the interleavings are sequentially consistent). What a
  thread is about to do is a value of a type of program points; the threads are a list of
  them.
\<close>

section \<open>spin_mutex\<close>

record spin =
  sm_per_loop :: int
  sm_locked :: bool

text \<open>\<open>compare_exchange_strong(exp, true)\<close>: the result, \<open>exp\<close> and the mutex afterwards.\<close>

definition spin_cas :: "bool \<Rightarrow> spin \<Rightarrow> bool \<times> bool \<times> spin" where
  "spin_cas expected m =
     (if sm_locked m = expected then (True, expected, m\<lparr>sm_locked := True\<rparr>) else (False, sm_locked m, m))"

definition spin_new :: "int \<Rightarrow> spin" where
  "spin_new per_loop = \<lparr>sm_per_loop = per_loop, sm_locked = False\<rparr>"

definition spin_try_lock :: "spin \<Rightarrow> bool \<times> spin" where
  "spin_try_lock m = (let (ok, e, m') = spin_cas False m in (ok, m'))"

definition spin_unlock :: "spin \<Rightarrow> spin" where
  "spin_unlock m = m\<lparr>sm_locked := False\<rparr>"

definition spin_is_locked :: "spin \<Rightarrow> bool" where
  "spin_is_locked m = sm_locked m"

text \<open>
  Where a thread is: outside, in the loop of \<open>lock\<close> with its variables \<open>loop\<close> and \<open>exp\<close>, or
  behind a \<open>lock\<close> or \<open>try_lock\<close> that gave it the mutex.
\<close>

datatype spin_pc = Outside | Locking int bool | Inside

text \<open>One round of the loop of \<open>lock\<close>.\<close>

definition spin_lock_round :: "int \<Rightarrow> bool \<Rightarrow> spin \<Rightarrow> spin_pc \<times> spin" where
  "spin_lock_round loop expected m =
     (let (ok, e, m') = spin_cas expected m in
      if \<not> ok then (Inside, m')
      else (Locking (if loop > sm_per_loop m then 0 else loop + 1) e, m'))"

inductive spin_move :: "spin \<Rightarrow> spin_pc \<Rightarrow> spin \<Rightarrow> spin_pc \<Rightarrow> bool" where
  lock: "spin_move m Outside m (Locking 0 False)"
| lock_round: "spin_lock_round loop e m = (p, m') \<Longrightarrow> spin_move m (Locking loop e) m' p"
| try_lock: "spin_try_lock m = (ok, m') \<Longrightarrow> spin_move m Outside m' (if ok then Inside else Outside)"
| unlock: "spin_move m Inside (spin_unlock m) Outside"

text \<open>The threads that only use \<open>try_lock\<close> and \<open>unlock\<close>.\<close>

inductive spin_reach :: "(spin_pc \<Rightarrow> bool) \<Rightarrow> spin \<times> spin_pc list \<Rightarrow> bool" for allowed where
  start: "spin_reach allowed (spin_new k, replicate n Outside)"
| step: "spin_reach allowed (m, ts) \<Longrightarrow> i < length ts \<Longrightarrow> spin_move m (ts ! i) m' p \<Longrightarrow> allowed p \<Longrightarrow>
    spin_reach allowed (m', ts[i := p])"

definition holders :: "spin_pc list \<Rightarrow> nat" where
  "holders ts = sum_list (map (\<lambda>p. if p = Inside then 1 else 0) ts)"

section \<open>light_semaphore\<close>

text \<open>
  \<open>ls_tokens\<close> is the count of the kernel semaphore inside. The last two fields are not in the
  code: they count what was signalled and the waits that returned true.
\<close>

record lsem =
  ls_max_spin :: int
  ls_count :: int
  ls_tokens :: nat
  ls_signals :: int
  ls_acquired :: int

definition lsem_new :: "int \<Rightarrow> int \<Rightarrow> lsem" where
  "lsem_new max_spin init = \<lparr>ls_max_spin = max_spin, ls_count = init, ls_tokens = 0, ls_signals = init, ls_acquired = 0\<rparr>"

text \<open>
  Where a thread is: not using the semaphore; behind the load in the loop of \<open>try_wait\<close>; in
  the spinning loop, before and behind its load; asleep in the kernel semaphore; behind a
  timeout, before and behind the load in the loop that puts the count back; and a signalling
  thread with posts left to do. \<open>timeout_ns\<close> is kept where it is still needed; \<open>None\<close> is a
  \<open>try_wait\<close>.
\<close>

datatype sem_pc =
    Idle
  | Try_load "int option"
  | Try_cas "int option" int
  | Spin int int
  | Spin_cas int int int
  | Sleep int
  | Undo
  | Undo_loaded int
  | Posting int

definition acquired :: "lsem \<Rightarrow> lsem" where
  "acquired s = s\<lparr>ls_acquired := ls_acquired s + 1\<rparr>"

text \<open>\<open>signal\<close>: the addition, then the posts of the kernel semaphore.\<close>

definition sem_signal :: "int \<Rightarrow> lsem \<Rightarrow> lsem \<times> sem_pc" where
  "sem_signal c s =
     (let old = ls_count s;
          to_release = (if - old < c then - old else c);
          s' = s\<lparr>ls_count := old + c, ls_signals := ls_signals s + c\<rparr>
      in (s', if to_release > 0 then Posting to_release else Idle))"

definition sem_post :: "int \<Rightarrow> lsem \<Rightarrow> lsem \<times> sem_pc" where
  "sem_post n s = (s\<lparr>ls_tokens := ls_tokens s + 1\<rparr>, if n - 1 > 0 then Posting (n - 1) else Idle)"

text \<open>A compare-and-swap of the count.\<close>

definition count_cas :: "int \<Rightarrow> int \<Rightarrow> lsem \<Rightarrow> bool \<times> int \<times> lsem" where
  "count_cas expected new s =
     (if ls_count s = expected then (True, expected, s\<lparr>ls_count := new\<rparr>) else (False, ls_count s, s))"

text \<open>
  The loop of \<open>try_wait\<close>, with the count it read: behind a failed \<open>try_wait\<close> a wait begins to
  spin.
\<close>

definition sem_try :: "int option \<Rightarrow> int \<Rightarrow> lsem \<Rightarrow> lsem \<times> sem_pc" where
  "sem_try timeout old s =
     (if old > 0 then
        (let (ok, e, s') = count_cas old (old - 1) s in
         if ok then (acquired s', Idle) else (s', Try_cas timeout e))
      else (s, case timeout of None \<Rightarrow> Idle | Some t \<Rightarrow> Spin t (ls_max_spin s)))"

text \<open>The spinning loop, and behind it the decrement.\<close>

definition sem_spin :: "int \<Rightarrow> int \<Rightarrow> lsem \<Rightarrow> lsem \<times> sem_pc" where
  "sem_spin t spin s =
     (if spin - 1 \<ge> 0 then (s, Spin_cas t (spin - 1) (ls_count s))
      else
        (let old = ls_count s;
             s' = s\<lparr>ls_count := old - 1\<rparr>
         in if old > 0 then (acquired s', Idle) else (s', Sleep t)))"

definition sem_spin_cas :: "int \<Rightarrow> int \<Rightarrow> int \<Rightarrow> lsem \<Rightarrow> lsem \<times> sem_pc" where
  "sem_spin_cas t spin old s =
     (if old > 0 then
        (let (ok, e, s') = count_cas old (old - 1) s in
         if ok then (acquired s', Idle) else (s', Spin t spin))
      else (s, Spin t spin))"

text \<open>Behind a timeout the thread takes a token after all or puts the count back.\<close>

definition sem_undo :: "int \<Rightarrow> lsem \<Rightarrow> lsem \<times> sem_pc" where
  "sem_undo old s =
     (if old \<ge> 0 then
        (if ls_tokens s > 0 then (acquired (s\<lparr>ls_tokens := ls_tokens s - 1\<rparr>), Idle) else (s, Undo))
      else
        (let (ok, e, s') = count_cas old (old + 1) s in (s', if ok then Idle else Undo)))"

inductive sem_move :: "lsem \<Rightarrow> sem_pc \<Rightarrow> lsem \<Rightarrow> sem_pc \<Rightarrow> bool" where
  signal: "0 \<le> c \<Longrightarrow> sem_signal c s = (s', p) \<Longrightarrow> sem_move s Idle s' p"
| post: "sem_post n s = (s', p) \<Longrightarrow> sem_move s (Posting n) s' p"
| try_wait: "sem_move s Idle s (Try_load None)"
| wait: "sem_move s Idle s (Try_load (Some t))"
| try_load: "sem_move s (Try_load t) s (Try_cas t (ls_count s))"
| try_cas: "sem_try t old s = (s', p) \<Longrightarrow> sem_move s (Try_cas t old) s' p"
| spin: "sem_spin t k s = (s', p) \<Longrightarrow> sem_move s (Spin t k) s' p"
| spin_cas: "sem_spin_cas t k old s = (s', p) \<Longrightarrow> sem_move s (Spin_cas t k old) s' p"
| wake: "ls_tokens s > 0 \<Longrightarrow> sem_move s (Sleep t) (acquired (s\<lparr>ls_tokens := ls_tokens s - 1\<rparr>)) Idle"
| timeout: "0 \<le> t \<Longrightarrow> sem_move s (Sleep t) s Undo"
| undo: "sem_move s Undo s (Undo_loaded (ls_count s))"
| undo_loaded: "sem_undo old s = (s', p) \<Longrightarrow> sem_move s (Undo_loaded old) s' p"

inductive sem_reach :: "lsem \<times> sem_pc list \<Rightarrow> bool" where
  start: "0 \<le> init \<Longrightarrow> sem_reach (lsem_new k init, replicate n Idle)"
| step: "sem_reach (s, ts) \<Longrightarrow> i < length ts \<Longrightarrow> sem_move s (ts ! i) s' p \<Longrightarrow> sem_reach (s', ts[i := p])"

inductive_cases spin_moveE: "spin_move m p m' p'"
inductive_cases sem_moveE: "sem_move s p s' p'"

section \<open>Sums over the threads\<close>

lemma sum_update:
  "i < length xs \<Longrightarrow> sum_list (map f (xs[i := x])) + f (xs ! i) = sum_list (map f xs) + (f x :: 'b :: comm_monoid_add)"
proof (induction xs arbitrary: i)
  case (Cons a xs)
  show ?case
  proof (cases i)
    case (Suc j)
    then show ?thesis using Cons.IH [of j] Cons.prems by (simp add: add.assoc)
  qed (simp add: ac_simps)
qed simp

lemma le_sum_list: "x \<in> set xs \<Longrightarrow> (f x :: nat) \<le> sum_list (map f xs)"
  by (induction xs) auto

section \<open>Mutual exclusion\<close>

text \<open>A thread that only tries for the mutex holds it exactly while it is marked locked.\<close>

lemma spin_move_try:
  assumes "spin_move m p m' p'" and "p = Outside \<or> p = Inside" and "p' = Outside \<or> p' = Inside"
    and "p = Inside \<Longrightarrow> sm_locked m"
  shows "(if sm_locked m' then 1 else 0 :: nat) + (if p = Inside then 1 else 0) =
    (if sm_locked m then 1 else 0) + (if p' = Inside then 1 else 0)"
  using assms by (cases rule: spin_moveE) (auto simp: spin_try_lock_def spin_cas_def spin_unlock_def split: if_splits)

lemma try_lock_invariant:
  assumes "spin_reach (\<lambda>p. p = Outside \<or> p = Inside) s"
  shows "holders (snd s) = (if sm_locked (fst s) then 1 else 0) \<and> (\<forall>p\<in>set (snd s). p = Outside \<or> p = Inside)"
  using assms
proof induction
  case (start k n)
  then show ?case by (auto simp: spin_new_def holders_def sum_list_replicate)
next
  case (step m ts i m' p)
  have mem: "ts ! i \<in> set ts" using step.hyps by simp
  have "\<forall>q\<in>set (ts[i := p]). q = Outside \<or> q = Inside"
    using step.IH step.hyps set_update_subset_insert [of ts i p] by fastforce
  moreover have "ts ! i = Inside \<Longrightarrow> sm_locked m"
    using le_sum_list [OF mem, of "\<lambda>p. if p = Inside then 1 else 0"] step.IH
    by (auto simp: holders_def split: if_splits)
  then have "(if sm_locked m' then 1 else 0 :: nat) + (if ts ! i = Inside then 1 else 0) =
    (if sm_locked m then 1 else 0) + (if p = Inside then 1 else 0)"
    using step.IH step.hyps(4) mem by (intro spin_move_try [OF step.hyps(3)]) auto
  moreover have "holders (ts[i := p]) + (if ts ! i = Inside then 1 else 0) = holders ts + (if p = Inside then 1 else 0)"
    unfolding holders_def by (rule sum_update [OF step.hyps(2)])
  ultimately show ?case using step.IH unfolding fst_conv snd_conv by linarith
qed

text \<open>
  Threads that take a \<open>spin_mutex\<close> only with \<open>try_lock\<close> exclude each other: at any moment
  at most one is between a successful \<open>try_lock\<close> and its \<open>unlock\<close>, and exactly when the mutex
  is marked locked.
\<close>

theorem try_lock_excludes:
  assumes "spin_reach (\<lambda>p. p = Outside \<or> p = Inside) (m, ts)"
  shows "holders ts = (if spin_is_locked m then 1 else 0)"
  using try_lock_invariant [OF assms] by (simp add: spin_is_locked_def)

theorem try_lock_excludes_witness: "holders [Inside, Outside] = 1"
proof -
  have "spin_reach (\<lambda>p. p = Outside \<or> p = Inside) (spin_new 32, replicate 2 Outside)" by (rule spin_reach.start)
  then have "spin_reach (\<lambda>p. p = Outside \<or> p = Inside) (snd (spin_try_lock (spin_new 32)), (replicate 2 Outside)[0 := Inside])"
    by (rule spin_reach.step) (auto simp: numeral_2_eq_2 spin_try_lock_def spin_cas_def spin_new_def
      intro: spin_move.try_lock [of _ True, simplified])
  then show ?thesis using try_lock_excludes
    by (fastforce simp: numeral_2_eq_2 spin_try_lock_def spin_cas_def spin_new_def spin_is_locked_def)
qed

lemma lock_reaches:
  "\<exists>m. spin_reach (\<lambda>_. True) (m, replicate n Inside) \<and> (0 < n \<longrightarrow> sm_locked m)"
proof -
  define held where "held = (spin_new 32)\<lparr>sm_locked := True\<rparr>"
  have one: "spin_reach (\<lambda>_. True) (m', ts[i := p])"
    if "spin_reach (\<lambda>_. True) (m, ts)" "i < length ts" "spin_move m (ts ! i) m' p" for m ts i m' p
    by (rule spin_reach.step [OF that]) simp
  have next_one: "spin_reach (\<lambda>_. True) (held, ts[i := Inside])"
    if "spin_reach (\<lambda>_. True) (held, ts)" "i < length ts" "ts ! i = Outside" for ts i
  proof -
    have "spin_move held (ts ! i) held (Locking 0 False)" unfolding that(3) by (rule spin_move.lock)
    then have "spin_reach (\<lambda>_. True) (held, ts[i := Locking 0 False])" by (rule one [OF that(1,2)])
    moreover have "spin_move held (ts[i := Locking 0 False] ! i) held Inside"
      using that(2) by (auto intro!: spin_move.lock_round simp: spin_lock_round_def spin_cas_def held_def)
    ultimately show ?thesis using one [of held "ts[i := Locking 0 False]" i held Inside] that(2) by simp
  qed
  show ?thesis
  proof (cases n)
    case 0
    then show ?thesis using spin_reach.start [of "\<lambda>_. True" 32 0] by (intro exI [of _ "spin_new 32"]) simp
  next
    case (Suc k)
    let ?ts = "replicate n Outside"
    have "spin_reach (\<lambda>_. True) (spin_new 32, ?ts)" by (rule spin_reach.start)
    then have "spin_reach (\<lambda>_. True) (spin_new 32, ?ts[0 := Locking 0 False])"
      by (rule one) (use Suc in \<open>auto intro: spin_move.lock\<close>)
    then have "spin_reach (\<lambda>_. True) (held, ?ts[0 := Locking 0 False, 0 := Locking 1 False])"
      by (rule one) (use Suc in \<open>auto intro!: spin_move.lock_round simp: spin_lock_round_def spin_cas_def held_def spin_new_def\<close>)
    then have "spin_reach (\<lambda>_. True) (held, (?ts[0 := Locking 0 False, 0 := Locking 1 False])[0 := Inside])"
      by (rule one) (use Suc in \<open>auto intro!: spin_move.lock_round simp: spin_lock_round_def spin_cas_def held_def\<close>)
    then have first: "spin_reach (\<lambda>_. True) (held, replicate 1 Inside @ replicate k Outside)" using Suc by simp
    have "j \<le> k \<Longrightarrow> spin_reach (\<lambda>_. True) (held, replicate (Suc j) Inside @ replicate (k - j) Outside)" for j
    proof (induction j)
      case 0
      then show ?case using first by simp
    next
      case (Suc j)
      obtain r where r: "k - j = Suc r" "k - Suc j = r" using Suc.prems by (metis Suc_diff_Suc Suc_le_lessD)
      let ?us = "replicate (Suc j) Inside @ replicate (k - j) Outside"
      have "spin_reach (\<lambda>_. True) (held, ?us[Suc j := Inside])"
        by (rule next_one) (use Suc r in \<open>auto simp: nth_append\<close>)
      moreover have "?us[Suc j := Inside] = replicate (Suc (Suc j)) Inside @ replicate r Outside"
        using r(1) by (simp add: list_update_append replicate_append_same)
      ultimately show ?case using r(2) by simp
    qed
    then have "spin_reach (\<lambda>_. True) (held, replicate n Inside)" using Suc by fastforce
    then show ?thesis by (intro exI [of _ held]) (simp add: held_def)
  qed
qed

text \<open>
  \<open>lock\<close> does not exclude anybody: its loop ends when the compare-and-swap fails, which is
  when the mutex is already locked. One thread gets the mutex in two rounds and any second
  thread in one round while the first still holds it.
\<close>

theorem lock_excludes_nobody:
  "\<exists>m. spin_reach (\<lambda>_. True) (m, replicate (Suc n) Inside) \<and> spin_is_locked m"
  using lock_reaches [of "Suc n"] by (simp add: spin_is_locked_def)

section \<open>The counts of a light_semaphore\<close>

text \<open>
  A thread waits from its decrement of the count to its token or to its own increment; a
  signaller still owes the posts it has left.
\<close>

definition waiting :: "sem_pc \<Rightarrow> int" where
  "waiting p = (case p of Sleep _ \<Rightarrow> 1 | Undo \<Rightarrow> 1 | Undo_loaded _ \<Rightarrow> 1 | _ \<Rightarrow> 0)"

definition owed :: "sem_pc \<Rightarrow> int" where
  "owed p = (case p of Posting n \<Rightarrow> n | _ \<Rightarrow> 0)"

definition posting_ok :: "sem_pc \<Rightarrow> bool" where
  "posting_ok p \<longleftrightarrow> (case p of Posting n \<Rightarrow> 0 < n | _ \<Rightarrow> True)"

definition waiters :: "sem_pc list \<Rightarrow> int" where
  "waiters ts = sum_list (map waiting ts)"

definition posts_owed :: "sem_pc list \<Rightarrow> int" where
  "posts_owed ts = sum_list (map owed ts)"

definition sem_inv :: "lsem \<times> sem_pc list \<Rightarrow> bool" where
  "sem_inv st \<longleftrightarrow> (case st of (s, ts) \<Rightarrow>
     ls_signals s - ls_acquired s = ls_count s + waiters ts \<and>
     int (ls_tokens s) + posts_owed ts = waiters ts - (if ls_count s < 0 then - ls_count s else 0) \<and>
     (\<forall>p\<in>set ts. posting_ok p))"

text \<open>What every step keeps of the counts, seen from the thread that takes it.\<close>

definition keeps_counts :: "lsem \<Rightarrow> sem_pc \<Rightarrow> lsem \<Rightarrow> sem_pc \<Rightarrow> bool" where
  "keeps_counts s p s' p' \<longleftrightarrow>
     ls_signals s' - ls_acquired s' - ls_count s' - waiting p' = ls_signals s - ls_acquired s - ls_count s - waiting p \<and>
     int (ls_tokens s') + owed p' - waiting p' + (if ls_count s' < 0 then - ls_count s' else 0) =
       int (ls_tokens s) + owed p - waiting p + (if ls_count s < 0 then - ls_count s else 0) \<and>
     posting_ok p'"

lemma keeps_counts_same: "keeps_counts s p s p' \<longleftrightarrow> owed p' - waiting p' = owed p - waiting p \<and> waiting p' = waiting p \<and> posting_ok p'"
  by (auto simp: keeps_counts_def)

lemma waiting_simps [simp]:
  "waiting Idle = 0" "waiting (Try_load t) = 0" "waiting (Try_cas t old) = 0" "waiting (Spin u k) = 0"
  "waiting (Spin_cas u k old) = 0" "waiting (Sleep u) = 1" "waiting Undo = 1" "waiting (Undo_loaded old) = 1"
  "waiting (Posting n) = 0"
  by (simp_all add: waiting_def)

lemma owed_simps [simp]:
  "owed Idle = 0" "owed (Try_load t) = 0" "owed (Try_cas t old) = 0" "owed (Spin u k) = 0"
  "owed (Spin_cas u k old) = 0" "owed (Sleep u) = 0" "owed Undo = 0" "owed (Undo_loaded old) = 0"
  "owed (Posting n) = n"
  by (simp_all add: owed_def)

lemma posting_ok_simps [simp]:
  "posting_ok Idle" "posting_ok (Try_load t)" "posting_ok (Try_cas t old)" "posting_ok (Spin u k)"
  "posting_ok (Spin_cas u k old)" "posting_ok (Sleep u)" "posting_ok Undo" "posting_ok (Undo_loaded old)"
  "posting_ok (Posting n) \<longleftrightarrow> 0 < n"
  by (simp_all add: posting_ok_def)

lemma signal_counts: "0 \<le> c \<Longrightarrow> sem_signal c s = (s', p) \<Longrightarrow> keeps_counts s Idle s' p"
  unfolding sem_signal_def Let_def keeps_counts_def by (auto split: if_splits)

lemma post_counts: "0 < n \<Longrightarrow> sem_post n s = (s', p) \<Longrightarrow> keeps_counts s (Posting n) s' p"
  unfolding sem_post_def keeps_counts_def by (auto split: if_splits)

lemma try_counts: "sem_try t old s = (s', p) \<Longrightarrow> keeps_counts s (Try_cas t old) s' p"
  unfolding sem_try_def count_cas_def acquired_def keeps_counts_def by (auto split: if_splits option.splits)

lemma spin_counts: "sem_spin t k s = (s', p) \<Longrightarrow> keeps_counts s (Spin t k) s' p"
  unfolding sem_spin_def Let_def acquired_def keeps_counts_def by (auto split: if_splits)

lemma spin_cas_counts: "sem_spin_cas t k old s = (s', p) \<Longrightarrow> keeps_counts s (Spin_cas t k old) s' p"
  unfolding sem_spin_cas_def count_cas_def acquired_def keeps_counts_def by (auto split: if_splits)

lemma undo_counts: "sem_undo old s = (s', p) \<Longrightarrow> keeps_counts s (Undo_loaded old) s' p"
  unfolding sem_undo_def count_cas_def acquired_def keeps_counts_def by (auto split: if_splits)

lemma wake_counts: "0 < ls_tokens s \<Longrightarrow> keeps_counts s (Sleep t) (acquired (s\<lparr>ls_tokens := ls_tokens s - 1\<rparr>)) Idle"
  unfolding acquired_def keeps_counts_def by auto

lemma sem_move_counts:
  assumes "sem_move s p s' p'" and "posting_ok p"
  shows "keeps_counts s p s' p'"
  using assms
proof (cases rule: sem_move.cases)
  case (signal c)
  then show ?thesis using signal_counts by simp
next
  case (post n)
  then show ?thesis using post_counts assms(2) by simp
next
  case (try_cas t old)
  then show ?thesis using try_counts by simp
next
  case (spin t k)
  then show ?thesis using spin_counts by simp
next
  case (spin_cas t k old)
  then show ?thesis using spin_cas_counts by simp
next
  case (wake t)
  then show ?thesis using wake_counts by simp
next
  case (undo_loaded old)
  then show ?thesis using undo_counts by simp
qed (simp_all add: keeps_counts_same)

lemma sem_reach_inv: "sem_reach st \<Longrightarrow> sem_inv st"
proof (induction rule: sem_reach.induct)
  case (start init k n)
  then show ?case
    by (auto simp: sem_inv_def lsem_new_def waiters_def posts_owed_def sum_list_replicate waiting_def owed_def posting_ok_def)
next
  case (step s ts i s' p)
  have mem: "posting_ok (ts ! i)" using step.IH step.hyps(2) by (simp add: sem_inv_def)
  note c = sem_move_counts [OF step.hyps(3) mem, unfolded keeps_counts_def]
  have "waiters (ts[i := p]) + waiting (ts ! i) = waiters ts + waiting p"
    unfolding waiters_def by (rule sum_update [OF step.hyps(2)])
  moreover have "posts_owed (ts[i := p]) + owed (ts ! i) = posts_owed ts + owed p"
    unfolding posts_owed_def by (rule sum_update [OF step.hyps(2)])
  moreover have "\<forall>q\<in>set (ts[i := p]). posting_ok q"
    using step.IH c set_update_subset_insert [of ts i p] by (auto simp: sem_inv_def)
  ultimately show ?case using step.IH c by (simp add: sem_inv_def split: if_splits)
qed

lemma waiting_nonneg: "0 \<le> waiting p"
  by (cases p) simp_all

lemma owed_nonneg: "posting_ok p \<Longrightarrow> 0 \<le> owed p"
  by (cases p) simp_all

lemma posts_owed_nonneg: "\<forall>p\<in>set ts. posting_ok p \<Longrightarrow> 0 \<le> posts_owed ts"
  unfolding posts_owed_def by (rule sum_list_nonneg) (auto intro: owed_nonneg)

lemma waiters_pos: "p \<in> set ts \<Longrightarrow> waiting p \<le> waiters ts"
proof (induction ts)
  case (Cons t ts)
  have "0 \<le> waiters ts" for ts
    unfolding waiters_def by (rule sum_list_nonneg) (auto intro: waiting_nonneg)
  then show ?case using Cons waiting_nonneg [of t] by (auto simp: waiters_def)
qed simp

text \<open>
  C23. However the threads of a \<open>light_semaphore\<close> are interleaved, timeouts included: no more
  waits return true than were signalled, and the kernel semaphore never holds more tokens than
  threads wait for one.
\<close>

theorem semaphore_counts_signals:
  assumes "sem_reach (s, ts)"
  shows "ls_acquired s \<le> ls_signals s \<and> int (ls_tokens s) \<le> waiters ts"
proof -
  have i: "ls_signals s - ls_acquired s = ls_count s + waiters ts"
    "int (ls_tokens s) + posts_owed ts = waiters ts - (if ls_count s < 0 then - ls_count s else 0)"
    "\<forall>p\<in>set ts. posting_ok p"
    using sem_reach_inv [OF assms] by (auto simp: sem_inv_def)
  show ?thesis using i(1,2) posts_owed_nonneg [OF i(3)] by (simp split: if_splits)
qed

theorem semaphore_counts_signals_witness: "ls_acquired (lsem_new 10000 2) \<le> ls_signals (lsem_new 10000 2)"
  using semaphore_counts_signals [OF sem_reach.start [of 2 10000 3]] by simp

text \<open>
  C24. No signal is lost: while a thread sleeps in the kernel semaphore and fewer waits have
  returned true than were signalled, a token is there for it or a signalling thread is about to
  post one.
\<close>

theorem semaphore_wakes_sleepers:
  assumes "sem_reach (s, ts)" and "Sleep t \<in> set ts" and "ls_acquired s < ls_signals s"
  shows "0 < ls_tokens s \<or> (\<exists>n. Posting n \<in> set ts)"
proof (rule ccontr)
  assume none: "\<not> (0 < ls_tokens s \<or> (\<exists>n. Posting n \<in> set ts))"
  have i: "ls_signals s - ls_acquired s = ls_count s + waiters ts"
    "int (ls_tokens s) + posts_owed ts = waiters ts - (if ls_count s < 0 then - ls_count s else 0)"
    using sem_reach_inv [OF assms(1)] by (auto simp: sem_inv_def)
  have "owed p = 0" if "p \<in> set ts" for p using none that by (cases p) auto
  then have "posts_owed ts = 0" unfolding posts_owed_def by (simp add: sum_list_0 cong: map_cong)
  moreover have "1 \<le> waiters ts" using waiters_pos [OF assms(2)] by simp
  ultimately show False using i none assms(3) by (simp split: if_splits)
qed

text \<open>One thread falls asleep (with no spinning) and another one signals.\<close>

lemma semaphore_example:
  "sem_reach (\<lparr>ls_max_spin = 0, ls_count = 0, ls_tokens = 0, ls_signals = 1, ls_acquired = 0\<rparr>, [Sleep (- 1), Posting 1])"
proof -
  let ?s = "\<lambda>c sg. \<lparr>ls_max_spin = 0, ls_count = c, ls_tokens = 0, ls_signals = sg, ls_acquired = 0\<rparr>"
  have "sem_reach (lsem_new 0 0, replicate 2 Idle)" by (rule sem_reach.start) simp
  then have "sem_reach (?s 0 0, [Idle, Idle])" by (simp add: lsem_new_def numeral_2_eq_2)
  from sem_reach.step [OF this, of 0 "?s 0 0" "Try_load (Some (- 1))"]
  have "sem_reach (?s 0 0, [Try_load (Some (- 1)), Idle])" by (simp add: sem_move.wait)
  from sem_reach.step [OF this, of 0 "?s 0 0" "Try_cas (Some (- 1)) 0"]
  have "sem_reach (?s 0 0, [Try_cas (Some (- 1)) 0, Idle])" using sem_move.try_load [of "?s 0 0" "Some (- 1)"] by simp
  from sem_reach.step [OF this, of 0 "?s 0 0" "Spin (- 1) 0"]
  have "sem_reach (?s 0 0, [Spin (- 1) 0, Idle])"
    using sem_move.try_cas [of "Some (- 1)" 0 "?s 0 0" "?s 0 0" "Spin (- 1) 0"] by (simp add: sem_try_def)
  from sem_reach.step [OF this, of 0 "?s (- 1) 0" "Sleep (- 1)"]
  have "sem_reach (?s (- 1) 0, [Sleep (- 1), Idle])"
    using sem_move.spin [of "- 1" 0 "?s 0 0" "?s (- 1) 0" "Sleep (- 1)"] by (simp add: sem_spin_def)
  from sem_reach.step [OF this, of 1 "?s 0 1" "Posting 1"]
  show ?thesis using sem_move.signal [of 1 "?s (- 1) 0" "?s 0 1" "Posting 1"] by (simp add: sem_signal_def)
qed

theorem semaphore_wakes_sleepers_witness: "\<exists>n. Posting n \<in> set [Sleep (- 1), Posting 1]"
  using semaphore_wakes_sleepers [OF semaphore_example, of "- 1"] by simp

end
