(* ===== verification/Startup.thy ===== *)
theory Startup
  imports Locks
begin

text \<open>
  The initialisation of the library (src/init.cpp) on Linux with OpenSSL: \<open>init\<close> and
  \<open>uninit\<close> of several threads, interleaved at each access to the counter \<open>s_inited_count\<close>.
\<close>

section \<open>State\<close>

text \<open>What the process does when it writes to a socket that the other side has closed.\<close>

datatype disposition = SigDefault | SigIgnore

text \<open>\<open>ip_users\<close> is not in the code: the calls of \<open>init\<close> that took effect less those of \<open>uninit\<close>.\<close>

record process =
  ip_count :: int
  ip_sigpipe :: disposition
  ip_tls :: bool
  ip_users :: int

definition process_new :: process where
  "process_new = \<lparr>ip_count = 0, ip_sigpipe = SigDefault, ip_tls = False, ip_users = 0\<rparr>"

text \<open>The handler is not used: \<open>signal(sig, NULL)\<close> restores the default.\<close>

definition setup_signal :: "disposition \<Rightarrow> process \<Rightarrow> process" where
  "setup_signal handler pr = pr\<lparr>ip_sigpipe := SigDefault\<rparr>"

definition inited_cas :: "int \<Rightarrow> int \<Rightarrow> process \<Rightarrow> bool \<times> process" where
  "inited_cas expected new pr =
     (if ip_count pr = expected then (True, pr\<lparr>ip_count := new\<rparr>) else (False, pr))"

section \<open>Threads\<close>

text \<open>
  Where a thread is: outside; at the load of one of the loops and behind it, with the value it
  read; and behind the loops, before and at the store of the counter.
\<close>

datatype init_pc =
    InitIdle
  | InitLoad
  | InitLoaded int
  | InitSetup
  | InitStore
  | UninitLoad
  | UninitLoaded int
  | UninitTeardown
  | UninitStore

definition init_load :: "process \<Rightarrow> init_pc" where
  "init_load pr = (if ip_count pr = - 1 then InitIdle else InitLoaded (ip_count pr))"

definition init_loaded :: "int \<Rightarrow> process \<Rightarrow> init_pc \<times> process" where
  "init_loaded n pr =
     (if n > 0 then
        (let (ok, pr1) = inited_cas n (n + 1) pr in
         if ok then (InitIdle, pr1\<lparr>ip_users := ip_users pr1 + 1\<rparr>) else (InitLoad, pr1))
      else
        (let (ok, pr1) = inited_cas n (- 1) pr in
         if ok then (InitSetup, pr1\<lparr>ip_users := ip_users pr1 + 1\<rparr>) else (InitLoad, pr1)))"

definition init_setup :: "process \<Rightarrow> process" where
  "init_setup pr = (setup_signal SigIgnore pr)\<lparr>ip_tls := True\<rparr>"

definition init_store :: "process \<Rightarrow> process" where
  "init_store pr = pr\<lparr>ip_count := 1\<rparr>"

definition uninit_load :: "process \<Rightarrow> init_pc" where
  "uninit_load pr = (if ip_count pr \<le> 0 then InitIdle else UninitLoaded (ip_count pr))"

definition uninit_loaded :: "int \<Rightarrow> process \<Rightarrow> init_pc \<times> process" where
  "uninit_loaded n pr =
     (if n > 1 then
        (let (ok, pr1) = inited_cas n (n - 1) pr in
         if ok then (InitIdle, pr1\<lparr>ip_users := ip_users pr1 - 1\<rparr>) else (UninitLoad, pr1))
      else
        (let (ok, pr1) = inited_cas n (- 1) pr in
         if ok then (UninitTeardown, pr1\<lparr>ip_users := ip_users pr1 - 1\<rparr>) else (UninitLoad, pr1)))"

definition uninit_teardown :: "process \<Rightarrow> process" where
  "uninit_teardown pr = setup_signal SigDefault pr"

definition uninit_store :: "process \<Rightarrow> process" where
  "uninit_store pr = pr\<lparr>ip_count := 0\<rparr>"

inductive init_move :: "process \<Rightarrow> init_pc \<Rightarrow> process \<Rightarrow> init_pc \<Rightarrow> bool" where
  init: "init_move pr InitIdle pr InitLoad"
| uninit: "init_move pr InitIdle pr UninitLoad"
| init_load: "init_move pr InitLoad pr (init_load pr)"
| init_loaded: "init_loaded n pr = (p, pr') \<Longrightarrow> init_move pr (InitLoaded n) pr' p"
| init_setup: "init_move pr InitSetup (init_setup pr) InitStore"
| init_store: "init_move pr InitStore (init_store pr) InitIdle"
| uninit_load: "init_move pr UninitLoad pr (uninit_load pr)"
| uninit_loaded: "uninit_loaded n pr = (p, pr') \<Longrightarrow> init_move pr (UninitLoaded n) pr' p"
| uninit_teardown: "init_move pr UninitTeardown (uninit_teardown pr) UninitStore"
| uninit_store: "init_move pr UninitStore (uninit_store pr) InitIdle"

inductive_cases init_moveE: "init_move pr p pr' p'"

inductive init_reach :: "process \<times> init_pc list \<Rightarrow> bool" where
  start: "init_reach (process_new, replicate n InitIdle)"
| step: "init_reach (pr, ts) \<Longrightarrow> i < length ts \<Longrightarrow> init_move pr (ts ! i) pr' p \<Longrightarrow> init_reach (pr', ts[i := p])"

section \<open>The counter\<close>

text \<open>How many threads set the library up, or tear it down.\<close>

definition setting_up :: "init_pc \<Rightarrow> int" where
  "setting_up p = (if p = InitSetup \<or> p = InitStore then 1 else 0)"

definition tearing_down :: "init_pc \<Rightarrow> int" where
  "tearing_down p = (if p = UninitTeardown \<or> p = UninitStore then 1 else 0)"

definition init_total :: "(init_pc \<Rightarrow> int) \<Rightarrow> init_pc list \<Rightarrow> int" where
  "init_total f ts = sum_list (map f ts)"

text \<open>What a thread has read it read while nobody was setting up or tearing down.\<close>

definition read_ok :: "init_pc \<Rightarrow> bool" where
  "read_ok p = (case p of InitLoaded n \<Rightarrow> 0 \<le> n | UninitLoaded n \<Rightarrow> 1 \<le> n | _ \<Rightarrow> True)"

definition init_inv :: "process \<Rightarrow> init_pc list \<Rightarrow> bool" where
  "init_inv pr ts \<longleftrightarrow> - 1 \<le> ip_count pr \<and> list_all read_ok ts \<and>
     init_total setting_up ts + init_total tearing_down ts = (if ip_count pr = - 1 then 1 else 0) \<and>
     ip_users pr = (if ip_count pr = - 1 then init_total setting_up ts else ip_count pr)"

lemma init_total_update:
  "i < length ts \<Longrightarrow> init_total f (ts[i := p]) = init_total f ts + f p - f (ts ! i)"
  unfolding init_total_def using sum_update [of i ts f p] by linarith

lemma init_total_ge:
  "p \<in> set ts \<Longrightarrow> (\<And>q. 0 \<le> f q) \<Longrightarrow> f p \<le> init_total f ts"
  unfolding init_total_def
proof (induction ts)
  case (Cons q ts)
  have "0 \<le> sum_list (map f ts)" using Cons.prems(2) by (intro sum_list_nonneg) auto
  moreover have "0 \<le> f q" by (rule Cons.prems(2))
  moreover have "f p \<le> sum_list (map f ts)" if "p \<noteq> q" using Cons.IH Cons.prems that by simp
  ultimately show ?case by (cases "p = q") simp_all
qed simp

lemma init_total_nonneg: "(\<And>q. 0 \<le> f q) \<Longrightarrow> 0 \<le> init_total f ts"
  unfolding init_total_def by (intro sum_list_nonneg) auto

lemma phases_nonneg: "0 \<le> setting_up p" "0 \<le> tearing_down p"
  by (simp_all add: setting_up_def tearing_down_def)

lemmas init_defs = init_load_def init_loaded_def init_setup_def init_store_def uninit_load_def uninit_loaded_def
  uninit_teardown_def uninit_store_def setup_signal_def inited_cas_def

text \<open>What one step changes, for the thread that makes it.\<close>

lemma init_move_counts:
  assumes "init_move pr p pr' p'" and "read_ok p" and "- 1 \<le> ip_count pr"
    and "setting_up p + tearing_down p = 1 \<Longrightarrow> ip_count pr = - 1 \<and> ip_users pr = setting_up p"
    and "ip_count pr \<noteq> - 1 \<Longrightarrow> ip_users pr = ip_count pr"
  shows "read_ok p' \<and> - 1 \<le> ip_count pr' \<and>
    setting_up p' + tearing_down p' - setting_up p - tearing_down p =
      (if ip_count pr' = - 1 then 1 else 0) - (if ip_count pr = - 1 then 1 else 0) \<and>
    ip_users pr' - (if ip_count pr' = - 1 then setting_up p' else ip_count pr') =
      (if ip_count pr = - 1 then (if ip_count pr' = - 1 then ip_users pr - setting_up p else 0) else 0)"
  using assms
  by (cases rule: init_moveE) (auto simp: init_defs read_ok_def setting_up_def tearing_down_def split: if_splits)

lemma init_inv_step:
  assumes "init_inv pr ts" and "i < length ts" and "init_move pr (ts ! i) pr' p"
  shows "init_inv pr' (ts[i := p])"
proof -
  let ?S = "init_total setting_up ts" and ?T = "init_total tearing_down ts"
  have mem: "ts ! i \<in> set ts" using assms(2) by simp
  have le: "setting_up (ts ! i) \<le> ?S" "tearing_down (ts ! i) \<le> ?T" "0 \<le> ?S" "0 \<le> ?T"
    using init_total_ge [OF mem] init_total_nonneg phases_nonneg by auto
  have inv: "- 1 \<le> ip_count pr" "list_all read_ok ts" "?S + ?T = (if ip_count pr = - 1 then 1 else 0)"
    "ip_users pr = (if ip_count pr = - 1 then ?S else ip_count pr)"
    using assms(1) by (simp_all add: init_inv_def)
  have one: "read_ok p \<and> - 1 \<le> ip_count pr' \<and>
      setting_up p + tearing_down p - setting_up (ts ! i) - tearing_down (ts ! i) =
        (if ip_count pr' = - 1 then 1 else 0) - (if ip_count pr = - 1 then 1 else 0) \<and>
      ip_users pr' - (if ip_count pr' = - 1 then setting_up p else ip_count pr') =
        (if ip_count pr = - 1 then (if ip_count pr' = - 1 then ip_users pr - setting_up (ts ! i) else 0) else 0)"
  proof (rule init_move_counts [OF assms(3) _ inv(1)])
    show "read_ok (ts ! i)" using inv(2) mem by (simp add: list_all_iff)
    show "ip_count pr = - 1 \<and> ip_users pr = setting_up (ts ! i)" if "setting_up (ts ! i) + tearing_down (ts ! i) = 1"
      using that le inv(3,4) phases_nonneg [of "ts ! i"] by (auto split: if_splits)
    show "ip_users pr = ip_count pr" if "ip_count pr \<noteq> - 1" using that inv(4) by simp
  qed
  have "list_all read_ok (ts[i := p])"
    using inv(2) one set_update_subset_insert [of ts i p] by (auto simp: list_all_iff)
  moreover have "init_total setting_up (ts[i := p]) + init_total tearing_down (ts[i := p]) = (if ip_count pr' = - 1 then 1 else 0)"
    using one inv(3) init_total_update [OF assms(2)] by (auto split: if_splits)
  moreover have "ip_users pr' = (if ip_count pr' = - 1 then init_total setting_up (ts[i := p]) else ip_count pr')"
  proof (cases "ip_count pr = - 1")
    case True
    then show ?thesis using one inv(4) init_total_update [OF assms(2), of setting_up p] by (auto split: if_splits)
  next
    case False
    then have "?S = 0" "setting_up (ts ! i) = 0" using inv(3) le phases_nonneg [of "ts ! i"] by (auto split: if_splits)
    then show ?thesis using one False init_total_update [OF assms(2), of setting_up p] by (auto split: if_splits)
  qed
  ultimately show ?thesis using one unfolding init_inv_def by blast
qed

lemma init_reach_inv: "init_reach s \<Longrightarrow> init_inv (fst s) (snd s)"
proof (induction rule: init_reach.induct)
  case (start n)
  then show ?case
    by (simp add: init_inv_def process_new_def init_total_def read_ok_def setting_up_def tearing_down_def
        list_all_iff map_replicate_const sum_list_replicate)
next
  case (step pr ts i pr' p)
  then show ?case using init_inv_step [of pr ts i pr' p] by simp
qed

text \<open>
  C10. However the calls of \<open>init\<close> and \<open>uninit\<close> of any threads interleave, the counter is
  \<open>-1\<close> exactly while one thread, and no other, sets the library up or tears it down; at all
  other times it is the number of the users that the library has.
\<close>

theorem init_counts_users:
  assumes "init_reach (pr, ts)"
  shows "(if ip_count pr = - 1 then init_total setting_up ts + init_total tearing_down ts = 1
     else init_total setting_up ts + init_total tearing_down ts = 0 \<and> ip_count pr = ip_users pr \<and> 0 \<le> ip_users pr)"
  using init_reach_inv [OF assms] by (auto simp: init_inv_def)

text \<open>What a thread does next on its own, with the call that it makes when it is outside.\<close>

definition init_next :: "bool \<Rightarrow> process \<Rightarrow> init_pc \<Rightarrow> init_pc \<times> process" where
  "init_next calls_init pr p =
     (case p of
        InitIdle \<Rightarrow> (if calls_init then InitLoad else UninitLoad, pr)
      | InitLoad \<Rightarrow> (init_load pr, pr)
      | InitLoaded n \<Rightarrow> init_loaded n pr
      | InitSetup \<Rightarrow> (InitStore, init_setup pr)
      | InitStore \<Rightarrow> (InitIdle, init_store pr)
      | UninitLoad \<Rightarrow> (uninit_load pr, pr)
      | UninitLoaded n \<Rightarrow> uninit_loaded n pr
      | UninitTeardown \<Rightarrow> (UninitStore, uninit_teardown pr)
      | UninitStore \<Rightarrow> (InitIdle, uninit_store pr))"

lemma init_next_moves: "init_next calls_init pr p = (p', pr') \<Longrightarrow> init_move pr p pr' p'"
  by (cases p) (auto simp: init_next_def intro: init_move.intros split: if_splits)

fun init_run :: "(nat \<times> bool) list \<Rightarrow> process \<times> init_pc list \<Rightarrow> process \<times> init_pc list" where
  "init_run [] s = s"
| "init_run ((i, calls_init) # steps) (pr, ts) =
     (if i < length ts then (let (p, pr') = init_next calls_init pr (ts ! i) in init_run steps (pr', ts[i := p])) else (pr, ts))"

lemma init_run_reach: "init_reach s \<Longrightarrow> init_reach (init_run steps s)"
proof (induction steps s rule: init_run.induct)
  case (2 i calls_init steps pr ts)
  then show ?case using init_next_moves init_reach.step by (auto split: prod.splits) 
qed simp

text \<open>The first thread sets the library up; the second one calls \<open>init\<close> as well, and the first one \<open>uninit\<close>.\<close>

definition init_example :: "(nat \<times> bool) list" where
  "init_example = replicate 5 (0, True) @ replicate 3 (1, True) @ replicate 3 (0, False)"

theorem init_counts_users_witness:
  "\<exists>pr ts. init_run init_example (process_new, replicate 2 InitIdle) = (pr, ts) \<and> ip_count pr = ip_users pr \<and> ip_users pr = 1"
proof -
  obtain pr ts where r: "init_run init_example (process_new, replicate 2 InitIdle) = (pr, ts)" by (cases "init_run init_example (process_new, replicate 2 InitIdle)")
  have "init_reach (pr, ts)" using init_run_reach [OF init_reach.start] r by metis
  moreover have "(case init_run init_example (process_new, replicate 2 InitIdle) of (pr, ts) \<Rightarrow> ip_count pr \<noteq> - 1 \<and> ip_users pr = 1)"
    by code_simp
  ultimately show ?thesis using init_counts_users r by auto
qed

text \<open>
  The library never ignores the signal of a broken pipe: the default action, which
  ends the process, stays in place whatever is called. (The handler that \<open>init\<close> asks for is
  dropped.)
\<close>

theorem broken_pipe_not_ignored:
  assumes "init_reach (pr, ts)"
  shows "ip_sigpipe pr = SigDefault"
proof -
  have "ip_sigpipe (fst s) = SigDefault" if "init_reach s" for s
    using that
  proof induction
    case (step pr ts i pr' p)
    then show ?case by (auto elim!: init_moveE simp: init_defs split: if_splits)
  qed (simp add: process_new_def)
  from this [OF assms] show ?thesis by simp
qed

theorem broken_pipe_not_ignored_witness:
  "ip_sigpipe (fst (init_run init_example (process_new, replicate 2 InitIdle))) = SigDefault"
  using broken_pipe_not_ignored init_run_reach [OF init_reach.start] by (metis prod.collapse)

end
