(* ===== verification/Http_Utils.thy ===== *)
theory Http_Utils
  imports Utils Base64 Sha1
begin

text \<open>
  src/proto/http/utils.cpp: the end of a line, the encoding of URLs and the key of the
  websocket handshake, and the C library functions the HTTP sources format and parse
  numbers with (\<open>snprintf\<close> with \<open>%s\<close>, \<open>%d\<close>, \<open>%zx\<close>, \<open>atol\<close>).

  A pointer into a text is the text from there on; a read behind its end is a \<open>Fault\<close>.
\<close>

section \<open>Numbers and formats\<close>

fun digits :: "nat \<Rightarrow> nat \<Rightarrow> nat list" where
  "digits base n = (if n < base \<or> base < 2 then [n] else digits base (n div base) @ [n mod base])"

declare digits.simps [simp del]

definition print_d :: "int \<Rightarrow> byte list" where
  "print_d i = (if i < 0 then [45] else []) @ map (\<lambda>d. 48 + of_nat d) (digits 10 (nat \<bar>i\<bar>))"

definition print_zx :: "nat \<Rightarrow> byte list" where
  "print_zx n = map (\<lambda>d. if d < 10 then 48 + of_nat d else 87 + of_nat d) (digits 16 n)"

definition is_space :: "byte \<Rightarrow> bool" where
  "is_space c \<longleftrightarrow> c = 32 \<or> 9 \<le> c \<and> c \<le> 13"

definition is_digit :: "byte \<Rightarrow> bool" where
  "is_digit c \<longleftrightarrow> 48 \<le> c \<and> c \<le> 57"

definition digit_value :: "byte \<Rightarrow> nat" where
  "digit_value c = unat (c - 48)"

text \<open>\<open>atol\<close> with a 64-bit \<open>long\<close>, which the library clamps to its range.\<close>

definition atol :: "byte list \<Rightarrow> int" where
  "atol s =
     (let t = dropWhile is_space s;
          neg = (t \<noteq> [] \<and> hd t = 45);
          u = (if t \<noteq> [] \<and> hd t \<in> {43, 45} then tl t else t);
          n = int (foldl (\<lambda>a c. a * 10 + digit_value c) 0 (takeWhile is_digit u))
      in max (- (2 ^ 63)) (min (2 ^ 63 - 1) (if neg then - n else n)))"

text \<open>The text a C string function sees, up to the first zero byte.\<close>

definition c_str :: "byte list \<Rightarrow> byte list" where
  "c_str s = takeWhile (\<lambda>c. c \<noteq> 0) s"

text \<open>
  What \<open>snprintf(buf, n, ...)\<close> returns and leaves in the buffer, for the given full text.
\<close>

definition c_snprintf :: "nat \<Rightarrow> byte list \<Rightarrow> int \<times> byte list" where
  "c_snprintf n s = (int (length s), take (n - 1) s)"

section \<open>Lines\<close>

definition http_crlf :: "byte list" where "http_crlf = [13, 10]"
definition http_line_max_length :: nat where "http_line_max_length = 2048"
definition http_line_min_length :: nat where "http_line_min_length = 2"

fun line_end_loop :: "byte list \<Rightarrow> nat \<Rightarrow> nat \<Rightarrow> nat option run" where
  "line_end_loop [] pos len = (if len \<ge> 2 then Fault else Done None)"
| "line_end_loop (c # r) pos len =
     (if len \<ge> 2 then
        (if c = 13 then
           run_bind (mem_get r 0) (\<lambda>d. Done (if d = 10 then Some (pos + 2) else None))
         else line_end_loop r (pos + 1) (len - 1))
      else Done None)"

definition find_http_line_end :: "byte list \<Rightarrow> int \<Rightarrow> nat option run" where
  "find_http_line_end src len =
     (let len = min len (int http_line_max_length) in
      if len < int http_line_min_length then Done None
      else line_end_loop src 0 (nat len))"

section \<open>URL encoding\<close>

fun url_decode_loop :: "byte list \<Rightarrow> byte list \<Rightarrow> bool \<times> byte list" where
  "url_decode_loop [] des = (True, des)"
| "url_decode_loop (ch # r) des =
     (if ch = 43 then url_decode_loop r (des @ [32])
      else if ch = 37 then
        (case r of
           a # b # r' \<Rightarrow> url_decode_loop r' (des @ [push_bit 4 (hex_to_dec a) OR hex_to_dec b])
         | _ \<Rightarrow> (False, des))
      else url_decode_loop r (des @ [ch]))"

definition url_decode :: "byte list \<Rightarrow> byte list \<Rightarrow> bool \<times> byte list" where
  "url_decode src des = url_decode_loop src des"

text \<open>
  \<open>isalnum\<close> in the C locale; \<open>strchr\<close> also finds the zero byte that ends its string.
  A \<open>char\<close> is signed: shifting a byte of 128 or more gives a negative number, whose low
  byte is passed on.
\<close>

definition c_isalnum :: "byte \<Rightarrow> bool" where
  "c_isalnum c \<longleftrightarrow> is_digit c \<or> 65 \<le> c \<and> c \<le> 90 \<or> 97 \<le> c \<and> c \<le> 122"

definition url_encode_char :: "byte \<Rightarrow> byte list" where
  "url_encode_char val =
     (if c_isalnum val \<or> val \<in> {95, 45, 46, 0} then [val]
      else if val = 32 then [43]
      else [37, dec_to_hex (signed_drop_bit 4 val), dec_to_hex (val AND 0x0f)])"

definition url_encode :: "byte list \<Rightarrow> byte list \<Rightarrow> bool \<times> byte list" where
  "url_encode src des = (True, foldl (\<lambda>d val. d @ url_encode_char val) des src)"

section \<open>The websocket handshake key\<close>

definition websocket_guid :: "byte list" where
  "websocket_guid = B ''258EAFA5-E914-47DA-95CA-C5AB0DC85B11''"

text \<open>\<open>rnd\<close> stands for the sixteen bytes the four calls of \<open>random\<close> give.\<close>

definition compute_sec_key :: "byte list \<Rightarrow> byte list run" where
  "compute_sec_key rnd = base64_encode (take 16 (rnd @ replicate 16 0))"

definition compute_sec_accept_key :: "sha1_context \<Rightarrow> byte list \<Rightarrow> byte list run" where
  "compute_sec_accept_key ctx sec_key =
     (let tmp = sec_key @ websocket_guid in
      run_bind (sha1 ctx tmp (int (length tmp))) base64_encode)"

section \<open>Lemmas on numbers\<close>

lemma digits_less: "2 \<le> base \<Longrightarrow> d \<in> set (digits base n) \<Longrightarrow> d < base"
proof (induction base n rule: digits.induct)
  case (1 base n)
  then show ?case by (cases "n < base") (auto simp: digits.simps [of base n])
qed

lemma digits_value: "2 \<le> base \<Longrightarrow> foldl (\<lambda>a d. a * base + d) 0 (digits base n) = n"
proof (induction base n rule: digits.induct)
  case (1 base n)
  then show ?case by (cases "n < base") (auto simp: digits.simps [of base n])
qed

lemma digits_Nil [simp]: "digits base n \<noteq> []"
  by (subst digits.simps) simp

lemma nat_below: "n < k \<Longrightarrow> list_all P [0..<k] \<Longrightarrow> P (n :: nat)"
  by (rule all_less_list)

lemma dec_digit:
  "d < 10 \<Longrightarrow> is_digit (48 + of_nat d) \<and> digit_value (48 + of_nat d) = d \<and> \<not> is_space (48 + of_nat d) \<and>
     (48 + of_nat d :: byte) \<notin> {9, 10, 11, 12, 13, 32, 43, 44, 45, 58, 59}"
  by (erule nat_below) (simp add: upt_conv_Cons is_digit_def digit_value_def is_space_def)

lemma foldl_map_digits:
  "\<forall>d\<in>set ds. f d = d \<Longrightarrow> foldl (\<lambda>a c. a * b + f c) a ds = foldl (\<lambda>a c. a * b + c) a (ds :: nat list)"
  by (induction ds arbitrary: a) auto

lemma takeWhile_dec:
  assumes "\<forall>d\<in>set ds. d < (10 :: nat)"
  shows "takeWhile is_digit (map (\<lambda>d. 48 + of_nat d) ds) = map (\<lambda>d. 48 + of_nat d) ds"
  by (rule takeWhile_eq_all_conv [THEN iffD2]) (use assms dec_digit in auto)

lemma atol_print_d:
  assumes "- (2 ^ 31) \<le> i" and "i < 2 ^ 31"
  shows "atol (print_d i) = i"
proof -
  let ?ds = "digits 10 (nat \<bar>i\<bar>)"
  define t :: "byte list" where "t = map (\<lambda>d. 48 + of_nat d) ?ds"
  have lt: "\<forall>d\<in>set ?ds. d < 10" using digits_less [of 10] by auto
  obtain d ds where ds: "?ds = d # ds" by (cases ?ds) auto
  have d: "d < 10" using lt ds by simp
  note dec = dec_digit [OF d]
  have "foldl (\<lambda>a c. a * 10 + digit_value c) 0 t = foldl (\<lambda>a d. a * 10 + digit_value (48 + of_nat d)) 0 ?ds"
    by (simp add: foldl_map t_def)
  also have "\<dots> = nat \<bar>i\<bar>"
    using foldl_map_digits [of ?ds "\<lambda>d. digit_value (48 + of_nat d)" 10 0] dec_digit lt digits_value [of 10 "nat \<bar>i\<bar>"]
    by simp
  finally have val: "foldl (\<lambda>a c. a * 10 + digit_value c) 0 t = nat \<bar>i\<bar>" .
  have hd_t: "hd t \<notin> {43, 45}" "\<not> is_space (hd t)" "t \<noteq> []" using dec ds by (auto simp: t_def)
  have tw: "takeWhile is_digit t = t" unfolding t_def by (rule takeWhile_dec [OF lt])
  have dw: "dropWhile is_space (print_d i) = print_d i"
    using hd_t(2,3) by (cases t) (auto simp: print_d_def is_space_def t_def [symmetric])
  have "\<bar>i\<bar> \<le> 2 ^ 31" using assms by linarith
  then have clamp: "max (- (2 ^ 63)) (min (2 ^ 63 - 1) i) = i" using assms by simp
  show ?thesis
  proof (cases "i < 0")
    case True
    have "print_d i = 45 # t" using True by (simp add: print_d_def t_def)
    then show ?thesis using dw val clamp True by (simp add: atol_def tw)
  next
    case False
    then have "print_d i = t" by (simp add: print_d_def t_def)
    then show ?thesis using dw val clamp False hd_t by (simp add: atol_def tw)
  qed
qed

lemma digits_length: "2 \<le> base \<Longrightarrow> n < base ^ k \<Longrightarrow> 0 < k \<Longrightarrow> length (digits base n) \<le> k"
proof (induction base n arbitrary: k rule: digits.induct)
  case (1 base n)
  show ?case
  proof (cases "n < base")
    case False
    with 1(3,4) obtain j where k: "k = Suc j" "0 < j" by (cases k; cases "k - 1") auto
    then have "n div base < base ^ j" using 1(3) less_mult_imp_div_less [of n "base ^ j" base] by (simp add: mult.commute)
    with 1 False k show ?thesis by (simp add: digits.simps [of base n])
  qed (use 1(4) in \<open>simp add: digits.simps [of base n]\<close>)
qed

lemma print_d_length:
  assumes "- (2 ^ 31) \<le> i" and "i < 2 ^ 31"
  shows "length (print_d i) \<le> 11"
proof -
  have "\<bar>i\<bar> < 10 ^ 10" using assms by simp
  then have "nat \<bar>i\<bar> < 10 ^ 10" by (simp add: nat_less_iff)
  from digits_length [OF _ this] show ?thesis by (cases "i < 0") (simp_all add: print_d_def)
qed

lemma print_d_set:
  assumes "c \<in> set (print_d i)"
  shows "c = 45 \<or> is_digit c"
  using assms dec_digit digits_less [of 10 _ "nat \<bar>i\<bar>"] by (auto simp: print_d_def split: if_splits)

lemma c_str_print_d: "c_str (print_d i) = print_d i"
  unfolding c_str_def
  by (rule takeWhile_eq_all_conv [THEN iffD2]) (use print_d_set [of 0 i] in \<open>auto simp: is_digit_def\<close>)

section \<open>Lemmas on lines\<close>

text \<open>
  The length of the first line, its end included, of a text: the first carriage return has
  to be followed by a line feed.
\<close>

fun line_length :: "byte list \<Rightarrow> nat option" where
  "line_length (c # d # r) =
     (if c = 13 then if d = 10 then Some 2 else None else map_option Suc (line_length (d # r)))"
| "line_length _ = None"

lemma line_end_loop_spec:
  "n \<le> length src \<Longrightarrow> line_end_loop src pos n = Done (map_option ((+) pos) (line_length (take n src)))"
proof (induction src pos n rule: line_end_loop.induct)
  case (2 c r pos len)
  show ?case
  proof (cases "2 \<le> len \<and> r \<noteq> []")
    case True
    then obtain d r' k where "r = d # r'" "len = Suc (Suc k)"
      by (cases r; cases len; cases "len - 1") auto
    then show ?thesis using 2 by (auto simp: mem_get_def option.map_comp comp_def)
  next
    case False
    then have "len < 2" using 2(2) by (cases r) auto
    then consider "len = 0" | "len = 1" by linarith
    then show ?thesis by cases auto
  qed
qed auto

lemma find_http_line_end_spec:
  assumes "0 \<le> len" and "nat len \<le> length src"
  shows "find_http_line_end src len = Done (line_length (take (min (nat len) 2048) src))"
proof (cases "min len 2048 < 2")
  case True
  then consider "nat len = 0" | "nat len = 1" using assms by linarith
  then show ?thesis using True
    by cases (cases src; simp add: find_http_line_end_def http_line_max_length_def http_line_min_length_def)+
next
  case False
  have "nat (min len 2048) = min (nat len) 2048" by linarith
  moreover have "map_option ((+) 0) x = x" for x :: "nat option" by (cases x) auto
  ultimately show ?thesis using False line_end_loop_spec [of "min (nat len) 2048" src 0] assms
    by (simp add: find_http_line_end_def http_line_max_length_def http_line_min_length_def min.coboundedI1)
qed

lemma line_length_bounds: "line_length s = Some n \<Longrightarrow> 2 \<le> n \<and> n \<le> length s"
  by (induction s arbitrary: n rule: line_length.induct) (fastforce split: if_splits)+

lemma line_length_line: "13 \<notin> set l \<Longrightarrow> line_length (l @ 13 # 10 # r) = Some (length l + 2)"
proof (induction l)
  case (Cons c l)
  then show ?case by (cases l) auto
qed simp

lemma line_length_split:
  "line_length s = Some n \<Longrightarrow> \<exists>l. s = l @ 13 # 10 # drop n s \<and> 13 \<notin> set l \<and> n = length l + 2"
proof (induction s arbitrary: n rule: line_length.induct)
  case (1 c d r)
  show ?case
  proof (cases "c = 13")
    case True
    with 1(2) show ?thesis by (intro exI [of _ "[]"]) (auto split: if_splits)
  next
    case False
    with 1(2) obtain k where k: "line_length (d # r) = Some k" "n = Suc k" by auto
    from 1(1) [OF False k(1)] obtain l where "d # r = l @ 13 # 10 # drop k (d # r)" "13 \<notin> set l" "k = length l + 2"
      by blast
    then show ?thesis using False k(2) by (intro exI [of _ "c # l"]) auto
  qed
qed auto

section \<open>Properties\<close>

definition url_image :: "byte \<Rightarrow> byte" where
  "url_image c = (if c < 128 then c else c AND 0x0f)"

lemma unat_u8: "unat (c :: byte) < 256"
  using unsigned_less [of c] by simp

lemma byte_bit_less:
  assumes "unat (c :: byte) < 2 ^ k" and "k \<le> n"
  shows "\<not> bit c n"
proof -
  note assms(1)
  also have "(2 :: nat) ^ k \<le> 2 ^ n" using assms(2) by (rule power_increasing) simp
  finally have "\<not> bit (unat c) n" by (simp add: bit_iff_odd)
  then show ?thesis by (auto simp: bit_unsigned_iff dest: bit_imp_le_length)
qed

lemma byte_high_bit: "128 \<le> (c :: byte) \<Longrightarrow> bit c 7"
proof -
  assume "128 \<le> c"
  then have "128 \<le> unat c" by (simp add: word_le_nat_alt)
  moreover have "unat c < 256" using unsigned_less [of c] by simp
  ultimately have "unat c div 2 ^ 7 = 1" by simp
  then have "bit (unat c) 7" by (simp add: bit_iff_odd)
  then show ?thesis by (simp add: bit_unsigned_iff)
qed

lemma high_digit:
  "dec_to_hex (signed_drop_bit 4 c) = (if c < 128 then dec_to_hex (drop_bit 4 c) else 0)"
proof (cases "c < 128")
  case True
  have "signed_drop_bit 4 c = drop_bit 4 c"
    by (rule bit_word_eqI)
      (use byte_bit_less [of c 7] True in \<open>auto simp: bit_signed_drop_bit_iff bit_drop_bit_eq word_less_nat_alt\<close>)
  with True show ?thesis by simp
next
  case False
  then have "bit (signed_drop_bit 4 c) 7" using byte_high_bit [of c] by (simp add: bit_signed_drop_bit_iff not_less)
  then have "\<not> signed_drop_bit 4 c < 16"
    using byte_bit_less [of "signed_drop_bit 4 c" 4 7] by (auto simp: word_less_nat_alt)
  with False show ?thesis using dec_to_hex_out [of "signed_drop_bit 4 c"] by simp
qed

lemma url_decode_char: "url_decode_loop (url_encode_char c @ r) des = url_decode_loop r (des @ [url_image c])"
proof -
  have low: "c AND 0x0f < 16"
    using word_and_le1 [of c 15] by (simp add: word_less_nat_alt word_le_nat_alt)
  have "drop_bit 4 c < 16"
    using unat_u8 [of c] by (simp add: word_less_nat_alt drop_bit_eq_div unat_div_distrib)
  note hex = hex_dec_inverse [OF this] hex_dec_inverse [OF low]
  have sum: "push_bit 4 (drop_bit 4 c) OR (c AND 0x0f) = c"
  proof -
    have "c AND 0x0f = take_bit 4 c" by (simp add: take_bit_eq_mask mask_eq_exp_minus_1)
    then show ?thesis by (auto intro!: bit_word_eqI simp: bit_simps)
  qed
  have zero: "hex_to_dec 0 = 0" by (simp add: hex_to_dec_def)
  have plain: "c_isalnum c \<or> c \<in> {95, 45, 46, 0} \<Longrightarrow> c < 128 \<and> c \<noteq> 37 \<and> c \<noteq> 43"
    by (auto simp: c_isalnum_def is_digit_def word_le_nat_alt word_less_nat_alt)
  show ?thesis
    using plain by (auto simp: url_encode_char_def url_image_def high_digit hex sum zero)
qed

text \<open>
  Decoding an encoded text succeeds and gives the text back as long as every character
  is below 128. From the others only the low four bits survive: their high digit is taken
  from a negative number and encoded as a zero byte.
\<close>

theorem url_encode_decode:
  "url_decode (snd (url_encode s [])) des = (True, des @ map (\<lambda>c. if c < 128 then c else c AND 0x0f) s)"
proof -
  have enc: "foldl (\<lambda>d val. d @ url_encode_char val) acc s = acc @ concat (map url_encode_char s)" for acc
    by (induction s arbitrary: acc) auto
  have "url_decode_loop (concat (map url_encode_char s)) des = (True, des @ map url_image s)" for des
    by (induction s arbitrary: des) (simp_all add: url_decode_char)
  then show ?thesis by (simp add: url_encode_def enc url_decode_def url_image_def [abs_def])
qed

end
