(* ===== verification/Timestamp.thy ===== *)
theory Timestamp
  imports Http_Utils
begin

text \<open>
  Time stamps (include/pump/time/timestamp.h, src/time/timestamp.cpp): milliseconds in an
  \<open>int64_t\<close>, their order, and how they are printed. The clocks are the system's.
\<close>

section \<open>timestamp\<close>

datatype timestamp = Timestamp (ts_ms: u64)

definition timestamp_of :: "u64 \<Rightarrow> timestamp" where
  "timestamp_of ms = Timestamp ms"

definition ts_increase :: "u64 \<Rightarrow> timestamp \<Rightarrow> timestamp" where
  "ts_increase ms t = Timestamp (ts_ms t + ms)"

definition ts_reduce :: "u64 \<Rightarrow> timestamp \<Rightarrow> timestamp" where
  "ts_reduce ms t = Timestamp (ts_ms t - ms)"

definition ts_set :: "u64 \<Rightarrow> timestamp \<Rightarrow> timestamp" where
  "ts_set ms t = Timestamp ms"

definition ts_time :: "timestamp \<Rightarrow> u64" where
  "ts_time t = ts_ms t"

definition ts_less :: "timestamp \<Rightarrow> timestamp \<Rightarrow> bool" where
  "ts_less a b \<longleftrightarrow> sint (ts_ms a) < sint (ts_ms b)"

definition ts_less_equal :: "timestamp \<Rightarrow> timestamp \<Rightarrow> bool" where
  "ts_less_equal a b \<longleftrightarrow> sint (ts_ms a) \<le> sint (ts_ms b)"

definition ts_equal :: "timestamp \<Rightarrow> timestamp \<Rightarrow> bool" where
  "ts_equal a b \<longleftrightarrow> ts_ms a = ts_ms b"

text \<open>The comparisons of the class make a linear order of it.\<close>

instantiation timestamp :: linorder
begin

definition less_timestamp where "a < b \<longleftrightarrow> ts_less a b"
definition less_eq_timestamp where "a \<le> b \<longleftrightarrow> ts_less_equal a b"

instance
proof
  fix a b c :: timestamp
  have eq: "a = b" if "sint (ts_ms a) = sint (ts_ms b)" using signed_word_eqI [OF that] by (rule timestamp.expand)
  show "a < b \<longleftrightarrow> a \<le> b \<and> \<not> b \<le> a" by (auto simp: less_timestamp_def less_eq_timestamp_def ts_less_def ts_less_equal_def)
  show "a \<le> a" by (simp add: less_eq_timestamp_def ts_less_equal_def)
  show "a \<le> b \<Longrightarrow> b \<le> c \<Longrightarrow> a \<le> c" by (simp add: less_eq_timestamp_def ts_less_equal_def)
  show "a \<le> b \<Longrightarrow> b \<le> a \<Longrightarrow> a = b" by (rule eq) (simp add: less_eq_timestamp_def ts_less_equal_def)
  show "a \<le> b \<or> b \<le> a" by (auto simp: less_eq_timestamp_def ts_less_equal_def)
qed

end

section \<open>The calendar\<close>

text \<open>\<open>gmtime_r\<close>: the fields of \<open>struct tm\<close> for the seconds since 1970.\<close>

record tm =
  tm_sec :: nat
  tm_min :: nat
  tm_hour :: nat
  tm_mday :: nat
  tm_mon :: nat
  tm_year :: int

definition leap :: "nat \<Rightarrow> bool" where
  "leap y \<longleftrightarrow> y mod 4 = 0 \<and> (y mod 100 \<noteq> 0 \<or> y mod 400 = 0)"

definition year_days :: "nat \<Rightarrow> nat" where
  "year_days y = (if leap y then 366 else 365)"

definition month_days :: "nat \<Rightarrow> nat list" where
  "month_days y = [31, if leap y then 29 else 28, 31, 30, 31, 30, 31, 31, 30, 31, 30, 31]"

function year_of :: "nat \<Rightarrow> nat \<Rightarrow> nat \<times> nat" where
  "year_of y d = (if d < year_days y then (y, d) else year_of (y + 1) (d - year_days y))"
  by pat_completeness auto
termination by (relation "measure snd") (auto simp: year_days_def)

declare year_of.simps [simp del]

fun month_of :: "nat list \<Rightarrow> nat \<Rightarrow> nat \<Rightarrow> nat \<times> nat" where
  "month_of [] m d = (m, d)"
| "month_of (n # ns) m d = (if d < n then (m, d) else month_of ns (m + 1) (d - n))"

definition gmtime :: "nat \<Rightarrow> tm" where
  "gmtime secs =
     (let (y, yd) = year_of 1970 (secs div 86400); (m, d) = month_of (month_days y) 0 yd; s = secs mod 86400 in
      \<lparr>tm_sec = s mod 60, tm_min = s div 60 mod 60, tm_hour = s div 3600, tm_mday = d + 1, tm_mon = m, tm_year = int y - 1900\<rparr>)"

section \<open>Printing\<close>

definition print_4d :: "int \<Rightarrow> byte list" where
  "print_4d i = replicate (4 - length (print_d i)) 32 @ print_d i"

definition ts_seconds :: "timestamp \<Rightarrow> nat" where
  "ts_seconds t = unat (ts_ms t) div 1000"

definition ts_millis :: "timestamp \<Rightarrow> int" where
  "ts_millis t = int (unat (ts_ms t) mod 1000)"

definition ts_to_string :: "timestamp \<Rightarrow> byte list" where
  "ts_to_string t =
     (let tm = gmtime (ts_seconds t) in
      snd (c_snprintf 63
        (print_4d (tm_year tm + 1970) @ [45] @ print_d (int (tm_mon tm) + 1) @ [45] @ print_d (int (tm_mday tm)) @ [32] @
         print_d (int (tm_hour tm) - 8) @ [58] @ print_d (int (tm_min tm)) @ [58] @ print_d (int (tm_sec tm)) @ [58] @
         print_d (ts_millis t))))"

text \<open>\<open>snprintf(date + off, n, ...)\<close>; the size \<open>sizeof(date) - len - 1\<close> is unsigned.\<close>

definition snprintf_at :: "byte list \<Rightarrow> nat \<Rightarrow> nat \<Rightarrow> byte list \<Rightarrow> byte list run" where
  "snprintf_at buf off n text = (if n = 0 then Done buf else mem_write buf off (take (n - 1) text @ [0]))"

definition room_left :: "nat \<Rightarrow> nat" where
  "room_left len = (if len \<le> 63 then 63 - len else 2 ^ 64 + 63 - len)"

text \<open>The text of a field; \<open>ss\<close> is written to \<open>date + idx\<close> instead of \<open>date + len\<close>.\<close>

definition field_text :: "tm \<Rightarrow> int \<Rightarrow> byte list \<Rightarrow> byte list option" where
  "field_text tm ms name =
     (if name = B ''YY'' then Some (print_4d (tm_year tm + 1970))
      else if name = B ''MM'' then Some (print_d (int (tm_mon tm) + 1))
      else if name = B ''DD'' then Some (print_d (int (tm_mday tm)))
      else if name = B ''hh'' then Some (print_d (int (tm_hour tm) - 8))
      else if name = B ''mm'' then Some (print_d (int (tm_min tm)))
      else if name = B ''ss'' then Some (print_d (int (tm_sec tm)))
      else if name = B ''ms'' then Some (print_d ms)
      else None)"

fun format_loop :: "tm \<Rightarrow> int \<Rightarrow> byte list \<Rightarrow> nat \<Rightarrow> nat \<Rightarrow> byte list \<Rightarrow> byte list run" where
  "format_loop tm ms [] idx len date = Done date"
| "format_loop tm ms (c # r) idx len date =
     (case field_text tm ms (take 2 (c # r)) of
        Some text \<Rightarrow>
          run_bind (snprintf_at date (if take 2 (c # r) = B ''ss'' then idx + 2 else len) (room_left len) text)
            (format_loop tm ms (drop 1 r) (idx + 2) (len + length text))
      | None \<Rightarrow> run_bind (mem_set date len c) (format_loop tm ms r (idx + 1) (len + 1)))"

definition ts_format :: "byte list \<Rightarrow> timestamp \<Rightarrow> byte list run" where
  "ts_format format t =
     run_bind (format_loop (gmtime (ts_seconds t)) (ts_millis t) format 0 0 (replicate 64 0)) (\<lambda>date.
       if 0 \<in> set date then Done (c_str date) else Fault)"

section \<open>The calendar is right\<close>

lemma year_of_days:
  "year_of y0 d0 = (y, d) \<Longrightarrow> y0 \<le> y \<and> d < year_days y \<and> d0 = sum year_days {y0..<y} + d"
proof (induction y0 d0 rule: year_of.induct)
  case (1 y0 d0)
  show ?case
  proof (cases "d0 < year_days y0")
    case True
    then show ?thesis using 1(2) by (simp add: year_of.simps [of y0])
  next
    case False
    then have r: "Suc y0 \<le> y" "d < year_days y" "d0 - year_days y0 = sum year_days {Suc y0..<y} + d"
      using 1 by (simp_all add: year_of.simps [of y0])
    have "{y0..<y} = insert y0 {Suc y0..<y}" using r(1) by auto
    then show ?thesis using False r by simp
  qed
qed

lemma month_of_days:
  "month_of ns m0 d0 = (m, d) \<Longrightarrow> d0 < sum_list ns \<Longrightarrow>
    m0 \<le> m \<and> m - m0 < length ns \<and> d < ns ! (m - m0) \<and> d0 = sum_list (take (m - m0) ns) + d"
proof (induction ns m0 d0 rule: month_of.induct)
  case (2 n ns m0 d0)
  show ?case
  proof (cases "d0 < n")
    case True
    then show ?thesis using 2(2) by simp
  next
    case False
    then have r: "Suc m0 \<le> m" "m - Suc m0 < length ns" "d < ns ! (m - Suc m0)" "d0 - n = sum_list (take (m - Suc m0) ns) + d"
      using 2 by auto
    have "m - m0 = Suc (m - Suc m0)" using r(1) by simp
    then show ?thesis using False r by simp
  qed
qed simp

lemma month_days_total: "sum_list (month_days y) = year_days y" "length (month_days y) = 12"
  by (simp_all add: month_days_def year_days_def)

text \<open>
  The fields that are printed are those of the right day: the days of the years and months
  before the date and the day of the month add up to the day counted from 1970, and the time of
  the day to its second.
\<close>

theorem gmtime_counts:
  "\<exists>y. tm_year (gmtime secs) = int y - 1900 \<and> tm_mon (gmtime secs) < 12 \<and>
    1 \<le> tm_mday (gmtime secs) \<and> tm_mday (gmtime secs) \<le> month_days y ! tm_mon (gmtime secs) \<and>
    secs = (sum year_days {1970..<y} + sum_list (take (tm_mon (gmtime secs)) (month_days y)) + (tm_mday (gmtime secs) - 1)) * 86400 +
      tm_hour (gmtime secs) * 3600 + tm_min (gmtime secs) * 60 + tm_sec (gmtime secs)"
proof -
  obtain y yd where y: "year_of 1970 (secs div 86400) = (y, yd)" by fastforce
  obtain m d where m: "month_of (month_days y) 0 yd = (m, d)" by fastforce
  have ys: "yd < year_days y" "secs div 86400 = sum year_days {1970..<y} + yd" using year_of_days [OF y] by auto
  have ms: "m < 12" "d < month_days y ! m" "yd = sum_list (take m (month_days y)) + d"
    using month_of_days [OF m] ys(1) month_days_total [of y] by auto
  define s where "s = secs mod 86400"
  have "s div 3600 = s div 60 div 60" using div_mult2_eq [of s 60 60] by simp
  then have time: "s div 3600 * 3600 + s div 60 mod 60 * 60 + s mod 60 = s"
    using div_mult_mod_eq [of s 60] div_mult_mod_eq [of "s div 60" 60] by linarith
  have day: "(sum year_days {1970..<y} + yd) * 86400 + s = secs"
    unfolding s_def ys(2) [symmetric] by (rule div_mult_mod_eq)
  have g: "gmtime secs = \<lparr>tm_sec = s mod 60, tm_min = s div 60 mod 60, tm_hour = s div 3600, tm_mday = d + 1, tm_mon = m,
      tm_year = int y - 1900\<rparr>"
    unfolding gmtime_def y m s_def Let_def prod.case ..
  show ?thesis
    unfolding g tm.simps
    by (rule exI [of _ y]) (use ms time day in \<open>simp add: add.assoc\<close>)
qed

section \<open>Formats\<close>

definition field_names :: "byte list list" where
  "field_names = map B [''YY'', ''MM'', ''DD'', ''hh'', ''mm'', ''ss'', ''ms'']"

fun plain :: "byte list \<Rightarrow> bool" where
  "plain [] \<longleftrightarrow> True"
| "plain (c # r) \<longleftrightarrow> c \<noteq> 0 \<and> take 2 (c # r) \<notin> set field_names \<and> plain r"

lemma field_text_None: "name \<notin> set field_names \<Longrightarrow> field_text tm ms name = None"
  by (simp add: field_names_def field_text_def)

lemma format_loop_plain:
  "plain format \<Longrightarrow> idx \<le> 64 \<Longrightarrow> length pre = idx \<Longrightarrow>
    format_loop tm ms format idx idx (pre @ replicate (64 - idx) 0) =
      (if idx + length format \<le> 64 then Done (pre @ format @ replicate (64 - (idx + length format)) 0) else Fault)"
proof (induction format arbitrary: idx pre)
  case (Cons c r)
  have none: "field_text tm ms (take 2 (c # r)) = None" using Cons.prems(1) by (simp add: field_text_None)
  show ?case
  proof (cases "idx < 64")
    case True
    then have "64 - idx = Suc (64 - Suc idx)" by simp
    then have "(pre @ replicate (64 - idx) 0) [idx := c] = (pre @ [c]) @ replicate (64 - Suc idx) 0"
      using Cons.prems(3) by (simp add: list_update_append)
    then show ?thesis using Cons.IH [of "Suc idx" "pre @ [c]"] Cons.prems True none by (simp add: mem_set_def)
  next
    case False
    then show ?thesis using Cons.prems none by (simp add: mem_set_def)
  qed
qed simp

lemma c_str_plain: "plain format \<Longrightarrow> c_str (format @ replicate (Suc n) 0) = format"
  by (induction format) (simp_all add: c_str_def)

text \<open>
  A format with none of the field names is copied when it is shorter than 64 characters;
  a longer one overruns the buffer on the stack.
\<close>

theorem format_plain:
  assumes "plain format"
  shows "ts_format format t = (if length format < 64 then Done format else Fault)"
proof -
  have nz: "0 \<notin> set format" using assms by (induction format) auto
  note loop = format_loop_plain [OF assms, of 0 "[]" "gmtime (ts_seconds t)" "ts_millis t", simplified]
  consider "length format < 64" | "length format = 64" | "length format > 64" by linarith
  then show ?thesis
  proof cases
    case 1
    then have "64 - length format = Suc (63 - length format)" by simp
    then show ?thesis using 1 loop c_str_plain [OF assms, of "63 - length format"] by (simp add: ts_format_def)
  qed (use loop nz in \<open>simp_all add: ts_format_def\<close>)
qed

theorem format_plain_witness: "ts_format (B ''plain'') t = Done (B ''plain'')"
proof -
  have "plain (B ''plain'')" by code_simp
  from format_plain [OF this] show ?thesis by simp
qed

lemma length_digits_two: "n < 100 \<Longrightarrow> length (digits 10 n) \<le> 2"
proof -
  assume "n < 100"
  then have "n div 10 < 10" by linarith
  then show ?thesis by (simp add: digits.simps [of 10 n] digits.simps [of 10 "n div 10"])
qed

text \<open>
  The seconds are lost when they begin the format, whatever the time: they are written
  two characters behind the begin of the buffer, which stays empty.
\<close>

theorem format_seconds_lost: "ts_format (B ''ss'') t = Done []"
proof -
  let ?text = "print_d (int (tm_sec (gmtime (ts_seconds t))))"
  have "tm_sec (gmtime n) < 60" for n by (simp add: gmtime_def Let_def split: prod.splits)
  from this [of "ts_seconds t"] have "tm_sec (gmtime (ts_seconds t)) < 100" by linarith
  then have "length ?text \<le> 2" using length_digits_two by (simp add: print_d_def)
  moreover have "B ''ss'' = [115, 115]" by code_simp
  moreover have "field_text tm ms (B ''ss'') = Some (print_d (int (tm_sec tm)))" for tm ms
  proof -
    have "B ''ss'' \<notin> {B ''YY'', B ''MM'', B ''DD'', B ''hh'', B ''mm''}" by code_simp
    then show ?thesis by (simp add: field_text_def)
  qed
  ultimately show ?thesis
    by (simp add: ts_format_def snprintf_at_def room_left_def mem_write_def c_str_def)
qed

text \<open>
  The printed date is not the one meant: the year is seventy too large, and the hour is
  shifted by eight, below zero when the day is young.
\<close>

theorem epoch_to_string: "ts_to_string (timestamp_of 0) = B ''2040-1-1 -8:0:0:0''"
proof -
  have "gmtime 0 = \<lparr>tm_sec = 0, tm_min = 0, tm_hour = 0, tm_mday = 1, tm_mon = 0, tm_year = 70\<rparr>"
    by (simp add: gmtime_def year_of.simps year_days_def leap_def month_days_def Let_def)
  then have "ts_to_string (timestamp_of 0) = snd (c_snprintf 63
      (print_4d 2040 @ [45] @ print_d 1 @ [45] @ print_d 1 @ [32] @ print_d (- 8) @ [58] @ print_d 0 @ [58] @ print_d 0 @ [58] @ print_d 0))"
    by (simp add: ts_to_string_def timestamp_of_def ts_seconds_def ts_millis_def)
  also have "\<dots> = B ''2040-1-1 -8:0:0:0''"
    by (simp add: c_snprintf_def print_4d_def print_d_def digits.simps B_def)
  finally show ?thesis .
qed

end
