(* ===== verification/Timer.thy ===== *)
theory Timer
  imports Prelude "HOL-Library.Multiset"
begin

text \<open>
  Timers and the timer engine (include/pump/time/timer.h, src/time/timer.cpp,
  include/pump/time/engine.h, src/time/engine.cpp), and the loop of the service's timer
  worker that fires what the engine has posted (src/service.cpp).

  Timers are named by numbers. \<open>eg_heap\<close> holds the timer objects, \<open>eg_alive\<close> the ones that
  exist: the engine's map and the posted lists hold weak pointers. \<open>eg_new\<close> is the queue
  \<open>new_timers_\<close>, \<open>eg_timers\<close> the map \<open>timers_\<close> from deadlines to lists (a \<open>std::map\<close>, here
  an association list with ascending keys), \<open>eg_posted\<close> the lists given to the pending
  callback and not yet worked off. \<open>eg_fired\<close> records the callbacks. The clock is read into
  arguments.
\<close>

section \<open>timer\<close>

datatype timer_state = TmNone | TmStopped | TmStarted | TmPending | TmFinished

record timer =
  tm_engine :: bool
  tm_repeated :: bool
  tm_timeout :: u64
  tm_state :: timer_state

definition timer_new :: "bool \<Rightarrow> u64 \<Rightarrow> timer" where
  "timer_new repeated timeout =
     \<lparr>tm_engine = False, tm_repeated = repeated, tm_timeout = timeout, tm_state = TmNone\<rparr>"

definition timer_set_state :: "timer_state \<Rightarrow> timer_state \<Rightarrow> timer \<Rightarrow> bool \<times> timer" where
  "timer_set_state expected desired t =
     (if tm_state t = expected then (True, t\<lparr>tm_state := desired\<rparr>) else (False, t))"

definition timer_stop :: "timer \<Rightarrow> timer" where
  "timer_stop t = t\<lparr>tm_state := TmStopped\<rparr>"

definition timer_is_started :: "timer \<Rightarrow> bool" where
  "timer_is_started t \<longleftrightarrow> tm_state t = TmStarted \<or> tm_state t = TmPending"

definition timer_start :: "timer \<Rightarrow> bool \<times> timer" where
  "timer_start t =
     (let st = tm_state t in
      if st \<noteq> TmNone \<and> st \<noteq> TmFinished then (False, t)
      else
        let (ok, t1) = timer_set_state st TmStarted t in
        if \<not> ok then (False, t1) else (True, t1\<lparr>tm_engine := True\<rparr>))"

definition timer_restart :: "timer \<Rightarrow> (bool \<times> timer) run" where
  "timer_restart t =
     (if \<not> tm_engine t then Abort
      else
        let (ok, t1) = timer_set_state TmPending TmStarted t in
        Done (if \<not> ok then (False, t1) else (True, t1)))"

section \<open>engine\<close>

definition default_observe_interval_ns :: u64 where
  "default_observe_interval_ns = 200 * 1000000"

record engine =
  eg_started :: bool
  eg_cb :: bool
  eg_new :: "nat list"
  eg_timers :: "(u64 \<times> nat list) list"
  eg_posted :: "nat list list"
  eg_heap :: "nat \<Rightarrow> timer"
  eg_alive :: "nat set"
  eg_fired :: "nat list"

definition engine_new :: engine where
  "engine_new =
     \<lparr>eg_started = False, eg_cb = False, eg_new = [], eg_timers = [], eg_posted = [],
      eg_heap = (\<lambda>_. timer_new False 0), eg_alive = {}, eg_fired = []\<rparr>"

definition engine_start :: "bool \<Rightarrow> bool \<Rightarrow> engine \<Rightarrow> bool \<times> engine" where
  "engine_start cb ok_thread e =
     (if \<not> eg_started e then
        let e1 = e\<lparr>eg_started := True\<rparr> in
        if \<not> cb then (False, e1)
        else
          let e2 = e1\<lparr>eg_cb := True\<rparr> in
          if \<not> ok_thread then (False, e2\<lparr>eg_started := False\<rparr>) else (True, e2)
      else (eg_started e, e))"

definition engine_stop :: "engine \<Rightarrow> engine" where
  "engine_stop e = e\<lparr>eg_started := False\<rparr>"

definition start_timer :: "nat \<Rightarrow> engine \<Rightarrow> bool \<times> engine" where
  "start_timer tid e =
     (if \<not> eg_started e then (False, e)
      else
        let (ok, t) = timer_start (eg_heap e tid) in
        if \<not> ok then (False, e)
        else (True, e\<lparr>eg_heap := (eg_heap e)(tid := t), eg_new := eg_new e @ [tid]\<rparr>))"

definition restart_timer :: "nat \<Rightarrow> engine \<Rightarrow> (bool \<times> engine) run" where
  "restart_timer tid e =
     (if \<not> eg_started e then Done (False, e)
      else
        run_bind (timer_restart (eg_heap e tid)) (\<lambda>(ok, t).
          if \<not> ok then Done (False, e)
          else Done (True, e\<lparr>eg_heap := (eg_heap e)(tid := t), eg_new := eg_new e @ [tid]\<rparr>)))"

text \<open>\<open>handle_timeout\<close> of a timer; \<open>cb_()\<close> is recorded in \<open>eg_fired\<close>.\<close>

definition handle_timeout :: "nat \<Rightarrow> engine \<Rightarrow> engine run" where
  "handle_timeout tid e =
     (let (ok, t) = timer_set_state TmStarted TmPending (eg_heap e tid) in
      if ok then
        let e1 = e\<lparr>eg_heap := (eg_heap e)(tid := t)\<rparr> in
        if tm_repeated t then
          run_bind (restart_timer tid e1) (\<lambda>(restarted, e2).
            Done (if restarted then e2\<lparr>eg_fired := eg_fired e2 @ [tid]\<rparr> else e2))
        else
          let (fin, t2) = timer_set_state TmPending TmFinished (eg_heap e1 tid) in
          Done (if fin then e1\<lparr>eg_heap := (eg_heap e1)(tid := t2), eg_fired := eg_fired e1 @ [tid]\<rparr> else e1)
      else Done e)"

text \<open>\<open>timers_[key].push_back(tid)\<close>\<close>

fun push_at :: "u64 \<Rightarrow> nat \<Rightarrow> (u64 \<times> nat list) list \<Rightarrow> (u64 \<times> nat list) list" where
  "push_at key tid [] = [(key, [tid])]"
| "push_at key tid ((k, tids) # rest) =
     (if key = k then (k, tids @ [tid]) # rest
      else if key < k then (key, [tid]) # (k, tids) # rest
      else (k, tids) # push_at key tid rest)"

definition queue_timer :: "nat \<Rightarrow> u64 \<Rightarrow> engine \<Rightarrow> engine" where
  "queue_timer tid now e =
     e\<lparr>eg_timers := push_at (tm_timeout (eg_heap e tid) + now) tid (eg_timers e)\<rparr>"

text \<open>The loop of \<open>__observe\<close>: what it splices off, and what stays in the map.\<close>

fun splice_due :: "u64 \<Rightarrow> (u64 \<times> nat list) list \<Rightarrow> nat list \<times> (u64 \<times> nat list) list" where
  "splice_due now [] = ([], [])"
| "splice_due now ((k, tids) # rest) =
     (if k \<le> now then (let (due, left) = splice_due now rest in (tids @ due, left))
      else ([], (k, tids) # rest))"

definition observe :: "u64 \<Rightarrow> u64 \<Rightarrow> engine \<Rightarrow> nat list \<times> u64 \<times> engine" where
  "observe next now e =
     (let (due, left) = splice_due now (eg_timers e);
          next' = (case left of [] \<Rightarrow> next | (k, _) # _ \<Rightarrow> k)
      in (due, next', e\<lparr>eg_timers := left\<rparr>))"

fun queue_more :: "nat \<Rightarrow> u64 \<Rightarrow> engine \<Rightarrow> engine" where
  "queue_more 0 now e = e"
| "queue_more (Suc n) now e =
     (case eg_new e of
        [] \<Rightarrow> e
      | tid # rest \<Rightarrow> queue_more n now (queue_timer tid now (e\<lparr>eg_new := rest\<rparr>)))"

text \<open>
  One round of \<open>__observe_thread\<close>; \<open>now1\<close>, \<open>now2\<close>, \<open>now3\<close> are the times read. \<open>dequeue\<close>
  waits for a new timer; here it finds the timers that other steps have queued so far.
\<close>

definition observe_round :: "u64 \<Rightarrow> u64 \<Rightarrow> u64 \<Rightarrow> engine \<Rightarrow> engine" where
  "observe_round now1 now2 now3 e =
     (if \<not> eg_started e then e
      else
        let (due, next, e1) = observe (now1 + default_observe_interval_ns) now1 e;
            e2 =
              (if due = [] \<and> next > now2 then
                 case eg_new e1 of
                   [] \<Rightarrow> queue_more 1024 now3 e1
                 | tid # rest \<Rightarrow> queue_more 1023 now3 (queue_timer tid now3 (e1\<lparr>eg_new := rest\<rparr>))
               else queue_more 1024 now2 e1)
        in
        if due \<noteq> [] then e2\<lparr>eg_posted := eg_posted e2 @ [due]\<rparr> else e2)"

text \<open>One step of the service's timer worker: the next timer of the oldest list.\<close>

definition worker_step :: "engine \<Rightarrow> engine run" where
  "worker_step e =
     (case eg_posted e of
        [] \<Rightarrow> Done e
      | [] # ls \<Rightarrow> Done (e\<lparr>eg_posted := ls\<rparr>)
      | (tid # tids) # ls \<Rightarrow>
          (let e1 = e\<lparr>eg_posted := tids # ls\<rparr> in
           if tid \<in> eg_alive e1 then handle_timeout tid e1 else Done e1))"

section \<open>The map of deadlines\<close>

abbreviation ascending :: "(u64 \<times> nat list) list \<Rightarrow> bool" where
  "ascending ts \<equiv> sorted_wrt (<) (map fst ts)"

lemma push_at_keys: "set (map fst (push_at key tid ts)) = insert key (set (map fst ts))"
proof (induction ts)
  case (Cons e ts)
  then show ?case by (cases e) (simp add: insert_commute)
qed simp

lemma push_at_ascending: "ascending ts \<Longrightarrow> ascending (push_at key tid ts)"
proof (induction ts)
  case (Cons e ts)
  then show ?case using push_at_keys [of key tid ts] by (cases e) fastforce
qed simp

lemma push_at_mset: "mset (concat (map snd (push_at key tid ts))) = add_mset tid (mset (concat (map snd ts)))"
  by (induction ts) auto

lemma push_at_due:
  assumes "ascending ts"
  shows "filter (\<lambda>(k, _). k \<le> now) (push_at key tid ts) =
    (if key \<le> now then push_at key tid (filter (\<lambda>(k, _). k \<le> now) ts) else filter (\<lambda>(k, _). k \<le> now) ts)"
  using assms
proof (induction ts)
  case (Cons e ts)
  obtain k tids where e: "e = (k, tids)" by fastforce
  have "filter (\<lambda>(k, _). k \<le> now) ts = []" if "\<not> k \<le> now"
    using Cons.prems that unfolding e by (force simp: filter_empty_conv)
  then show ?case using Cons by (auto simp: e)
qed simp

lemma splice_due_eq:
  assumes "ascending ts"
  shows "splice_due now ts =
    (concat (map snd (filter (\<lambda>(k, _). k \<le> now) ts)), filter (\<lambda>(k, _). now < k) ts)"
  using assms
proof (induction ts)
  case (Cons e ts)
  obtain k tids where e: "e = (k, tids)" by fastforce
  have "filter (\<lambda>(k, _). k \<le> now) ts = []" "filter (\<lambda>(k, _). now < k) ts = ts" if "\<not> k \<le> now"
    using Cons.prems that unfolding e by (force simp: filter_empty_conv filter_id_conv)+
  then show ?case using Cons by (auto simp: e)
qed simp

section \<open>Every started timer is queued once\<close>

definition places :: "engine \<Rightarrow> nat list" where
  "places e = eg_new e @ concat (map snd (eg_timers e)) @ concat (eg_posted e)"

definition engine_inv :: "engine \<Rightarrow> bool" where
  "engine_inv e \<longleftrightarrow>
     ascending (eg_timers e) \<and> distinct (places e) \<and>
     (\<forall>tid\<in>set (places e). tm_state (eg_heap e tid) \<in> {TmStarted, TmStopped} \<and> tm_engine (eg_heap e tid)) \<and>
     (\<forall>tid\<in>eg_alive e. tm_state (eg_heap e tid) = TmStarted \<longrightarrow> tid \<in> set (places e)) \<and>
     set (eg_new e) \<subseteq> eg_alive e"

text \<open>Moving timers between the places keeps the invariant.\<close>

lemma engine_inv_move:
  assumes "engine_inv e" and "mset (places e') = mset (places e)" and "ascending (eg_timers e')"
    and "eg_heap e' = eg_heap e" and "eg_alive e' = eg_alive e" and "set (eg_new e') \<subseteq> eg_alive e"
  shows "engine_inv e'"
proof -
  have "set (places e') = set (places e)" using assms(2) by (metis set_mset_mset)
  moreover have "distinct (places e')" using assms(1,2) mset_eq_imp_distinct_iff by (auto simp: engine_inv_def)
  ultimately show ?thesis using assms by (simp add: engine_inv_def)
qed

lemma queue_new_inv:
  assumes "engine_inv e" and "eg_new e = tid # rest"
  shows "engine_inv (queue_timer tid now (e\<lparr>eg_new := rest\<rparr>))"
  by (rule engine_inv_move [OF assms(1)])
    (use assms in \<open>auto simp: queue_timer_def places_def push_at_mset push_at_ascending engine_inv_def\<close>)

lemma queue_more_inv: "engine_inv e \<Longrightarrow> engine_inv (queue_more n now e)"
  by (induction n arbitrary: e) (auto split: list.split simp: queue_new_inv)

lemma observe_split:
  assumes "ascending ts" and "splice_due now ts = (due, left)"
  shows "mset (concat (map snd ts)) = mset due + mset (concat (map snd left))" and "ascending left"
proof -
  show "mset (concat (map snd ts)) = mset due + mset (concat (map snd left))"
    using assms(2)
  proof (induction ts arbitrary: due left)
    case (Cons e ts)
    obtain d l where "splice_due now ts = (d, l)" by fastforce
    with Cons show ?case by (cases e) (auto split: if_splits)
  qed simp
  have "left = filter (\<lambda>(k, _). now < k) ts" using assms splice_due_eq by simp
  then show "ascending left" using assms(1) by (simp add: sorted_wrt_filter sorted_wrt_map)
qed

lemma queue_more_posted [simp]: "eg_posted (queue_more n now e) = eg_posted e"
  by (induction n arbitrary: e) (auto simp: queue_timer_def split: list.split)

lemma queue_more_alive [simp]: "eg_alive (queue_more n now e) = eg_alive e"
  by (induction n arbitrary: e) (auto simp: queue_timer_def split: list.split)

text \<open>Timers that were taken out of the map and not yet posted: \<open>due\<close>.\<close>

lemma observe_round_inv:
  assumes inv: "engine_inv e"
  shows "engine_inv (observe_round now1 now2 now3 e)"
proof (cases "eg_started e")
  case True
  obtain due left where sp: "splice_due now1 (eg_timers e) = (due, left)" by fastforce
  have asc: "ascending (eg_timers e)" using inv by (simp add: engine_inv_def)
  note split = observe_split [OF asc sp]
  text \<open>Posting first gives the same state, because queueing does not look at the posted lists.\<close>
  define p where "p = (if due \<noteq> [] then e\<lparr>eg_timers := left, eg_posted := eg_posted e @ [due]\<rparr>
      else e\<lparr>eg_timers := left\<rparr>)"
  have ip: "engine_inv p"
    by (rule engine_inv_move [OF inv]) (use split inv in \<open>auto simp: p_def places_def engine_inv_def\<close>)
  have comm: "queue_more n now (u\<lparr>eg_posted := ps\<rparr>) = (queue_more n now u)\<lparr>eg_posted := ps\<rparr>" for n now ps u
  proof (induction n arbitrary: u)
    case (Suc n)
    show ?case
    proof (cases "eg_new u")
      case (Cons tid rest)
      have "queue_timer tid now (u\<lparr>eg_posted := ps, eg_new := rest\<rparr>) =
          (queue_timer tid now (u\<lparr>eg_new := rest\<rparr>))\<lparr>eg_posted := ps\<rparr>"
        by (cases u) (simp add: queue_timer_def)
      with Cons Suc show ?thesis by simp
    qed simp
  qed simp
  define nx where "nx = (case left of [] \<Rightarrow> now1 + default_observe_interval_ns | (k, _) # _ \<Rightarrow> k)"
  have obs: "observe (now1 + default_observe_interval_ns) now1 e = (due, nx, e\<lparr>eg_timers := left\<rparr>)"
    by (simp add: observe_def sp nx_def)
  show ?thesis
  proof (cases "due = []")
    case False
    have "observe_round now1 now2 now3 e = queue_more 1024 now2 p"
      using True False comm [of 1024 now2 "eg_posted e @ [due]" "e\<lparr>eg_timers := left\<rparr>"]
      by (simp add: observe_round_def obs p_def)
    then show ?thesis using queue_more_inv [OF ip] by simp
  next
    case due: True
    then have p: "e\<lparr>eg_timers := left\<rparr> = p" by (simp add: p_def)
    have "observe_round now1 now2 now3 e =
        (if nx > now2 then
           case eg_new p of
             [] \<Rightarrow> queue_more 1024 now3 p
           | tid # rest \<Rightarrow> queue_more 1023 now3 (queue_timer tid now3 (p\<lparr>eg_new := rest\<rparr>))
         else queue_more 1024 now2 p)"
      using True due by (simp add: observe_round_def obs p)
    then show ?thesis using queue_more_inv queue_new_inv [OF ip] ip by (auto split: list.split)
  qed
qed (use inv in \<open>simp add: observe_round_def\<close>)

lemma start_timer_inv:
  assumes inv: "engine_inv e" and alive: "tid \<in> eg_alive e"
  shows "engine_inv (snd (start_timer tid e))"
proof (cases "eg_started e \<and> tm_state (eg_heap e tid) \<in> {TmNone, TmFinished}")
  case True
  then have out: "tid \<notin> set (places e)" using inv by (auto simp: engine_inv_def)
  let ?t = "(eg_heap e tid)\<lparr>tm_state := TmStarted, tm_engine := True\<rparr>"
  let ?e = "e\<lparr>eg_heap := (eg_heap e)(tid := ?t), eg_new := eg_new e @ [tid]\<rparr>"
  have "snd (start_timer tid e) = ?e"
    using True by (auto simp: start_timer_def timer_start_def timer_set_state_def)
  moreover have "set (places ?e) = insert tid (set (places e))" "distinct (places ?e)"
    using out inv by (auto simp: places_def engine_inv_def)
  ultimately show ?thesis using inv alive by (simp add: engine_inv_def)
next
  case False
  then have "snd (start_timer tid e) = e"
    by (auto simp: start_timer_def timer_start_def timer_set_state_def)
  with inv show ?thesis by simp
qed

text \<open>Firing a timer that has just left its place; one that is started but in no place.\<close>

lemma handle_timeout_inv:
  assumes inv: "engine_inv (e\<lparr>eg_alive := eg_alive e - {tid}\<rparr>)" and alive: "tid \<in> eg_alive e"
    and out: "tid \<notin> set (places e)" and eng: "tm_engine (eg_heap e tid)"
  shows "\<exists>e'. handle_timeout tid e = Done e' \<and> engine_inv e'"
proof -
  let ?t = "eg_heap e tid"
  have pl: "places (e\<lparr>eg_alive := A\<rparr>) = places e" for A by (simp add: places_def)
  have upd: "engine_inv (e\<lparr>eg_heap := (eg_heap e)(tid := t), eg_fired := f\<rparr>)" if "tm_state t \<noteq> TmStarted" for t f
    using inv out that unfolding engine_inv_def pl by (auto simp: places_def)
  have req: "engine_inv (e\<lparr>eg_heap := (eg_heap e)(tid := t), eg_new := eg_new e @ [tid], eg_fired := f\<rparr>)"
    if "tm_state t = TmStarted" "tm_engine t" for t f
    using inv out alive that unfolding engine_inv_def pl by (auto simp: places_def)
  show ?thesis
  proof (cases "tm_state ?t = TmStarted")
    case False
    then have "engine_inv e" using upd [of ?t "eg_fired e"] by simp
    with False show ?thesis by (simp add: handle_timeout_def timer_set_state_def)
  next
    case True
    show ?thesis
    proof (cases "tm_repeated ?t")
      case rep: False
      have "engine_inv (e\<lparr>eg_heap := (eg_heap e)(tid := ?t\<lparr>tm_state := TmFinished\<rparr>), eg_fired := eg_fired e @ [tid]\<rparr>)"
        by (rule upd) simp
      with True rep show ?thesis by (simp add: handle_timeout_def timer_set_state_def)
    next
      case rep: True
      show ?thesis
      proof (cases "eg_started e")
        case True
        have "engine_inv (e\<lparr>eg_heap := (eg_heap e)(tid := ?t\<lparr>tm_state := TmStarted\<rparr>),
            eg_new := eg_new e @ [tid], eg_fired := eg_fired e @ [tid]\<rparr>)"
          by (rule req) (use eng in simp_all)
        then show ?thesis using rep True \<open>tm_state ?t = TmStarted\<close> eng
          by (simp add: handle_timeout_def timer_set_state_def restart_timer_def timer_restart_def)
      next
        case False
        have "engine_inv (e\<lparr>eg_heap := (eg_heap e)(tid := ?t\<lparr>tm_state := TmPending\<rparr>), eg_fired := eg_fired e\<rparr>)"
          by (rule upd) simp
        with rep False True show ?thesis
          by (simp add: handle_timeout_def timer_set_state_def restart_timer_def)
      qed
    qed
  qed
qed

lemma worker_step_inv:
  assumes inv: "engine_inv e"
  shows "\<exists>e'. worker_step e = Done e' \<and> engine_inv e'"
proof (cases "eg_posted e")
  case Nil
  with inv show ?thesis by (simp add: worker_step_def)
next
  case (Cons l ls)
  show ?thesis
  proof (cases l)
    case Nil
    have "engine_inv (e\<lparr>eg_posted := ls\<rparr>)"
      by (rule engine_inv_move [OF inv]) (use Cons Nil inv in \<open>auto simp: places_def engine_inv_def\<close>)
    with Cons Nil show ?thesis by (simp add: worker_step_def)
  next
    case l: (Cons tid tids)
    let ?e = "e\<lparr>eg_posted := tids # ls\<rparr>"
    have m: "mset (places e) = add_mset tid (mset (places ?e))" using Cons l by (simp add: places_def)
    have d: "distinct (places e)" using inv by (simp add: engine_inv_def)
    have out: "tid \<notin> set (places ?e)" and dis: "distinct (places ?e)"
      using d Cons l by (auto simp: places_def)
    have s: "set (places e) = insert tid (set (places ?e))"
      using Cons l by (auto simp: places_def)
    have eng: "tm_engine (eg_heap e tid)" using inv s by (simp add: engine_inv_def)
    have inv': "engine_inv (?e\<lparr>eg_alive := eg_alive e - {tid}\<rparr>)"
    proof -
      have "places (?e\<lparr>eg_alive := A\<rparr>) = places ?e" for A by (simp add: places_def)
      moreover have "set (eg_new e) \<subseteq> eg_alive e - {tid}"
        using inv out by (auto simp: engine_inv_def places_def)
      ultimately show ?thesis using inv s out dis unfolding engine_inv_def by auto
    qed
    show ?thesis
    proof (cases "tid \<in> eg_alive e")
      case True
      have "\<exists>e'. handle_timeout tid ?e = Done e' \<and> engine_inv e'"
        by (rule handle_timeout_inv) (use inv' True out eng in simp_all)
      with True Cons l show ?thesis by (simp add: worker_step_def)
    next
      case False
      then have "?e\<lparr>eg_alive := eg_alive e - {tid}\<rparr> = ?e" by (cases e) simp
      with inv' False Cons l show ?thesis by (simp add: worker_step_def)
    qed
  qed
qed

section \<open>Steps of the engine and its users\<close>

datatype eg_op =
    EgCreate nat bool u64
  | EgDrop nat
  | EgStop nat
  | EgStart nat
  | EgRun bool bool
  | EgHalt
  | EgObserve u64 u64 u64
  | EgWorker

fun eg_exec :: "eg_op \<Rightarrow> engine \<Rightarrow> engine run" where
  "eg_exec (EgCreate tid repeated timeout) e =
     Done (e\<lparr>eg_heap := (eg_heap e)(tid := timer_new repeated timeout), eg_alive := insert tid (eg_alive e)\<rparr>)"
| "eg_exec (EgDrop tid) e = Done (e\<lparr>eg_alive := eg_alive e - {tid}\<rparr>)"
| "eg_exec (EgStop tid) e = Done (e\<lparr>eg_heap := (eg_heap e)(tid := timer_stop (eg_heap e tid))\<rparr>)"
| "eg_exec (EgStart tid) e = Done (snd (start_timer tid e))"
| "eg_exec (EgRun cb ok) e = Done (snd (engine_start cb ok e))"
| "eg_exec EgHalt e = Done (engine_stop e)"
| "eg_exec (EgObserve now1 now2 now3) e = Done (observe_round now1 now2 now3 e)"
| "eg_exec EgWorker e = worker_step e"

text \<open>
  A new timer is a new object: no weak pointer to it exists yet. The queue of new timers
  holds shared pointers, so a timer in it is not destroyed.
\<close>

fun eg_legal :: "eg_op \<Rightarrow> engine \<Rightarrow> bool" where
  "eg_legal (EgCreate tid repeated timeout) e \<longleftrightarrow> tid \<notin> eg_alive e \<and> tid \<notin> set (places e)"
| "eg_legal (EgDrop tid) e \<longleftrightarrow> tid \<notin> set (eg_new e)"
| "eg_legal (EgStop tid) e \<longleftrightarrow> tid \<in> eg_alive e"
| "eg_legal (EgStart tid) e \<longleftrightarrow> tid \<in> eg_alive e"
| "eg_legal _ e \<longleftrightarrow> True"

inductive eg_reachable :: "engine \<Rightarrow> bool" where
  eg_reach_new: "eg_reachable engine_new"
| eg_reach_step: "eg_reachable e \<Longrightarrow> eg_legal op e \<Longrightarrow> eg_exec op e = Done e' \<Longrightarrow> eg_reachable e'"

lemma eg_exec_inv:
  assumes inv: "engine_inv e" and legal: "eg_legal op e"
  shows "\<exists>e'. eg_exec op e = Done e' \<and> engine_inv e'"
proof (cases op)
  case (EgStop tid)
  have "places (e\<lparr>eg_heap := h\<rparr>) = places e" for h by (simp add: places_def)
  with inv EgStop show ?thesis by (auto simp: engine_inv_def timer_stop_def)
next
  case (EgCreate tid repeated timeout)
  have "places (e\<lparr>eg_heap := h, eg_alive := A\<rparr>) = places e" for h A by (simp add: places_def)
  with inv legal EgCreate show ?thesis by (auto simp: engine_inv_def timer_new_def)
next
  case (EgDrop tid)
  have "places (e\<lparr>eg_alive := A\<rparr>) = places e" for A by (simp add: places_def)
  with inv legal EgDrop show ?thesis by (auto simp: engine_inv_def)
next
  case (EgRun cb ok)
  have "places (e\<lparr>eg_started := s\<rparr>) = places e" "places (e\<lparr>eg_started := s, eg_cb := c\<rparr>) = places e"
    "places (e\<lparr>eg_cb := c, eg_started := s\<rparr>) = places e" for s c by (simp_all add: places_def)
  with inv EgRun show ?thesis by (auto simp: engine_start_def Let_def engine_inv_def)
next
  case EgHalt
  have "places (e\<lparr>eg_started := s\<rparr>) = places e" for s by (simp add: places_def)
  with inv EgHalt show ?thesis by (simp add: engine_stop_def engine_inv_def)
qed (use inv legal start_timer_inv observe_round_inv worker_step_inv in auto)

lemma eg_reachable_inv: "eg_reachable e \<Longrightarrow> engine_inv e"
proof (induction rule: eg_reachable.induct)
  case eg_reach_new
  show ?case by (simp add: engine_inv_def engine_new_def places_def)
next
  case (eg_reach_step e op e')
  then show ?case using eg_exec_inv [of e op] by auto
qed

definition eg_example :: engine where
  "eg_example = snd (start_timer 4
     (engine_new\<lparr>eg_started := True, eg_cb := True, eg_heap := (\<lambda>_. timer_new False 0)(4 := timer_new False 50),
       eg_alive := {4}\<rparr>))"

lemma eg_example_reachable: "eg_reachable eg_example"
proof -
  let ?e1 = "engine_new\<lparr>eg_started := True, eg_cb := True\<rparr>"
  let ?e2 = "?e1\<lparr>eg_heap := (\<lambda>_. timer_new False 0)(4 := timer_new False 50), eg_alive := {4}\<rparr>"
  have "eg_reachable ?e1"
    by (rule eg_reach_step [OF eg_reach_new, of "EgRun True True"]) (simp_all add: engine_start_def engine_new_def)
  then have "eg_reachable ?e2"
    by (rule eg_reach_step [of _ "EgCreate 4 False 50"]) (simp_all add: engine_new_def places_def)
  then have "eg_reachable (snd (start_timer 4 ?e2))"
    by (rule eg_reach_step [of _ "EgStart 4"]) (simp_all add: engine_new_def)
  then show ?thesis by (simp add: eg_example_def)
qed

text \<open>
  C33. In every reachable state a started timer is waiting in exactly one place (the queue
  of new timers, the map of deadlines or a posted list), no timer waits twice, and the map
  is in the order of the deadlines. No step aborts.
\<close>

theorem timers_queued_once:
  assumes "eg_reachable e" and "eg_legal op e"
  shows "distinct (places e) \<and> sorted_wrt (<) (map fst (eg_timers e)) \<and>
    {tid. tid \<in> eg_alive e \<and> tm_state (eg_heap e tid) = TmStarted} \<subseteq> set (places e) \<and>
    (\<exists>e'. eg_exec op e = Done e' \<and> eg_reachable e')"
proof -
  have inv: "engine_inv e" by (rule eg_reachable_inv [OF assms(1)])
  with eg_exec_inv [OF inv assms(2)] eg_reach_step [OF assms] show ?thesis
    by (auto simp: engine_inv_def)
qed

theorem timers_queued_once_witness:
  "distinct (places eg_example) \<and> sorted_wrt (<) (map fst (eg_timers eg_example)) \<and>
    {tid. tid \<in> eg_alive eg_example \<and> tm_state (eg_heap eg_example tid) = TmStarted} \<subseteq> set (places eg_example) \<and>
    (\<exists>e'. eg_exec (EgObserve 1 2 3) eg_example = Done e' \<and> eg_reachable e')"
  by (rule timers_queued_once [OF eg_example_reachable]) simp



lemma observe_eq:
  assumes "sorted_wrt (<) (map fst (eg_timers e))"
  shows "observe next now e =
    (concat (map snd (filter (\<lambda>(k, _). k \<le> now) (eg_timers e))),
     (case filter (\<lambda>(k, _). now < k) (eg_timers e) of [] \<Rightarrow> next | (k, _) # _ \<Rightarrow> k),
     e\<lparr>eg_timers := filter (\<lambda>(k, _). now < k) (eg_timers e)\<rparr>)"
  by (simp add: observe_def splice_due_eq [OF assms])

text \<open>
  Observing the timers takes exactly those whose deadline has come, in the order of
  their deadlines and of their arrival within one, keeps the others, and sets the next time
  to the earliest deadline that is left.
\<close>

theorem observe_takes_due:
  assumes "sorted_wrt (<) (map fst (eg_timers e))"
  shows "observe next now e =
    (concat (map snd (filter (\<lambda>(k, _). k \<le> now) (eg_timers e))),
     (case filter (\<lambda>(k, _). now < k) (eg_timers e) of [] \<Rightarrow> next | (k, _) # _ \<Rightarrow> k),
     e\<lparr>eg_timers := filter (\<lambda>(k, _). now < k) (eg_timers e)\<rparr>)"
  by (rule observe_eq [OF assms])

theorem observe_takes_due_witness:
  "fst (observe 100 10 (engine_new\<lparr>eg_timers := [(5, [1, 2]), (10, [3]), (20, [4])]\<rparr>)) = [1, 2, 3]"
  using observe_takes_due [of "engine_new\<lparr>eg_timers := [(5, [1, 2]), (10, [3]), (20, [4])]\<rparr>" 100 10]
  by simp

text \<open>
  A timer queued at time \<open>t\<close> with a timeout \<open>d\<close> is due from \<open>t + d\<close> on and not before, as
  long as the sum fits into 64 bits; a sum that does not fit wraps around, and the timer is
  due at once.
\<close>

theorem queue_timer_deadline:
  assumes "sorted_wrt (<) (map fst (eg_timers e))" and "tid \<notin> set (concat (map snd (eg_timers e)))"
    and "t \<le> now"
  shows "tid \<in> set (fst (observe next now (queue_timer tid t e))) \<longleftrightarrow>
    (if unat (tm_timeout (eg_heap e tid)) + unat t < 2 ^ 64
     then unat (tm_timeout (eg_heap e tid)) + unat t \<le> unat now
     else True)"
proof -
  let ?k = "tm_timeout (eg_heap e tid) + t"
  have asc: "ascending (eg_timers (queue_timer tid t e))"
    using assms(1) by (simp add: queue_timer_def push_at_ascending)
  have mem: "tid \<in> set (concat (map snd (push_at ?k tid us)))" for us
    using arg_cong [OF push_at_mset [of ?k tid us], of set_mset] by auto
  have out: "tid \<notin> set (concat (map snd (filter (\<lambda>(k, _). k \<le> now) (eg_timers e))))"
    using assms(2) by auto
  have "tid \<in> set (fst (observe next now (queue_timer tid t e))) \<longleftrightarrow> ?k \<le> now"
    unfolding observe_eq [OF asc] fst_conv using assms(1) mem out
    by (simp add: queue_timer_def push_at_due)
  also have "\<dots> \<longleftrightarrow> unat ?k \<le> unat now" by (simp add: word_le_nat_alt)
  also have "\<dots> \<longleftrightarrow> (if unat (tm_timeout (eg_heap e tid)) + unat t < 2 ^ 64
      then unat (tm_timeout (eg_heap e tid)) + unat t \<le> unat now
      else unat (tm_timeout (eg_heap e tid)) + unat t - 2 ^ 64 \<le> unat now)"
    unfolding unat_plus_if' by simp
  finally have 1: "tid \<in> set (fst (observe next now (queue_timer tid t e))) \<longleftrightarrow>
    (if unat (tm_timeout (eg_heap e tid)) + unat t < 2 ^ 64
     then unat (tm_timeout (eg_heap e tid)) + unat t \<le> unat now
     else unat (tm_timeout (eg_heap e tid)) + unat t - 2 ^ 64 \<le> unat now)" .
  have "unat (tm_timeout (eg_heap e tid)) < 2 ^ 64" by (rule order_less_le_trans [OF unsigned_less]) simp
  moreover have "unat t \<le> unat now" using assms(3) by (simp add: word_le_nat_alt)
  ultimately have "unat (tm_timeout (eg_heap e tid)) + unat t - 2 ^ 64 \<le> unat now" by linarith
  with 1 show ?thesis by simp
qed

theorem queue_timer_deadline_witness:
  "4 \<notin> set (fst (observe 0 52 (queue_timer 4 3 eg_example))) \<and> 4 \<in> set (fst (observe 0 53 (queue_timer 4 3 eg_example)))"
  using queue_timer_deadline [of eg_example 4 3 52 0] queue_timer_deadline [of eg_example 4 3 53 0]
  by (simp add: eg_example_def start_timer_def timer_start_def timer_set_state_def engine_new_def timer_new_def)

end
