(* ===== verification/Poller.thy ===== *)
theory Poller
  imports Prelude
begin

text \<open>
  Channels and their trackers (include/pump/poll/channel.h), the poller that owns the
  trackers and the two event queues (poll/poller.h, src/poll/poller.cpp) and its two
  back ends on Unix (src/poll/epoll_poller.cpp, src/poll/select_poller.cpp).

  Trackers and channels are named by numbers, which stand for their addresses. The poller
  holds trackers by shared pointers in \<open>trackers_\<close> (a \<open>std::map\<close> by address: here the
  ascending list of the numbers) and in its event queue; the transports hold theirs
  (\<open>pl_users\<close>). A tracker object exists as long as one of these holds it. A channel is
  held weakly; \<open>pl_channels\<close> are the channels that exist. The back end's state is \<open>'k\<close>.
  What the operating system answers is an argument of the operations.
\<close>

section \<open>channel_tracker\<close>

definition io_read :: u32 where "io_read = 1"
definition io_send :: u32 where "io_send = 2"
definition io_error :: u32 where "io_error = 4"
definition track_none :: u32 where "track_none = io_error"
definition track_read :: u32 where "track_read = io_read"
definition track_send :: u32 where "track_send = io_send"

record chan_tracker =
  ct_tracking :: bool
  ct_expected :: u32
  ct_fd :: int
  ct_ch :: nat
  ct_poller :: bool
  ct_events :: u32

definition tracker_new :: "nat \<Rightarrow> int \<Rightarrow> u32 \<Rightarrow> chan_tracker" where
  "tracker_new ch fd ev =
     \<lparr>ct_tracking = False, ct_expected = ev, ct_fd = fd, ct_ch = ch, ct_poller = False, ct_events = 0\<rparr>"

definition ct_track :: "chan_tracker \<Rightarrow> bool \<times> chan_tracker" where
  "ct_track t = (if \<not> ct_tracking t then (True, t\<lparr>ct_tracking := True\<rparr>) else (False, t))"

definition ct_untrack :: "chan_tracker \<Rightarrow> bool \<times> chan_tracker" where
  "ct_untrack t = (if ct_tracking t then (True, t\<lparr>ct_tracking := False\<rparr>) else (False, t))"

definition set_expected_event :: "u32 \<Rightarrow> chan_tracker \<Rightarrow> chan_tracker" where
  "set_expected_event ev t = t\<lparr>ct_expected := ev\<rparr>"

text \<open>The calls of a channel's virtual functions.\<close>

datatype ch_call = CallRead nat | CallSend nat | CallEvent nat nat

definition handle_io_event :: "nat \<Rightarrow> u32 \<Rightarrow> ch_call list" where
  "handle_io_event ch ev =
     (if ev AND io_read \<noteq> 0 then [CallRead ch]
      else if ev AND io_send \<noteq> 0 then [CallSend ch]
      else [])"

section \<open>poller\<close>

record 'k poller =
  pl_started :: bool
  pl_cev_cnt :: nat
  pl_cevents :: "(nat \<times> nat) list"
  pl_tev_cnt :: nat
  pl_tevents :: "(nat \<times> bool) list"
  pl_trackers :: "nat list"
  pl_kernel :: 'k
  pl_ready :: "nat list"
  pl_heap :: "nat \<Rightarrow> chan_tracker"
  pl_users :: "nat set"
  pl_channels :: "nat set"
  pl_calls :: "ch_call list"

definition poller_new :: "'k \<Rightarrow> 'k poller" where
  "poller_new k =
     \<lparr>pl_started = False, pl_cev_cnt = 0, pl_cevents = [], pl_tev_cnt = 0, pl_tevents = [],
      pl_trackers = [], pl_kernel = k, pl_ready = [], pl_heap = (\<lambda>_. tracker_new 0 (-1) 0),
      pl_users = {}, pl_channels = {}, pl_calls = []\<rparr>"

definition poller_start :: "'k poller \<Rightarrow> bool \<times> 'k poller" where
  "poller_start p = (if pl_started p then (False, p) else (True, p\<lparr>pl_started := True\<rparr>))"

definition poller_stop :: "'k poller \<Rightarrow> 'k poller" where
  "poller_stop p = p\<lparr>pl_started := False\<rparr>"

type_synonym 'k backend_op = "bool \<Rightarrow> nat \<Rightarrow> chan_tracker \<Rightarrow> 'k \<Rightarrow> bool \<times> chan_tracker \<times> 'k"

text \<open>\<open>ok_ev\<close>: the tracker event could be allocated; \<open>ok\<close>: the operating system agreed.\<close>

definition install_channel_tracker ::
  "'k backend_op \<Rightarrow> bool \<Rightarrow> bool \<Rightarrow> nat \<Rightarrow> 'k poller \<Rightarrow> bool \<times> 'k poller" where
  "install_channel_tracker inst ok_ev ok tid p =
     (if \<not> pl_started p then (False, p)
      else
        let t = pl_heap p tid;
            (tracked, t1) = (if ct_expected t \<noteq> track_none then ct_track t else (True, t))
        in
        if \<not> tracked then (False, p)
        else if \<not> ok_ev then (False, p\<lparr>pl_heap := (pl_heap p)(tid := t1)\<rparr>)
        else
          let (r, t2, k) = inst ok tid (t1\<lparr>ct_poller := True\<rparr>) (pl_kernel p) in
          if \<not> r then
            (False, p\<lparr>pl_heap := (pl_heap p)(tid := t2\<lparr>ct_poller := False\<rparr>), pl_kernel := k\<rparr>)
          else
            (True, p\<lparr>pl_heap := (pl_heap p)(tid := t2), pl_kernel := k,
                     pl_tevents := pl_tevents p @ [(tid, True)], pl_tev_cnt := pl_tev_cnt p + 1\<rparr>))"

definition uninstall_channel_tracker ::
  "'k backend_op \<Rightarrow> bool \<Rightarrow> bool \<Rightarrow> nat \<Rightarrow> 'k poller \<Rightarrow> 'k poller" where
  "uninstall_channel_tracker uninst ok_ev ok tid p =
     (if \<not> pl_started p then p
      else
        let t = snd (ct_untrack (pl_heap p tid));
            (r, t1, k) = uninst ok tid t (pl_kernel p);
            p1 = p\<lparr>pl_heap := (pl_heap p)(tid := t1), pl_kernel := k\<rparr>
        in
        if \<not> ok_ev then p1
        else p1\<lparr>pl_tevents := pl_tevents p1 @ [(tid, False)], pl_tev_cnt := pl_tev_cnt p1 + 1\<rparr>)"

definition start_channel_tracker ::
  "'k backend_op \<Rightarrow> bool \<Rightarrow> nat \<Rightarrow> 'k poller \<Rightarrow> bool \<times> 'k poller" where
  "start_channel_tracker start ok tid p =
     (let (tracked, t) = ct_track (pl_heap p tid) in
      if \<not> tracked then (False, p)
      else
        let (r, t1, k) = start ok tid t (pl_kernel p) in
        (r, p\<lparr>pl_heap := (pl_heap p)(tid := t1), pl_kernel := k\<rparr>))"

definition push_channel_event :: "bool \<Rightarrow> nat \<Rightarrow> nat \<Rightarrow> 'k poller \<Rightarrow> bool \<times> 'k poller" where
  "push_channel_event ok_ev ch ev p =
     (if \<not> pl_started p then (False, p)
      else if \<not> ok_ev then (False, p)
      else (True, p\<lparr>pl_cevents := pl_cevents p @ [(ch, ev)], pl_cev_cnt := pl_cev_cnt p + 1\<rparr>))"

fun handle_cevents :: "nat \<Rightarrow> 'k poller \<Rightarrow> 'k poller run" where
  "handle_cevents 0 p = Done p"
| "handle_cevents (Suc n) p =
     (case pl_cevents p of
        [] \<Rightarrow> Abort
      | (ch, ev) # rest \<Rightarrow>
          handle_cevents n
            (p\<lparr>pl_cevents := rest,
               pl_calls := pl_calls p @ (if ch \<in> pl_channels p then [CallEvent ch ev] else [])\<rparr>))"

definition handle_channel_events :: "'k poller \<Rightarrow> 'k poller run" where
  "handle_channel_events p = handle_cevents (pl_cev_cnt p) (p\<lparr>pl_cev_cnt := 0\<rparr>)"

definition apply_tevent :: "nat \<times> bool \<Rightarrow> nat list \<Rightarrow> nat list" where
  "apply_tevent e trs =
     (if snd e then (if fst e \<in> set trs then trs else insort (fst e) trs)
      else filter (\<lambda>tid. tid \<noteq> fst e) trs)"

fun handle_tevents :: "nat \<Rightarrow> 'k poller \<Rightarrow> 'k poller run" where
  "handle_tevents 0 p = Done p"
| "handle_tevents (Suc n) p =
     (case pl_tevents p of
        [] \<Rightarrow> Abort
      | e # rest \<Rightarrow>
          handle_tevents n (p\<lparr>pl_tevents := rest, pl_trackers := apply_tevent e (pl_trackers p)\<rparr>))"

definition handle_channel_tracker_events :: "'k poller \<Rightarrow> 'k poller run" where
  "handle_channel_tracker_events p = handle_tevents (pl_tev_cnt p) (p\<lparr>pl_tev_cnt := 0\<rparr>)"

definition poll_timeout :: "'k poller \<Rightarrow> int" where
  "poll_timeout p = (if pl_cev_cnt p > 0 \<or> pl_tev_cnt p > 0 then 0 else 3)"

section \<open>epoll_poller\<close>

text \<open>
  The table is what the kernel has registered: for a descriptor the pointer in \<open>data.ptr\<close>
  and the events. \<open>EPOLL_CTL_ADD\<close> fails on a descriptor that is registered, \<open>MOD\<close> and \<open>DEL\<close>
  on one that is not.
\<close>

record epoll =
  ep_table :: "int \<Rightarrow> (nat \<times> u32) option"
  ep_cur :: int
  ep_max :: int

definition epoll_new :: epoll where
  "epoll_new = \<lparr>ep_table = (\<lambda>_. None), ep_cur = 0, ep_max = 1024\<rparr>"

text \<open>\<open>EPOLLIN = 1, EPOLLPRI = 2, EPOLLOUT = 4, EPOLLRDHUP = 0x2000, EPOLLONESHOT = 2 ^ 30\<close>\<close>

definition epoll_read :: u32 where "epoll_read = 0x40002003"
definition epoll_send :: u32 where "epoll_send = 0x40000004"

definition set_epoll_events :: "chan_tracker \<Rightarrow> chan_tracker" where
  "set_epoll_events t =
     t\<lparr>ct_events :=
        (if ct_expected t AND io_read \<noteq> 0 then epoll_read
         else if ct_expected t AND io_send \<noteq> 0 then epoll_send
         else ct_events t)\<rparr>"

definition epoll_install :: "epoll backend_op" where
  "epoll_install ok tid t k =
     (let t1 = set_epoll_events t in
      if ok \<and> ep_table k (ct_fd t) = None
      then (True, t1, k\<lparr>ep_table := (ep_table k)(ct_fd t := Some (tid, ct_events t1)), ep_cur := ep_cur k + 1\<rparr>)
      else (False, t1, k))"

definition epoll_uninstall :: "epoll backend_op" where
  "epoll_uninstall ok tid t k =
     (if ep_table k (ct_fd t) = None then (True, t, k)
      else if ok
      then (True, t, k\<lparr>ep_table := (ep_table k)(ct_fd t := None), ep_cur := ep_cur k - 1\<rparr>)
      else (False, t, k))"

definition epoll_start :: "epoll backend_op" where
  "epoll_start ok tid t k =
     (let t1 = set_epoll_events t in
      if ok \<and> ep_table k (ct_fd t) \<noteq> None
      then (True, t1, k\<lparr>ep_table := (ep_table k)(ct_fd t := Some (tid, ct_events t1))\<rparr>)
      else (False, t1, k))"

text \<open>\<open>fds\<close>: the descriptors \<open>epoll_wait\<close> reports; the pointers go to \<open>events_\<close>.\<close>

definition epoll_poll :: "bool \<Rightarrow> int list \<Rightarrow> epoll poller \<Rightarrow> epoll poller run" where
  "epoll_poll ok_mem fds p =
     (let k = pl_kernel p;
          grow = ep_cur k > ep_max k;
          k1 = (if grow then k\<lparr>ep_max := ep_cur k\<rparr> else k)
      in
      if grow \<and> \<not> ok_mem then Abort
      else Done (p\<lparr>pl_kernel := k1,
                   pl_ready := map (\<lambda>fd. case ep_table k fd of None \<Rightarrow> 0 | Some (tid, _) \<Rightarrow> tid) fds\<rparr>))"

section \<open>Objects and their owners\<close>

definition tracker_alive :: "'k poller \<Rightarrow> nat \<Rightarrow> bool" where
  "tracker_alive p tid \<longleftrightarrow> tid \<in> pl_users p \<or> tid \<in> set (pl_trackers p) \<or> tid \<in> fst ` set (pl_tevents p)"

text \<open>One round of the loop of \<open>__dispatch_pending_event\<close>.\<close>

definition epoll_dispatch :: "epoll poller \<Rightarrow> epoll poller run" where
  "epoll_dispatch p =
     (case pl_ready p of
        [] \<Rightarrow> Done p
      | tid # rest \<Rightarrow>
          if \<not> tracker_alive p tid then Fault
          else
            let (was, t) = ct_untrack (pl_heap p tid);
                p1 = p\<lparr>pl_ready := rest, pl_heap := (pl_heap p)(tid := t)\<rparr>
            in
            if was \<and> ct_ch t \<in> pl_channels p
            then Done (p1\<lparr>pl_calls := pl_calls p @ handle_io_event (ct_ch t) (ct_expected t)\<rparr>)
            else Done p1)"

section \<open>select_poller\<close>

record sel =
  sl_read :: "int set"
  sl_write :: "int set"

definition sel_new :: sel where
  "sel_new = \<lparr>sl_read = {}, sl_write = {}\<rparr>"

definition is_selectable :: "int \<Rightarrow> bool" where
  "is_selectable fd \<longleftrightarrow> fd < 1024 \<and> fd \<ge> 0"

definition sel_install :: "sel backend_op" where
  "sel_install ok tid t k = (True, t, k)"

definition sel_uninstall :: "sel backend_op" where
  "sel_uninstall ok tid t k = (True, t, k)"

definition sel_start :: "sel backend_op" where
  "sel_start ok tid t k = (True, t, k)"

text \<open>An \<open>fd_set\<close> has 1024 bits; \<open>FD_SET\<close> and \<open>FD_ISSET\<close> do not look at the bound.\<close>

definition fd_isset :: "int \<Rightarrow> int set \<Rightarrow> bool run" where
  "fd_isset fd fds = (if 0 \<le> fd \<and> fd < 1024 then Done (fd \<in> fds) else Fault)"

text \<open>The loop of \<open>__poll\<close> that fills the sets; the first component is \<open>maxfd\<close>.\<close>

fun sel_scan :: "nat list \<Rightarrow> (nat \<Rightarrow> chan_tracker) \<Rightarrow> int \<times> sel \<Rightarrow> int \<times> sel" where
  "sel_scan [] heap acc = acc"
| "sel_scan (tid # rest) heap (maxfd, k) =
     (let t = heap tid; fd = ct_fd t in
      if \<not> ct_tracking t then sel_scan rest heap (maxfd, k)
      else if \<not> is_selectable fd then sel_scan rest heap (maxfd, k)
      else
        let maxfd = (if maxfd < fd then fd else maxfd);
            k = (if ct_expected t AND io_read \<noteq> 0 then k\<lparr>sl_read := insert fd (sl_read k)\<rparr>
                 else if ct_expected t AND io_send \<noteq> 0 then k\<lparr>sl_write := insert fd (sl_write k)\<rparr>
                 else k)
        in sel_scan rest heap (maxfd, k))"

text \<open>The loop of \<open>__dispatch_pending_event\<close> over the trackers that are left.\<close>

definition sel_fire :: "nat \<Rightarrow> ch_call \<Rightarrow> sel poller \<Rightarrow> sel poller" where
  "sel_fire tid call p =
     (let (was, t) = ct_untrack (pl_heap p tid);
          p1 = p\<lparr>pl_heap := (pl_heap p)(tid := t)\<rparr>
      in if was then p1\<lparr>pl_calls := pl_calls p @ [call]\<rparr> else p1)"

fun sel_dispatch :: "nat list \<Rightarrow> int set \<Rightarrow> int set \<Rightarrow> sel poller \<Rightarrow> sel poller run" where
  "sel_dispatch [] rd wr p = Done p"
| "sel_dispatch (tid # rest) rd wr p =
     (let t = pl_heap p tid; ch = ct_ch t in
      if ch \<notin> pl_channels p then
        sel_dispatch rest rd wr (p\<lparr>pl_trackers := filter (\<lambda>x. x \<noteq> tid) (pl_trackers p)\<rparr>)
      else
        run_bind (fd_isset (ct_fd t) rd) (\<lambda>r.
          if r then sel_dispatch rest rd wr (sel_fire tid (CallRead ch) p)
          else
            run_bind (fd_isset (ct_fd t) wr) (\<lambda>w.
              if w then sel_dispatch rest rd wr (sel_fire tid (CallSend ch) p)
              else sel_dispatch rest rd wr p)))"

text \<open>\<open>rd\<close> and \<open>wr\<close>: what \<open>select\<close> leaves of the two sets, both empty when its count is zero.\<close>

definition sel_poll :: "int set \<Rightarrow> int set \<Rightarrow> sel poller \<Rightarrow> sel poller run" where
  "sel_poll rd wr p =
     (let k = snd (sel_scan (pl_trackers p) (pl_heap p) (-1, \<lparr>sl_read = {}, sl_write = {}\<rparr>));
          p1 = p\<lparr>pl_kernel := \<lparr>sl_read = sl_read k \<inter> rd, sl_write = sl_write k \<inter> wr\<rparr>\<rparr>
      in
      if sl_read k \<inter> rd = {} \<and> sl_write k \<inter> wr = {} then Done p1
      else sel_dispatch (pl_trackers p1) (sl_read k \<inter> rd) (sl_write k \<inter> wr) p1)"

section \<open>What the queues settle to\<close>

text \<open>The trackers the poller holds once it has worked off its tracker events.\<close>

definition settled :: "'k poller \<Rightarrow> nat set" where
  "settled p = set (fold apply_tevent (pl_tevents p) (pl_trackers p))"

lemma set_apply_tevent [simp]:
  "set (apply_tevent e trs) = (if snd e then insert (fst e) (set trs) else set trs - {fst e})"
  by (auto simp: apply_tevent_def set_insort_key)

lemma settled_cong:
  "pl_tevents p' = pl_tevents p \<Longrightarrow> pl_trackers p' = pl_trackers p \<Longrightarrow> settled p' = settled p"
  by (simp add: settled_def)

lemma settled_append [simp]:
  "settled (p\<lparr>pl_tevents := pl_tevents p @ [e], pl_tev_cnt := n\<rparr>) =
     (if snd e then insert (fst e) (settled p) else settled p - {fst e})"
  by (simp add: settled_def)

lemma fold_tevents_subset: "set (fold apply_tevent es trs) \<subseteq> set trs \<union> fst ` set es"
proof (induction es arbitrary: trs)
  case (Cons e es)
  from Cons.IH [of "apply_tevent e trs"] show ?case by (auto split: if_splits)
qed simp

lemma settled_alive: "tid \<in> settled p \<Longrightarrow> tracker_alive p tid"
  using fold_tevents_subset [of "pl_tevents p" "pl_trackers p"] by (auto simp: settled_def tracker_alive_def)

lemma handle_tevents_done:
  "length (pl_tevents p) = n \<Longrightarrow>
   \<exists>p'. handle_tevents n p = Done p' \<and>
     p' = p\<lparr>pl_tevents := [], pl_trackers := fold apply_tevent (pl_tevents p) (pl_trackers p)\<rparr>"
proof (induction n arbitrary: p)
  case 0
  then show ?case by (cases p) simp
next
  case (Suc n)
  then obtain e rest where p: "pl_tevents p = e # rest" by (cases "pl_tevents p") auto
  from Suc.IH [of "p\<lparr>pl_tevents := rest, pl_trackers := apply_tevent e (pl_trackers p)\<rparr>"] Suc.prems p
  show ?case by (cases p) simp
qed

definition live_calls :: "'k poller \<Rightarrow> (nat \<times> nat) list \<Rightarrow> ch_call list" where
  "live_calls p evs = map (\<lambda>(ch, ev). CallEvent ch ev) (filter (\<lambda>(ch, ev). ch \<in> pl_channels p) evs)"

lemma handle_cevents_done:
  "length (pl_cevents p) = n \<Longrightarrow>
   handle_cevents n p = Done (p\<lparr>pl_cevents := [], pl_calls := pl_calls p @ live_calls p (pl_cevents p)\<rparr>)"
proof (induction n arbitrary: p)
  case 0
  then show ?case by (cases p) (simp add: live_calls_def)
next
  case (Suc n)
  then obtain ch ev rest where p: "pl_cevents p = (ch, ev) # rest" by (cases "pl_cevents p") auto
  from Suc.IH [of "p\<lparr>pl_cevents := rest,
      pl_calls := pl_calls p @ (if ch \<in> pl_channels p then [CallEvent ch ev] else [])\<rparr>"] Suc.prems p
  show ?case by (cases p) (simp add: live_calls_def)
qed

section \<open>Steps of the poller\<close>

text \<open>
  What threads do with a poller: make a tracker for a channel, give it up, the poller's own
  operations, and the two handlers of the worker thread. \<open>PlChannel ch True\<close> creates a
  channel, \<open>PlChannel ch False\<close> destroys it.
\<close>

datatype pl_op =
    PlNew nat nat int u32
  | PlDrop nat
  | PlChannel nat bool
  | PlInstall bool bool nat
  | PlUninstall bool nat
  | PlStart bool nat
  | PlExpect u32 nat
  | PlPush bool nat nat
  | PlHandleChannel
  | PlHandleTracker
  | PlRun
  | PlHalt

fun pl_exec ::
  "'k backend_op \<Rightarrow> 'k backend_op \<Rightarrow> 'k backend_op \<Rightarrow> pl_op \<Rightarrow> 'k poller \<Rightarrow> 'k poller run" where
  "pl_exec inst uninst start (PlNew tid ch fd ev) p =
     Done (p\<lparr>pl_heap := (pl_heap p)(tid := tracker_new ch fd ev), pl_users := insert tid (pl_users p)\<rparr>)"
| "pl_exec inst uninst start (PlDrop tid) p = Done (p\<lparr>pl_users := pl_users p - {tid}\<rparr>)"
| "pl_exec inst uninst start (PlChannel ch alive) p =
     Done (p\<lparr>pl_channels := (if alive then insert ch (pl_channels p) else pl_channels p - {ch})\<rparr>)"
| "pl_exec inst uninst start (PlInstall ok_ev ok tid) p =
     Done (snd (install_channel_tracker inst ok_ev ok tid p))"
| "pl_exec inst uninst start (PlUninstall ok_ev tid) p =
     Done (uninstall_channel_tracker uninst ok_ev True tid p)"
| "pl_exec inst uninst start (PlStart ok tid) p = Done (snd (start_channel_tracker start ok tid p))"
| "pl_exec inst uninst start (PlExpect ev tid) p =
     Done (p\<lparr>pl_heap := (pl_heap p)(tid := set_expected_event ev (pl_heap p tid))\<rparr>)"
| "pl_exec inst uninst start (PlPush ok_ev ch ev) p = Done (snd (push_channel_event ok_ev ch ev p))"
| "pl_exec inst uninst start PlHandleChannel p = handle_channel_events p"
| "pl_exec inst uninst start PlHandleTracker p = handle_channel_tracker_events p"
| "pl_exec inst uninst start PlRun p = Done (snd (poller_start p))"
| "pl_exec inst uninst start PlHalt p = Done (poller_stop p)"

text \<open>
  A new tracker is a new object, a tracker is used by who holds it, it is started between
  its installation and its removal, and the worker thread handles its queues when it is not
  in the middle of dispatching. \<open>EPOLL_CTL_DEL\<close> of an open descriptor only fails when it is
  not registered, which the back end takes for success.
\<close>

fun pl_legal :: "pl_op \<Rightarrow> 'k poller \<Rightarrow> bool" where
  "pl_legal (PlNew tid ch fd ev) p \<longleftrightarrow> \<not> tracker_alive p tid"
| "pl_legal (PlInstall ok_ev ok tid) p \<longleftrightarrow> tid \<in> pl_users p"
| "pl_legal (PlUninstall ok_ev tid) p \<longleftrightarrow> tid \<in> pl_users p"
| "pl_legal (PlStart ok tid) p \<longleftrightarrow> tid \<in> pl_users p \<and> tid \<in> settled p"
| "pl_legal (PlExpect ev tid) p \<longleftrightarrow> tid \<in> pl_users p"
| "pl_legal PlHandleTracker p \<longleftrightarrow> pl_ready p = []"
| "pl_legal PlHandleChannel p \<longleftrightarrow> pl_ready p = []"
| "pl_legal _ p \<longleftrightarrow> True"

section \<open>The interface of a back end\<close>

text \<open>
  \<open>regs k\<close> are the trackers a back end refers to by a bare pointer; \<open>good fds k\<close> says that it
  files each under its own descriptor. What the poller needs: it refers to a tracker only
  after an installation or a start that succeeded, and no longer after uninstalling it.
\<close>

locale poller_backend =
  fixes inst :: "'k backend_op" and uninst :: "'k backend_op" and start :: "'k backend_op"
    and regs :: "'k \<Rightarrow> nat set" and good :: "(nat \<Rightarrow> int) \<Rightarrow> 'k \<Rightarrow> bool"
  assumes inst_regs: "inst ok tid t k = (r, t', k') \<Longrightarrow> regs k' \<subseteq> regs k \<union> (if r then {tid} else {})"
    and inst_good: "inst ok tid t k = (r, t', k') \<Longrightarrow> good fds k \<Longrightarrow> fds tid = ct_fd t \<Longrightarrow> good fds k'"
    and inst_fd: "inst ok tid t k = (r, t', k') \<Longrightarrow> ct_fd t' = ct_fd t"
    and uninst_regs: "uninst True tid t k = (r, t', k') \<Longrightarrow> good fds k \<Longrightarrow> fds tid = ct_fd t \<Longrightarrow>
      regs k' \<subseteq> regs k - {tid} \<and> good fds k'"
    and uninst_fd: "uninst ok tid t k = (r, t', k') \<Longrightarrow> ct_fd t' = ct_fd t"
    and start_regs: "start ok tid t k = (r, t', k') \<Longrightarrow> regs k' \<subseteq> insert tid (regs k)"
    and start_good: "start ok tid t k = (r, t', k') \<Longrightarrow> good fds k \<Longrightarrow> fds tid = ct_fd t \<Longrightarrow> good fds k'"
    and start_fd: "start ok tid t k = (r, t', k') \<Longrightarrow> ct_fd t' = ct_fd t"
    and good_cong: "good fds k \<Longrightarrow> (\<And>x. x \<in> regs k \<Longrightarrow> fds' x = fds x) \<Longrightarrow> good fds' k"
begin

definition inv :: "'k poller \<Rightarrow> bool" where
  "inv p \<longleftrightarrow>
     regs (pl_kernel p) \<subseteq> settled p \<and> good (\<lambda>tid. ct_fd (pl_heap p tid)) (pl_kernel p) \<and>
     pl_cev_cnt p = length (pl_cevents p) \<and> pl_tev_cnt p = length (pl_tevents p) \<and>
     (\<forall>tid\<in>set (pl_ready p). tid \<in> set (pl_trackers p) \<or> tid \<in> fst ` set (pl_tevents p))"

lemma inv_ready_alive: "inv p \<Longrightarrow> tid \<in> set (pl_ready p) \<Longrightarrow> tracker_alive p tid"
  by (auto simp: inv_def tracker_alive_def)

lemma untrack_fd [simp]: "ct_fd (snd (ct_track t)) = ct_fd t" "ct_fd (snd (ct_untrack t)) = ct_fd t"
  by (simp_all add: ct_track_def ct_untrack_def)

text \<open>A change of one tracker object and the back end.\<close>

lemma inv_update:
  assumes "inv p" and "ct_fd t = ct_fd (pl_heap p tid)" and "good (\<lambda>x. ct_fd (pl_heap p x)) k"
    and "regs k \<subseteq> settled p"
  shows "inv (p\<lparr>pl_heap := (pl_heap p)(tid := t), pl_kernel := k\<rparr>)"
proof -
  have "settled (p\<lparr>pl_heap := (pl_heap p)(tid := t), pl_kernel := k\<rparr>) = settled p"
    by (rule settled_cong) simp_all
  moreover have "(\<lambda>x. ct_fd (if x = tid then t else pl_heap p x)) = (\<lambda>x. ct_fd (pl_heap p x))"
    using assms(2) by auto
  ultimately show ?thesis using assms by (simp add: inv_def)
qed

lemma inv_heap:
  assumes "inv p" and "ct_fd t = ct_fd (pl_heap p tid)"
  shows "inv (p\<lparr>pl_heap := (pl_heap p)(tid := t)\<rparr>)"
  using inv_update [OF assms, of "pl_kernel p"] assms(1) by (simp add: inv_def)

lemma inv_push:
  assumes "inv p" and "regs (pl_kernel p) \<subseteq> (if snd e then insert (fst e) (settled p) else settled p - {fst e})"
  shows "inv (p\<lparr>pl_tevents := pl_tevents p @ [e], pl_tev_cnt := pl_tev_cnt p + 1\<rparr>)"
  using assms by (auto simp: inv_def simp del: settled_append) (auto simp: settled_append split: if_splits)

lemma inv_install:
  assumes "inv p"
  shows "inv (snd (install_channel_tracker inst ok_ev ok tid p))"
proof -
  obtain tracked t1 where t1: "(if ct_expected (pl_heap p tid) \<noteq> track_none then ct_track (pl_heap p tid)
      else (True, pl_heap p tid)) = (tracked, t1)" by fastforce
  then have fd1: "ct_fd t1 = ct_fd (pl_heap p tid)" by (auto simp: ct_track_def split: if_splits)
  obtain r t2 k where i: "inst ok tid (t1\<lparr>ct_poller := True\<rparr>) (pl_kernel p) = (r, t2, k)"
    by (metis prod_cases3)
  have fd2: "ct_fd t2 = ct_fd (pl_heap p tid)" using inst_fd [OF i] fd1 by simp
  have good: "good (\<lambda>x. ct_fd (pl_heap p x)) k"
    using inst_good [OF i, of "\<lambda>x. ct_fd (pl_heap p x)"] assms fd1 by (simp add: inv_def)
  have regs: "regs k \<subseteq> settled p \<union> (if r then {tid} else {})"
    using inst_regs [OF i] assms by (auto simp: inv_def)
  show ?thesis
  proof (cases "pl_started p \<and> tracked \<and> ok_ev")
    case False
    then show ?thesis
      using assms inv_heap [OF assms fd1] t1 by (auto simp: install_channel_tracker_def)
  next
    case True
    show ?thesis
    proof (cases r)
      case False
      have "inv (p\<lparr>pl_heap := (pl_heap p)(tid := t2\<lparr>ct_poller := False\<rparr>), pl_kernel := k\<rparr>)"
        by (rule inv_update [OF assms _ good]) (use fd2 regs False in simp_all)
      with True False t1 i show ?thesis by (simp add: install_channel_tracker_def)
    next
      case r: True
      let ?p = "p\<lparr>pl_heap := (pl_heap p)(tid := t2), pl_kernel := k,
          pl_tevents := pl_tevents p @ [(tid, True)], pl_tev_cnt := pl_tev_cnt p + 1\<rparr>"
      have "settled ?p = insert tid (settled p)" by (simp add: settled_def)
      moreover have "(\<lambda>x. ct_fd (if x = tid then t2 else pl_heap p x)) = (\<lambda>x. ct_fd (pl_heap p x))"
        using fd2 by auto
      ultimately have "inv ?p" using assms good regs r by (auto simp: inv_def)
      with True r t1 i show ?thesis by (simp add: install_channel_tracker_def)
    qed
  qed
qed

lemma inv_uninstall:
  assumes "inv p"
  shows "inv (uninstall_channel_tracker uninst ok_ev True tid p)"
proof (cases "pl_started p")
  case True
  let ?t = "snd (ct_untrack (pl_heap p tid))"
  obtain r t1 k where u: "uninst True tid ?t (pl_kernel p) = (r, t1, k)" by (metis prod_cases3)
  have fd: "ct_fd t1 = ct_fd (pl_heap p tid)" using uninst_fd [OF u] by simp
  have k: "regs k \<subseteq> settled p - {tid}" "good (\<lambda>x. ct_fd (pl_heap p x)) k"
    using uninst_regs [OF u, of "\<lambda>x. ct_fd (pl_heap p x)"] assms by (auto simp: inv_def)
  let ?p = "p\<lparr>pl_heap := (pl_heap p)(tid := t1), pl_kernel := k\<rparr>"
  have "inv ?p" by (rule inv_update [OF assms fd k(2)]) (use k(1) in auto)
  moreover have "inv (?p\<lparr>pl_tevents := pl_tevents ?p @ [(tid, False)], pl_tev_cnt := pl_tev_cnt ?p + 1\<rparr>)"
  proof -
    have "(\<lambda>x. ct_fd (if x = tid then t1 else pl_heap p x)) = (\<lambda>x. ct_fd (pl_heap p x))"
      using fd by auto
    moreover have "settled (?p\<lparr>pl_tevents := pl_tevents ?p @ [(tid, False)], pl_tev_cnt := pl_tev_cnt ?p + 1\<rparr>) =
        settled p - {tid}" by (simp add: settled_def)
    ultimately show ?thesis using assms k by (auto simp: inv_def)
  qed
  ultimately show ?thesis using True u by (simp add: uninstall_channel_tracker_def Let_def)
qed (use assms in \<open>simp add: uninstall_channel_tracker_def\<close>)

lemma inv_start:
  assumes "inv p" and "tid \<in> settled p"
  shows "inv (snd (start_channel_tracker start ok tid p))"
proof -
  obtain tracked t where t: "ct_track (pl_heap p tid) = (tracked, t)" by fastforce
  then have fd: "ct_fd t = ct_fd (pl_heap p tid)" using untrack_fd(1) [of "pl_heap p tid"] by simp
  obtain r t1 k where s: "start ok tid t (pl_kernel p) = (r, t1, k)" by (metis prod_cases3)
  have "inv (p\<lparr>pl_heap := (pl_heap p)(tid := t1), pl_kernel := k\<rparr>)"
    by (rule inv_update [OF assms(1)])
      (use start_regs [OF s] start_fd [OF s] start_good [OF s, of "\<lambda>x. ct_fd (pl_heap p x)"] assms fd
        in \<open>auto simp: inv_def\<close>)
  with t s assms(1) show ?thesis by (simp add: start_channel_tracker_def)
qed

lemma exec_inv:
  assumes inv: "inv p" and legal: "pl_legal op p"
  shows "\<exists>p'. pl_exec inst uninst start op p = Done p' \<and> inv p'"
proof (cases op)
  case (PlNew tid ch fd ev)
  then have dead: "\<not> tracker_alive p tid" using legal by simp
  let ?p = "p\<lparr>pl_heap := (pl_heap p)(tid := tracker_new ch fd ev), pl_users := insert tid (pl_users p)\<rparr>"
  have "settled ?p = settled p" by (rule settled_cong) simp_all
  moreover have "good (\<lambda>x. ct_fd (pl_heap ?p x)) (pl_kernel p)"
    by (rule good_cong [of "\<lambda>x. ct_fd (pl_heap p x)"])
      (use inv dead settled_alive in \<open>auto simp: inv_def\<close>)
  ultimately have "inv ?p" using inv by (simp add: inv_def)
  with PlNew show ?thesis by simp
next
  case (PlDrop tid)
  have "settled (p\<lparr>pl_users := pl_users p - {tid}\<rparr>) = settled p" by (rule settled_cong) simp_all
  with PlDrop inv show ?thesis by (simp add: inv_def)
next
  case (PlChannel ch alive)
  have "settled (p\<lparr>pl_channels := C\<rparr>) = settled p" for C by (rule settled_cong) simp_all
  with PlChannel inv show ?thesis by (simp add: inv_def)
next
  case (PlExpect ev tid)
  with inv_heap [OF inv] show ?thesis by (simp add: set_expected_event_def)
next
  case (PlPush ok_ev ch ev)
  have "settled (p\<lparr>pl_cevents := x, pl_cev_cnt := n\<rparr>) = settled p" for x n by (rule settled_cong) simp_all
  with PlPush inv show ?thesis by (simp add: inv_def push_channel_event_def)
next
  case PlHandleChannel
  let ?p = "p\<lparr>pl_cev_cnt := 0\<rparr>"
  have "settled (?p\<lparr>pl_cevents := [], pl_calls := c\<rparr>) = settled p" for c by (rule settled_cong) simp_all
  with PlHandleChannel inv handle_cevents_done [of ?p "pl_cev_cnt p"] show ?thesis
    by (simp add: inv_def handle_channel_events_def)
next
  case PlHandleTracker
  let ?p = "p\<lparr>pl_tev_cnt := 0\<rparr>"
  have "settled (?p\<lparr>pl_tevents := [], pl_trackers := fold apply_tevent (pl_tevents p) (pl_trackers p)\<rparr>) = settled p"
    by (simp add: settled_def)
  with PlHandleTracker inv legal handle_tevents_done [of ?p "pl_tev_cnt p"] show ?thesis
    by (simp add: inv_def handle_channel_tracker_events_def)
next
  case PlRun
  have "settled (p\<lparr>pl_started := b\<rparr>) = settled p" for b by (rule settled_cong) simp_all
  with PlRun inv show ?thesis by (simp add: inv_def poller_start_def)
next
  case PlHalt
  have "settled (p\<lparr>pl_started := b\<rparr>) = settled p" for b by (rule settled_cong) simp_all
  with PlHalt inv show ?thesis by (simp add: inv_def poller_stop_def)
qed (use inv legal inv_install inv_uninstall inv_start in auto)

lemma new_inv: "regs k = {} \<Longrightarrow> good (\<lambda>tid. -1) k \<Longrightarrow> inv (poller_new k)"
  by (simp add: inv_def poller_new_def tracker_new_def)

end

section \<open>The back ends keep to the interface\<close>

definition epoll_regs :: "epoll \<Rightarrow> nat set" where
  "epoll_regs k = {tid. \<exists>fd ev. ep_table k fd = Some (tid, ev)}"

definition epoll_good :: "(nat \<Rightarrow> int) \<Rightarrow> epoll \<Rightarrow> bool" where
  "epoll_good fds k \<longleftrightarrow> (\<forall>fd tid ev. ep_table k fd = Some (tid, ev) \<longrightarrow> fds tid = fd)"

lemma set_epoll_events_fd [simp]: "ct_fd (set_epoll_events t) = ct_fd t"
  by (simp add: set_epoll_events_def)

interpretation ep: poller_backend epoll_install epoll_uninstall epoll_start epoll_regs epoll_good
proof unfold_locales
  fix ok tid t k r t' k' fds
  assume "epoll_uninstall True tid t k = (r, t', k')" "epoll_good fds k" "fds tid = ct_fd t"
  then show "epoll_regs k' \<subseteq> epoll_regs k - {tid} \<and> epoll_good fds k'"
    by (fastforce simp: epoll_uninstall_def epoll_regs_def epoll_good_def split: if_splits)
next
  fix fds fds' :: "nat \<Rightarrow> int" and k
  assume "epoll_good fds k" "\<And>x. x \<in> epoll_regs k \<Longrightarrow> fds' x = fds x"
  then show "epoll_good fds' k" unfolding epoll_good_def epoll_regs_def by blast
qed (auto simp: epoll_install_def epoll_uninstall_def epoll_start_def epoll_regs_def epoll_good_def Let_def
    split: if_splits)

interpretation sl: poller_backend sel_install sel_uninstall sel_start "\<lambda>_. {}" "\<lambda>_ _. True"
  by unfold_locales (auto simp: sel_install_def sel_uninstall_def sel_start_def)

section \<open>The epoll poller never follows a dangling pointer\<close>

datatype ep_op = EpOp pl_op | EpPoll bool "int list" | EpDispatch | EpClose int

fun ep_exec :: "ep_op \<Rightarrow> epoll poller \<Rightarrow> epoll poller run" where
  "ep_exec (EpOp op) p = pl_exec epoll_install epoll_uninstall epoll_start op p"
| "ep_exec (EpPoll ok fds) p = epoll_poll ok fds p"
| "ep_exec EpDispatch p = epoll_dispatch p"
| "ep_exec (EpClose fd) p =
     Done (p\<lparr>pl_kernel := (pl_kernel p)\<lparr>ep_table := (ep_table (pl_kernel p))(fd := None)\<rparr>\<rparr>)"

text \<open>
  \<open>epoll_wait\<close> reports registered descriptors and the worker thread calls it when it has
  dispatched what it got before. Closing a descriptor removes its registration.
\<close>

fun ep_legal :: "ep_op \<Rightarrow> epoll poller \<Rightarrow> bool" where
  "ep_legal (EpOp op) p \<longleftrightarrow> pl_legal op p"
| "ep_legal (EpPoll ok fds) p \<longleftrightarrow>
     ok \<and> pl_ready p = [] \<and> (\<forall>fd\<in>set fds. ep_table (pl_kernel p) fd \<noteq> None)"
| "ep_legal _ p \<longleftrightarrow> True"

inductive ep_reachable :: "epoll poller \<Rightarrow> bool" where
  ep_reach_new: "ep_reachable (poller_new epoll_new)"
| ep_reach_step: "ep_reachable p \<Longrightarrow> ep_legal op p \<Longrightarrow> ep_exec op p = Done p' \<Longrightarrow> ep_reachable p'"

lemma settled_trackers: "tid \<in> settled p \<Longrightarrow> tid \<in> set (pl_trackers p) \<or> tid \<in> fst ` set (pl_tevents p)"
  using fold_tevents_subset [of "pl_tevents p" "pl_trackers p"] by (auto simp: settled_def)

lemma epoll_poll_inv:
  assumes inv: "ep.inv p" and legal: "ep_legal (EpPoll ok fds) p"
  shows "\<exists>p'. epoll_poll ok fds p = Done p' \<and> ep.inv p'"
proof -
  let ?k = "pl_kernel p"
  let ?ready = "map (\<lambda>fd. case ep_table ?k fd of None \<Rightarrow> 0 | Some (tid, _) \<Rightarrow> tid) fds"
  have "tid \<in> epoll_regs ?k" if "tid \<in> set ?ready" for tid
    using that legal by (fastforce simp: epoll_regs_def)
  then have ready: "\<forall>tid\<in>set ?ready. tid \<in> set (pl_trackers p) \<or> tid \<in> fst ` set (pl_tevents p)"
    using inv settled_trackers unfolding ep.inv_def by blast
  have "settled (p\<lparr>pl_kernel := k, pl_ready := r\<rparr>) = settled p" for k r by (rule settled_cong) simp_all
  moreover have "epoll_regs (?k\<lparr>ep_max := m\<rparr>) = epoll_regs ?k" "epoll_good fds (?k\<lparr>ep_max := m\<rparr>) = epoll_good fds ?k"
    for m fds by (simp_all add: epoll_regs_def epoll_good_def)
  ultimately show ?thesis
    using inv legal ready by (simp add: epoll_poll_def ep.inv_def Let_def del: set_map)
qed

lemma epoll_dispatch_inv:
  assumes inv: "ep.inv p"
  shows "\<exists>p'. epoll_dispatch p = Done p' \<and> ep.inv p'"
proof (cases "pl_ready p")
  case (Cons tid rest)
  have alive: "tracker_alive p tid" by (rule ep.inv_ready_alive [OF inv]) (simp add: Cons)
  obtain was t where t: "ct_untrack (pl_heap p tid) = (was, t)" by fastforce
  then have "ct_fd t = ct_fd (pl_heap p tid)" using ep.untrack_fd(2) [of "pl_heap p tid"] by simp
  then have h: "ep.inv (p\<lparr>pl_heap := (pl_heap p)(tid := t)\<rparr>)" by (rule ep.inv_heap [OF inv])
  have "settled (p\<lparr>pl_ready := r, pl_heap := hp, pl_calls := c\<rparr>) = settled (p\<lparr>pl_heap := hp\<rparr>)"
    "settled (p\<lparr>pl_ready := r, pl_heap := hp\<rparr>) = settled (p\<lparr>pl_heap := hp\<rparr>)"
    for r hp c by (rule settled_cong; simp)+
  with h Cons alive t show ?thesis by (simp add: epoll_dispatch_def ep.inv_def Let_def)
qed (use inv in \<open>simp add: epoll_dispatch_def\<close>)

lemma ep_exec_inv:
  assumes inv: "ep.inv p" and legal: "ep_legal op p"
  shows "\<exists>p'. ep_exec op p = Done p' \<and> ep.inv p'"
proof (cases op)
  case (EpClose fd)
  let ?k = "(pl_kernel p)\<lparr>ep_table := (ep_table (pl_kernel p))(fd := None)\<rparr>"
  have "settled (p\<lparr>pl_kernel := ?k\<rparr>) = settled p" by (rule settled_cong) simp_all
  moreover have "epoll_regs ?k \<subseteq> epoll_regs (pl_kernel p)" by (auto simp: epoll_regs_def split: if_splits)
  moreover have "epoll_good fds ?k" if "epoll_good fds (pl_kernel p)" for fds
    using that by (auto simp: epoll_good_def split: if_splits)
  ultimately show ?thesis using inv EpClose by (auto simp: ep.inv_def)
qed (use legal ep.exec_inv [OF inv] epoll_poll_inv [OF inv] epoll_dispatch_inv [OF inv] in auto)

lemma ep_reachable_inv: "ep_reachable p \<Longrightarrow> ep.inv p"
proof (induction rule: ep_reachable.induct)
  case ep_reach_new
  show ?case by (rule ep.new_inv) (simp_all add: epoll_new_def epoll_regs_def epoll_good_def)
next
  case (ep_reach_step p op p')
  then show ?case using ep_exec_inv [of p op] by auto
qed

text \<open>
  C30. The pointers \<open>epoll_wait\<close> hands back are followed safely: in every reachable state
  of the poller each tracker that the kernel knows or that waits to be dispatched still
  exists, because its removal only takes effect on the worker thread, after dispatching.
\<close>

theorem epoll_pointers_alive:
  assumes "ep_reachable p"
  shows "(\<forall>fd tid ev. ep_table (pl_kernel p) fd = Some (tid, ev) \<longrightarrow> tracker_alive p tid) \<and>
    (\<forall>tid. tid \<in> set (pl_ready p) \<longrightarrow> tracker_alive p tid)"
proof -
  have inv: "ep.inv p" by (rule ep_reachable_inv [OF assms])
  have "tracker_alive p tid" if "ep_table (pl_kernel p) fd = Some (tid, ev)" for fd tid ev
    using that inv settled_alive [of tid p] by (auto simp: ep.inv_def epoll_regs_def)
  then show ?thesis using ep.inv_ready_alive [OF inv] by blast
qed

text \<open>A poller with one tracker installed on descriptor 9, reported once.\<close>

definition ep_example :: "epoll poller" where
  "ep_example =
     snd (install_channel_tracker epoll_install True True 3
       ((poller_new epoll_new)\<lparr>pl_started := True, pl_users := {3}, pl_channels := {1},
          pl_heap := (\<lambda>_. tracker_new 0 (-1) 0)(3 := tracker_new 1 9 track_read)\<rparr>))"

lemma ep_example_reachable: "ep_reachable ep_example"
proof -
  let ?p1 = "(poller_new epoll_new)\<lparr>pl_started := True\<rparr>"
  let ?p2 = "?p1\<lparr>pl_channels := {1}\<rparr>"
  let ?p3 = "?p2\<lparr>pl_heap := (pl_heap ?p2)(3 := tracker_new 1 9 track_read), pl_users := {3}\<rparr>"
  have "ep_reachable ?p1"
    by (rule ep_reach_step [OF ep_reach_new, of "EpOp PlRun"]) (simp_all add: poller_start_def poller_new_def)
  then have "ep_reachable ?p2"
    by (rule ep_reach_step [of _ "EpOp (PlChannel 1 True)"]) (simp_all add: poller_new_def)
  then have "ep_reachable ?p3"
    by (rule ep_reach_step [of _ "EpOp (PlNew 3 1 9 track_read)"])
      (simp_all add: poller_new_def tracker_alive_def)
  then have "ep_reachable (snd (install_channel_tracker epoll_install True True 3 ?p3))"
    by (rule ep_reach_step [of _ "EpOp (PlInstall True True 3)"]) simp_all
  then show ?thesis by (simp add: ep_example_def poller_new_def)
qed

lemma ep_example_table: "ep_table (pl_kernel ep_example) 9 = Some (3, epoll_read)" "pl_ready ep_example = []"
  by (simp_all add: ep_example_def install_channel_tracker_def poller_new_def tracker_new_def track_read_def
      track_none_def io_read_def io_error_def ct_track_def epoll_install_def epoll_new_def set_epoll_events_def)

theorem epoll_pointers_alive_witness: "tracker_alive ep_example 3"
  using epoll_pointers_alive [OF ep_example_reachable] ep_example_table(1) by blast

text \<open>
  C31. No step of the epoll poller follows a dangling pointer or pops from an empty queue:
  the counters \<open>cev_cnt_\<close> and \<open>tev_cnt_\<close> never promise more events than there are.
\<close>

theorem epoll_poller_safe:
  assumes "ep_reachable p" and "ep_legal op p"
  shows "\<exists>p'. ep_exec op p = Done p' \<and> ep_reachable p' \<and>
    pl_cev_cnt p' = length (pl_cevents p') \<and> pl_tev_cnt p' = length (pl_tevents p')"
proof -
  obtain p' where p': "ep_exec op p = Done p'" "ep.inv p'"
    using ep_exec_inv [OF ep_reachable_inv [OF assms(1)] assms(2)] by blast
  with ep_reach_step [OF assms] show ?thesis by (auto simp: ep.inv_def)
qed

theorem epoll_poller_safe_witness:
  "\<exists>p'. ep_exec (EpPoll True [9]) ep_example = Done p' \<and> ep_reachable p' \<and>
    pl_cev_cnt p' = length (pl_cevents p') \<and> pl_tev_cnt p' = length (pl_tevents p')"
  by (rule epoll_poller_safe [OF ep_example_reachable]) (simp add: ep_example_table)

section \<open>Channel events\<close>

lemma push_events:
  assumes "pl_started p"
  shows "fold (\<lambda>(ch, ev) q. snd (push_channel_event True ch ev q)) evs p =
    p\<lparr>pl_cevents := pl_cevents p @ evs, pl_cev_cnt := pl_cev_cnt p + length evs\<rparr>"
  using assms
proof (induction evs arbitrary: p)
  case (Cons e evs)
  then show ?case by (cases e) (simp add: push_channel_event_def)
qed simp

text \<open>
  Channel events are handed over in the order in which they were pushed, each once;
  those of channels that are gone by then are dropped.
\<close>

theorem channel_events_in_order:
  assumes "pl_started p" and "pl_cev_cnt p = length (pl_cevents p)"
  shows "handle_channel_events (fold (\<lambda>(ch, ev) q. snd (push_channel_event True ch ev q)) evs p) =
    Done (p\<lparr>pl_cev_cnt := 0, pl_cevents := [],
            pl_calls := pl_calls p @ map (\<lambda>(ch, ev). CallEvent ch ev)
              (filter (\<lambda>(ch, ev). ch \<in> pl_channels p) (pl_cevents p @ evs))\<rparr>)"
proof -
  let ?q = "p\<lparr>pl_cevents := pl_cevents p @ evs, pl_cev_cnt := 0\<rparr>"
  have "handle_cevents (pl_cev_cnt p + length evs) ?q =
      Done (?q\<lparr>pl_cevents := [], pl_calls := pl_calls ?q @ live_calls ?q (pl_cevents ?q)\<rparr>)"
    by (rule handle_cevents_done) (simp add: assms(2))
  then show ?thesis
    by (simp add: push_events [OF assms(1)] handle_channel_events_def live_calls_def)
qed

theorem channel_events_in_order_witness:
  "handle_channel_events
      (fold (\<lambda>(ch, ev) q. snd (push_channel_event True ch ev q)) [(1, 0), (2, 0), (1, 4)] ep_example) =
    Done (ep_example\<lparr>pl_cev_cnt := 0, pl_cevents := [], pl_calls := [CallEvent 1 0, CallEvent 1 4]\<rparr>)"
  using channel_events_in_order [of ep_example "[(1, 0), (2, 0), (1, 4)]"]
  by (simp add: ep_example_def install_channel_tracker_def poller_new_def tracker_new_def track_read_def
      track_none_def io_read_def io_error_def ct_track_def epoll_install_def epoll_new_def set_epoll_events_def)

section \<open>The select poller\<close>

lemma sel_scan_sets:
  "sl_read (snd (sel_scan trs heap (m, k))) = sl_read k \<union>
     {ct_fd (heap tid) |tid. tid \<in> set trs \<and> ct_tracking (heap tid) \<and> is_selectable (ct_fd (heap tid)) \<and>
        ct_expected (heap tid) AND io_read \<noteq> 0} \<and>
   sl_write (snd (sel_scan trs heap (m, k))) = sl_write k \<union>
     {ct_fd (heap tid) |tid. tid \<in> set trs \<and> ct_tracking (heap tid) \<and> is_selectable (ct_fd (heap tid)) \<and>
        ct_expected (heap tid) AND io_read = 0 \<and> ct_expected (heap tid) AND io_send \<noteq> 0}"
proof (induction trs arbitrary: m k)
  case (Cons tid trs)
  show ?case
    by (cases "ct_tracking (heap tid) \<and> is_selectable (ct_fd (heap tid))")
      (auto simp: Let_def Cons.IH)
qed simp

text \<open>What the dispatching loop calls for a tracker, given the ready sets.\<close>

definition sel_call :: "int set \<Rightarrow> int set \<Rightarrow> sel poller \<Rightarrow> nat \<Rightarrow> ch_call list" where
  "sel_call rd wr p tid =
     (let t = pl_heap p tid in
      if ct_ch t \<notin> pl_channels p \<or> \<not> ct_tracking t then []
      else if ct_fd t \<in> rd then [CallRead (ct_ch t)]
      else if ct_fd t \<in> wr then [CallSend (ct_ch t)]
      else [])"

lemma sel_fire_fields [simp]:
  "pl_channels (sel_fire tid c p) = pl_channels p" "pl_trackers (sel_fire tid c p) = pl_trackers p"
  "pl_calls (sel_fire tid c p) = pl_calls p @ (if ct_tracking (pl_heap p tid) then [c] else [])"
  "x \<noteq> tid \<Longrightarrow> pl_heap (sel_fire tid c p) x = pl_heap p x"
  by (simp_all add: sel_fire_def ct_untrack_def)

lemma sel_dispatch_calls:
  assumes "distinct trs"
    and "\<forall>tid\<in>set trs. ct_ch (pl_heap p tid) \<in> pl_channels p \<longrightarrow> is_selectable (ct_fd (pl_heap p tid))"
  shows "\<exists>p'. sel_dispatch trs rd wr p = Done p' \<and>
    pl_calls p' = pl_calls p @ concat (map (sel_call rd wr p) trs) \<and>
    pl_trackers p' = filter (\<lambda>tid. tid \<in> set trs \<longrightarrow> ct_ch (pl_heap p tid) \<in> pl_channels p) (pl_trackers p)"
  using assms
proof (induction trs arbitrary: p)
  case (Cons tid trs)
  define q where "q =
     (if ct_ch (pl_heap p tid) \<notin> pl_channels p
      then p\<lparr>pl_trackers := filter (\<lambda>x. x \<noteq> tid) (pl_trackers p)\<rparr>
      else if ct_fd (pl_heap p tid) \<in> rd then sel_fire tid (CallRead (ct_ch (pl_heap p tid))) p
      else if ct_fd (pl_heap p tid) \<in> wr then sel_fire tid (CallSend (ct_ch (pl_heap p tid))) p
      else p)"
  have step: "sel_dispatch (tid # trs) rd wr p = sel_dispatch trs rd wr q"
    using Cons.prems(2) by (simp add: q_def fd_isset_def is_selectable_def Let_def)
  have same: "pl_heap q x = pl_heap p x" "pl_channels q = pl_channels p" if "x \<in> set trs" for x
  proof -
    have "x \<noteq> tid" using Cons.prems(1) that by auto
    then show "pl_heap q x = pl_heap p x" "pl_channels q = pl_channels p" by (simp_all add: q_def)
  qed
  have chans: "pl_channels q = pl_channels p" by (simp add: q_def)
  have calls: "pl_calls q = pl_calls p @ sel_call rd wr p tid"
    by (simp add: q_def sel_call_def Let_def)
  have trs: "pl_trackers q = filter (\<lambda>x. x = tid \<longrightarrow> ct_ch (pl_heap p tid) \<in> pl_channels p) (pl_trackers p)"
    by (auto simp: q_def intro: filter_cong)
  have "\<forall>x\<in>set trs. ct_ch (pl_heap q x) \<in> pl_channels q \<longrightarrow> is_selectable (ct_fd (pl_heap q x))"
    using Cons.prems(2) same chans by simp
  then obtain p' where p': "sel_dispatch trs rd wr q = Done p'"
    "pl_calls p' = pl_calls q @ concat (map (sel_call rd wr q) trs)"
    "pl_trackers p' = filter (\<lambda>x. x \<in> set trs \<longrightarrow> ct_ch (pl_heap q x) \<in> pl_channels q) (pl_trackers q)"
    using Cons.IH [of q] Cons.prems(1) by auto
  have "concat (map (sel_call rd wr q) trs) = concat (map (sel_call rd wr p) trs)"
    by (rule arg_cong [where f = concat], rule map_cong) (simp_all add: sel_call_def same chans)
  moreover have "filter (\<lambda>x. x \<in> set trs \<longrightarrow> ct_ch (pl_heap q x) \<in> pl_channels q) (pl_trackers q) =
      filter (\<lambda>x. x \<in> set (tid # trs) \<longrightarrow> ct_ch (pl_heap p x) \<in> pl_channels p) (pl_trackers p)"
    unfolding trs filter_filter by (rule filter_cong) (use same chans in auto)
  ultimately show ?case unfolding step using p' calls by simp
qed simp

lemma expected_bits:
  assumes "e \<in> {track_read, track_send, track_none}"
  shows "e AND io_read \<noteq> 0 \<longleftrightarrow> e = track_read"
    "e AND io_read = 0 \<and> e AND io_send \<noteq> 0 \<longleftrightarrow> e = track_send"
  using assms
  by (auto simp: track_read_def track_send_def track_none_def io_read_def io_send_def io_error_def)

text \<open>
  C32. A round of the select poller calls, in the order of the trackers, exactly the
  channels whose tracker is tracked and whose descriptor is ready for what it expects, and
  forgets the trackers of dead channels, as long as every descriptor is in the range of
  \<open>fd_set\<close>.
\<close>

theorem select_calls_ready:
  assumes "distinct (pl_trackers p)"
    and "\<forall>tid\<in>set (pl_trackers p). ct_ch (pl_heap p tid) \<in> pl_channels p \<longrightarrow> is_selectable (ct_fd (pl_heap p tid))"
    and "\<forall>tid\<in>set (pl_trackers p). \<forall>tid'\<in>set (pl_trackers p).
      ct_fd (pl_heap p tid) = ct_fd (pl_heap p tid') \<longrightarrow> tid = tid'"
    and "\<forall>tid\<in>set (pl_trackers p). ct_expected (pl_heap p tid) \<in> {track_read, track_send, track_none}"
  shows "\<exists>p'. sel_poll rd wr p = Done p' \<and>
    pl_calls p' = pl_calls p @ concat (map (\<lambda>tid. let t = pl_heap p tid in
      if ct_ch t \<in> pl_channels p \<and> ct_tracking t \<and> ct_expected t = track_read \<and> ct_fd t \<in> rd
      then [CallRead (ct_ch t)]
      else if ct_ch t \<in> pl_channels p \<and> ct_tracking t \<and> ct_expected t = track_send \<and> ct_fd t \<in> wr
      then [CallSend (ct_ch t)] else []) (pl_trackers p))"
proof -
  let ?k = "snd (sel_scan (pl_trackers p) (pl_heap p) (-1, \<lparr>sl_read = {}, sl_write = {}\<rparr>))"
  let ?p = "p\<lparr>pl_kernel := \<lparr>sl_read = sl_read ?k \<inter> rd, sl_write = sl_write ?k \<inter> wr\<rparr>\<rparr>"
  let ?call = "sel_call (sl_read ?k \<inter> rd) (sl_write ?k \<inter> wr) ?p"
  let ?spec = "\<lambda>tid. let t = pl_heap p tid in
      if ct_ch t \<in> pl_channels p \<and> ct_tracking t \<and> ct_expected t = track_read \<and> ct_fd t \<in> rd
      then [CallRead (ct_ch t)]
      else if ct_ch t \<in> pl_channels p \<and> ct_tracking t \<and> ct_expected t = track_send \<and> ct_fd t \<in> wr
      then [CallSend (ct_ch t)] else []"
  have call: "?call tid = ?spec tid" if tid: "tid \<in> set (pl_trackers p)" for tid
  proof -
    have r: "ct_fd (pl_heap p tid) \<in> sl_read ?k \<longleftrightarrow> ct_expected (pl_heap p tid) = track_read"
      and w: "ct_fd (pl_heap p tid) \<in> sl_write ?k \<longleftrightarrow> ct_expected (pl_heap p tid) = track_send"
      if "ct_tracking (pl_heap p tid)" "ct_ch (pl_heap p tid) \<in> pl_channels p"
    proof -
      have sel: "is_selectable (ct_fd (pl_heap p tid))" using that(2) tid assms(2) by blast
      have e: "ct_expected (pl_heap p tid) \<in> {track_read, track_send, track_none}" using tid assms(4) by blast
      have same: "tid' = tid" if "tid' \<in> set (pl_trackers p)" "ct_fd (pl_heap p tid) = ct_fd (pl_heap p tid')" for tid'
        using that tid assms(3) by blast
      show "ct_fd (pl_heap p tid) \<in> sl_read ?k \<longleftrightarrow> ct_expected (pl_heap p tid) = track_read"
        unfolding conjunct1 [OF sel_scan_sets] expected_bits(1) [OF e, symmetric]
        using sel that(1) tid same by auto
      show "ct_fd (pl_heap p tid) \<in> sl_write ?k \<longleftrightarrow> ct_expected (pl_heap p tid) = track_send"
        unfolding conjunct2 [OF sel_scan_sets] expected_bits(2) [OF e, symmetric]
        using sel that(1) tid same by auto
    qed
    show ?thesis using r w by (auto simp: sel_call_def Let_def)
  qed
  have m: "map ?call (pl_trackers p) = map ?spec (pl_trackers p)"
    by (rule map_cong) (use call in auto)
  show ?thesis
  proof (cases "sl_read ?k \<inter> rd = {} \<and> sl_write ?k \<inter> wr = {}")
    case True
    then have "?call tid = []" for tid by (simp add: sel_call_def Let_def)
    then have "concat (map ?spec (pl_trackers p)) = []" unfolding m [symmetric] by simp
    with True show ?thesis by (simp add: sel_poll_def Let_def)
  next
    case False
    with sel_dispatch_calls [of "pl_trackers p" ?p "sl_read ?k \<inter> rd" "sl_write ?k \<inter> wr"] assms(1,2) m
    show ?thesis by (auto simp: sel_poll_def Let_def)
  qed
qed

definition sel_example :: "sel poller" where
  "sel_example = (poller_new sel_new)\<lparr>pl_started := True, pl_trackers := [11, 12, 13], pl_channels := {7, 8},
     pl_heap := (\<lambda>_. tracker_new 0 (-1) 0)
       (11 := (tracker_new 7 5 track_read)\<lparr>ct_tracking := True\<rparr>,
        12 := (tracker_new 8 6 track_send)\<lparr>ct_tracking := True\<rparr>,
        13 := (tracker_new 9 1500 track_read)\<lparr>ct_tracking := True\<rparr>)\<rparr>"

lemma sel_example_fields:
  "pl_trackers sel_example = [11, 12, 13]" "pl_channels sel_example = {7, 8}" "pl_calls sel_example = []"
  "pl_heap sel_example 11 = (tracker_new 7 5 track_read)\<lparr>ct_tracking := True\<rparr>"
  "pl_heap sel_example 12 = (tracker_new 8 6 track_send)\<lparr>ct_tracking := True\<rparr>"
  "pl_heap sel_example 13 = (tracker_new 9 1500 track_read)\<lparr>ct_tracking := True\<rparr>"
  by (simp_all add: sel_example_def poller_new_def)

lemma track_events_differ: "track_read \<noteq> track_send" "track_send \<noteq> track_read"
  by (simp_all add: track_read_def track_send_def io_read_def io_send_def)

theorem select_calls_ready_witness:
  "\<exists>p'. sel_poll {5} {6} sel_example = Done p' \<and> pl_calls p' = [CallRead 7, CallSend 8]"
proof -
  have "\<exists>p'. sel_poll {5} {6} sel_example = Done p' \<and>
    pl_calls p' = pl_calls sel_example @ concat (map (\<lambda>tid. let t = pl_heap sel_example tid in
      if ct_ch t \<in> pl_channels sel_example \<and> ct_tracking t \<and> ct_expected t = track_read \<and> ct_fd t \<in> {5}
      then [CallRead (ct_ch t)]
      else if ct_ch t \<in> pl_channels sel_example \<and> ct_tracking t \<and> ct_expected t = track_send \<and> ct_fd t \<in> {6}
      then [CallSend (ct_ch t)] else []) (pl_trackers sel_example))"
    by (rule select_calls_ready)
      (simp_all add: sel_example_fields tracker_new_def is_selectable_def)
  then show ?thesis by (simp add: sel_example_fields tracker_new_def track_events_differ)
qed

text \<open>
  A tracker of a living channel whose descriptor is outside of the range of \<open>fd_set\<close>
  is left out of the sets, but not of the dispatching loop: as soon as another descriptor
  is ready, the loop reads outside of the set.
\<close>

theorem select_reads_outside:
  assumes "pl_trackers p = tid # rest" and "ct_ch (pl_heap p tid) \<in> pl_channels p"
    and "\<not> is_selectable (ct_fd (pl_heap p tid))"
    and "other \<in> set rest" and "ct_tracking (pl_heap p other)" and "is_selectable (ct_fd (pl_heap p other))"
    and "ct_expected (pl_heap p other) = track_read" and "ct_fd (pl_heap p other) \<in> rd"
  shows "sel_poll rd wr p = Fault"
proof -
  let ?k = "snd (sel_scan (pl_trackers p) (pl_heap p) (-1, \<lparr>sl_read = {}, sl_write = {}\<rparr>))"
  have "ct_fd (pl_heap p other) \<in> sl_read ?k"
    unfolding conjunct1 [OF sel_scan_sets] using assms by (auto simp: track_read_def io_read_def)
  then have ne: "sl_read ?k \<inter> rd \<noteq> {}" using assms(8) by blast
  have "sel_dispatch (pl_trackers p) R W q = Fault"
    if "pl_heap q = pl_heap p" "pl_channels q = pl_channels p" for R W q
    using assms(1-3) that by (auto simp: fd_isset_def is_selectable_def Let_def)
  with ne show ?thesis by (simp add: sel_poll_def Let_def)
qed

theorem select_reads_outside_witness:
  "sel_poll {5} {} (sel_example\<lparr>pl_trackers := [13, 11], pl_channels := {7, 9}\<rparr>) = Fault"
  by (rule select_reads_outside [of _ 13 "[11]" 11])
    (simp_all add: sel_example_def poller_new_def tracker_new_def is_selectable_def)

end
