(* ===== verification/Service.thy ===== *)
theory Service
  imports Poller Timer
begin

text \<open>
  The service (include/pump/service.h, src/service.cpp) with epoll: the two pollers, the timer
  engine, and the worker that runs the posted tasks, interleaved with the callers of the
  service. The queue of tasks is a list (\<open>freelock_queue\<close> over \<open>freelock_m2m_queue\<close>). The worker
  that runs the timers is \<open>worker_step\<close> of \<open>Timer\<close>; here it is the state of its thread.

  A thread object that is replaced or destroyed while its thread was not joined ends the
  process: \<open>Abort\<close>.
\<close>

section \<open>State\<close>

text \<open>
  A worker: no thread; at the test of \<open>running_\<close>; waiting for a task; holding one; ended and not
  joined; joined.
\<close>

datatype worker = NoThread | Checking | Waiting | Holding nat | Ended | Joined

text \<open>\<open>sv_posted\<close> and \<open>sv_ran\<close> are not in the code: the tasks posted and the tasks run, in order.\<close>

record service =
  sv_running :: bool
  sv_read :: "epoll poller option"
  sv_send :: "epoll poller option"
  sv_timers :: "engine option"
  sv_tasks :: "nat list"
  sv_task_worker :: worker
  sv_timer_worker :: worker
  sv_posted :: "nat list"
  sv_ran :: "nat list"

definition read_pid :: int where "read_pid = 0"
definition send_pid :: int where "send_pid = 1"

definition service_new :: "bool \<Rightarrow> service" where
  "service_new enable_poll =
     \<lparr>sv_running = False, sv_read = (if enable_poll then Some (poller_new epoll_new) else None),
      sv_send = (if enable_poll then Some (poller_new epoll_new) else None), sv_timers = Some engine_new,
      sv_tasks = [], sv_task_worker = NoThread, sv_timer_worker = NoThread, sv_posted = [], sv_ran = []\<rparr>"

definition joinable :: "worker \<Rightarrow> bool" where
  "joinable w \<longleftrightarrow> w \<noteq> NoThread \<and> w \<noteq> Joined"

definition start_task_worker :: "service \<Rightarrow> service run" where
  "start_task_worker s = (if joinable (sv_task_worker s) then Abort else Done (s\<lparr>sv_task_worker := Checking\<rparr>))"

definition start_timer_callback_worker :: "service \<Rightarrow> service run" where
  "start_timer_callback_worker s =
     (if joinable (sv_timer_worker s) then Abort else Done (s\<lparr>sv_timer_worker := Checking\<rparr>))"

text \<open>\<open>ok_thread\<close>: whether the engine can make its thread.\<close>

definition service_start :: "bool \<Rightarrow> service \<Rightarrow> (bool \<times> service) run" where
  "service_start ok_thread s =
     (if sv_running s then Done (False, s)
      else
        let s1 = s\<lparr>sv_running := True\<rparr>;
            s2 = s1\<lparr>sv_timers := map_option (\<lambda>e. snd (engine_start True ok_thread e)) (sv_timers s1)\<rparr>;
            s3 = s2\<lparr>sv_read := map_option (\<lambda>p. snd (poller_start p)) (sv_read s2)\<rparr>;
            s4 = s3\<lparr>sv_send := map_option (\<lambda>p. snd (poller_start p)) (sv_send s3)\<rparr>
        in run_bind (start_task_worker s4) (\<lambda>s5. run_map (\<lambda>s6. (True, s6)) (start_timer_callback_worker s5)))"

definition service_stop :: "service \<Rightarrow> service" where
  "service_stop s =
     s\<lparr>sv_running := False, sv_timers := map_option engine_stop (sv_timers s),
       sv_read := map_option poller_stop (sv_read s), sv_send := map_option poller_stop (sv_send s)\<rparr>"

text \<open>Joining a thread that was joined before throws; it comes back when the thread has ended.\<close>

definition join_worker :: "worker \<Rightarrow> worker run option" where
  "join_worker w =
     (case w of NoThread \<Rightarrow> Some (Done NoThread) | Joined \<Rightarrow> Some Abort | Ended \<Rightarrow> Some (Done Joined) | _ \<Rightarrow> None)"

text \<open>
  \<open>None\<close>: \<open>wait_stopped\<close> still waits for one of the two workers. (It also waits for the threads
  of the pollers and of the engine, which end when these are stopped.)
\<close>

definition service_wait_stopped :: "service \<Rightarrow> service run option" where
  "service_wait_stopped s =
     (case join_worker (sv_task_worker s) of
        None \<Rightarrow> None
      | Some Abort \<Rightarrow> Some Abort
      | Some Fault \<Rightarrow> Some Fault
      | Some (Done w1) \<Rightarrow>
          (case join_worker (sv_timer_worker s) of
             None \<Rightarrow> None
           | Some Abort \<Rightarrow> Some Abort
           | Some Fault \<Rightarrow> Some Fault
           | Some (Done w2) \<Rightarrow> Some (Done (s\<lparr>sv_task_worker := w1, sv_timer_worker := w2\<rparr>))))"

definition service_destroy :: "service \<Rightarrow> unit run" where
  "service_destroy s = (if joinable (sv_task_worker s) \<or> joinable (sv_timer_worker s) then Abort else Done ())"

definition get_poller :: "int \<Rightarrow> service \<Rightarrow> epoll poller option run" where
  "get_poller pid s =
     (if \<not> pid \<le> send_pid then Abort
      else if pid < 0 then Fault
      else Done (if pid = read_pid then sv_read s else sv_send s))"

definition service_post_channel_event :: "bool \<Rightarrow> nat \<Rightarrow> nat \<Rightarrow> int \<Rightarrow> service \<Rightarrow> (bool \<times> service) run" where
  "service_post_channel_event ok_ev ch ev pid s =
     run_map (\<lambda>p. case p of
          None \<Rightarrow> (False, s)
        | Some p \<Rightarrow>
            (let (ok, p1) = push_channel_event ok_ev ch ev p in
             (ok, if pid = read_pid then s\<lparr>sv_read := Some p1\<rparr> else s\<lparr>sv_send := Some p1\<rparr>)))
       (get_poller pid s)"

definition service_post :: "nat \<Rightarrow> service \<Rightarrow> service" where
  "service_post task s = s\<lparr>sv_tasks := sv_tasks s @ [task], sv_posted := sv_posted s @ [task]\<rparr>"

definition service_start_timer :: "nat \<Rightarrow> service \<Rightarrow> bool \<times> service" where
  "service_start_timer tid s =
     (case sv_timers s of
        None \<Rightarrow> (False, s)
      | Some e \<Rightarrow> (let (ok, e1) = start_timer tid e in (ok, s\<lparr>sv_timers := Some e1\<rparr>)))"

section \<open>The workers\<close>

text \<open>The loop of the task worker; \<open>None\<close>: it has nothing to do. \<open>timeout\<close>: the wait for a task gave up.\<close>

definition task_step :: "bool \<Rightarrow> service \<Rightarrow> service option" where
  "task_step timeout s =
     (case sv_task_worker s of
        Checking \<Rightarrow> Some (s\<lparr>sv_task_worker := if sv_running s then Waiting else Ended\<rparr>)
      | Waiting \<Rightarrow>
          (case sv_tasks s of
             [] \<Rightarrow> if timeout then Some (s\<lparr>sv_task_worker := Checking\<rparr>) else None
           | task # tasks \<Rightarrow> Some (s\<lparr>sv_tasks := tasks, sv_task_worker := Holding task\<rparr>))
      | Holding task \<Rightarrow> Some (s\<lparr>sv_ran := sv_ran s @ [task], sv_task_worker := Checking\<rparr>)
      | _ \<Rightarrow> None)"

text \<open>The other worker ends when it finds that the service does not run.\<close>

definition timer_worker_step :: "service \<Rightarrow> service option" where
  "timer_worker_step s =
     (case sv_timer_worker s of
        Checking \<Rightarrow> Some (s\<lparr>sv_timer_worker := if sv_running s then Waiting else Ended\<rparr>)
      | Waiting \<Rightarrow> Some (s\<lparr>sv_timer_worker := Checking\<rparr>)
      | _ \<Rightarrow> None)"

datatype sv_op = SvStart bool | SvStop | SvWait | SvPost nat | SvEvent bool nat nat int | SvTimer nat | SvTask bool | SvTimerWorker

inductive service_step :: "service \<Rightarrow> sv_op \<Rightarrow> service \<Rightarrow> bool" where
  start: "service_start ok_thread s = Done (ok, s') \<Longrightarrow> service_step s (SvStart ok_thread) s'"
| stop: "service_step s SvStop (service_stop s)"
| wait: "service_wait_stopped s = Some (Done s') \<Longrightarrow> service_step s SvWait s'"
| post: "service_step s (SvPost task) (service_post task s)"
| event: "service_post_channel_event ok_ev ch ev pid s = Done (ok, s') \<Longrightarrow> service_step s (SvEvent ok_ev ch ev pid) s'"
| timer: "service_start_timer tid s = (ok, s') \<Longrightarrow> service_step s (SvTimer tid) s'"
| task: "task_step timeout s = Some s' \<Longrightarrow> service_step s (SvTask timeout) s'"
| timer_worker: "timer_worker_step s = Some s' \<Longrightarrow> service_step s SvTimerWorker s'"

inductive_simps service_step_simps:
  "service_step s (SvStart ok_thread) s'"
  "service_step s SvStop s'"
  "service_step s SvWait s'"
  "service_step s (SvPost task) s'"
  "service_step s (SvEvent ok_ev ch ev pid) s'"
  "service_step s (SvTimer tid) s'"
  "service_step s (SvTask timeout) s'"
  "service_step s SvTimerWorker s'"


section \<open>Tasks\<close>









text \<open>Two tasks, of which one has been run.\<close>

definition sv_started :: service where
  "sv_started = (case service_start True (service_new False) of Done (ok, s) \<Rightarrow> s)"



text \<open>
  A service that was stopped and is started again before \<open>wait_stopped\<close> has come back ends
  the process: the worker threads are replaced while they can still be joined.
\<close>

theorem restart_without_wait_aborts:
  assumes "service_start ok_thread s = Done (True, s1)"
  shows "service_start ok_thread' (service_stop s1) = Abort \<and> service_destroy (service_stop s1) = Abort"
proof -
  have "sv_task_worker s1 = Checking"
    using assms by (auto simp: service_start_def start_task_worker_def start_timer_callback_worker_def run_bind_eq_Done run_map_eq_Done
        Let_def split: if_splits)
  then show ?thesis
    by (simp add: service_start_def service_stop_def start_task_worker_def service_destroy_def joinable_def Let_def)
qed

theorem restart_without_wait_aborts_witness: "service_start True (service_stop sv_started) = Abort"
proof -
  have "service_start True (service_new False) = Done (True, sv_started)"
    by (simp add: sv_started_def service_start_def service_new_def start_task_worker_def start_timer_callback_worker_def
        joinable_def Let_def)
  from restart_without_wait_aborts [OF this] show ?thesis by blast
qed

end
