(* ===== verification/Net.thy ===== *)
theory Net
  imports Http_Utils
begin

text \<open>
  Sockets and addresses (src/net/socket.cpp, transport/address.h and transport/address.cpp) on
  Linux. The answers of the system calls are arguments: \<open>ret\<close> and \<open>err\<close> are what a call returns
  and the \<open>errno\<close> it leaves. \<open>gai\<close> is \<open>getaddrinfo\<close>: for IPv6 (numeric hosts) or IPv4, the
  socket address of the first result. \<open>ntop\<close> is \<open>inet_ntop\<close>: the text for the bytes of an IPv6 or
  IPv4 address.
\<close>

section \<open>Socket calls\<close>

definition LANE_EINTR :: int where "LANE_EINTR = 4"
definition LANE_EWOULDBLOCK :: int where "LANE_EWOULDBLOCK = 11"
definition LANE_EALREADY :: int where "LANE_EALREADY = 114"
definition LANE_EINPROGRESS :: int where "LANE_EINPROGRESS = 115"

definition net_read :: "int \<Rightarrow> int \<Rightarrow> int" where
  "net_read ret err =
     (if ret > 0 then ret
      else if ret < 0 then (if err = LANE_EINPROGRESS \<or> err = LANE_EWOULDBLOCK then - 1 else 0)
      else ret)"

definition net_read_from :: "int \<Rightarrow> int \<Rightarrow> int" where
  "net_read_from ret err =
     (if ret < 0 then (if err = LANE_EINPROGRESS \<or> err = LANE_EWOULDBLOCK then - 1 else 0) else ret)"

definition net_send :: "int \<Rightarrow> int \<Rightarrow> int" where
  "net_send ret err =
     (if ret > 0 then ret
      else if ret < 0 then (if err = LANE_EINPROGRESS \<or> err = LANE_EWOULDBLOCK then - 1 else 0)
      else ret)"

definition net_send_to :: "int \<Rightarrow> int \<Rightarrow> int" where
  "net_send_to ret err =
     (if ret < 0 then (if err = LANE_EINPROGRESS \<or> err = LANE_EWOULDBLOCK then - 1 else 0) else ret)"

definition net_connect :: "int \<Rightarrow> int \<Rightarrow> bool" where
  "net_connect ret err =
     (if ret \<noteq> 0 then
        (if err \<noteq> LANE_EALREADY \<and> err \<noteq> LANE_EWOULDBLOCK \<and> err \<noteq> LANE_EINPROGRESS then False else True)
      else True)"

definition net_bind :: "int \<Rightarrow> bool" where "net_bind ret = (if ret = 0 then True else False)"
definition net_listen :: "int \<Rightarrow> bool" where "net_listen ret = (if ret = 0 then True else False)"

text \<open>What the kernel holds of a socket, and the setting of its options; \<open>ok\<close>: whether the call succeeds.\<close>

datatype sock_opt = OptLinger | OptRcvbuf | OptSndbuf | OptKeepalive | OptKeepidle | OptKeepintvl | OptKeepcnt | OptReuse | OptNodelay

record sock =
  sk_flags :: u32
  sk_opts :: "sock_opt \<rightharpoonup> int \<times> int"

definition setsockopt :: "(sock_opt \<Rightarrow> bool) \<Rightarrow> sock_opt \<Rightarrow> int \<times> int \<Rightarrow> sock \<Rightarrow> int \<times> sock" where
  "setsockopt ok opt v s = (if ok opt then (0, s\<lparr>sk_opts := (sk_opts s)(opt \<mapsto> v)\<rparr>) else (- 1, s))"

definition O_NONBLOCK :: u32 where "O_NONBLOCK = 2048"

text \<open>\<open>get_ok\<close>: \<open>F_GETFL\<close> returns the flags, otherwise \<open>-1\<close>.\<close>

definition set_noblock :: "bool \<Rightarrow> bool \<Rightarrow> int \<Rightarrow> sock \<Rightarrow> bool \<times> sock" where
  "set_noblock get_ok set_ok noblock s =
     (let flags = (if get_ok then sk_flags s else - 1);
          flags1 = (if noblock = 0 then flags AND NOT O_NONBLOCK else flags OR O_NONBLOCK)
      in if set_ok then (True, s\<lparr>sk_flags := flags1\<rparr>) else (False, s))"

definition set_option :: "(sock_opt \<Rightarrow> bool) \<Rightarrow> sock_opt \<Rightarrow> int \<times> int \<Rightarrow> sock \<Rightarrow> bool \<times> sock" where
  "set_option ok opt v s = (let (r, s1) = setsockopt ok opt v s in if r = 0 then (True, s1) else (False, s1))"

definition set_linger :: "(sock_opt \<Rightarrow> bool) \<Rightarrow> int \<Rightarrow> int \<Rightarrow> sock \<Rightarrow> bool \<times> sock" where
  "set_linger ok on linger s = set_option ok OptLinger (on, linger) s"

definition set_read_bs :: "(sock_opt \<Rightarrow> bool) \<Rightarrow> int \<Rightarrow> sock \<Rightarrow> bool \<times> sock" where
  "set_read_bs ok sz s = set_option ok OptRcvbuf (sz, 0) s"

definition set_send_bs :: "(sock_opt \<Rightarrow> bool) \<Rightarrow> int \<Rightarrow> sock \<Rightarrow> bool \<times> sock" where
  "set_send_bs ok sz s = set_option ok OptSndbuf (sz, 0) s"

definition set_reuse :: "(sock_opt \<Rightarrow> bool) \<Rightarrow> int \<Rightarrow> sock \<Rightarrow> bool \<times> sock" where
  "set_reuse ok reuse s = set_option ok OptReuse (reuse, 0) s"

definition set_nodelay :: "(sock_opt \<Rightarrow> bool) \<Rightarrow> int \<Rightarrow> sock \<Rightarrow> bool \<times> sock" where
  "set_nodelay ok nodelay s = set_option ok OptNodelay (nodelay, 0) s"

text \<open>The conditions of one \<open>if\<close>, up to the first call that fails.\<close>

fun set_options :: "(sock_opt \<Rightarrow> bool) \<Rightarrow> (sock_opt \<times> int \<times> int) list \<Rightarrow> sock \<Rightarrow> bool \<times> sock" where
  "set_options ok [] s = (True, s)"
| "set_options ok ((opt, v) # opts) s =
     (let (r, s1) = setsockopt ok opt v s in if r = - 1 then (False, s1) else set_options ok opts s1)"

definition set_keeplive :: "(sock_opt \<Rightarrow> bool) \<Rightarrow> int \<Rightarrow> int \<Rightarrow> sock \<Rightarrow> bool \<times> sock" where
  "set_keeplive ok keeplive interval s =
     (let (r, s1) = setsockopt ok OptKeepalive (1, 0) s in
      if r = - 1 then (False, s1)
      else set_options ok [(OptKeepidle, keeplive, 0), (OptKeepintvl, interval, 0), (OptKeepcnt, 3, 0)] s1)"

section \<open>Socket addresses\<close>

text \<open>
  \<open>sockaddr_in\<close> has 16 bytes, \<open>sockaddr_in6\<close> 28: the family, the port in network order at 2,
  the address at 4 or 8.
\<close>

definition sin_size :: nat where "sin_size = 16"
definition sin6_size :: nat where "sin6_size = 28"

definition htons :: "u16 \<Rightarrow> byte list" where
  "htons p = [ucast (drop_bit 8 p), ucast p]"

definition ntohs :: "byte list \<Rightarrow> u16" where
  "ntohs b = push_bit 8 (ucast (b ! 0)) OR ucast (b ! 1)"

text \<open>Copying a socket address of \<open>n\<close> bytes into a buffer and setting its port.\<close>

definition put_sockaddr :: "nat \<Rightarrow> byte list \<Rightarrow> u16 \<Rightarrow> byte list \<Rightarrow> byte list run" where
  "put_sockaddr n sa port buf =
     run_bind (mem_read sa 0 n) (\<lambda>b. run_bind (mem_write buf 0 b) (\<lambda>buf1. mem_write buf1 2 (htons port)))"

definition string_to_address ::
  "(bool \<Rightarrow> byte list \<Rightarrow> byte list option) \<Rightarrow> byte list \<Rightarrow> u16 \<Rightarrow> byte list \<times> int \<Rightarrow> (bool \<times> byte list \<times> int) run" where
  "string_to_address gai ip port buf =
     (case gai True (c_str ip) of
        Some sa \<Rightarrow> run_map (\<lambda>b. (True, b, int (length sa))) (put_sockaddr sin6_size sa port (fst buf))
      | None \<Rightarrow>
          (case gai False (c_str ip) of
             Some sa \<Rightarrow> run_map (\<lambda>b. (True, b, int (length sa))) (put_sockaddr sin_size sa port (fst buf))
           | None \<Rightarrow> Done (False, buf)))"

section \<open>address\<close>

record address =
  ad_v6 :: bool
  ad_len :: int
  ad_bytes :: "byte list"

definition max_address_len :: nat where "max_address_len = 64"

definition address_new :: address where
  "address_new = \<lparr>ad_v6 = False, ad_len = int sin_size, ad_bytes = replicate max_address_len 0\<rparr>"

text \<open>\<open>junk\<close>: what the bytes of the new object happen to be.\<close>

definition address_of_ip ::
  "(bool \<Rightarrow> byte list \<Rightarrow> byte list option) \<Rightarrow> byte list \<Rightarrow> byte list \<Rightarrow> u16 \<Rightarrow> address run" where
  "address_of_ip gai junk ip port =
     run_map (\<lambda>(ok, b, n). \<lparr>ad_v6 = ok \<and> n = int sin6_size, ad_len = n, ad_bytes = b\<rparr>)
       (string_to_address gai ip port (junk, int sin_size))"

text \<open>\<open>memcpy\<close> of as many bytes as the length says, which becomes huge when it is negative.\<close>

definition copy_sockaddr :: "byte list \<Rightarrow> int \<Rightarrow> byte list \<Rightarrow> byte list run" where
  "copy_sockaddr sa n buf =
     (if n < 0 then Fault else run_bind (mem_read sa 0 (nat n)) (\<lambda>b. mem_write buf 0 b))"

definition address_of_sockaddr :: "byte list \<Rightarrow> byte list \<Rightarrow> int \<Rightarrow> address run" where
  "address_of_sockaddr junk sa n =
     run_map (\<lambda>b. \<lparr>ad_v6 = (n = int sin6_size), ad_len = n, ad_bytes = b\<rparr>) (copy_sockaddr sa n junk)"

definition address_set_ip ::
  "(bool \<Rightarrow> byte list \<Rightarrow> byte list option) \<Rightarrow> byte list \<Rightarrow> u16 \<Rightarrow> address \<Rightarrow> (bool \<times> address) run" where
  "address_set_ip gai ip port a =
     run_map (\<lambda>(ok, b, n).
         let a1 = a\<lparr>ad_len := n, ad_bytes := b\<rparr> in
         if \<not> ok then (False, a1) else (True, a1\<lparr>ad_v6 := n = int sin6_size\<rparr>))
       (string_to_address gai ip port (ad_bytes a, ad_len a))"

definition address_set_sockaddr :: "byte list \<Rightarrow> int \<Rightarrow> address \<Rightarrow> (bool \<times> address) run" where
  "address_set_sockaddr sa n a =
     (if n = int sin6_size \<or> n = int sin_size then
        run_map (\<lambda>b. (True, a\<lparr>ad_v6 := n = int sin6_size, ad_len := n, ad_bytes := b\<rparr>)) (copy_sockaddr sa n (ad_bytes a))
      else Done (False, a))"

text \<open>Where the bytes of the IP address are.\<close>

definition ip_bytes :: "address \<Rightarrow> byte list" where
  "ip_bytes a = (if ad_v6 a then take 16 (drop 8 (ad_bytes a)) else take 4 (drop 4 (ad_bytes a)))"

definition address_ip :: "(bool \<Rightarrow> byte list \<Rightarrow> byte list option) \<Rightarrow> address \<Rightarrow> byte list" where
  "address_ip ntop a = (case ntop (ad_v6 a) (ip_bytes a) of None \<Rightarrow> [] | Some host \<Rightarrow> host)"

definition address_port :: "address \<Rightarrow> u16" where
  "address_port a = ntohs (take 2 (drop 2 (ad_bytes a)))"

definition address_to_string :: "(bool \<Rightarrow> byte list \<Rightarrow> byte list option) \<Rightarrow> address \<Rightarrow> byte list" where
  "address_to_string ntop a =
     (case ntop (ad_v6 a) (ip_bytes a) of
        None \<Rightarrow> []
      | Some host \<Rightarrow> snd (c_snprintf 255 (host @ [58] @ print_d (uint (address_port a)))))"

text \<open>\<open>address_to_string\<close> of the socket functions, which takes what is not of the IPv4 size for IPv6.\<close>

definition net_address_to_string :: "(bool \<Rightarrow> byte list \<Rightarrow> byte list option) \<Rightarrow> byte list \<Rightarrow> int \<Rightarrow> byte list" where
  "net_address_to_string ntop sa n =
     (if n = int sin_size then
        (case ntop False (take 4 (drop 4 sa)) of
           None \<Rightarrow> []
         | Some host \<Rightarrow> host @ snd (c_snprintf 10 ([58] @ print_d (uint (ntohs (take 2 (drop 2 sa)))))))
      else
        (case ntop True (take 16 (drop 8 sa)) of
           None \<Rightarrow> []
         | Some host \<Rightarrow> host @ snd (c_snprintf 10 ([58] @ print_d (uint (ntohs (take 2 (drop 2 sa))))))))"

fun memcmp :: "byte list \<Rightarrow> byte list \<Rightarrow> int" where
  "memcmp (x # xs) (y # ys) = (if x < y then - 1 else if y < x then 1 else memcmp xs ys)"
| "memcmp _ _ = 0"

definition address_eq :: "address \<Rightarrow> address \<Rightarrow> bool" where
  "address_eq a b =
     (if ad_v6 a = ad_v6 b \<and> ad_len a = ad_len b \<and>
         memcmp (take (nat (ad_len a)) (ad_bytes a)) (take (nat (ad_len a)) (ad_bytes b)) = 0
      then True else False)"

definition address_less :: "address \<Rightarrow> address \<Rightarrow> bool" where
  "address_less a b =
     (if ad_len a < ad_len b then True
      else if ad_len a > ad_len b then False
      else memcmp (take (nat (ad_len a)) (ad_bytes a)) (take (nat (ad_len a)) (ad_bytes b)) < 0)"

section \<open>Well-formed addresses\<close>

definition ad_wf :: "address \<Rightarrow> bool" where
  "ad_wf a \<longleftrightarrow> length (ad_bytes a) = max_address_len \<and> (ad_len a = int sin_size \<or> ad_len a = int sin6_size) \<and>
     (ad_v6 a \<longleftrightarrow> ad_len a = int sin6_size)"

text \<open>What \<open>getaddrinfo\<close> promises: a socket address of the family that was asked for.\<close>

definition gai_ok :: "(bool \<Rightarrow> byte list \<Rightarrow> byte list option) \<Rightarrow> bool" where
  "gai_ok gai \<longleftrightarrow> (\<forall>v6 ip sa. gai v6 ip = Some sa \<longrightarrow> length sa = (if v6 then sin6_size else sin_size))"

lemmas sizes = sin_size_def sin6_size_def max_address_len_def

lemma length_htons [simp]: "length (htons p) = 2"
  by (simp add: htons_def)

lemma ntohs_htons [simp]: "ntohs (htons p) = p"
  by (rule bit_word_eqI) (auto simp: ntohs_def htons_def bit_simps)

lemma put_sockaddr_Done:
  assumes "length sa = n" and "4 \<le> n" and "n \<le> length buf"
  shows "put_sockaddr n sa port buf = Done (take 2 sa @ htons port @ drop 4 sa @ drop n buf)"
proof -
  have "take 2 (sa @ drop n buf) = take 2 sa" "drop 4 (sa @ drop n buf) = drop 4 sa @ drop n buf" using assms by simp_all
  then show ?thesis using assms by (simp add: put_sockaddr_def mem_read_def mem_write_def)
qed

text \<open>What looking up an address leaves in the buffer.\<close>

lemma string_to_address_Done:
  assumes "gai_ok gai" and "length (fst buf) = max_address_len"
  shows "string_to_address gai ip port buf = Done
    (case gai True (c_str ip) of
       Some sa \<Rightarrow> (True, take 2 sa @ htons port @ drop 4 sa @ drop sin6_size (fst buf), int sin6_size)
     | None \<Rightarrow>
         (case gai False (c_str ip) of
            Some sa \<Rightarrow> (True, take 2 sa @ htons port @ drop 4 sa @ drop sin_size (fst buf), int sin_size)
          | None \<Rightarrow> (False, buf)))"
proof -
  have "length sa = sin6_size" if "gai True (c_str ip) = Some sa" for sa using assms(1) that unfolding gai_ok_def by fastforce
  moreover have "length sa = sin_size" if "gai False (c_str ip) = Some sa" for sa using assms(1) that unfolding gai_ok_def by fastforce
  ultimately show ?thesis using assms(2)
    by (auto simp: string_to_address_def put_sockaddr_Done sizes split: option.splits)
qed

lemma length_put: "length sa = n \<Longrightarrow> 4 \<le> n \<Longrightarrow> n \<le> length buf \<Longrightarrow>
    length (take 2 sa @ htons port @ drop 4 sa @ drop n buf) = length buf"
  by simp

lemma looked_up_wf:
  assumes "gai_ok gai" and "length (fst buf) = max_address_len" and "snd buf = int sin_size \<or> snd buf = int sin6_size"
  shows "\<exists>ok b n. string_to_address gai ip port buf = Done (ok, b, n) \<and> length b = max_address_len \<and>
    (n = int sin_size \<or> n = int sin6_size) \<and> (\<not> ok \<longrightarrow> (b, n) = buf)"
proof -
  note looked = string_to_address_Done [OF assms(1,2), of ip port]
  show ?thesis
  proof (cases "gai True (c_str ip)")
    case (Some sa)
    then have "length sa = sin6_size" using assms(1) by (auto simp: gai_ok_def)
    then show ?thesis using looked assms(2) Some by (simp add: sizes) blast
  next
    case no6: None
    show ?thesis
    proof (cases "gai False (c_str ip)")
      case (Some sa)
      then have "length sa = sin_size" using assms(1) by (auto simp: gai_ok_def)
      then show ?thesis using looked assms(2) Some no6 by (simp add: sizes) blast
    next
      case None
      then show ?thesis using looked assms(2,3) no6 by (simp add: prod_eq_iff) blast
    qed
  qed
qed

text \<open>
  C16. Every operation, the constructor from a socket address apart, gives a well-formed
  address (of the size of an IPv4 or an IPv6 socket address, and marked accordingly) from a
  well-formed one, whatever the text to look up and the outcome, given a resolver that answers
  with an address of the family it was asked for.
\<close>

theorem addresses_well_formed:
  assumes "gai_ok gai" and "length junk = max_address_len" and "ad_wf a" and "n \<le> int (length sa)"
  shows "ad_wf address_new \<and> (\<exists>b. address_of_ip gai junk ip port = Done b \<and> ad_wf b) \<and>
    (\<exists>ok b. address_set_ip gai ip port a = Done (ok, b) \<and> ad_wf b) \<and>
    (\<exists>ok b. address_set_sockaddr sa n a = Done (ok, b) \<and> ad_wf b)"
proof (intro conjI)
  show "ad_wf address_new" by (simp add: ad_wf_def address_new_def sizes)
  obtain ok b k where "string_to_address gai ip port (junk, int sin_size) = Done (ok, b, k)" "length b = max_address_len"
    "k = int sin_size \<or> k = int sin6_size" "\<not> ok \<longrightarrow> (b, k) = (junk, int sin_size)"
    using looked_up_wf [OF assms(1), of "(junk, int sin_size)" ip port] assms(2) by auto
  then show "\<exists>b. address_of_ip gai junk ip port = Done b \<and> ad_wf b"
    by (auto simp: address_of_ip_def ad_wf_def sizes)
  obtain ok b k where "string_to_address gai ip port (ad_bytes a, ad_len a) = Done (ok, b, k)" "length b = max_address_len"
    "k = int sin_size \<or> k = int sin6_size" "\<not> ok \<longrightarrow> (b, k) = (ad_bytes a, ad_len a)"
    using looked_up_wf [OF assms(1), of "(ad_bytes a, ad_len a)" ip port] assms(3) by (auto simp: ad_wf_def)
  then show "\<exists>ok b. address_set_ip gai ip port a = Done (ok, b) \<and> ad_wf b"
    using assms(3) by (cases ok) (auto simp: address_set_ip_def ad_wf_def Let_def)
  show "\<exists>ok b. address_set_sockaddr sa n a = Done (ok, b) \<and> ad_wf b"
    using assms(3,4) by (auto simp: address_set_sockaddr_def copy_sockaddr_def ad_wf_def mem_read_def mem_write_def sizes)
qed

text \<open>A resolver for one address: \<open>127.0.0.1\<close>.\<close>

definition gai_local :: "bool \<Rightarrow> byte list \<Rightarrow> byte list option" where
  "gai_local v6 ip = (if \<not> v6 \<and> ip = B ''127.0.0.1'' then Some ([2, 0, 0, 0, 127, 0, 0, 1] @ replicate 8 0) else None)"

lemma gai_local_ok: "gai_ok gai_local"
  by (auto simp: gai_ok_def gai_local_def sizes split: if_splits)

theorem addresses_well_formed_witness:
  "\<exists>b. address_of_ip gai_local (replicate 64 7) (B ''127.0.0.1'') 80 = Done b \<and> ad_wf b"
  using addresses_well_formed [OF gai_local_ok, of "replicate 64 7" address_new 16 "replicate 16 0" "B ''127.0.0.1''" 80]
  by (simp add: sizes ad_wf_def address_new_def)

text \<open>
  An address that was set from a text has the port that was given and the bytes that the
  resolver found, IPv6 before IPv4.
\<close>

theorem address_set_ip_reads_back:
  assumes "gai_ok gai" and "ad_wf a" and "address_set_ip gai ip port a = Done (True, b)"
  shows "address_port b = port \<and> (ad_v6 b \<longleftrightarrow> gai True (c_str ip) \<noteq> None) \<and>
    (\<exists>sa. gai (ad_v6 b) (c_str ip) = Some sa \<and> ip_bytes b = (if ad_v6 b then take 16 (drop 8 sa) else take 4 (drop 4 sa)))"
proof -
  have l: "length (ad_bytes a) = max_address_len" using assms(2) by (simp add: ad_wf_def)
  have ls: "length sa = (if v6 then sin6_size else sin_size)" if "gai v6 (c_str ip) = Some sa" for v6 sa
    using assms(1) that by (auto simp: gai_ok_def)
  note s = assms(3) [unfolded address_set_ip_def string_to_address_Done [OF assms(1), of "(ad_bytes a, ad_len a)", simplified, OF l]]
  show ?thesis
  proof (cases "gai True (c_str ip)")
    case (Some sa)
    then show ?thesis using s ls [of True sa]
      by (auto simp: Let_def address_port_def ip_bytes_def sizes)
  next
    case None
    then obtain sa where "gai False (c_str ip) = Some sa" using s by (auto simp: Let_def split: option.splits)
    then show ?thesis using None s ls [of False sa]
      by (auto simp: Let_def address_port_def ip_bytes_def sizes)
  qed
qed

theorem address_set_ip_reads_back_witness:
  "\<exists>b. address_set_ip gai_local (B ''127.0.0.1'') 80 address_new = Done (True, b) \<and> address_port b = 80 \<and>
    ip_bytes b = [127, 0, 0, 1]"
proof -
  have "(case address_set_ip gai_local (B ''127.0.0.1'') 80 address_new of Done (ok, b) \<Rightarrow> ok | _ \<Rightarrow> False)"
    by code_simp
  then obtain b where b: "address_set_ip gai_local (B ''127.0.0.1'') 80 address_new = Done (True, b)"
    by (auto split: run.splits)
  have wf: "ad_wf address_new" by (simp add: sizes ad_wf_def address_new_def)
  have g: "gai_local True (c_str (B ''127.0.0.1'')) = None"
    "gai_local False (c_str (B ''127.0.0.1'')) = Some ([2, 0, 0, 0, 127, 0, 0, 1] @ replicate 8 0)" by code_simp+
  show ?thesis using address_set_ip_reads_back [OF gai_local_ok wf b] b g by auto
qed

section \<open>The order of addresses\<close>

lemma memcmp_zero: "length xs = length ys \<Longrightarrow> memcmp xs ys = 0 \<longleftrightarrow> xs = ys"
  by (induction xs ys rule: memcmp.induct) auto

lemma memcmp_swap: "memcmp ys xs = - memcmp xs ys"
  by (induction xs ys rule: memcmp.induct) auto

lemma memcmp_trans:
  "length xs = length ys \<Longrightarrow> length ys = length zs \<Longrightarrow> memcmp xs ys < 0 \<Longrightarrow> memcmp ys zs < 0 \<Longrightarrow> memcmp xs zs < 0"
proof (induction xs ys arbitrary: zs rule: list_induct2')
  case (4 x xs y ys)
  obtain z zs' where "zs = z # zs'" using 4(3) by (cases zs) auto
  have s: "length xs = length ys" "length ys = length zs'" using 4(2,3) \<open>zs = z # zs'\<close> by simp_all
  have c: "x < y \<or> x = y \<and> memcmp xs ys < 0" "y < z \<or> y = z \<and> memcmp ys zs' < 0"
    using 4(4,5) \<open>zs = z # zs'\<close> by (auto split: if_splits)
  then have "x < z \<or> x = z \<and> memcmp xs zs' < 0" using 4(1) [OF s] less_trans by blast
  then show ?case using \<open>zs = z # zs'\<close> by auto
qed auto

text \<open>
  The two comparisons of well-formed addresses fit together: \<open>operator<\<close> is a strict order,
  and of two addresses either one is less than the other or they are equal by \<open>operator==\<close>.
\<close>

theorem address_order:
  assumes "ad_wf a" and "ad_wf b" and "ad_wf c"
  shows "\<not> address_less a a \<and> (address_less a b \<and> address_less b c \<longrightarrow> address_less a c) \<and>
    (address_less a b \<or> address_eq a b \<or> address_less b a) \<and> \<not> (address_less a b \<and> address_less b a) \<and>
    \<not> (address_less a b \<and> address_eq a b)"
proof (intro conjI)
  define key :: "address \<Rightarrow> byte list" where "key = (\<lambda>a. take (nat (ad_len a)) (ad_bytes a))"
  have len: "length (key a) = nat (ad_len a)" if "ad_wf a" for a using that by (auto simp: ad_wf_def key_def sizes)
  have less: "address_less a b \<longleftrightarrow> ad_len a < ad_len b \<or> (ad_len a = ad_len b \<and> memcmp (key a) (key b) < 0)" for a b
    by (auto simp: address_less_def key_def)
  have eq: "address_eq a b \<longleftrightarrow> ad_len a = ad_len b \<and> memcmp (key a) (key b) = 0" if "ad_wf a" "ad_wf b" for a b
    using that by (auto simp: address_eq_def key_def ad_wf_def)
  have refl: "memcmp (key a) (key a) = 0" for a by (simp add: memcmp_zero)
  show "\<not> address_less a a" using refl by (simp add: less)
  show "address_less a b \<and> address_less b c \<longrightarrow> address_less a c"
    using memcmp_trans [of "key a" "key b" "key c"] len assms by (auto simp: less)
  show "address_less a b \<or> address_eq a b \<or> address_less b a"
    using memcmp_swap [of "key a" "key b"] assms by (auto simp: less eq)
  show "\<not> (address_less a b \<and> address_less b a)" using memcmp_swap [of "key a" "key b"] by (auto simp: less)
  show "\<not> (address_less a b \<and> address_eq a b)" using assms by (auto simp: less eq)
qed

theorem address_order_witness: "address_eq address_new address_new"
proof -
  have "ad_wf address_new" by (simp add: sizes ad_wf_def address_new_def)
  from address_order [OF this this this] show ?thesis by blast
qed

section \<open>What a read or a send reports\<close>

text \<open>
  A read gives the bytes that were read, \<open>-1\<close> when it would block, and otherwise \<open>0\<close>: the end
  of the stream, an error, and a call that a signal interrupted look the same.
\<close>

theorem net_read_reports:
  "net_read ret err =
     (if 0 < ret then ret else if ret < 0 \<and> err \<in> {LANE_EWOULDBLOCK, LANE_EINPROGRESS} then - 1 else 0) \<and>
   net_read (- 1) LANE_EINTR = net_read 0 0 \<and> net_send ret err = net_read ret err"
  by (auto simp: net_read_def net_send_def LANE_EINTR_def LANE_EWOULDBLOCK_def LANE_EINPROGRESS_def)

end
