(* ===== verification/Transport.thy ===== *)
theory Transport
  imports Buffer
begin

text \<open>
  What all transports share (include/pump/transport/types.h, callbacks.h, base_transport.h
  and src/transport/base_transport.cpp) and the TCP transport with its flow
  (tcp_transport.h, src/transport/tcp_transport.cpp, src/transport/flow/flow_tcp.cpp).

  One record holds the state of \<open>channel\<close>, \<open>base_channel\<close>, \<open>base_transport\<close> and
  \<open>tcp_transport\<close>. A method is a function from the state before to the state after, run as
  one step. Results of the operating system (what \<open>recv\<close> and \<open>send\<close> return, whether the
  poller accepts a tracker) are arguments. Calls that leave the transport are appended to
  \<open>tp_trace\<close>: callbacks, shutdowns, the bytes the socket took, buffers queued and released.
  \<open>tp_posted\<close> holds the channel events the poller has been given and not yet delivered.

  The flow's \<open>send_iob_\<close> is null or the pointer in \<open>last_send_iob_\<close> (the two are set and
  cleared together), so the flow is modelled by the flag whether \<open>send_iob_\<close> is set. The
  busy-waiting loops (for the end of \<open>starting\<close>, for \<open>pending_opt_cnt_\<close> to reach zero) wait
  for other threads inside a method; between the steps of this model no thread is inside one.
\<close>

section \<open>Types\<close>

datatype transport_type =
    TransportUdp | TransportTcpAcceptor | TransportTcpDialer | TransportTcp
  | TransportTlsAcceptor | TransportTlsDialer | TransportTlsHandshaker | TransportTls

datatype transport_state =
    StNone | StStarting | StStarted | StStopping | StStopped | StDisconnecting
  | StDisconnected | StTimeouting | StTimeouted | StHandshaking | StFinished | StError

datatype read_mode = ReadModeNone | ReadModeOnce | ReadModeLoop

datatype read_state = ReadNone | ReadPending | ReadInvalid

datatype error_code = ErrNone | ErrUnstart | ErrInvalid | ErrDisable | ErrAgain | ErrFault

datatype shut_how = ShutRd | ShutRdwr

datatype channel_event = EvDisconnected | EvBufferSent io_buffer | EvRead

text \<open>A callback is modelled by whether it is set.\<close>

record transport_callbacks =
  read_cb :: bool
  read_from_cb :: bool
  sent_cb :: bool
  disconnected_cb :: bool
  stopped_cb :: bool

record tracker =
  trk_tracked :: bool
  trk_poller :: bool

datatype tp_out =
    OutShutdown shut_how
  | OutRead "byte list"
  | OutSentCb io_buffer
  | OutDisconnected
  | OutStopped
  | OutQueued "byte list"
  | OutSocket "byte list"
  | OutReadFrom nat "byte list"
  | OutSendTo nat "byte list"
  | OutRelease io_buffer
  | OutClose

record transport =
  tp_type :: transport_type
  tp_fd :: int
  tp_service :: bool
  tp_state :: transport_state
  tp_rmode :: read_mode
  tp_rstate :: read_state
  tp_r_tracker :: "tracker option"
  tp_s_tracker :: "tracker option"
  tp_pending_send_size :: int
  tp_cbs :: transport_callbacks
  tp_flow :: "bool option"
  tp_last_size :: int
  tp_last :: "io_buffer option"
  tp_sendlist :: "io_buffer list"
  tp_posted :: "channel_event list"
  tp_trace :: "tp_out list"

definition no_callbacks :: transport_callbacks where
  "no_callbacks = \<lparr>read_cb = False, read_from_cb = False, sent_cb = False, disconnected_cb = False, stopped_cb = False\<rparr>"

definition tcp_new :: transport where
  "tcp_new =
     \<lparr>tp_type = TransportTcp, tp_fd = -1, tp_service = False, tp_state = StNone, tp_rmode = ReadModeNone,
      tp_rstate = ReadNone, tp_r_tracker = None, tp_s_tracker = None, tp_pending_send_size = 0,
      tp_cbs = no_callbacks, tp_flow = None, tp_last_size = 0, tp_last = None, tp_sendlist = [],
      tp_posted = [], tp_trace = []\<rparr>"

definition tcp_init :: "int \<Rightarrow> transport \<Rightarrow> transport" where
  "tcp_init fd t = t\<lparr>tp_fd := fd\<rparr>"

section \<open>base_channel and base_transport\<close>

definition emit :: "tp_out \<Rightarrow> transport \<Rightarrow> transport" where
  "emit out t = t\<lparr>tp_trace := tp_trace t @ [out]\<rparr>"

definition set_state :: "transport_state \<Rightarrow> transport_state \<Rightarrow> transport \<Rightarrow> bool \<times> transport" where
  "set_state expected desired t =
     (if tp_state t = expected then (True, t\<lparr>tp_state := desired\<rparr>) else (False, t))"

definition is_state :: "transport_state \<Rightarrow> transport \<Rightarrow> bool" where
  "is_state st t \<longleftrightarrow> tp_state t = st"

definition is_started :: "transport \<Rightarrow> bool" where
  "is_started t \<longleftrightarrow> is_state StStarted t"

definition change_read_state :: "read_state \<Rightarrow> read_state \<Rightarrow> transport \<Rightarrow> bool \<times> transport" where
  "change_read_state from to t =
     (if tp_rstate t = from then (True, t\<lparr>tp_rstate := to\<rparr>) else (False, t))"

text \<open>The event is lost when the service has no running poller; no caller looks at the result.\<close>

definition post_channel_event :: "channel_event \<Rightarrow> transport \<Rightarrow> transport" where
  "post_channel_event ev t = (if tp_service t then t\<lparr>tp_posted := tp_posted t @ [ev]\<rparr> else t)"

definition shutdown_flow :: "shut_how \<Rightarrow> transport \<Rightarrow> transport" where
  "shutdown_flow how t = (if tp_flow t \<noteq> None then emit (OutShutdown how) t else t)"

definition close_flow :: "transport \<Rightarrow> transport" where
  "close_flow t = (if tp_flow t \<noteq> None then emit OutClose t else t)"

definition trigger_disconnected_callback :: "transport \<Rightarrow> bool \<times> transport" where
  "trigger_disconnected_callback t =
     (let (ok, t1) = set_state StDisconnecting StDisconnected t in
      if ok then (True, emit OutDisconnected (shutdown_flow ShutRdwr t1)) else (False, t1))"

definition trigger_stopped_callback :: "transport \<Rightarrow> bool \<times> transport" where
  "trigger_stopped_callback t =
     (let (ok, t1) = set_state StStopping StStopped t in
      if ok then (True, emit OutStopped (shutdown_flow ShutRdwr t1)) else (False, t1))"

definition try_triggering_disconnected_callback :: "transport \<Rightarrow> bool \<times> transport" where
  "try_triggering_disconnected_callback t =
     (let (ok, t1) = set_state StStarted StDisconnecting t in
      if ok then trigger_disconnected_callback t1 else (False, t1))"

definition base_on_channel_event :: "transport \<Rightarrow> transport" where
  "base_on_channel_event t =
     (let (ok, t1) = trigger_disconnected_callback t in
      if ok then t1 else snd (trigger_stopped_callback t1))"

text \<open>\<open>ok\<close>: the service has the poller and the poller installs the tracker.\<close>

definition install_read_tracker :: "bool \<Rightarrow> transport \<Rightarrow> bool \<times> transport" where
  "install_read_tracker ok t =
     (if tp_r_tracker t \<noteq> None then (False, t)
      else if \<not> ok then (False, t\<lparr>tp_r_tracker := Some \<lparr>trk_tracked = False, trk_poller = False\<rparr>\<rparr>)
      else (True, t\<lparr>tp_r_tracker := Some \<lparr>trk_tracked = False, trk_poller = True\<rparr>\<rparr>))"

definition install_send_tracker :: "bool \<Rightarrow> transport \<Rightarrow> bool \<times> transport" where
  "install_send_tracker ok t =
     (if tp_s_tracker t \<noteq> None then (False, t)
      else if \<not> ok then (False, t\<lparr>tp_s_tracker := Some \<lparr>trk_tracked = False, trk_poller = False\<rparr>\<rparr>)
      else (True, t\<lparr>tp_s_tracker := Some \<lparr>trk_tracked = False, trk_poller = True\<rparr>\<rparr>))"

text \<open>
  \<open>start_channel_tracker\<close> of the poller: the tracker's own state change first, then the
  request to the operating system, whose result is \<open>ok\<close>.
\<close>

definition start_tracker :: "bool \<Rightarrow> tracker \<Rightarrow> bool \<times> tracker" where
  "start_tracker ok trk =
     (if \<not> trk_poller trk then (False, trk)
      else if trk_tracked trk then (False, trk)
      else (ok, trk\<lparr>trk_tracked := True\<rparr>))"

definition start_read_tracker :: "bool \<Rightarrow> transport \<Rightarrow> (bool \<times> transport) run" where
  "start_read_tracker ok t =
     (case tp_r_tracker t of
        None \<Rightarrow> Abort
      | Some trk \<Rightarrow> (let (r, trk') = start_tracker ok trk in Done (r, t\<lparr>tp_r_tracker := Some trk'\<rparr>)))"

definition start_send_tracker :: "bool \<Rightarrow> transport \<Rightarrow> (bool \<times> transport) run" where
  "start_send_tracker ok t =
     (case tp_s_tracker t of
        None \<Rightarrow> Abort
      | Some trk \<Rightarrow> (let (r, trk') = start_tracker ok trk in Done (r, t\<lparr>tp_s_tracker := Some trk'\<rparr>)))"

definition uninstall_tracker :: "tracker option \<Rightarrow> tracker option" where
  "uninstall_tracker trk =
     (case trk of
        None \<Rightarrow> None
      | Some k \<Rightarrow> if trk_poller k then Some (k\<lparr>trk_tracked := False\<rparr>) else Some k)"

definition base_transport_destroy :: "transport \<Rightarrow> transport" where
  "base_transport_destroy t =
     close_flow (t\<lparr>tp_r_tracker := uninstall_tracker (tp_r_tracker t),
                   tp_s_tracker := uninstall_tracker (tp_s_tracker t)\<rparr>)"

section \<open>flow_tcp\<close>

text \<open>
  \<open>flow_send n\<close>: \<open>n\<close> is what \<open>net::send\<close> returned. The bytes it took are the first \<open>n\<close> of the
  buffer's data.
\<close>

definition flow_send :: "int \<Rightarrow> transport \<Rightarrow> (error_code \<times> transport) run" where
  "flow_send n t =
     (case (tp_flow t, tp_last t) of
        (Some True, Some iob) \<Rightarrow>
          if n = 0 then Done (ErrFault, t)
          else if n < 0 then Done (ErrAgain, t)
          else
            (let (left, iob') = iob_shift n iob;
                 t' = emit (OutSocket (take (nat n) (iob_contents iob))) (t\<lparr>tp_last := Some iob'\<rparr>)
             in if left = 0 then Done (ErrNone, t'\<lparr>tp_flow := Some False\<rparr>) else Done (ErrAgain, t'))
      | _ \<Rightarrow> Fault)"

definition flow_want_to_send :: "int \<Rightarrow> transport \<Rightarrow> (error_code \<times> transport) run" where
  "flow_want_to_send n t =
     (case tp_flow t of
        None \<Rightarrow> Fault
      | Some busy \<Rightarrow>
          if tp_last t = None \<or> busy then Done (ErrFault, t)
          else flow_send n (t\<lparr>tp_flow := Some True\<rparr>))"

section \<open>tcp_transport: sending\<close>

definition handle_sent_buffer :: "transport \<Rightarrow> transport run" where
  "handle_sent_buffer t =
     (case tp_last t of
        None \<Rightarrow> Fault
      | Some iob \<Rightarrow>
          Done ((if sent_cb (tp_cbs t) then post_channel_event (EvBufferSent iob) t
                 else emit (OutRelease iob) t)\<lparr>tp_last := None\<rparr>))"

text \<open>\<open>pending_send_size_.fetch_sub(last_send_iob_size_) > last_send_iob_size_\<close>\<close>

definition sub_pending :: "transport \<Rightarrow> bool \<times> transport" where
  "sub_pending t =
     (tp_pending_send_size t > tp_last_size t,
      t\<lparr>tp_pending_send_size := to_i32 (tp_pending_send_size t - tp_last_size t)\<rparr>)"

definition send_once :: "int \<Rightarrow> transport \<Rightarrow> (error_code \<times> transport) run" where
  "send_once n t =
     (if tp_last t \<noteq> None then Abort
      else case tp_sendlist t of
        [] \<Rightarrow> Abort
      | iob # rest \<Rightarrow>
          run_bind
            (flow_want_to_send n
              (t\<lparr>tp_sendlist := rest, tp_last := Some iob, tp_last_size := sint (iob_size iob)\<rparr>))
            (\<lambda>(ret, t1).
              if ret = ErrNone then
                run_bind (handle_sent_buffer t1) (\<lambda>t2.
                let (more, t3) = sub_pending t2 in
                Done (if more then ErrAgain else ErrNone, t3))
              else if ret = ErrAgain then Done (ErrAgain, t1)
              else Done (ErrFault, t1)))"

definition async_send_failed :: "transport \<Rightarrow> bool \<times> transport" where
  "async_send_failed t =
     (let (changed, t1) = set_state StStarted StDisconnecting t in
      (False, if changed then post_channel_event EvDisconnected t1 else t1))"

definition async_send :: "int \<Rightarrow> bool \<Rightarrow> io_buffer \<Rightarrow> transport \<Rightarrow> (bool \<times> transport) run" where
  "async_send n ok iob t =
     (let t1 = emit (OutQueued (iob_contents iob)) (t\<lparr>tp_sendlist := tp_sendlist t @ [iob]\<rparr>);
          pending = tp_pending_send_size t1;
          t2 = t1\<lparr>tp_pending_send_size := to_i32 (pending + sint (iob_size iob))\<rparr>
      in
      if pending > 0 then Done (True, t2)
      else
        run_bind (send_once n t2) (\<lambda>(ret, t3).
          if ret = ErrNone then Done (True, t3)
          else if ret = ErrAgain then
            run_bind (start_send_tracker ok t3) (\<lambda>(started, t4).
              if started then Done (True, t4) else Done (async_send_failed t4))
          else Done (async_send_failed t3)))"

section \<open>tcp_transport: interface\<close>

definition open_flow :: "transport \<Rightarrow> bool \<times> transport" where
  "open_flow t =
     (let t1 = t\<lparr>tp_flow := Some False\<rparr> in
      if tp_fd t < 0 then (False, emit OutClose t1) else (True, t1))"

text \<open>\<open>sv\<close>: a service is given; \<open>ok_r\<close>, \<open>ok_s\<close>: its pollers install the trackers.\<close>

definition tcp_start ::
  "bool \<Rightarrow> read_mode \<Rightarrow> transport_callbacks \<Rightarrow> bool \<Rightarrow> bool \<Rightarrow> transport \<Rightarrow> error_code \<times> transport" where
  "tcp_start sv mode cbs ok_r ok_s t =
     (if \<not> sv then (ErrInvalid, t)
      else if mode \<noteq> ReadModeOnce \<and> mode \<noteq> ReadModeLoop then (ErrInvalid, t)
      else if \<not> read_cb cbs \<or> \<not> stopped_cb cbs \<or> \<not> disconnected_cb cbs then (ErrInvalid, t)
      else if tp_flow t \<noteq> None then (ErrInvalid, t)
      else
        let (ok, t1) = set_state StNone StStarting t in
        if \<not> ok then (ErrFault, t1)
        else
          let t2 = t1\<lparr>tp_cbs := cbs, tp_rmode := mode, tp_service := sv\<rparr>;
              fail = (\<lambda>u. (ErrFault, snd (set_state StStarting StError u)));
              (ok, t3) = open_flow t2
          in
          if \<not> ok then fail t3
          else
            let (ok, t4) = install_read_tracker ok_r t3 in
            if \<not> ok then fail t4
            else
              let (ok, t5) = install_send_tracker ok_s t4 in
              if \<not> ok then fail t5
              else
                let (ok, t6) = set_state StStarting StStarted t5 in
                if ok then (ErrNone, t6) else fail t6)"

definition tcp_stop :: "transport \<Rightarrow> transport" where
  "tcp_stop t =
     (if is_started t then
        let t1 = snd (set_state StStarted StStopping t) in
        if tp_pending_send_size t1 = 0
        then post_channel_event EvDisconnected (shutdown_flow ShutRdwr t1)
        else shutdown_flow ShutRd t1
      else snd (set_state StDisconnecting StStopping t))"

definition tcp_force_stop :: "transport \<Rightarrow> transport" where
  "tcp_force_stop t =
     (if is_started t then
        let t1 = snd (set_state StStarted StStopping t) in
        post_channel_event EvDisconnected (shutdown_flow ShutRdwr t1)
      else snd (set_state StDisconnecting StStopping t))"

definition tcp_async_read :: "bool \<Rightarrow> transport \<Rightarrow> (error_code \<times> transport) run" where
  "tcp_async_read ok t =
     (if \<not> is_started t then Done (ErrUnstart, t)
      else
        let (changed, t1) = change_read_state ReadNone ReadPending t in
        if \<not> changed then Done (ErrFault, t1)
        else
          run_bind (start_read_tracker ok t1) (\<lambda>(started, t2).
            Done (if started then ErrNone else ErrFault, t2)))"

definition tcp_send ::
  "allocator \<Rightarrow> byte list option \<Rightarrow> int \<Rightarrow> int \<Rightarrow> bool \<Rightarrow> transport \<Rightarrow> (error_code \<times> transport) run" where
  "tcp_send al b sz n ok t =
     (if b = None \<or> sz \<le> 0 then Done (ErrInvalid, t)
      else if \<not> is_started t then Done (ErrUnstart, t)
      else
        run_bind (iob_create al 0) (\<lambda>r.
          case r of
            None \<Rightarrow> Done (ErrFault, t)
          | Some iob \<Rightarrow>
              run_bind (iob_write al b (word_of_int sz) iob) (\<lambda>(written, iob1).
                if \<not> written then Done (ErrFault, t)
                else
                  run_bind (async_send n ok iob1 t) (\<lambda>(sent, t1).
                    Done (if sent then ErrNone else ErrFault, t1)))))"

definition tcp_send_iob ::
  "io_buffer option \<Rightarrow> int \<Rightarrow> bool \<Rightarrow> transport \<Rightarrow> (error_code \<times> transport) run" where
  "tcp_send_iob b n ok t =
     (case b of
        None \<Rightarrow> Done (ErrInvalid, t)
      | Some iob \<Rightarrow>
          if iob_size iob = 0 then Done (ErrInvalid, t)
          else if \<not> is_started t then Done (ErrUnstart, t)
          else
            run_bind (async_send n ok (iob_refer iob) t) (\<lambda>(sent, t1).
              Done (if sent then ErrNone else ErrFault, t1)))"

section \<open>tcp_transport: events\<close>

definition tcp_on_channel_event :: "channel_event \<Rightarrow> transport \<Rightarrow> transport run" where
  "tcp_on_channel_event ev t =
     (case ev of
        EvDisconnected \<Rightarrow> Done (base_on_channel_event t)
      | EvBufferSent iob \<Rightarrow> Done (emit (OutRelease iob) (emit (OutSentCb iob) t))
      | EvRead \<Rightarrow> Abort)"

text \<open>\<open>data\<close>: \<open>Some bs\<close> for bytes received, \<open>None\<close> when \<open>net::read\<close> returned zero or less.\<close>

definition tcp_on_read_event :: "byte list option \<Rightarrow> bool \<Rightarrow> transport \<Rightarrow> transport run" where
  "tcp_on_read_event data ok t =
     (if tp_flow t = None then Fault
      else
        run_bind
          (case data of
             None \<Rightarrow> Done (True, t)
           | Some bs \<Rightarrow>
               run_bind
                 (if tp_rmode t = ReadModeOnce
                  then Done (change_read_state ReadPending ReadNone t)
                  else start_read_tracker ok t)
                 (\<lambda>(good, t1). Done (\<not> good, emit (OutRead bs) t1)))
          (\<lambda>(disconnected, t2).
            Done (if disconnected then snd (try_triggering_disconnected_callback t2) else t2)))"

definition on_send_disconnected :: "transport \<Rightarrow> transport" where
  "on_send_disconnected t =
     (let (done, t1) = try_triggering_disconnected_callback t in
      if done then t1 else snd (trigger_stopped_callback t1))"

definition on_send_again :: "bool \<Rightarrow> transport \<Rightarrow> transport run" where
  "on_send_again ok t =
     run_bind (start_send_tracker ok t) (\<lambda>(started, t1).
       Done (if started then t1 else on_send_disconnected t1))"

definition on_send_continue :: "int \<Rightarrow> bool \<Rightarrow> transport \<Rightarrow> transport run" where
  "on_send_continue n ok t =
     run_bind (send_once n t) (\<lambda>(ret, t1).
       if ret = ErrNone then Done (snd (trigger_stopped_callback t1))
       else if ret = ErrAgain then on_send_again ok t1
       else Done (on_send_disconnected t1))"

definition tcp_on_send_event :: "int \<Rightarrow> int \<Rightarrow> bool \<Rightarrow> transport \<Rightarrow> transport run" where
  "tcp_on_send_event n1 n2 ok t =
     (if tp_last t \<noteq> None then
        run_bind (flow_send n1 t) (\<lambda>(ret, t1).
          if ret = ErrNone then
            run_bind (handle_sent_buffer t1) (\<lambda>t2.
            let (more, t3) = sub_pending t2 in
            if more then on_send_continue n2 ok t3
            else Done (snd (trigger_stopped_callback t3)))
          else if ret = ErrAgain then on_send_again ok t1
          else Done (on_send_disconnected t1))
      else on_send_continue n2 ok t)"

definition clear_sendlist :: "transport \<Rightarrow> transport" where
  "clear_sendlist t =
     (let t1 = (case tp_last t of None \<Rightarrow> t | Some iob \<Rightarrow> emit (OutRelease iob) t) in
      (fold (\<lambda>iob u. emit (OutRelease iob) u) (tp_sendlist t1) t1)\<lparr>tp_sendlist := []\<rparr>)"

definition tcp_destroy :: "transport \<Rightarrow> transport" where
  "tcp_destroy t = base_transport_destroy (clear_sendlist t)"

end
