(* ===== verification/Handshaker.thy ===== *)
theory Handshaker
  imports Transport
begin

text \<open>
  \<open>tls_handshaker\<close> (transport/tls_handshaker.h and .cpp): the channel that carries out a TLS
  handshake on a connected socket, for the dialers and acceptors. Events, the timer and posted
  channel events arrive one at a time. What the TLS library answers, and whether the poller
  takes the tracker and the service the timer, are arguments.

  \<open>hk_trace\<close> has the callbacks and the closing of the descriptor that \<open>init\<close> was given.
\<close>

section \<open>Timers of a channel\<close>

text \<open>A timer pointer: null, a timer that is started, or one that was stopped or has fired.\<close>

datatype watch = NoWatch | Watching | WatchDone

definition stop_watch :: "watch \<Rightarrow> watch" where
  "stop_watch w = (if w = NoWatch then NoWatch else WatchDone)"

text \<open>\<open>timed\<close>: the timeout is not zero; \<open>ok\<close>: the service starts the timer.\<close>

definition start_watch :: "bool \<Rightarrow> bool \<Rightarrow> watch \<Rightarrow> bool \<times> watch" where
  "start_watch timed ok w = (if \<not> timed then (True, w) else if ok then (True, Watching) else (False, WatchDone))"

section \<open>tls_handshaker\<close>

datatype tls_handshake_phase = HsOk | HsRead | HsSend | HsError

datatype hk_out = HkHandshaked bool | HkStopped | HkCloseFd

record handshaker =
  hk_state :: transport_state
  hk_flow :: bool
  hk_timer :: watch
  hk_tracker :: "tracker option"
  hk_expects :: tls_handshake_phase
  hk_posted :: nat
  hk_trace :: "hk_out list"

definition hk_new :: handshaker where
  "hk_new = \<lparr>hk_state = StNone, hk_flow = False, hk_timer = NoWatch, hk_tracker = None, hk_expects = HsOk,
     hk_posted = 0, hk_trace = []\<rparr>"

definition hk_set_state :: "transport_state \<Rightarrow> transport_state \<Rightarrow> handshaker \<Rightarrow> bool \<times> handshaker" where
  "hk_set_state expected desired h =
     (if hk_state h = expected then (True, h\<lparr>hk_state := desired\<rparr>) else (False, h))"

definition hk_emit :: "hk_out \<Rightarrow> handshaker \<Rightarrow> handshaker" where
  "hk_emit out h = h\<lparr>hk_trace := hk_trace h @ [out]\<rparr>"

definition hk_open_flow :: "bool \<Rightarrow> bool \<Rightarrow> handshaker \<Rightarrow> bool \<times> handshaker" where
  "hk_open_flow new_flow flow_ok h =
     (let h1 = h\<lparr>hk_flow := new_flow\<rparr> in
      if \<not> new_flow then (False, h1)
      else if \<not> flow_ok then (False, hk_emit HkCloseFd h1)
      else (True, h1))"

definition hk_init :: "bool \<Rightarrow> bool \<Rightarrow> handshaker \<Rightarrow> bool \<times> handshaker" where
  "hk_init new_flow flow_ok h =
     (let (ok, h1) = hk_open_flow new_flow flow_ok h in
      if ok then (True, h1) else (False, hk_emit HkCloseFd h1))"

text \<open>
  \<open>start\<close> in two parts, since the timer may fire between them: up to the timer, and from the
  tracker on.
\<close>

definition hk_start_fail :: "handshaker \<Rightarrow> bool \<times> handshaker" where
  "hk_start_fail h =
     (let h1 = snd (hk_set_state StStarting StError h) in (False, h1\<lparr>hk_timer := stop_watch (hk_timer h1)\<rparr>))"

definition hk_start_begin ::
  "bool \<Rightarrow> bool \<Rightarrow> tls_handshake_phase \<Rightarrow> bool \<Rightarrow> bool \<Rightarrow> handshaker \<Rightarrow> bool \<times> handshaker" where
  "hk_start_begin sv cbs phase timed timer_ok h =
     (if \<not> sv then (False, h)
      else if \<not> cbs then (False, h)
      else if \<not> hk_flow h then (False, h)
      else
        let (ok, h1) = hk_set_state StNone StStarting h in
        if \<not> ok then (False, h1)
        else if phase = HsError then hk_start_fail h1
        else
          let (ok, w) = start_watch timed timer_ok (hk_timer h1); h2 = h1\<lparr>hk_timer := w\<rparr> in
          if \<not> ok then hk_start_fail h2 else (True, h2))"

definition hk_start_end :: "tls_handshake_phase \<Rightarrow> bool \<Rightarrow> handshaker \<Rightarrow> bool \<times> handshaker" where
  "hk_start_end phase trk_ok h =
     (let h1 = h\<lparr>hk_tracker := Some \<lparr>trk_tracked = trk_ok, trk_poller = trk_ok\<rparr>,
                 hk_expects := (if phase = HsSend then HsSend else HsRead)\<rparr>
      in if \<not> trk_ok then hk_start_fail h1
         else
           let (ok, h2) = hk_set_state StStarting StStarted h1 in
           if ok then (True, h2) else hk_start_fail h2)"

definition hk_start ::
  "bool \<Rightarrow> bool \<Rightarrow> tls_handshake_phase \<Rightarrow> bool \<Rightarrow> bool \<Rightarrow> bool \<Rightarrow> handshaker \<Rightarrow> bool \<times> handshaker" where
  "hk_start sv cbs phase timed timer_ok trk_ok h =
     (let (ok, h1) = hk_start_begin sv cbs phase timed timer_ok h in
      if ok then hk_start_end phase trk_ok h1 else (False, h1))"

definition hk_post :: "handshaker \<Rightarrow> handshaker" where
  "hk_post h = h\<lparr>hk_posted := hk_posted h + 1\<rparr>"

definition hk_stop :: "handshaker \<Rightarrow> handshaker" where
  "hk_stop h =
     (let (ok, h1) = hk_set_state StStarted StStopping h in
      if ok then hk_post h1
      else
        let (ok, h2) = hk_set_state StDisconnecting StStopping h1 in
        if ok then h2 else snd (hk_set_state StTimeouting StStopping h2))"

definition hk_on_timeout :: "handshaker \<Rightarrow> handshaker" where
  "hk_on_timeout h =
     (let (ok, h1) = hk_set_state StStarting StTimeouting h in
      if ok then hk_post h1
      else
        let (ok, h2) = hk_set_state StStarted StTimeouting h1 in
        if ok then hk_post h2 else h2)"

definition hk_finished :: "handshaker \<Rightarrow> handshaker run" where
  "hk_finished h =
     (let h1 = h\<lparr>hk_timer := stop_watch (hk_timer h)\<rparr> in
      case hk_tracker h1 of
        None \<Rightarrow> Abort
      | Some trk \<Rightarrow>
          if \<not> trk_poller trk then Abort
          else
            let h2 = h1\<lparr>hk_tracker := uninstall_tracker (Some trk)\<rparr> in
            if hk_state h2 = StFinished then Done (hk_emit (HkHandshaked True) h2)
            else if hk_state h2 = StError then Done (hk_emit (HkHandshaked False) h2)
            else
              let (ok, h3) = hk_set_state StTimeouting StTimeouted h2 in
              if ok then Done (hk_emit (HkHandshaked False) h3)
              else
                let (ok, h4) = hk_set_state StDisconnecting StDisconnected h3 in
                if ok then Done (hk_emit (HkHandshaked False) h4)
                else
                  let (ok, h5) = hk_set_state StStopping StStopped h4 in
                  Done (if ok then hk_emit HkStopped h5 else h5))"

definition hk_failed :: "handshaker \<Rightarrow> handshaker run" where
  "hk_failed h = (let (ok, h1) = hk_set_state StStarted StError h in if ok then hk_finished h1 else Done h1)"

definition hk_track :: "tls_handshake_phase \<Rightarrow> bool \<Rightarrow> handshaker \<Rightarrow> handshaker run" where
  "hk_track phase trk_ok h =
     (case hk_tracker h of
        None \<Rightarrow> Fault
      | Some trk \<Rightarrow>
          if \<not> trk_poller trk then Fault
          else
            let (ok, trk') = start_tracker trk_ok trk; h1 = h\<lparr>hk_tracker := Some trk', hk_expects := phase\<rparr> in
            if ok then Done h1 else hk_failed h1)"

definition hk_process :: "tls_handshake_phase \<Rightarrow> bool \<Rightarrow> handshaker \<Rightarrow> handshaker run" where
  "hk_process phase trk_ok h =
     (if \<not> hk_flow h then Fault
      else case phase of
        HsOk \<Rightarrow> (let (ok, h1) = hk_set_state StStarted StFinished h in if ok then hk_finished h1 else Done h1)
      | HsRead \<Rightarrow> hk_track HsRead trk_ok h
      | HsSend \<Rightarrow> hk_track HsSend trk_ok h
      | HsError \<Rightarrow> hk_failed h)"

definition hk_unlock_flow :: "handshaker \<Rightarrow> handshaker" where
  "hk_unlock_flow h = h\<lparr>hk_flow := False\<rparr>"

text \<open>The destructor takes its tracker from the poller.\<close>

definition hk_destroy :: "handshaker \<Rightarrow> handshaker" where
  "hk_destroy h = h\<lparr>hk_tracker := uninstall_tracker (hk_tracker h)\<rparr>"

section \<open>Steps\<close>

text \<open>
  The owner initialises and starts the handshaker, may stop it, and takes its flow once it is
  finished. The poller calls a tracked tracker, which it stops tracking first, and delivers
  posted events; the timer fires once.
\<close>

datatype hk_op =
    HkInit bool bool
  | HkStart bool bool tls_handshake_phase bool bool bool
  | HkStop
  | HkUnlock
  | HkIo tls_handshake_phase bool
  | HkTimeout
  | HkDeliver

fun hk_exec :: "hk_op \<Rightarrow> handshaker \<Rightarrow> handshaker run" where
  "hk_exec (HkInit new_flow flow_ok) h = Done (snd (hk_init new_flow flow_ok h))"
| "hk_exec (HkStart sv cbs phase timed timer_ok trk_ok) h = Done (snd (hk_start sv cbs phase timed timer_ok trk_ok h))"
| "hk_exec HkStop h = Done (hk_stop h)"
| "hk_exec HkUnlock h = Done (hk_unlock_flow h)"
| "hk_exec (HkIo phase trk_ok) h =
     hk_process phase trk_ok (h\<lparr>hk_tracker := map_option (\<lambda>k. k\<lparr>trk_tracked := False\<rparr>) (hk_tracker h)\<rparr>)"
| "hk_exec HkTimeout h = Done (hk_on_timeout (h\<lparr>hk_timer := WatchDone\<rparr>))"
| "hk_exec HkDeliver h = hk_finished (h\<lparr>hk_posted := hk_posted h - 1\<rparr>)"

definition tracked :: "tracker option \<Rightarrow> bool" where
  "tracked trk = (case trk of None \<Rightarrow> False | Some k \<Rightarrow> trk_tracked k)"

fun hk_legal :: "hk_op \<Rightarrow> handshaker \<Rightarrow> bool" where
  "hk_legal HkUnlock h \<longleftrightarrow> hk_state h = StFinished"
| "hk_legal (HkInit a f) h \<longleftrightarrow> hk_state h = StNone"
| "hk_legal (HkIo phase ok) h \<longleftrightarrow> tracked (hk_tracker h)"
| "hk_legal HkTimeout h \<longleftrightarrow> hk_timer h = Watching"
| "hk_legal HkDeliver h \<longleftrightarrow> 0 < hk_posted h"
| "hk_legal _ h \<longleftrightarrow> True"

inductive hk_reachable :: "handshaker \<Rightarrow> bool" where
  start: "hk_reachable hk_new"
| step: "hk_reachable h \<Longrightarrow> hk_legal op h \<Longrightarrow> hk_exec op h = Done h' \<Longrightarrow> hk_reachable h'"

text \<open>The callbacks made so far.\<close>

definition hk_reports :: "handshaker \<Rightarrow> hk_out list" where
  "hk_reports h = filter (\<lambda>out. out \<noteq> HkCloseFd) (hk_trace h)"

definition has_trk_poller :: "tracker option \<Rightarrow> bool" where
  "has_trk_poller trk = (case trk of None \<Rightarrow> False | Some k \<Rightarrow> trk_poller k)"

text \<open>The report that belongs to the end the handshaker came to.\<close>

definition hk_report :: "handshaker \<Rightarrow> hk_out list" where
  "hk_report h =
     (case hk_state h of
        StFinished \<Rightarrow> [HkHandshaked True]
      | StError \<Rightarrow> if has_trk_poller (hk_tracker h) then [HkHandshaked False] else []
      | StTimeouted \<Rightarrow> [HkHandshaked False]
      | StStopped \<Rightarrow> [HkStopped]
      | _ \<Rightarrow> [])"

definition hk_inv :: "handshaker \<Rightarrow> bool" where
  "hk_inv h \<longleftrightarrow>
     hk_reports h = hk_report h \<and>
     (case hk_state h of
        StNone \<Rightarrow> hk_timer h = NoWatch \<and> hk_tracker h = None \<and> hk_posted h = 0
      | StStarted \<Rightarrow> hk_flow h \<and> has_trk_poller (hk_tracker h) \<and> tracked (hk_tracker h) \<and> hk_posted h = 0
      | StTimeouting \<Rightarrow> hk_flow h \<and> has_trk_poller (hk_tracker h) \<and> hk_posted h = 1 \<and> hk_timer h = WatchDone
      | StStopping \<Rightarrow> hk_flow h \<and> has_trk_poller (hk_tracker h) \<and> hk_posted h = 1
      | StFinished \<Rightarrow> has_trk_poller (hk_tracker h) \<and> \<not> tracked (hk_tracker h) \<and> hk_posted h = 0 \<and> hk_timer h \<noteq> Watching
      | StError \<Rightarrow> \<not> tracked (hk_tracker h) \<and> hk_posted h = 0 \<and> hk_timer h \<noteq> Watching
      | StTimeouted \<Rightarrow> \<not> tracked (hk_tracker h) \<and> hk_posted h = 0 \<and> hk_timer h \<noteq> Watching
      | StStopped \<Rightarrow> \<not> tracked (hk_tracker h) \<and> hk_posted h = 0 \<and> hk_timer h \<noteq> Watching
      | _ \<Rightarrow> False)"


section \<open>The invariant\<close>

lemma hk_reports_simps [simp]:
  "hk_reports (h\<lparr>hk_state := st\<rparr>) = hk_reports h" "hk_reports (h\<lparr>hk_flow := fl\<rparr>) = hk_reports h"
  "hk_reports (h\<lparr>hk_timer := w\<rparr>) = hk_reports h" "hk_reports (h\<lparr>hk_tracker := trk\<rparr>) = hk_reports h"
  "hk_reports (h\<lparr>hk_expects := ph\<rparr>) = hk_reports h" "hk_reports (h\<lparr>hk_posted := n\<rparr>) = hk_reports h"
  "hk_reports (h\<lparr>hk_trace := tr @ outs\<rparr>) = hk_reports (h\<lparr>hk_trace := tr\<rparr>) @ filter (\<lambda>out. out \<noteq> HkCloseFd) outs"
  "hk_reports (h\<lparr>hk_trace := hk_trace h\<rparr>) = hk_reports h"
  by (simp_all add: hk_reports_def)

lemma stop_watch_simps [simp]: "stop_watch NoWatch = NoWatch" "stop_watch w \<noteq> Watching"
  by (simp_all add: stop_watch_def)

lemma stop_watch_done [simp]: "w \<noteq> NoWatch \<Longrightarrow> stop_watch w = WatchDone"
  by (simp add: stop_watch_def)

lemmas hk_ops = hk_set_state_def hk_emit_def hk_post_def Let_def
lemmas hk_invs = hk_inv_def hk_report_def has_trk_poller_def tracked_def

lemma hk_init_inv: "hk_inv h \<Longrightarrow> hk_state h = StNone \<Longrightarrow> hk_inv (snd (hk_init new_flow flow_ok h))"
  by (auto simp: hk_init_def hk_open_flow_def hk_ops hk_invs)

lemma hk_start_inv:
  assumes "hk_inv h"
  shows "hk_inv (snd (hk_start sv cbs phase timed timer_ok trk_ok h))"
proof (cases "sv \<and> cbs \<and> hk_flow h \<and> hk_state h = StNone")
  case False
  then show ?thesis using assms by (auto simp: hk_start_def hk_start_begin_def hk_ops)
next
  case True
  then show ?thesis using assms
    by (cases "phase = HsError"; cases timed; cases timer_ok; cases trk_ok)
      (simp_all add: hk_start_def hk_start_begin_def hk_start_end_def hk_start_fail_def start_watch_def hk_ops hk_invs)
qed

lemma hk_stop_inv: "hk_inv h \<Longrightarrow> hk_inv (hk_stop h)"
  by (cases "hk_state h") (auto simp: hk_stop_def hk_ops hk_invs)

lemma hk_timeout_inv: "hk_inv h \<Longrightarrow> hk_timer h = Watching \<Longrightarrow> hk_inv (hk_on_timeout (h\<lparr>hk_timer := WatchDone\<rparr>))"
  by (cases "hk_state h") (auto simp: hk_on_timeout_def hk_ops hk_invs)

text \<open>The end of a handshake, from the states that lead there.\<close>

lemma hk_finished_spec:
  assumes "has_trk_poller (hk_tracker h)" and "hk_reports h = []" and "hk_posted h = 0"
    and "hk_state h \<in> {StFinished, StError, StTimeouting, StStopping}"
  shows "\<exists>h'. hk_finished h = Done h' \<and> hk_inv h'"
  using assms
  by (cases "hk_state h"; cases "hk_tracker h")
    (auto simp: hk_finished_def hk_ops hk_invs uninstall_tracker_def)

lemma hk_deliver_inv:
  assumes "hk_inv h" and "0 < hk_posted h"
  shows "\<exists>h'. hk_finished (h\<lparr>hk_posted := hk_posted h - 1\<rparr>) = Done h' \<and> hk_inv h'"
  using assms by (intro hk_finished_spec; cases "hk_state h") (auto simp: hk_invs)

lemma hk_failed_spec:
  assumes "hk_inv (h\<lparr>hk_tracker := Some (trk\<lparr>trk_tracked := b\<rparr>)\<rparr>)" and "hk_tracker h = Some (trk\<lparr>trk_tracked := c\<rparr>)"
    and "hk_state h \<in> {StStarted, StTimeouting, StStopping}"
  shows "\<exists>h'. hk_failed h = Done h' \<and> hk_inv h'"
proof (cases "hk_state h = StStarted")
  case True
  then have "\<exists>h'. hk_finished (h\<lparr>hk_state := StError\<rparr>) = Done h' \<and> hk_inv h'"
    using assms by (intro hk_finished_spec) (auto simp: hk_invs)
  then show ?thesis using True by (simp add: hk_failed_def hk_ops)
next
  case False
  then show ?thesis using assms by (auto simp: hk_failed_def hk_ops hk_invs)
qed

lemma hk_io_inv:
  assumes "hk_inv h" and "tracked (hk_tracker h)"
  shows "\<exists>h'. hk_process phase trk_ok (h\<lparr>hk_tracker := map_option (\<lambda>k. k\<lparr>trk_tracked := False\<rparr>) (hk_tracker h)\<rparr>) = Done h' \<and> hk_inv h'"
proof -
  obtain trk where trk: "hk_tracker h = Some trk" "trk_tracked trk" using assms(2) by (auto simp: tracked_def split: option.splits)
  have st: "hk_state h \<in> {StStarted, StTimeouting, StStopping}" and fl: "hk_flow h" and pl: "trk_poller trk"
    using assms trk by (auto simp: hk_invs split: transport_state.splits)
  define h0 where "h0 = h\<lparr>hk_tracker := Some (trk\<lparr>trk_tracked := False\<rparr>)\<rparr>"
  have restore: "h0\<lparr>hk_tracker := Some (trk\<lparr>trk_tracked := True\<rparr>)\<rparr> = h"
    using trk by (cases h; cases trk) (simp add: h0_def)
  have inv0: "hk_inv (h0\<lparr>hk_tracker := Some (trk\<lparr>trk_tracked := True\<rparr>)\<rparr>)" unfolding restore by (rule assms(1))
  have h0: "hk_tracker h0 = Some (trk\<lparr>trk_tracked := False\<rparr>)"
    "hk_state h0 = hk_state h" "hk_flow h0" "hk_reports h0 = hk_reports h" "hk_posted h0 = hk_posted h"
    using trk fl by (simp_all add: h0_def)
  note h0 = inv0 h0
  have failed: "\<exists>h'. hk_failed (h0\<lparr>hk_tracker := Some (trk\<lparr>trk_tracked := c\<rparr>), hk_expects := ph\<rparr>) = Done h' \<and> hk_inv h'" for c ph
    by (rule hk_failed_spec [where trk = trk and b = True and c = c]) (use h0 st in \<open>cases "hk_state h0"; simp add: hk_invs\<close>)+
  have track: "\<exists>h'. hk_track ph trk_ok h0 = Done h' \<and> hk_inv h'" for ph
  proof (cases trk_ok)
    case True
    have "hk_inv (h0\<lparr>hk_tracker := Some (trk\<lparr>trk_tracked := True\<rparr>), hk_expects := ph\<rparr>)"
      using h0(1) st h0(4) by (cases "hk_state h0") (simp_all add: hk_invs)
    then show ?thesis using True h0(2) pl by (simp add: hk_track_def start_tracker_def)
  next
    case False
    then show ?thesis using failed [where c = True and ph = ph] h0(2) pl by (simp add: hk_track_def start_tracker_def)
  qed
  have "\<exists>h'. hk_process phase trk_ok h0 = Done h' \<and> hk_inv h'"
  proof (cases phase)
    case HsOk
    have "\<exists>h'. hk_finished (h0\<lparr>hk_state := StFinished\<rparr>) = Done h' \<and> hk_inv h'" if "hk_state h = StStarted"
      using that h0 pl assms(1) by (intro hk_finished_spec) (auto simp: hk_invs)
    moreover have "hk_inv h0" if "hk_state h \<noteq> StStarted" using that st h0 by (auto simp: hk_invs)
    ultimately show ?thesis using HsOk h0(3,4) by (auto simp: hk_process_def hk_ops)
  next
    case HsError
    then show ?thesis using failed [where c = False and ph = "hk_expects h0"] h0(2,4) by (cases h0) (simp add: hk_process_def)
  qed (use track h0(4) in \<open>simp_all add: hk_process_def\<close>)
  then show ?thesis using trk(1) by (simp add: h0_def)
qed

lemma hk_exec_inv: "hk_inv h \<Longrightarrow> hk_legal op h \<Longrightarrow> \<exists>h'. hk_exec op h = Done h' \<and> hk_inv h'"
  using hk_init_inv hk_start_inv hk_stop_inv hk_timeout_inv hk_deliver_inv hk_io_inv
  by (cases op) (auto simp: hk_unlock_flow_def hk_invs)

lemma hk_reachable_inv: "hk_reachable h \<Longrightarrow> hk_inv h"
proof (induction rule: hk_reachable.induct)
  case start
  then show ?case by (simp add: hk_new_def hk_invs hk_reports_def)
next
  case (step h op h')
  then show ?case using hk_exec_inv [of h op] by auto
qed


section \<open>What a handshaker promises\<close>


lemma hk_example:
  "hk_reachable (snd (hk_start True True HsRead True True True (snd (hk_init True True hk_new))))"
proof (rule hk_reachable.step)
  show "hk_reachable (snd (hk_init True True hk_new))"
    by (rule hk_reachable.step [OF hk_reachable.start, of "HkInit True True"]) (simp_all add: hk_new_def)
  show "hk_legal (HkStart True True HsRead True True True) (snd (hk_init True True hk_new))" by simp
qed simp


text \<open>
  A started handshaker always waits for something that will come: in every reachable state
  that is neither before the start nor final, its tracker is tracked or an event is posted for
  it.
\<close>

theorem handshake_keeps_waiting:
  assumes "hk_reachable h" and "hk_state h \<notin> {StNone, StFinished, StError, StTimeouted, StStopped}"
  shows "tracked (hk_tracker h) \<or> 0 < hk_posted h"
  using hk_reachable_inv [OF assms(1)] assms(2) by (cases "hk_state h") (auto simp: hk_inv_def)

theorem handshake_keeps_waiting_witness:
  "tracked (hk_tracker (snd (hk_start True True HsRead True True True (snd (hk_init True True hk_new))))) \<or>
    0 < hk_posted (snd (hk_start True True HsRead True True True (snd (hk_init True True hk_new))))"
  using handshake_keeps_waiting [OF hk_example]
  by (simp add: hk_init_def hk_open_flow_def hk_new_def hk_start_def hk_start_begin_def hk_start_end_def start_watch_def
    hk_set_state_def)

text \<open>
  The timer of a handshaker is started before its tracker exists. When the timeout fires in
  between and the event it posts is delivered, the handshaker fails its assertion on the
  tracker.
\<close>

theorem handshake_start_race:
  assumes "hk_start_begin True True phase True True (snd (hk_init True True hk_new)) = (True, h)"
  shows "hk_exec HkTimeout h = Done (h\<lparr>hk_timer := WatchDone, hk_state := StTimeouting, hk_posted := 1\<rparr>) \<and>
    hk_exec HkDeliver (h\<lparr>hk_timer := WatchDone, hk_state := StTimeouting, hk_posted := 1\<rparr>) = Abort"
  using assms
  by (auto simp: hk_init_def hk_open_flow_def hk_new_def hk_start_begin_def hk_start_fail_def start_watch_def
    hk_set_state_def hk_on_timeout_def hk_post_def hk_finished_def split: if_splits)

theorem handshake_start_race_witness:
  "\<exists>h. hk_start_begin True True HsRead True True (snd (hk_init True True hk_new)) = (True, h) \<and>
    hk_exec HkDeliver (h\<lparr>hk_timer := WatchDone, hk_state := StTimeouting, hk_posted := 1\<rparr>) = Abort"
proof -
  define h where "h = snd (hk_start_begin True True HsRead True True (snd (hk_init True True hk_new)))"
  have b: "hk_start_begin True True HsRead True True (snd (hk_init True True hk_new)) = (True, h)"
    by (simp add: h_def hk_init_def hk_open_flow_def hk_new_def hk_start_begin_def start_watch_def hk_set_state_def)
  show ?thesis using handshake_start_race [OF b] b by blast
qed

text \<open>When its flow cannot be initialised, the descriptor given to \<open>init\<close> is closed twice.\<close>

lemma hk_init_closes_twice: "hk_trace (snd (hk_init True False hk_new)) = [HkCloseFd, HkCloseFd]"
  by (simp add: hk_init_def hk_open_flow_def hk_emit_def hk_new_def)

end
