(* ===== verification/Tls_Utils.thy ===== *)
theory Tls_Utils
  imports Handshaker
begin

text \<open>
  The calls of OpenSSL (transport/tls_utils.h, src/transport/tls_utils.cpp): what the results of
  the library become, and the objects that are held while credentials are loaded. What a call
  of the library returns is an argument.
\<close>

section \<open>Sessions\<close>

definition SSL_ERROR_NONE :: int where "SSL_ERROR_NONE = 0"
definition SSL_ERROR_SSL :: int where "SSL_ERROR_SSL = 1"
definition SSL_ERROR_WANT_READ :: int where "SSL_ERROR_WANT_READ = 2"
definition SSL_ERROR_WANT_WRITE :: int where "SSL_ERROR_WANT_WRITE = 3"

text \<open>\<open>want_write\<close> and \<open>want_read\<close>: \<open>SSL_want_write\<close> and \<open>SSL_want_read\<close> of the session.\<close>

definition tls_handshake :: "int \<Rightarrow> bool \<Rightarrow> bool \<Rightarrow> tls_handshake_phase" where
  "tls_handshake ec want_write want_read =
     (if ec \<noteq> SSL_ERROR_SSL then
        (if ec = SSL_ERROR_NONE then HsOk
         else if want_write then HsSend
         else if want_read then HsRead
         else HsError)
      else HsError)"

definition tls_has_unread_data :: "int \<Rightarrow> bool" where
  "tls_has_unread_data pending = (if pending = 1 then True else False)"

definition tls_read :: "int \<Rightarrow> int \<Rightarrow> int" where
  "tls_read ret ec = (if ret > 0 then ret else if ec = SSL_ERROR_WANT_READ then - 1 else 0)"

definition tls_utils_send :: "int \<Rightarrow> int \<Rightarrow> int" where
  "tls_utils_send ret ec = (if ret > 0 then ret else (let ret = ec in if ret = SSL_ERROR_WANT_WRITE then - 1 else 0))"

section \<open>Credentials\<close>

datatype ssl_object = SslCtx | CertBio | X509 | KeyBio | EvpKey | TlsSession | SslSession

text \<open>The objects held are a list, in the order in which they were made; releasing takes one out.\<close>

definition release :: "ssl_object \<Rightarrow> ssl_object list \<Rightarrow> ssl_object list" where
  "release x held = remove1 x held"

definition new_client_tls_credentials :: "bool \<Rightarrow> bool \<times> ssl_object list" where
  "new_client_tls_credentials ctx_ok = (if \<not> ctx_ok then (False, []) else (True, [SslCtx]))"

definition load_tls_credentials_from_file :: "bool \<Rightarrow> bool \<Rightarrow> bool \<Rightarrow> bool \<times> ssl_object list" where
  "load_tls_credentials_from_file ctx_ok cert_ok key_ok =
     (if \<not> ctx_ok then (False, [])
      else if \<not> cert_ok \<or> \<not> key_ok then (False, release SslCtx [SslCtx])
      else (True, [SslCtx]))"

definition load_tls_credentials_from_memory ::
  "bool \<Rightarrow> bool \<Rightarrow> bool \<Rightarrow> bool \<Rightarrow> bool \<Rightarrow> bool \<Rightarrow> bool \<times> ssl_object list" where
  "load_tls_credentials_from_memory ctx_ok cert_bio_ok cert_ok key_bio_ok key_ok use_ok =
     (if \<not> ctx_ok then (False, [])
      else
        let h1 = [SslCtx] in
        if \<not> cert_bio_ok then (False, release SslCtx h1)
        else
          let h2 = release CertBio ((if cert_ok then [X509] else []) @ CertBio # h1) in
          if \<not> cert_ok then (False, release SslCtx h2)
          else if \<not> key_bio_ok then (False, release X509 (release SslCtx h2))
          else
            let h3 = release KeyBio ((if key_ok then [EvpKey] else []) @ KeyBio # h2) in
            if \<not> key_ok then (False, release X509 (release SslCtx h3))
            else if \<not> use_ok then (False, release EvpKey (release X509 (release SslCtx h3)))
            else (True, release EvpKey (release X509 h3)))"

definition delete_tls_credentials :: "bool \<Rightarrow> ssl_object list \<Rightarrow> ssl_object list" where
  "delete_tls_credentials xcred held = (if xcred then release SslCtx held else held)"

definition new_tls_session :: "bool \<Rightarrow> bool \<Rightarrow> bool \<times> ssl_object list" where
  "new_tls_session session_ok ssl_ok =
     (if \<not> session_ok then (False, [])
      else if \<not> ssl_ok then (False, release TlsSession [TlsSession])
      else (True, [SslSession, TlsSession]))"

definition delete_tls_session :: "bool \<Rightarrow> bool \<Rightarrow> ssl_object list \<Rightarrow> ssl_object list" where
  "delete_tls_session session ssl held =
     (if \<not> session then held
      else release TlsSession (if ssl then release SslSession held else held))"

text \<open>
  Loading credentials leaks nothing, whichever call of the library fails: it gives a
  context and holds no other object, or gives none and holds nothing. Deleting what was made
  leaves nothing.
\<close>

theorem credentials_leak_nothing:
  "(let (ok, held) = load_tls_credentials_from_memory c1 c2 c3 c4 c5 c6 in
      held = (if ok then [SslCtx] else []) \<and> delete_tls_credentials ok held = []) \<and>
   (let (ok, held) = load_tls_credentials_from_file c1 c2 c3 in
      held = (if ok then [SslCtx] else []) \<and> delete_tls_credentials ok held = []) \<and>
   (let (ok, held) = new_tls_session c1 c2 in delete_tls_session ok ok held = [])"
  by (simp add: load_tls_credentials_from_memory_def load_tls_credentials_from_file_def new_tls_session_def
      delete_tls_credentials_def delete_tls_session_def release_def Let_def)

text \<open>
  A session that must write before it can read (the library may ask for it in the midst of
  a connection) is taken for closed by a read, and the same holds the other way round.
\<close>

theorem tls_renegotiation_closes:
  "ret \<le> 0 \<Longrightarrow> tls_read ret SSL_ERROR_WANT_WRITE = 0 \<and> tls_utils_send ret SSL_ERROR_WANT_READ = 0 \<and>
    tls_read ret SSL_ERROR_WANT_READ = - 1 \<and> tls_utils_send ret SSL_ERROR_WANT_WRITE = - 1"
  by (simp add: tls_read_def tls_utils_send_def SSL_ERROR_WANT_READ_def SSL_ERROR_WANT_WRITE_def)

theorem tls_renegotiation_closes_witness: "tls_read (- 1) SSL_ERROR_WANT_WRITE = 0"
  using tls_renegotiation_closes [of "- 1"] by simp

end
