(* ===== verification/Flow.thy ===== *)
theory Flow
  imports Net Tls_Utils "HOL-Library.Multiset"
begin

text \<open>
  The flows (src/transport/flow) on Linux: how they make, take over, hand out and close
  descriptors. The kernel is a table of the open descriptors with their options; what a system
  call answers is an argument. Reading and sending on a TCP or TLS flow is in \<open>Transport\<close> and
  \<open>Tls\<close>.
\<close>

section \<open>The kernel\<close>

text \<open>\<open>kn_bad\<close> collects the descriptors that were closed although they were not open.\<close>

record kern =
  kn_open :: "int list"
  kn_sock :: "int \<Rightarrow> sock"
  kn_bound :: "int \<rightharpoonup> byte list"
  kn_listens :: "int \<Rightarrow> bool"
  kn_bad :: "int list"

text \<open>
  The answers: of \<open>socket\<close>, \<open>setsockopt\<close>, the two calls of \<open>fcntl\<close>, \<open>bind\<close>, \<open>listen\<close>, \<open>accept\<close>
  (with the address of the peer), \<open>connect\<close> (with \<open>errno\<close>), \<open>SO_ERROR\<close>, \<open>getsockname\<close> and
  \<open>getpeername\<close>.
\<close>

record sys =
  sy_socket :: int
  sy_opt :: "sock_opt \<Rightarrow> bool"
  sy_getfl :: bool
  sy_setfl :: bool
  sy_bind :: int
  sy_listen :: int
  sy_accept :: "int \<times> byte list"
  sy_connect :: "int \<times> int"
  sy_soerr :: int
  sy_sockname :: "byte list option"
  sy_peername :: "byte list option"

definition invalid_socket :: int where "invalid_socket = - 1"

definition sock_new :: sock where "sock_new = \<lparr>sk_flags = 0, sk_opts = Map.empty\<rparr>"

text \<open>A call that makes a descriptor, or gives \<open>-1\<close>.\<close>

definition k_make :: "int \<Rightarrow> kern \<Rightarrow> kern" where
  "k_make fd k =
     (if fd = invalid_socket then k
      else k\<lparr>kn_open := fd # kn_open k, kn_sock := (kn_sock k)(fd := sock_new), kn_bound := (kn_bound k)(fd := None),
             kn_listens := (kn_listens k)(fd := False)\<rparr>)"

definition create_socket :: "sys \<Rightarrow> kern \<Rightarrow> int \<times> kern" where
  "create_socket an k = (sy_socket an, k_make (sy_socket an) k)"

definition k_close :: "int \<Rightarrow> kern \<Rightarrow> kern" where
  "k_close fd k =
     (if fd \<in> set (kn_open k) then k\<lparr>kn_open := remove1 fd (kn_open k)\<rparr> else k\<lparr>kn_bad := fd # kn_bad k\<rparr>)"

text \<open>A call that sets an option of a descriptor.\<close>

definition on_sock :: "(sock \<Rightarrow> bool \<times> sock) \<Rightarrow> int \<Rightarrow> kern \<Rightarrow> bool \<times> kern" where
  "on_sock f fd k = (let (ok, s) = f (kn_sock k fd) in (ok, k\<lparr>kn_sock := (kn_sock k)(fd := s)\<rparr>))"

definition k_bind :: "sys \<Rightarrow> int \<Rightarrow> byte list \<Rightarrow> kern \<Rightarrow> bool \<times> kern" where
  "k_bind an fd sa k = (net_bind (sy_bind an), if sy_bind an = 0 then k\<lparr>kn_bound := (kn_bound k)(fd \<mapsto> sa)\<rparr> else k)"

definition k_listen :: "sys \<Rightarrow> int \<Rightarrow> kern \<Rightarrow> bool \<times> kern" where
  "k_listen an fd k = (net_listen (sy_listen an), if sy_listen an = 0 then k\<lparr>kn_listens := (kn_listens k)(fd := True)\<rparr> else k)"

section \<open>flow_base\<close>

text \<open>\<open>fl_iob\<close> is the buffer \<open>iob_\<close> for addresses, which only the flow of an acceptor has.\<close>

record flow =
  fl_fd :: int
  fl_ch :: "nat option"
  fl_iob :: "byte list option"

definition flow_new :: flow where
  "flow_new = \<lparr>fl_fd = - 1, fl_ch = None, fl_iob = None\<rparr>"

definition flow_unbind :: "flow \<Rightarrow> int \<times> flow" where
  "flow_unbind f = (fl_fd f, f\<lparr>fl_fd := - 1\<rparr>)"

definition flow_close :: "flow \<Rightarrow> kern \<Rightarrow> flow \<times> kern" where
  "flow_close f k = (if fl_fd f > 0 then (f\<lparr>fl_fd := - 1\<rparr>, k_close (fl_fd f) k) else (f, k))"

definition flow_destroy :: "flow \<Rightarrow> kern \<Rightarrow> kern" where
  "flow_destroy f k = snd (flow_close f k)"

text \<open>The socket address in an \<open>address\<close>.\<close>

definition sockaddr_of :: "address \<Rightarrow> byte list" where
  "sockaddr_of a = take (nat (ad_len a)) (ad_bytes a)"

section \<open>flow_tcp_acceptor\<close>

text \<open>\<open>raw\<close>: the new buffer with whatever it contains, if it could be made.\<close>

definition acceptor_flow_init :: "sys \<Rightarrow> nat option \<Rightarrow> byte list option \<Rightarrow> address \<Rightarrow> flow \<Rightarrow> kern \<Rightarrow> bool \<times> flow \<times> kern" where
  "acceptor_flow_init an ch raw listen_address f k =
     (if ch = None then (False, f, k)
      else
        let f1 = f\<lparr>fl_iob := raw\<rparr> in
        if raw = None then (False, f1, k)
        else
          let (fd, k1) = create_socket an k; f2 = f1\<lparr>fl_fd := fd\<rparr> in
          if fd = invalid_socket then (False, f2, k1)
          else
            let (ok, k2) = on_sock (set_reuse (sy_opt an) 1) fd k1 in
            if \<not> ok then (False, f2, k2)
            else
              let (ok, k3) = on_sock (set_noblock (sy_getfl an) (sy_setfl an) 1) fd k2 in
              if \<not> ok then (False, f2, k3)
              else
                let (ok, k4) = on_sock (set_nodelay (sy_opt an) 1) fd k3 in
                if \<not> ok then (False, f2, k4)
                else
                  let (ok, k5) = k_bind an fd (sockaddr_of listen_address) k4 in
                  if \<not> ok then (False, f2, k5)
                  else
                    let (ok, k6) = k_listen an fd k5 in
                    if \<not> ok then (False, f2, k6) else (True, f2\<lparr>fl_ch := ch\<rparr>, k6))"

text \<open>The kernel writes at most as much of an address as there is room for, and reports its whole length.\<close>

definition sa_out :: "byte list \<Rightarrow> byte list \<Rightarrow> byte list" where
  "sa_out sa raw = take max_address_len sa @ drop (min max_address_len (length sa)) raw"

definition name_out :: "byte list option \<Rightarrow> byte list \<Rightarrow> byte list \<times> int" where
  "name_out name raw = (case name of None \<Rightarrow> (raw, int max_address_len) | Some sa \<Rightarrow> (sa_out sa raw, int (length sa)))"

definition acceptor_flow_accept ::
  "sys \<Rightarrow> address \<Rightarrow> address \<Rightarrow> flow \<Rightarrow> kern \<Rightarrow> (int \<times> address \<times> address \<times> flow \<times> kern) run" where
  "acceptor_flow_accept an local remote f k =
     (case fl_iob f of
        None \<Rightarrow> Fault
      | Some raw \<Rightarrow>
          let client = fst (sy_accept an); k1 = k_make client k in
          if client = invalid_socket then Done (invalid_socket, local, remote, f, k1)
          else
            let raw1 = sa_out (snd (sy_accept an)) raw in
            run_bind (address_set_sockaddr raw1 (int (length (snd (sy_accept an)))) remote) (\<lambda>(_, remote1).
            let (raw2, n) = name_out (sy_sockname an) raw1 in
            run_bind (address_set_sockaddr raw2 n local) (\<lambda>(_, local1).
            let f1 = f\<lparr>fl_iob := Some raw2\<rparr>;
                (ok1, k2) = on_sock (set_noblock (sy_getfl an) (sy_setfl an) 1) client k1 in
            if \<not> ok1 then Done (invalid_socket, local1, remote1, f1, k_close client k2)
            else
              let (ok2, k3) = on_sock (set_nodelay (sy_opt an) 1) client k2 in
              if \<not> ok2 then Done (invalid_socket, local1, remote1, f1, k_close client k3)
              else Done (client, local1, remote1, f1, k3))))"

section \<open>flow_tcp_dialer\<close>

definition dialer_flow_init :: "sys \<Rightarrow> nat option \<Rightarrow> address \<Rightarrow> flow \<Rightarrow> kern \<Rightarrow> bool \<times> flow \<times> kern" where
  "dialer_flow_init an ch bind_address f k =
     (if ch = None then (False, f, k)
      else
        let (fd, k1) = create_socket an k; f1 = f\<lparr>fl_fd := fd\<rparr> in
        if fd = invalid_socket then (False, f1, k1)
        else
          let (ok, k2) = on_sock (set_reuse (sy_opt an) 1) fd k1 in
          if \<not> ok then (False, f1, k2)
          else
            let (ok, k3) = on_sock (set_noblock (sy_getfl an) (sy_setfl an) 1) fd k2 in
            if \<not> ok then (False, f1, k3)
            else
              let (ok, k4) = on_sock (set_nodelay (sy_opt an) 1) fd k3 in
              if \<not> ok then (False, f1, k4)
              else
                let (ok, k5) = k_bind an fd (sockaddr_of bind_address) k4 in
                if \<not> ok then (False, f1, k5) else (True, f1\<lparr>fl_ch := ch\<rparr>, k5))"

definition dialer_flow_post_connect :: "sys \<Rightarrow> bool" where
  "dialer_flow_post_connect an = (if \<not> net_connect (fst (sy_connect an)) (snd (sy_connect an)) then False else True)"

text \<open>\<open>junk\<close>: the array \<open>addr\<close> on the stack.\<close>

definition dialer_flow_connect :: "sys \<Rightarrow> byte list \<Rightarrow> address \<Rightarrow> address \<Rightarrow> (int \<times> address \<times> address) run" where
  "dialer_flow_connect an junk local remote =
     (if sy_soerr an \<noteq> 0 then Done (sy_soerr an, local, remote)
      else
        let (addr1, n1) = name_out (sy_sockname an) junk in
        run_bind (address_set_sockaddr addr1 n1 local) (\<lambda>(_, local1).
        let (addr2, n2) = name_out (sy_peername an) addr1 in
        run_map (\<lambda>(_, remote1). (sy_soerr an, local1, remote1)) (address_set_sockaddr addr2 n2 remote)))"

section \<open>flow_udp\<close>

definition udp_flow_init :: "sys \<Rightarrow> nat option \<Rightarrow> address \<Rightarrow> flow \<Rightarrow> kern \<Rightarrow> bool \<times> flow \<times> kern" where
  "udp_flow_init an ch bind_address f k =
     (if ch = None then (False, f, k)
      else
        let (fd, k1) = create_socket an k; f1 = f\<lparr>fl_fd := fd\<rparr> in
        if fd = invalid_socket then (False, f1, k1)
        else
          let (ok, k2) = on_sock (set_reuse (sy_opt an) 1) fd k1 in
          if \<not> ok then (False, f1, k2)
          else
            let (ok, k3) = on_sock (set_noblock (sy_getfl an) (sy_setfl an) 1) fd k2 in
            if \<not> ok then (False, f1, k3)
            else
              let (ok, k4) = k_bind an fd (sockaddr_of bind_address) k3 in
              if \<not> ok then (False, f1, k4) else (True, f1\<lparr>fl_ch := ch\<rparr>, k4))"

text \<open>
  Reading a datagram puts the address of its sender into the one that is given; \<open>ret\<close> and \<open>err\<close>
  are what \<open>recvfrom\<close> returns, \<open>from_sa\<close> the sender.
\<close>

definition udp_flow_read_from :: "int \<Rightarrow> int \<Rightarrow> byte list \<Rightarrow> address \<Rightarrow> (int \<times> address) run" where
  "udp_flow_read_from ret err from_sa from =
     (let n = net_read_from ret err;
          from1 = (if ret < 0 then from else from\<lparr>ad_bytes := sa_out from_sa (ad_bytes from)\<rparr>) in
      if n > 0 then run_map (\<lambda>(_, from2). (n, from2)) (address_set_sockaddr (ad_bytes from1) (int (length from_sa)) from1)
      else Done (n, from1))"

definition udp_flow_send :: "int \<Rightarrow> int \<Rightarrow> int" where
  "udp_flow_send ret err = net_send_to ret err"

section \<open>flow_tcp and flow_tls\<close>

definition tcp_flow_init :: "nat option \<Rightarrow> int \<Rightarrow> flow \<Rightarrow> bool \<times> flow" where
  "tcp_flow_init ch fd f =
     (if ch = None then (False, f) else if fd < 0 then (False, f) else (True, f\<lparr>fl_ch := ch, fl_fd := fd\<rparr>))"

definition tls_flow_init :: "nat option \<Rightarrow> bool \<Rightarrow> bool \<Rightarrow> int \<Rightarrow> flow \<Rightarrow> bool \<times> flow" where
  "tls_flow_init ch session_ok ssl_ok fd f =
     (if ch = None then (False, f)
      else if fd < 0 then (False, f)
      else if \<not> fst (new_tls_session session_ok ssl_ok) then (False, f)
      else (True, f\<lparr>fl_ch := ch, fl_fd := fd\<rparr>))"

section \<open>What initialising does\<close>

lemmas kern_ops = k_make_def create_socket_def on_sock_def k_bind_def k_listen_def

text \<open>What a call may do to the table of descriptors: add one.\<close>

definition adds :: "int \<Rightarrow> kern \<Rightarrow> kern \<Rightarrow> bool" where
  "adds fd k k' \<longleftrightarrow> kn_open k' = (if fd = invalid_socket then kn_open k else fd # kn_open k) \<and> kn_bad k' = kn_bad k"

definition made :: "sys \<Rightarrow> kern \<Rightarrow> flow \<times> kern \<Rightarrow> bool" where
  "made an k r \<longleftrightarrow> adds (fl_fd (fst r)) k (snd r) \<and> fl_fd (fst r) \<in> {invalid_socket, sy_socket an}"

lemma acceptor_flow_init_made: "made an k (snd (acceptor_flow_init an ch raw addr flow_new k))"
  by (simp add: acceptor_flow_init_def Let_def kern_ops made_def adds_def flow_new_def invalid_socket_def case_prod_beta)

lemma dialer_flow_init_made: "made an k (snd (dialer_flow_init an ch addr flow_new k))"
  by (simp add: dialer_flow_init_def Let_def kern_ops made_def adds_def flow_new_def invalid_socket_def case_prod_beta)

lemma udp_flow_init_made: "made an k (snd (udp_flow_init an ch addr flow_new k))"
  by (simp add: udp_flow_init_def Let_def kern_ops made_def adds_def flow_new_def invalid_socket_def case_prod_beta)

text \<open>What a socket is after a successful initialisation.\<close>

definition set_up :: "int \<Rightarrow> address \<Rightarrow> kern \<Rightarrow> bool" where
  "set_up fd addr k \<longleftrightarrow> fd \<in> set (kn_open k) \<and> sk_flags (kn_sock k fd) AND O_NONBLOCK \<noteq> 0 \<and>
     sk_opts (kn_sock k fd) OptReuse = Some (1, 0) \<and> kn_bound k fd = Some (sockaddr_of addr)"

lemma noblock_bit: "O_NONBLOCK \<noteq> 0"
  by (simp add: O_NONBLOCK_def)

lemmas sock_ops = set_reuse_def set_nodelay_def set_noblock_def set_option_def setsockopt_def Let_def net_bind_def net_listen_def

lemma acceptor_flow_init_set_up:
  assumes "acceptor_flow_init an ch raw addr f k = (True, f1, k1)"
  shows "set_up (fl_fd f1) addr k1 \<and> kn_listens k1 (fl_fd f1) \<and> sk_opts (kn_sock k1 (fl_fd f1)) OptNodelay = Some (1, 0)"
  using assms
  by (auto simp: acceptor_flow_init_def kern_ops sock_ops set_up_def noblock_bit invalid_socket_def split: if_splits)

lemma dialer_flow_init_set_up:
  assumes "dialer_flow_init an ch addr f k = (True, f1, k1)"
  shows "set_up (fl_fd f1) addr k1 \<and> sk_opts (kn_sock k1 (fl_fd f1)) OptNodelay = Some (1, 0)"
  using assms
  by (auto simp: dialer_flow_init_def kern_ops sock_ops set_up_def noblock_bit invalid_socket_def split: if_splits)

lemma udp_flow_init_set_up:
  assumes "udp_flow_init an ch addr f k = (True, f1, k1)"
  shows "set_up (fl_fd f1) addr k1"
  using assms
  by (auto simp: udp_flow_init_def kern_ops sock_ops set_up_def noblock_bit invalid_socket_def split: if_splits)

section \<open>Addresses that the system reports\<close>

lemma set_sockaddr_wf:
  assumes "ad_wf a" and "n \<le> int (length sa) \<or> n \<noteq> int sin_size \<and> n \<noteq> int sin6_size"
  shows "\<exists>ok b. address_set_sockaddr sa n a = Done (ok, b) \<and> ad_wf b"
  using assms by (auto simp: address_set_sockaddr_def copy_sockaddr_def ad_wf_def mem_read_def mem_write_def sizes)

lemma length_sa_out: "max_address_len \<le> length raw \<Longrightarrow> length (sa_out sa raw) = length raw"
  by (simp add: sa_out_def min_def)

lemma name_out_fits:
  assumes "max_address_len \<le> length raw" and "name_out name raw = (b, n)"
  shows "length b = length raw \<and> (n \<le> int (length b) \<or> n \<noteq> int sin_size \<and> n \<noteq> int sin6_size)"
  using assms by (auto simp: name_out_def length_sa_out sizes split: option.splits)

lemma accept_flow_wf:
  assumes "fl_iob f = Some raw" and "max_address_len \<le> length raw" and "ad_wf local" and "ad_wf remote"
  shows "\<exists>c l r f1 k1. acceptor_flow_accept an local remote f k = Done (c, l, r, f1, k1) \<and> ad_wf l \<and> ad_wf r \<and>
    fl_fd f1 = fl_fd f \<and> (\<exists>raw1. fl_iob f1 = Some raw1 \<and> length raw1 = length raw)"
proof (cases "fst (sy_accept an) = invalid_socket")
  case True
  then show ?thesis using assms by (simp add: acceptor_flow_accept_def)
next
  case False
  let ?raw1 = "sa_out (snd (sy_accept an)) raw"
  have fits1: "int (length (snd (sy_accept an))) \<le> int (length ?raw1) \<or>
      int (length (snd (sy_accept an))) \<noteq> int sin_size \<and> int (length (snd (sy_accept an))) \<noteq> int sin6_size"
    using length_sa_out [OF assms(2)] assms(2) by (auto simp: sizes)
  obtain ok1 r1 where r: "address_set_sockaddr ?raw1 (int (length (snd (sy_accept an)))) remote = Done (ok1, r1)" "ad_wf r1"
    using set_sockaddr_wf [OF assms(4) fits1] by auto
  obtain raw2 n where n: "name_out (sy_sockname an) ?raw1 = (raw2, n)" by fastforce
  have fits: "length raw2 = length raw" "n \<le> int (length raw2) \<or> n \<noteq> int sin_size \<and> n \<noteq> int sin6_size"
    using name_out_fits [OF _ n] length_sa_out [OF assms(2)] assms(2) by auto
  obtain ok2 l1 where "address_set_sockaddr raw2 n local = Done (ok2, l1)" "ad_wf l1"
    using set_sockaddr_wf [OF assms(3) fits(2)] by auto
  then show ?thesis using False r n fits(1) assms(1)
    by (auto simp: acceptor_flow_accept_def Let_def split: prod.splits)
qed

lemma connect_flow_wf:
  assumes "length junk = max_address_len" and "ad_wf local" and "ad_wf remote"
  shows "\<exists>ec l r. dialer_flow_connect an junk local remote = Done (ec, l, r) \<and> ad_wf l \<and> ad_wf r \<and> ec = sy_soerr an"
proof -
  obtain b1 n1 where 1: "name_out (sy_sockname an) junk = (b1, n1)" by fastforce
  note f1 = name_out_fits [OF _ 1]
  obtain b2 n2 where 2: "name_out (sy_peername an) b1 = (b2, n2)" by fastforce
  note f2 = name_out_fits [OF _ 2]
  obtain ok1 l1 where l: "address_set_sockaddr b1 n1 local = Done (ok1, l1)" "ad_wf l1"
    using set_sockaddr_wf [OF assms(2)] f1 assms(1) by (metis order_refl)
  obtain ok2 r1 where "address_set_sockaddr b2 n2 remote = Done (ok2, r1)" "ad_wf r1"
    using set_sockaddr_wf [OF assms(3)] f1 f2 assms(1) by (metis order_refl)
  then show ?thesis using 1 2 l assms(2,3) by (simp add: dialer_flow_connect_def Let_def)
qed

section \<open>Who owns a descriptor\<close>

text \<open>
  The flows of a process, the kernel, and the descriptors that a flow has given away and no flow
  has taken yet. A flow whose initialisation failed stays with its owner until it is destroyed.
\<close>

record world =
  wd_flows :: "flow list"
  wd_kern :: kern
  wd_handed :: "int list"

datatype flow_kind = AcceptorFlow "byte list option" | DialerFlow | UdpFlow

definition flow_init :: "flow_kind \<Rightarrow> sys \<Rightarrow> nat option \<Rightarrow> address \<Rightarrow> kern \<Rightarrow> bool \<times> flow \<times> kern" where
  "flow_init kind an ch addr k =
     (case kind of
        AcceptorFlow raw \<Rightarrow> acceptor_flow_init an ch raw addr flow_new k
      | DialerFlow \<Rightarrow> dialer_flow_init an ch addr flow_new k
      | UdpFlow \<Rightarrow> udp_flow_init an ch addr flow_new k)"

text \<open>The kernel gives a new descriptor or none; the descriptors 0 to 2 are those of the process.\<close>

definition fresh :: "int \<Rightarrow> kern \<Rightarrow> bool" where
  "fresh fd k \<longleftrightarrow> fd = invalid_socket \<or> 0 < fd \<and> fd \<notin> set (kn_open k)"

definition hand :: "int \<Rightarrow> int list \<Rightarrow> int list" where
  "hand fd handed = (if fd = invalid_socket then handed else fd # handed)"

inductive flow_step :: "world \<Rightarrow> world \<Rightarrow> bool" where
  init: "fresh (sy_socket an) (wd_kern w) \<Longrightarrow> flow_init kind an ch addr (wd_kern w) = (ok, f, k) \<Longrightarrow>
    flow_step w (w\<lparr>wd_flows := wd_flows w @ [f], wd_kern := k\<rparr>)"
| accept: "fresh (fst (sy_accept an)) (wd_kern w) \<Longrightarrow> i < length (wd_flows w) \<Longrightarrow>
    acceptor_flow_accept an local remote (wd_flows w ! i) (wd_kern w) = Done (c, l, r, f, k) \<Longrightarrow>
    flow_step w (w\<lparr>wd_flows := (wd_flows w)[i := f], wd_kern := k, wd_handed := hand c (wd_handed w)\<rparr>)"
| tcp: "fd \<in> set (wd_handed w) \<Longrightarrow> tcp_flow_init ch fd flow_new = (ok, f) \<Longrightarrow>
    flow_step w (w\<lparr>wd_flows := wd_flows w @ [f], wd_handed := if ok then remove1 fd (wd_handed w) else wd_handed w\<rparr>)"
| tls: "fd \<in> set (wd_handed w) \<Longrightarrow> tls_flow_init ch session_ok ssl_ok fd flow_new = (ok, f) \<Longrightarrow>
    flow_step w (w\<lparr>wd_flows := wd_flows w @ [f], wd_handed := if ok then remove1 fd (wd_handed w) else wd_handed w\<rparr>)"
| unbind: "i < length (wd_flows w) \<Longrightarrow> flow_unbind (wd_flows w ! i) = (fd, f) \<Longrightarrow>
    flow_step w (w\<lparr>wd_flows := (wd_flows w)[i := f], wd_handed := hand fd (wd_handed w)\<rparr>)"
| close: "i < length (wd_flows w) \<Longrightarrow> flow_close (wd_flows w ! i) (wd_kern w) = (f, k) \<Longrightarrow>
    flow_step w (w\<lparr>wd_flows := (wd_flows w)[i := f], wd_kern := k\<rparr>)"
| destroy: "i < length (wd_flows w) \<Longrightarrow>
    flow_step w (w\<lparr>wd_flows := take i (wd_flows w) @ drop (Suc i) (wd_flows w),
                  wd_kern := flow_destroy (wd_flows w ! i) (wd_kern w)\<rparr>)"
| drop: "fd \<in> set (wd_handed w) \<Longrightarrow>
    flow_step w (w\<lparr>wd_kern := k_close fd (wd_kern w), wd_handed := remove1 fd (wd_handed w)\<rparr>)"

definition kern_new :: kern where
  "kern_new = \<lparr>kn_open = [], kn_sock = \<lambda>_. sock_new, kn_bound = Map.empty, kn_listens = \<lambda>_. False, kn_bad = []\<rparr>"

inductive flow_reach :: "world \<Rightarrow> bool" where
  start: "flow_reach \<lparr>wd_flows = [], wd_kern = kern_new, wd_handed = []\<rparr>"
| step: "flow_reach w \<Longrightarrow> flow_step w w' \<Longrightarrow> flow_reach w'"

text \<open>The descriptors of a list of flows, and of all.\<close>

definition fds :: "flow list \<Rightarrow> int list" where
  "fds fs = filter (\<lambda>fd. fd \<noteq> invalid_socket) (map fl_fd fs)"

definition owned :: "world \<Rightarrow> int multiset" where
  "owned w = mset (fds (wd_flows w)) + mset (wd_handed w)"

definition world_inv :: "world \<Rightarrow> bool" where
  "world_inv w \<longleftrightarrow> mset (kn_open (wd_kern w)) = owned w \<and> distinct (kn_open (wd_kern w)) \<and> kn_bad (wd_kern w) = [] \<and>
     (\<forall>fd. fd \<in># owned w \<longrightarrow> 0 < fd)"

definition fd_bag :: "flow \<Rightarrow> int multiset" where
  "fd_bag f = (if fl_fd f = invalid_socket then {#} else {#fl_fd f#})"

lemma fds_simps [simp]:
  "mset (fds []) = {#}" "mset (fds (f # fs)) = fd_bag f + mset (fds fs)" "mset (fds (fs @ gs)) = mset (fds fs) + mset (fds gs)"
  by (auto simp: fds_def fd_bag_def)

lemma fds_split: "i < length fs \<Longrightarrow> mset (fds fs) = fd_bag (fs ! i) + mset (fds (take i fs @ drop (Suc i) fs))"
  using arg_cong [OF id_take_nth_drop [of i fs], of "\<lambda>fs. mset (fds fs)"] by simp

lemma fds_update: "i < length fs \<Longrightarrow> mset (fds (fs[i := f])) = fd_bag f + mset (fds (take i fs @ drop (Suc i) fs))"
  by (simp add: upd_conv_take_nth_drop)

lemma hand_mset: "mset (hand fd xs) = (if fd = invalid_socket then {#} else {#fd#}) + mset xs"
  by (simp add: hand_def)

lemma accept_adds:
  assumes "acceptor_flow_accept an local remote f k = Done (c, l, r, f1, k1)"
  shows "adds c k k1 \<and> fl_fd f1 = fl_fd f \<and> c \<in> {invalid_socket, fst (sy_accept an)}"
  using assms
  by (auto simp: acceptor_flow_accept_def Let_def run_bind_eq_Done kern_ops k_close_def adds_def case_prod_beta
      split: option.splits if_splits)

lemma inv_same:
  assumes "world_inv w" and "owned w' = owned w" and "kn_open (wd_kern w') = kn_open (wd_kern w)"
    and "kn_bad (wd_kern w') = kn_bad (wd_kern w)"
  shows "world_inv w'"
  using assms by (simp add: world_inv_def)

lemma inv_grow:
  assumes "world_inv w" and "fresh fd (wd_kern w)" and "adds fd (wd_kern w) (wd_kern w')"
    and "owned w' = (if fd = invalid_socket then {#} else {#fd#}) + owned w"
  shows "world_inv w'"
  using assms by (auto simp: world_inv_def adds_def fresh_def)

lemma inv_close:
  assumes "world_inv w" and "fd \<in># owned w" and "wd_kern w' = k_close fd (wd_kern w)" and "owned w' = owned w - {#fd#}"
  shows "world_inv w'"
proof -
  have "fd \<in> set (kn_open (wd_kern w))" using assms(1,2) by (metis world_inv_def set_mset_mset)
  then show ?thesis using assms by (auto simp: world_inv_def k_close_def dest: in_diffD)
qed

text \<open>An initialisation that fails leaves a flow with at most the descriptor that it made.\<close>

lemma flow_init_made:
  assumes "flow_init kind an ch addr k = (ok, f, k1)"
  shows "adds (fl_fd f) k k1 \<and> fl_fd f \<in> {invalid_socket, sy_socket an}"
  using acceptor_flow_init_made [of an k ch _ addr] dialer_flow_init_made [of an k ch addr] udp_flow_init_made [of an k ch addr] assms
  by (cases kind) (auto simp: flow_init_def made_def, (metis fst_conv snd_conv)+)

lemma take_over:
  assumes "tcp_flow_init ch fd flow_new = (ok, f) \<or> tls_flow_init ch session_ok ssl_ok fd flow_new = (ok, f)"
  shows "fl_fd f = (if ok then fd else invalid_socket)"
  using assms by (auto simp: tcp_flow_init_def tls_flow_init_def flow_new_def invalid_socket_def split: if_splits)

lemma taken_inv:
  assumes "world_inv w" and "fd \<in> set (wd_handed w)" and "fl_fd f = (if ok then fd else invalid_socket)"
  shows "world_inv (w\<lparr>wd_flows := wd_flows w @ [f], wd_handed := if ok then remove1 fd (wd_handed w) else wd_handed w\<rparr>)"
proof -
  have "0 < fd" using assms(1,2) by (simp add: world_inv_def owned_def)
  then show ?thesis using assms(2,3) by (intro inv_same [OF assms(1)]) (simp_all add: owned_def fd_bag_def invalid_socket_def)
qed

lemma flow_step_inv:
  assumes "flow_step w w'" and "world_inv w"
  shows "world_inv w'"
  using assms
proof induction
  case (init an w kind ch addr ok f k)
  note m = flow_init_made [OF init.hyps(2)]
  have "fresh (fl_fd f) (wd_kern w)" using m init.hyps(1) by (auto simp: fresh_def)
  then show ?case using m by (intro inv_grow [OF init.prems]) (simp_all add: owned_def fd_bag_def)
next
  case (accept an w i local remote c l r f k)
  note m = accept_adds [OF accept.hyps(3)]
  have "fresh c (wd_kern w)" using m accept.hyps(1) by (auto simp: fresh_def)
  moreover have "mset (fds ((wd_flows w)[i := f])) = mset (fds (wd_flows w))"
    using m accept.hyps(2) by (simp add: fds_update fds_split fd_bag_def)
  ultimately show ?case using m by (intro inv_grow [OF accept.prems]) (simp_all add: owned_def hand_mset)
next
  case (tcp fd w ch ok f)
  show ?case by (rule taken_inv [OF tcp.prems tcp.hyps(1)], rule take_over, use tcp.hyps(2) in blast)
next
  case (tls fd w ch session_ok ssl_ok ok f)
  show ?case by (rule taken_inv [OF tls.prems tls.hyps(1)], rule take_over, use tls.hyps(2) in blast)
next
  case (unbind i w fd f)
  then have "fd = fl_fd (wd_flows w ! i)" "fl_fd f = invalid_socket" by (auto simp: flow_unbind_def invalid_socket_def)
  then show ?case using unbind.hyps(1)
    by (intro inv_same [OF unbind.prems]) (simp_all add: owned_def hand_mset fds_update fds_split [OF unbind.hyps(1)] fd_bag_def)
next
  case (close i w f k)
  let ?f = "wd_flows w ! i"
  note split = fds_split [OF close.hyps(1)]
  show ?case
  proof (cases "fl_fd ?f = invalid_socket")
    case True
    then have "f = ?f" "k = wd_kern w" using close.hyps(2) by (auto simp: flow_close_def invalid_socket_def)
    then show ?thesis using close.hyps(1) close.prems by simp
  next
    case False
    then have o: "fl_fd ?f \<in># owned w" using split by (simp add: owned_def fd_bag_def)
    then have "0 < fl_fd ?f" using close.prems by (simp add: world_inv_def)
    then have "k = k_close (fl_fd ?f) (wd_kern w)" "fl_fd f = invalid_socket"
      using close.hyps(2) by (auto simp: flow_close_def invalid_socket_def)
    then show ?thesis using close.hyps(1) split False
      by (intro inv_close [OF close.prems o]) (simp_all add: owned_def fds_update fd_bag_def)
  qed
next
  case (destroy i w)
  let ?f = "wd_flows w ! i"
  note split = fds_split [OF destroy.hyps]
  show ?case
  proof (cases "fl_fd ?f = invalid_socket")
    case True
    then show ?thesis using split
      by (intro inv_same [OF destroy.prems]) (simp_all add: owned_def fd_bag_def flow_destroy_def flow_close_def invalid_socket_def)
  next
    case False
    then have o: "fl_fd ?f \<in># owned w" using split by (simp add: owned_def fd_bag_def)
    then have "0 < fl_fd ?f" using destroy.prems by (simp add: world_inv_def)
    then show ?thesis using split False
      by (intro inv_close [OF destroy.prems o]) (simp_all add: owned_def fd_bag_def flow_destroy_def flow_close_def)
  qed
next
  case (drop fd w)
  then show ?case by (intro inv_close [OF drop.prems, of fd]) (simp_all add: owned_def)
qed

lemma flow_reach_inv: "flow_reach w \<Longrightarrow> world_inv w"
proof (induction rule: flow_reach.induct)
  case start
  then show ?case by (simp add: world_inv_def owned_def kern_new_def fds_def)
next
  case (step w w')
  then show ?case using flow_step_inv by blast
qed

text \<open>
  C17. Whatever flows are made, initialised with success or not, accept, hand over, close and are
  destroyed: no descriptor is closed that is not open, and every open one belongs to exactly one
  flow or is on its way to one.
\<close>

theorem flow_descriptors_owned:
  assumes "flow_reach w"
  shows "kn_bad (wd_kern w) = [] \<and> distinct (kn_open (wd_kern w)) \<and> mset (kn_open (wd_kern w)) = owned w"
  using flow_reach_inv [OF assms] by (simp add: world_inv_def)

text \<open>A listening flow with descriptor 3 that accepts a connection with descriptor 4.\<close>

definition good_sys :: sys where
  "good_sys = \<lparr>sy_socket = 3, sy_opt = \<lambda>_. True, sy_getfl = True, sy_setfl = True, sy_bind = 0, sy_listen = 0,
     sy_accept = (4, [2, 0] @ replicate 14 1), sy_connect = (0, 0), sy_soerr = 0, sy_sockname = None, sy_peername = None\<rparr>"

definition listening :: "bool \<times> flow \<times> kern" where
  "listening = flow_init (AcceptorFlow (Some (replicate 192 0))) good_sys (Some 1) address_new kern_new"

lemma listening_opens: "fl_fd (fst (snd listening)) = 3 \<and> kn_open (snd (snd listening)) = [3] \<and>
    fl_iob (fst (snd listening)) = Some (replicate 192 0)"
  by (simp add: listening_def flow_init_def acceptor_flow_init_def kern_ops sock_ops good_sys_def invalid_socket_def kern_new_def flow_new_def)

theorem flow_descriptors_owned_witness:
  "\<exists>w. flow_reach w \<and> mset (kn_open (wd_kern w)) = {#3, 4#} \<and> wd_handed w = [4] \<and> kn_bad (wd_kern w) = []"
proof -
  let ?w0 = "\<lparr>wd_flows = [], wd_kern = kern_new, wd_handed = []\<rparr>"
  let ?w1 = "\<lparr>wd_flows = [fst (snd listening)], wd_kern = snd (snd listening), wd_handed = []\<rparr>"
  have "flow_step ?w0 (?w0\<lparr>wd_flows := wd_flows ?w0 @ [fst (snd listening)], wd_kern := snd (snd listening)\<rparr>)"
    by (rule flow_step.init [of good_sys _ "AcceptorFlow (Some (replicate 192 0))" "Some 1" address_new "fst listening"])
      (simp_all add: fresh_def good_sys_def kern_new_def listening_def)
  then have r1: "flow_reach ?w1" using flow_reach.step [OF flow_reach.start] by simp
  have wf: "ad_wf address_new" by (simp add: ad_wf_def address_new_def sizes)
  obtain c l r f k where a: "acceptor_flow_accept good_sys address_new address_new (fst (snd listening)) (snd (snd listening)) = Done (c, l, r, f, k)"
    using accept_flow_wf [of "fst (snd listening)" "replicate 192 0" address_new address_new good_sys "snd (snd listening)"] listening_opens wf
    by (auto simp: sizes)
  have c: "c = 4" using a listening_opens
    by (auto simp: acceptor_flow_accept_def Let_def run_bind_eq_Done kern_ops sock_ops good_sys_def invalid_socket_def case_prod_beta)
  have "flow_step ?w1 (?w1\<lparr>wd_flows := (wd_flows ?w1)[0 := f], wd_kern := k, wd_handed := hand c (wd_handed ?w1)\<rparr>)"
    by (rule flow_step.accept [of good_sys _ _ address_new address_new _ l r])
      (use a listening_opens in \<open>simp_all add: fresh_def good_sys_def\<close>)
  then have r2: "flow_reach \<lparr>wd_flows = [f], wd_kern = k, wd_handed = [4]\<rparr>"
    using flow_reach.step [OF r1] c by (simp add: hand_def invalid_socket_def)
  have "fl_fd f = 3" using accept_adds [OF a] listening_opens by simp
  then show ?thesis using flow_descriptors_owned [OF r2] r2
    by (intro exI [of _ "\<lparr>wd_flows = [f], wd_kern = k, wd_handed = [4]\<rparr>"])
      (simp add: owned_def fd_bag_def invalid_socket_def)
qed

text \<open>
  C18. An initialisation that succeeds gives a new descriptor that does not block, may reuse its
  address and is bound to the one that was given, and that listens if it is that of an acceptor;
  one that fails, at whatever call, leaves the descriptors as they were once the flow is
  destroyed.
\<close>

theorem flow_init_outcome:
  assumes "fresh (sy_socket an) k" and "flow_init kind an ch addr k = (ok, f, k1)"
  shows "if ok then fl_fd f = sy_socket an \<and> set_up (fl_fd f) addr k1 \<and> (kn_listens k1 (fl_fd f) \<or> (\<forall>raw. kind \<noteq> AcceptorFlow raw))
    else kn_open (flow_destroy f k1) = kn_open k \<and> kn_bad (flow_destroy f k1) = kn_bad k"
proof (cases ok)
  case True
  have "set_up (fl_fd f) addr k1 \<and> (kn_listens k1 (fl_fd f) \<or> (\<forall>raw. kind \<noteq> AcceptorFlow raw))"
    using assms(2) acceptor_flow_init_set_up dialer_flow_init_set_up udp_flow_init_set_up True
    by (cases kind) (auto simp: flow_init_def)
  moreover have "fl_fd f = sy_socket an" using assms(2) True
    by (cases kind)
      (auto simp: flow_init_def acceptor_flow_init_def dialer_flow_init_def udp_flow_init_def create_socket_def Let_def split: if_splits prod.splits)
  ultimately show ?thesis using True by simp
next
  case False
  note m = flow_init_made [OF assms(2)]
  show ?thesis using m assms(1) False
    by (auto simp: fresh_def adds_def flow_destroy_def flow_close_def k_close_def invalid_socket_def)
qed

theorem flow_init_outcome_witness: "set_up 3 address_new (snd (snd listening)) \<and> kn_listens (snd (snd listening)) 3"
proof -
  have l: "fst listening"
    by (simp add: listening_def flow_init_def acceptor_flow_init_def kern_ops sock_ops good_sys_def invalid_socket_def)
  have "fresh (sy_socket good_sys) kern_new" by (simp add: fresh_def good_sys_def kern_new_def)
  from flow_init_outcome [OF this, of "AcceptorFlow (Some (replicate 192 0))" "Some 1" address_new "fst listening" "fst (snd listening)" "snd (snd listening)"]
  show ?thesis using l listening_opens by (simp add: listening_def)
qed

text \<open>
  When the process has closed its standard input, a socket can have the descriptor 0; such
  a flow never closes it.
\<close>

theorem descriptor_zero_leaks:
  assumes "dialer_flow_init an (Some ch) addr flow_new k = (True, f, k1)" and "sy_socket an = 0"
  shows "0 \<in> set (kn_open (flow_destroy f k1))"
proof -
  have "0 \<in> set (kn_open k1)" "fl_fd f = 0" using assms
    by (auto simp: dialer_flow_init_def kern_ops sock_ops invalid_socket_def split: if_splits)
  then show ?thesis by (simp add: flow_destroy_def flow_close_def)
qed

theorem descriptor_zero_leaks_witness:
  "\<exists>f k. dialer_flow_init (good_sys\<lparr>sy_socket := 0\<rparr>) (Some 1) address_new flow_new kern_new = (True, f, k) \<and>
    0 \<in> set (kn_open (flow_destroy f k))"
proof -
  obtain f k where i: "dialer_flow_init (good_sys\<lparr>sy_socket := 0\<rparr>) (Some 1) address_new flow_new kern_new = (True, f, k)"
    by (simp add: dialer_flow_init_def kern_ops sock_ops good_sys_def invalid_socket_def)
  from descriptor_zero_leaks [OF this] i show ?thesis by simp
qed

end
