(* ===== verification/Tcp.thy ===== *)
theory Tcp
  imports Transport
begin

text \<open>
  The TCP transport as a state machine: the steps of a transport in its environment, the
  invariant every step keeps, and what follows for the bytes sent, the callbacks and the end
  of a connection.
\<close>

section \<open>Steps of a TCP transport\<close>

text \<open>
  The operations of users, and the deliveries of the pollers: an event on a tracked tracker
  (the poller stops tracking it first), and the next posted channel event.
\<close>

datatype tcp_op =
    OpStart bool read_mode transport_callbacks bool bool
  | OpStop
  | OpForceStop
  | OpAsyncRead bool
  | OpSend allocator "byte list option" int int bool
  | OpSendIob "io_buffer option" int bool
  | OpReadEvent "byte list option" bool
  | OpSendEvent int int bool
  | OpDeliver

definition untrack :: "tracker option \<Rightarrow> tracker option" where
  "untrack trk = map_option (\<lambda>k. k\<lparr>trk_tracked := False\<rparr>) trk"

definition is_tracked :: "tracker option \<Rightarrow> bool" where
  "is_tracked trk = (case trk of None \<Rightarrow> False | Some k \<Rightarrow> trk_tracked k)"

fun tcp_exec :: "tcp_op \<Rightarrow> transport \<Rightarrow> transport run" where
  "tcp_exec (OpStart sv mode cbs ok_r ok_s) t = Done (snd (tcp_start sv mode cbs ok_r ok_s t))"
| "tcp_exec OpStop t = Done (tcp_stop t)"
| "tcp_exec OpForceStop t = Done (tcp_force_stop t)"
| "tcp_exec (OpAsyncRead ok) t = run_map snd (tcp_async_read ok t)"
| "tcp_exec (OpSend al b sz n ok) t = run_map snd (tcp_send al b sz n ok t)"
| "tcp_exec (OpSendIob b n ok) t = run_map snd (tcp_send_iob b n ok t)"
| "tcp_exec (OpReadEvent data ok) t =
     tcp_on_read_event data ok (t\<lparr>tp_r_tracker := untrack (tp_r_tracker t)\<rparr>)"
| "tcp_exec (OpSendEvent n1 n2 ok) t =
     tcp_on_send_event n1 n2 ok (t\<lparr>tp_s_tracker := untrack (tp_s_tracker t)\<rparr>)"
| "tcp_exec OpDeliver t =
     (case tp_posted t of
        [] \<Rightarrow> Done t
      | ev # rest \<Rightarrow> tcp_on_channel_event ev (t\<lparr>tp_posted := rest\<rparr>))"

text \<open>
  What the environment respects: events come from tracked trackers, \<open>send\<close> takes at most the
  bytes it was given, buffers handed in are well formed, and no more than \<open>2 ^ 31 - 1\<close> bytes
  are ever pending, the range of \<open>pending_send_size_\<close>.
\<close>

definition good_iob :: "io_buffer \<Rightarrow> bool" where
  "good_iob iob \<longleftrightarrow> iob_wf iob \<and> unat (iob_raw_size iob) < 2 ^ 31 \<and> 0 < iob_size iob"

definition taken_ok :: "int \<Rightarrow> io_buffer \<Rightarrow> bool" where
  "taken_ok n iob \<longleftrightarrow> n \<le> sint (iob_size iob)"

fun tcp_legal :: "tcp_op \<Rightarrow> transport \<Rightarrow> bool" where
  "tcp_legal (OpSend al b sz n ok) t \<longleftrightarrow>
     alloc_ok al \<and> (\<forall>m. al m \<noteq> None) \<and> sz < 2 ^ 30 \<and> tp_pending_send_size t + sz < 2 ^ 31 \<and> n \<le> sz \<and>
     (case b of None \<Rightarrow> True | Some bs \<Rightarrow> int (length bs) = sz)"
| "tcp_legal (OpSendIob b n ok) t \<longleftrightarrow>
     (case b of
        None \<Rightarrow> True
      | Some iob \<Rightarrow> 0 < iob_size iob \<longrightarrow> good_iob iob \<and> taken_ok n iob \<and>
          tp_pending_send_size t + sint (iob_size iob) < 2 ^ 31)"
| "tcp_legal (OpReadEvent data ok) t \<longleftrightarrow> is_tracked (tp_r_tracker t)"
| "tcp_legal (OpSendEvent n1 n2 ok) t \<longleftrightarrow>
     is_tracked (tp_s_tracker t) \<and>
     (case tp_last t of None \<Rightarrow> True | Some iob \<Rightarrow> taken_ok n1 iob) \<and>
     (case tp_sendlist t of [] \<Rightarrow> True | iob # _ \<Rightarrow> taken_ok n2 iob)"
| "tcp_legal OpDeliver t \<longleftrightarrow> tp_posted t \<noteq> []"
| "tcp_legal _ t \<longleftrightarrow> True"

section \<open>The invariant\<close>

fun queued :: "tp_out list \<Rightarrow> byte list" where
  "queued [] = []"
| "queued (OutQueued bs # tr) = bs @ queued tr"
| "queued (_ # tr) = queued tr"

fun socket :: "tp_out list \<Rightarrow> byte list" where
  "socket [] = []"
| "socket (OutSocket bs # tr) = bs @ socket tr"
| "socket (_ # tr) = socket tr"

lemma queued_append [simp]: "queued (xs @ ys) = queued xs @ queued ys"
  by (induction xs rule: queued.induct) simp_all

lemma socket_append [simp]: "socket (xs @ ys) = socket xs @ socket ys"
  by (induction xs rule: socket.induct) simp_all

definition last_bytes :: "transport \<Rightarrow> byte list" where
  "last_bytes t = (case tp_last t of None \<Rightarrow> [] | Some iob \<Rightarrow> iob_contents iob)"

definition size_sum :: "io_buffer list \<Rightarrow> int" where
  "size_sum iobs = sum_list (map (\<lambda>iob. sint (iob_size iob)) iobs)"

text \<open>The send queue: what was queued is what the socket took, then what is still held.\<close>

definition send_ok :: "transport \<Rightarrow> bool" where
  "send_ok t \<longleftrightarrow>
     (\<forall>iob\<in>set (tp_sendlist t). good_iob iob) \<and>
     tp_pending_send_size t = (if tp_last t = None then 0 else tp_last_size t) + size_sum (tp_sendlist t) \<and>
     tp_pending_send_size t < 2 ^ 31 \<and>
     queued (tp_trace t) = socket (tp_trace t) @ last_bytes t @ concat (map iob_contents (tp_sendlist t)) \<and>
     (case tp_last t of
        None \<Rightarrow> True
      | Some iob \<Rightarrow> iob_wf iob \<and> unat (iob_raw_size iob) < 2 ^ 31 \<and> 0 < tp_last_size t \<and>
          sint (iob_size iob) \<le> tp_last_size t)"

definition send_idle :: "transport \<Rightarrow> bool" where
  "send_idle t \<longleftrightarrow>
     tp_flow t = Some (tp_last t \<noteq> None) \<and>
     (case tp_last t of None \<Rightarrow> True | Some iob \<Rightarrow> 0 < iob_size iob)"

definition count_out :: "tp_out \<Rightarrow> transport \<Rightarrow> nat" where
  "count_out out t = count_list (tp_trace t) out"

definition running :: "transport \<Rightarrow> bool" where
  "running t \<longleftrightarrow> tp_state t \<in> {StStarted, StStopping, StStopped, StDisconnecting, StDisconnected}"

definition has_poller :: "tracker option \<Rightarrow> bool" where
  "has_poller trk = (case trk of None \<Rightarrow> False | Some k \<Rightarrow> trk_poller k)"

definition callbacks_ok :: "transport \<Rightarrow> bool" where
  "callbacks_ok t \<longleftrightarrow>
     count_out OutDisconnected t = (if tp_state t = StDisconnected then 1 else 0) \<and>
     count_out OutStopped t = (if tp_state t = StStopped then 1 else 0)"

definition going_ok :: "transport \<Rightarrow> bool" where
  "going_ok t \<longleftrightarrow>
     (is_tracked (tp_s_tracker t) \<longrightarrow> 0 < tp_pending_send_size t) \<and>
     (tp_state t = StStarted \<and> 0 < tp_pending_send_size t \<longrightarrow> is_tracked (tp_s_tracker t)) \<and>
     (tp_state t = StDisconnecting \<longrightarrow> EvDisconnected \<in> set (tp_posted t)) \<and>
     (tp_state t = StStopping \<longrightarrow>
        EvDisconnected \<in> set (tp_posted t) \<or> is_tracked (tp_s_tracker t))"

definition idle_before_start :: "transport \<Rightarrow> bool" where
  "idle_before_start t \<longleftrightarrow>
     tp_state t \<in> {StNone, StError} \<and> tp_last t = None \<and> tp_sendlist t = [] \<and>
     tp_pending_send_size t = 0 \<and> tp_posted t = [] \<and>
     queued (tp_trace t) = [] \<and> socket (tp_trace t) = [] \<and>
     \<not> is_tracked (tp_r_tracker t) \<and> \<not> is_tracked (tp_s_tracker t) \<and>
     (tp_state t = StNone \<longrightarrow>
        (tp_flow t = None \<or> tp_type t = TransportTls \<and> tp_flow t = Some False) \<and>
        tp_r_tracker t = None \<and> tp_s_tracker t = None) \<and>
     (tp_state t = StError \<longrightarrow> tp_flow t \<noteq> None)"

definition tcp_inv :: "transport_type \<Rightarrow> transport \<Rightarrow> bool" where
  "tcp_inv ty t \<longleftrightarrow>
     tp_type t = ty \<and> callbacks_ok t \<and>
     (if running t
      then send_ok t \<and> send_idle t \<and> going_ok t \<and> tp_service t \<and>
           (EvRead \<in> set (tp_posted t) \<longrightarrow> ty = TransportTls) \<and>
           has_poller (tp_r_tracker t) \<and> has_poller (tp_s_tracker t)
      else idle_before_start t)"

section \<open>Sending keeps the queue in order\<close>

text \<open>The parts of the state that sending leaves alone.\<close>

definition same_control :: "transport \<Rightarrow> transport \<Rightarrow> bool" where
  "same_control t t' \<longleftrightarrow>
     tp_type t' = tp_type t \<and> tp_state t' = tp_state t \<and> tp_service t' = tp_service t \<and> tp_r_tracker t' = tp_r_tracker t \<and>
     tp_s_tracker t' = tp_s_tracker t \<and> tp_cbs t' = tp_cbs t \<and>
     count_out OutDisconnected t' = count_out OutDisconnected t \<and>
     count_out OutStopped t' = count_out OutStopped t \<and>
     (EvDisconnected \<in> set (tp_posted t) \<longrightarrow> EvDisconnected \<in> set (tp_posted t')) \<and>
     (EvRead \<in> set (tp_posted t') \<longrightarrow> EvRead \<in> set (tp_posted t))"

lemma same_control_trans: "same_control a b \<Longrightarrow> same_control b c \<Longrightarrow> same_control a c"
  by (auto simp: same_control_def)

lemma good_iob_sint:
  assumes "iob_wf iob" and "unat (iob_raw_size iob) < 2 ^ 31"
  shows "sint (iob_size iob) = int (unat (iob_size iob))"
proof (rule sint_u32_small)
  have "unat (iob_rpos iob) + unat (iob_size iob) \<le> unat (iob_raw_size iob)"
    using assms(1) by (simp add: iob_wf_def)
  then show "unat (iob_size iob) < 2 ^ 31" using assms(2) by linarith
qed

lemma good_iob_pos:
  assumes "good_iob iob"
  shows "0 < sint (iob_size iob)"
proof -
  have "sint (iob_size iob) = int (unat (iob_size iob))" "0 < unat (iob_size iob)"
    using assms good_iob_sint by (auto simp: good_iob_def unat_gt_0)
  then show ?thesis by linarith
qed

lemma iob_take:
  assumes wf: "iob_wf iob" and small: "unat (iob_raw_size iob) < 2 ^ 31"
    and n: "0 < n" "n \<le> sint (iob_size iob)"
  obtains iob' where "iob_shift n iob = (sint (iob_size iob'), iob')" "iob_wf iob'"
    "iob_contents iob = take (nat n) (iob_contents iob) @ iob_contents iob'"
    "iob_raw_size iob' = iob_raw_size iob" "sint (iob_size iob') = sint (iob_size iob) - n"
proof -
  have s: "sint (iob_size iob) = int (unat (iob_size iob))" by (rule good_iob_sint [OF wf small])
  let ?d = "word_of_int n :: u32"
  have "nat n < 2 ^ 32" using n s unat_u32 [of "iob_size iob"] by linarith
  then have "unat (of_nat (nat n) :: u32) = nat n" by (rule unat_of_nat_u32)
  then have ud: "unat ?d = nat n" using n(1) by simp
  have un: "int (unat ?d) = n" using ud n(1) by linarith
  have d: "unat ?d \<le> unat (iob_size iob)" using ud n s by linarith
  note a = iob_advance_wf [OF wf d]
  have sh: "iob_shift n iob = (int (unat (iob_size iob) - unat ?d), iob_advance ?d iob)"
    using iob_shift_right [OF wf d small] unfolding un .
  have s': "sint (iob_size (iob_advance ?d iob)) = int (unat (iob_size iob) - unat ?d)"
    using good_iob_sint [OF a(1)] small a(4) by (simp del: of_nat_unat)
  show thesis
  proof (rule that [of "iob_advance ?d iob"])
    show "iob_contents iob = take (nat n) (iob_contents iob) @ iob_contents (iob_advance ?d iob)"
      unfolding a(2) ud by simp
    show "sint (iob_size (iob_advance ?d iob)) = sint (iob_size iob) - n"
      unfolding s' s ud using d ud n(1) by linarith
  qed (use sh s' a in simp_all)
qed

lemma size_sum_simps [simp]:
  "size_sum [] = 0" "size_sum (x # xs) = sint (iob_size x) + size_sum xs"
  "size_sum (xs @ ys) = size_sum xs + size_sum ys"
  by (simp_all add: size_sum_def)

lemma size_sum_nonneg: "(\<forall>iob\<in>set xs. good_iob iob) \<Longrightarrow> 0 \<le> size_sum xs"
  by (induction xs) (auto dest: good_iob_pos)

lemma size_sum_pos: "(\<forall>iob\<in>set xs. good_iob iob) \<Longrightarrow> xs \<noteq> [] \<Longrightarrow> 0 < size_sum xs"
  using size_sum_nonneg [of "tl xs"] by (cases xs) (auto dest: good_iob_pos)

lemma flow_send_spec:
  assumes ok: "send_ok t" and flow: "tp_flow t = Some True" and last: "tp_last t = Some iob"
    and pos: "0 < iob_size iob" and n: "taken_ok n iob"
  shows "\<exists>ret t'. flow_send n t = Done (ret, t') \<and> send_ok t' \<and> same_control t t' \<and>
    tp_last_size t' = tp_last_size t \<and> tp_sendlist t' = tp_sendlist t \<and>
    tp_pending_send_size t' = tp_pending_send_size t \<and> tp_last t' \<noteq> None \<and>
    (if ret = ErrNone then last_bytes t' = [] \<and> tp_flow t' = Some False
     else send_idle t' \<and> ret \<in> {ErrAgain, ErrFault})"
proof (cases "0 < n")
  case False
  then show ?thesis
    using assms by (auto simp: flow_send_def send_idle_def same_control_def)
next
  case True
  have wf: "iob_wf iob" and small: "unat (iob_raw_size iob) < 2 ^ 31"
    using ok last by (simp_all add: send_ok_def)
  from n have n': "n \<le> sint (iob_size iob)" by (simp add: taken_ok_def)
  obtain iob' where i: "iob_shift n iob = (sint (iob_size iob'), iob')" "iob_wf iob'"
    "iob_contents iob = take (nat n) (iob_contents iob) @ iob_contents iob'"
    "iob_raw_size iob' = iob_raw_size iob" "sint (iob_size iob') = sint (iob_size iob) - n"
    by (rule iob_take [OF wf small True n'])
  have s': "sint (iob_size iob') = int (unat (iob_size iob'))"
    by (rule good_iob_sint) (use i small in simp_all)
  let ?t = "emit (OutSocket (take (nat n) (iob_contents iob))) (t\<lparr>tp_last := Some iob'\<rparr>)"
  have ok': "send_ok ?t" "same_control t ?t"
    using ok last i small True by (auto simp: send_ok_def emit_def last_bytes_def same_control_def count_out_def)
  show ?thesis
  proof (cases "sint (iob_size iob') = 0")
    case True
    then have "unat (iob_size iob') = 0" using s' by linarith
    then have "iob_contents iob' = []" by (simp add: iob_contents_def)
    then show ?thesis
      using True ok' flow last i(1) \<open>0 < n\<close>
      by (auto simp: flow_send_def Let_def last_bytes_def send_ok_def same_control_def emit_def count_out_def)
  next
    case False
    then have "unat (iob_size iob') \<noteq> 0" using s' by linarith
    then have "0 < iob_size iob'" by (simp add: word_less_nat_alt)
    then show ?thesis
      using False ok' flow last i(1) \<open>0 < n\<close>
      by (auto simp: flow_send_def Let_def send_idle_def emit_def)
  qed
qed

lemma to_i32_id: "0 \<le> x \<Longrightarrow> x < 2 ^ 31 \<Longrightarrow> to_i32 x = x"
  by (rule to_i32_in_range) simp_all

lemma sent_buffer_spec:
  assumes ok: "send_ok t" and flow: "tp_flow t = Some False" and last: "tp_last t \<noteq> None"
    and empty: "last_bytes t = []"
  obtains t1 more t2 where "handle_sent_buffer t = Done t1" "sub_pending t1 = (more, t2)"
    "send_ok t2" "send_idle t2" "same_control t t2" "tp_last t2 = None" "tp_sendlist t2 = tp_sendlist t"
    "more \<longleftrightarrow> tp_sendlist t \<noteq> []"
proof -
  obtain iob where iob: "tp_last t = Some iob" using last by auto
  let ?t1 = "(if sent_cb (tp_cbs t) then post_channel_event (EvBufferSent iob) t
      else emit (OutRelease iob) t)\<lparr>tp_last := None\<rparr>"
  have h: "handle_sent_buffer t = Done ?t1" using iob by (simp add: handle_sent_buffer_def)
  have g: "\<forall>iob\<in>set (tp_sendlist t). good_iob iob" using ok by (simp add: send_ok_def)
  have p: "tp_pending_send_size t = tp_last_size t + size_sum (tp_sendlist t)"
    using ok iob by (simp add: send_ok_def)
  have b: "to_i32 (size_sum (tp_sendlist t)) = size_sum (tp_sendlist t)"
    by (rule to_i32_id) (use size_sum_nonneg [OF g] ok p iob in \<open>auto simp: send_ok_def\<close>)
  let ?t2 = "?t1\<lparr>tp_pending_send_size := size_sum (tp_sendlist t)\<rparr>"
  have f: "tp_pending_send_size ?t1 = tp_pending_send_size t" "tp_last_size ?t1 = tp_last_size t"
    by (simp_all add: post_channel_event_def emit_def)
  have "sub_pending ?t1 = (tp_last_size t < tp_pending_send_size t, ?t2)"
    unfolding sub_pending_def f p using b by simp
  moreover have "tp_last_size t < tp_pending_send_size t \<longleftrightarrow> tp_sendlist t \<noteq> []"
    using size_sum_pos [OF g] p by auto
  moreover have "send_ok ?t2"
    using ok empty iob p by (auto simp: send_ok_def post_channel_event_def emit_def last_bytes_def)
  moreover have "send_idle ?t2" using flow by (simp add: send_idle_def post_channel_event_def emit_def)
  moreover have "same_control t ?t2"
    by (auto simp: same_control_def post_channel_event_def emit_def count_out_def)
  ultimately show thesis using h
    by (intro that [of ?t1 "tp_sendlist t \<noteq> []" ?t2]) (simp_all add: post_channel_event_def emit_def)
qed

lemma send_once_spec:
  assumes ok: "send_ok t" and idle: "send_idle t" and last: "tp_last t = None"
    and list: "tp_sendlist t = iob # rest" and n: "taken_ok n iob"
  shows "\<exists>ret t'. send_once n t = Done (ret, t') \<and> send_ok t' \<and> send_idle t' \<and> same_control t t' \<and>
    (if ret = ErrNone then tp_pending_send_size t' = 0 \<and> tp_last t' = None \<and> tp_sendlist t' = []
     else ret \<in> {ErrAgain, ErrFault} \<and> 0 < tp_pending_send_size t')"
proof -
  have g: "good_iob iob" "\<forall>iob\<in>set rest. good_iob iob" using ok list by (simp_all add: send_ok_def)
  have nn: "0 \<le> size_sum rest" by (rule size_sum_nonneg [OF g(2)])
  let ?t1 = "t\<lparr>tp_sendlist := rest, tp_last := Some iob, tp_last_size := sint (iob_size iob), tp_flow := Some True\<rparr>"
  have ok1: "send_ok ?t1" "same_control t ?t1"
    using ok list last g good_iob_pos [OF g(1)]
    by (auto simp: send_ok_def last_bytes_def good_iob_def same_control_def count_out_def)
  obtain ret t2 where r: "flow_send n ?t1 = Done (ret, t2)" "send_ok t2" "same_control ?t1 t2"
    "tp_last_size t2 = sint (iob_size iob)" "tp_sendlist t2 = rest" "tp_last t2 \<noteq> None"
    "tp_pending_send_size t2 = tp_pending_send_size t"
    "if ret = ErrNone then last_bytes t2 = [] \<and> tp_flow t2 = Some False
     else send_idle t2 \<and> ret \<in> {ErrAgain, ErrFault}"
    using flow_send_spec [OF ok1(1), of iob n] g(1) n by (auto simp: good_iob_def)
  have w: "flow_want_to_send n (t\<lparr>tp_sendlist := rest, tp_last := Some iob, tp_last_size := sint (iob_size iob)\<rparr>) =
      Done (ret, t2)"
    using r(1) idle last by (simp add: flow_want_to_send_def send_idle_def)
  have ctl: "same_control t t2" by (rule same_control_trans [OF ok1(2) r(3)])
  show ?thesis
  proof (cases "ret = ErrNone")
    case True
    with r(8) have e: "last_bytes t2 = []" "tp_flow t2 = Some False" by simp_all
    obtain t3 more t4 where s: "handle_sent_buffer t2 = Done t3" "sub_pending t3 = (more, t4)"
      "send_ok t4" "send_idle t4" "same_control t2 t4" "tp_last t4 = None" "tp_sendlist t4 = tp_sendlist t2"
      "more \<longleftrightarrow> tp_sendlist t2 \<noteq> []"
      by (rule sent_buffer_spec [OF r(2) e(2) r(6) e(1)])
    have "send_once n t = Done (if more then ErrAgain else ErrNone, t4)"
      using last list w True s(1,2) by (simp add: send_once_def)
    moreover have "tp_pending_send_size t4 = size_sum rest" using s r(5) by (simp add: send_ok_def)
    moreover have "rest \<noteq> [] \<Longrightarrow> 0 < size_sum rest" by (rule size_sum_pos [OF g(2)])
    ultimately show ?thesis
      using s r(5) same_control_trans [OF ctl s(5)] by auto
  next
    case False
    have "send_once n t = Done (if ret = ErrAgain then ErrAgain else ErrFault, t2)"
      using last list w False by (simp add: send_once_def)
    moreover have "0 < tp_pending_send_size t2"
      using ok last list good_iob_pos [OF g(1)] nn r(7) by (simp add: send_ok_def)
    ultimately show ?thesis using False r ctl by auto
  qed
qed

section \<open>Every step keeps the invariant\<close>

definition pre_ok :: "transport_type \<Rightarrow> transport \<Rightarrow> bool" where
  "pre_ok ty t \<longleftrightarrow>
     tp_type t = ty \<and> running t \<and> callbacks_ok t \<and> send_ok t \<and> send_idle t \<and> tp_service t \<and>
     has_poller (tp_r_tracker t) \<and> has_poller (tp_s_tracker t) \<and>
     (is_tracked (tp_s_tracker t) \<longrightarrow> 0 < tp_pending_send_size t) \<and>
     (tp_state t = StDisconnecting \<longrightarrow> EvDisconnected \<in> set (tp_posted t)) \<and>
     (EvRead \<in> set (tp_posted t) \<longrightarrow> ty = TransportTls)"

lemma tcp_inv_running:
  "running t \<Longrightarrow> tcp_inv ty t \<longleftrightarrow> pre_ok ty t \<and>
     (tp_state t = StStarted \<and> 0 < tp_pending_send_size t \<longrightarrow> is_tracked (tp_s_tracker t)) \<and>
     (tp_state t = StStopping \<longrightarrow> EvDisconnected \<in> set (tp_posted t) \<or> is_tracked (tp_s_tracker t))"
  by (auto simp: tcp_inv_def pre_ok_def going_ok_def)

lemma pre_ok_same:
  assumes "pre_ok ty t" and "send_ok t'" and "send_idle t'" and "same_control t t'"
    and "is_tracked (tp_s_tracker t) \<longrightarrow> 0 < tp_pending_send_size t'"
  shows "pre_ok ty t'"
  using assms by (auto simp: pre_ok_def same_control_def running_def callbacks_ok_def)

lemma count_out_emit [simp]:
  "count_out out (emit o' t) = count_out out t + (if o' = out then 1 else 0)"
  by (simp add: count_out_def emit_def)

lemma count_out_shutdown [simp]:
  "out \<noteq> OutShutdown how \<Longrightarrow> count_out out (shutdown_flow how t) = count_out out t"
  by (simp add: shutdown_flow_def)

lemma emit_fields [simp]:
  "tp_type (emit o' t) = tp_type t"
  "tp_fd (emit o' t) = tp_fd t" "tp_service (emit o' t) = tp_service t" "tp_state (emit o' t) = tp_state t"
  "tp_rmode (emit o' t) = tp_rmode t" "tp_rstate (emit o' t) = tp_rstate t"
  "tp_r_tracker (emit o' t) = tp_r_tracker t" "tp_s_tracker (emit o' t) = tp_s_tracker t"
  "tp_pending_send_size (emit o' t) = tp_pending_send_size t" "tp_cbs (emit o' t) = tp_cbs t"
  "tp_flow (emit o' t) = tp_flow t" "tp_last_size (emit o' t) = tp_last_size t" "tp_last (emit o' t) = tp_last t"
  "tp_sendlist (emit o' t) = tp_sendlist t" "tp_posted (emit o' t) = tp_posted t"
  "tp_trace (emit o' t) = tp_trace t @ [o']"
  by (simp_all add: emit_def)

lemma send_ok_emit:
  "send_ok t \<Longrightarrow> o' \<in> {OutShutdown h, OutDisconnected, OutStopped, OutRead bs, OutSentCb iob, OutRelease iob} \<Longrightarrow>
   send_ok (emit o' t)"
  by (auto simp: send_ok_def last_bytes_def)

lemma send_idle_emit: "send_idle t \<Longrightarrow> send_idle (emit o' t)"
  by (simp add: send_idle_def)

lemma send_ok_cong:
  "send_ok t \<Longrightarrow> tp_sendlist t' = tp_sendlist t \<Longrightarrow> tp_pending_send_size t' = tp_pending_send_size t \<Longrightarrow>
   tp_last t' = tp_last t \<Longrightarrow> tp_last_size t' = tp_last_size t \<Longrightarrow> tp_trace t' = tp_trace t \<Longrightarrow> send_ok t'"
  by (cases "tp_last t") (auto simp: send_ok_def last_bytes_def)

lemma send_idle_cong:
  "send_idle t \<Longrightarrow> tp_flow t' = tp_flow t \<Longrightarrow> tp_last t' = tp_last t \<Longrightarrow> send_idle t'"
  by (simp add: send_idle_def)

text \<open>A step into a final state, with the shutdown and the callback it makes.\<close>

lemma enter_final:
  assumes pre: "pre_ok ty t" and st: "tp_state t \<noteq> StDisconnected" "tp_state t \<noteq> StStopped"
    and f: "(s, out) \<in> {(StDisconnected, OutDisconnected), (StStopped, OutStopped)}"
  shows "tcp_inv ty (emit out (shutdown_flow ShutRdwr (t\<lparr>tp_state := s\<rparr>)))"
proof -
  let ?t = "emit out (shutdown_flow ShutRdwr (t\<lparr>tp_state := s\<rparr>))"
  have cb: "count_out OutDisconnected t = 0" "count_out OutStopped t = 0"
    using pre st by (simp_all add: pre_ok_def callbacks_ok_def)
  have "count_out o' (t\<lparr>tp_state := s\<rparr>) = count_out o' t" for o'
    by (simp add: count_out_def)
  then have "callbacks_ok ?t" using cb f by (auto simp: callbacks_ok_def shutdown_flow_def)
  moreover have "send_ok ?t"
  proof -
    have "send_ok (t\<lparr>tp_state := s\<rparr>)" by (rule send_ok_cong [of t]) (use pre in \<open>simp_all add: pre_ok_def\<close>)
    then have "send_ok (shutdown_flow ShutRdwr (t\<lparr>tp_state := s\<rparr>))"
      by (simp add: shutdown_flow_def send_ok_emit)
    then show ?thesis by (rule send_ok_emit) (use f in auto)
  qed
  moreover have "send_idle ?t"
    by (rule send_idle_cong [of t]) (use pre in \<open>simp_all add: pre_ok_def shutdown_flow_def\<close>)
  ultimately show ?thesis
    using pre f by (auto simp: tcp_inv_running running_def pre_ok_def shutdown_flow_def)
qed

lemma trigger_stopped_inv:
  assumes "pre_ok ty t" and "tp_state t = StStarted \<and> 0 < tp_pending_send_size t \<longrightarrow> is_tracked (tp_s_tracker t)"
  shows "tcp_inv ty (snd (trigger_stopped_callback t))"
proof (cases "tp_state t = StStopping")
  case True
  with assms(1) show ?thesis
    by (simp add: trigger_stopped_callback_def set_state_def enter_final)
next
  case False
  moreover have "running t" using assms(1) by (simp add: pre_ok_def)
  ultimately show ?thesis
    using assms by (simp add: trigger_stopped_callback_def set_state_def tcp_inv_running)
qed

lemma trigger_disconnected_inv:
  assumes "pre_ok ty t" and "tp_state t = StDisconnecting"
  shows "\<exists>t'. trigger_disconnected_callback t = (True, t') \<and> tcp_inv ty t'"
  using assms by (simp add: trigger_disconnected_callback_def set_state_def enter_final)

lemma try_disconnected_started:
  assumes "pre_ok ty t" and "tp_state t = StStarted"
  shows "\<exists>t'. try_triggering_disconnected_callback t = (True, t') \<and> tcp_inv ty t'"
  using assms
  by (simp add: try_triggering_disconnected_callback_def trigger_disconnected_callback_def set_state_def
      enter_final)

lemma try_disconnected_inv:
  assumes "tcp_inv ty t" and "running t"
  shows "tcp_inv ty (snd (try_triggering_disconnected_callback t))"
proof (cases "tp_state t = StStarted")
  case True
  then show ?thesis using try_disconnected_started [of ty t] assms by (auto simp: tcp_inv_running)
next
  case False
  then show ?thesis using assms by (simp add: try_triggering_disconnected_callback_def set_state_def)
qed

lemma on_send_disconnected_inv:
  assumes "pre_ok ty t"
  shows "tcp_inv ty (on_send_disconnected t)"
proof (cases "tp_state t = StStarted")
  case True
  with try_disconnected_started [OF assms] show ?thesis by (auto simp: on_send_disconnected_def)
next
  case False
  then have "on_send_disconnected t = snd (trigger_stopped_callback t)"
    by (simp add: on_send_disconnected_def try_triggering_disconnected_callback_def set_state_def)
  then show ?thesis using trigger_stopped_inv [OF assms] False by simp
qed

lemma start_send_tracker_spec:
  assumes "pre_ok ty t" and "\<not> is_tracked (tp_s_tracker t)" and "0 < tp_pending_send_size t"
  obtains t' where "start_send_tracker ok t = Done (ok, t')" "pre_ok ty t'" "is_tracked (tp_s_tracker t')"
    "tp_state t' = tp_state t"
proof -
  obtain k where k: "tp_s_tracker t = Some k" "trk_poller k" "\<not> trk_tracked k"
    using assms by (auto simp: pre_ok_def has_poller_def is_tracked_def split: option.splits)
  let ?t = "t\<lparr>tp_s_tracker := Some (k\<lparr>trk_tracked := True\<rparr>)\<rparr>"
  have "send_ok ?t" "send_idle ?t"
    using assms(1) by (auto simp: pre_ok_def intro: send_ok_cong [of t] send_idle_cong [of t])
  then have "pre_ok ty ?t"
    using assms(1,3) k(2) by (simp add: pre_ok_def running_def callbacks_ok_def count_out_def has_poller_def)
  with k show thesis
    by (intro that [of ?t]) (simp_all add: start_send_tracker_def start_tracker_def is_tracked_def)
qed

lemma on_send_again_inv:
  assumes pre: "pre_ok ty t" and un: "\<not> is_tracked (tp_s_tracker t)" and pos: "0 < tp_pending_send_size t"
  shows "\<exists>t'. on_send_again ok t = Done t' \<and> tcp_inv ty t'"
proof -
  obtain t' where t': "start_send_tracker ok t = Done (ok, t')" "pre_ok ty t'" "is_tracked (tp_s_tracker t')"
    by (rule start_send_tracker_spec [OF assms])
  then have "running t'" by (simp add: pre_ok_def)
  with t' on_send_disconnected_inv [OF t'(2)] show ?thesis
    by (simp add: on_send_again_def tcp_inv_running)
qed

lemma on_send_continue_inv:
  assumes pre: "pre_ok ty t" and un: "\<not> is_tracked (tp_s_tracker t)" and last: "tp_last t = None"
    and list: "tp_sendlist t = iob # rest" and n: "taken_ok n iob"
  shows "\<exists>t'. on_send_continue n ok t = Done t' \<and> tcp_inv ty t'"
proof -
  have "send_ok t" "send_idle t" using pre by (simp_all add: pre_ok_def)
  from send_once_spec [OF this last list n] obtain ret t1 where
    s: "send_once n t = Done (ret, t1)" "send_ok t1" "send_idle t1" "same_control t t1"
    "if ret = ErrNone then tp_pending_send_size t1 = 0 \<and> tp_last t1 = None \<and> tp_sendlist t1 = []
     else ret \<in> {ErrAgain, ErrFault} \<and> 0 < tp_pending_send_size t1" by blast
  have pre1: "pre_ok ty t1" by (rule pre_ok_same [OF pre s(2-4)]) (use un in simp)
  have un1: "\<not> is_tracked (tp_s_tracker t1)" using un s(4) by (simp add: same_control_def)
  consider "ret = ErrNone" | "ret = ErrAgain" | "ret = ErrFault" using s(5) by (auto split: if_splits)
  then show ?thesis
  proof cases
    case 1
    then show ?thesis using s(1,5) trigger_stopped_inv [OF pre1] by (simp add: on_send_continue_def)
  next
    case 2
    then show ?thesis using s(1,5) on_send_again_inv [OF pre1 un1] by (simp add: on_send_continue_def)
  next
    case 3
    then show ?thesis using s(1) on_send_disconnected_inv [OF pre1] by (simp add: on_send_continue_def)
  qed
qed

lemma pre_ok_state:
  assumes "pre_ok ty t" and "s \<in> {StStarted, StStopping}" and "tp_state t \<notin> {StDisconnected, StStopped}"
  shows "pre_ok ty (t\<lparr>tp_state := s\<rparr>)"
  using assms
  by (auto simp: pre_ok_def running_def callbacks_ok_def count_out_def
      intro: send_ok_cong [of t] send_idle_cong [of t])

lemma disconnecting_inv:
  assumes "pre_ok ty t" and "tp_state t = StStarted"
  shows "tcp_inv ty (post_channel_event EvDisconnected (t\<lparr>tp_state := StDisconnecting\<rparr>))"
proof -
  let ?t = "post_channel_event EvDisconnected (t\<lparr>tp_state := StDisconnecting\<rparr>)"
  have "send_ok ?t" "send_idle ?t"
    using assms(1)
    by (auto simp: pre_ok_def post_channel_event_def intro: send_ok_cong [of t] send_idle_cong [of t])
  moreover have "running ?t" using assms(1) by (simp add: running_def pre_ok_def post_channel_event_def)
  ultimately show ?thesis
    using assms
    by (simp add: tcp_inv_running pre_ok_def callbacks_ok_def post_channel_event_def count_out_def)
qed

lemma pending_zero:
  assumes "send_ok t" and "tp_pending_send_size t = 0"
  shows "tp_last t = None" "tp_sendlist t = []"
proof -
  have g: "\<forall>iob\<in>set (tp_sendlist t). good_iob iob" using assms(1) by (simp add: send_ok_def)
  have "0 \<le> size_sum (tp_sendlist t)" by (rule size_sum_nonneg [OF g])
  moreover have "tp_last t \<noteq> None \<Longrightarrow> 0 < tp_last_size t"
    using assms(1) by (auto simp: send_ok_def)
  ultimately show "tp_last t = None" using assms by (auto simp: send_ok_def split: if_splits)
  with assms have "size_sum (tp_sendlist t) = 0" by (simp add: send_ok_def)
  then show "tp_sendlist t = []" using size_sum_pos [OF g] by auto
qed

lemma pending_nonneg: "send_ok t \<Longrightarrow> 0 \<le> tp_pending_send_size t"
  using size_sum_nonneg [of "tp_sendlist t"] by (auto simp: send_ok_def split: if_splits)

lemma async_send_inv:
  assumes inv: "tcp_inv ty t" and st: "tp_state t = StStarted" and g: "good_iob iob"
    and n: "taken_ok n iob" and room: "tp_pending_send_size t + sint (iob_size iob) < 2 ^ 31"
  shows "\<exists>b t'. async_send n ok iob t = Done (b, t') \<and> tcp_inv ty t'"
proof -
  have run: "running t" using st by (simp add: running_def)
  have pre: "pre_ok ty t" and going: "0 < tp_pending_send_size t \<longrightarrow> is_tracked (tp_s_tracker t)"
    using inv st by (simp_all add: tcp_inv_running [OF run])
  have sok: "send_ok t" and idle: "send_idle t" using pre by (simp_all add: pre_ok_def)
  note nn = pending_nonneg [OF sok]
  have b: "to_i32 (tp_pending_send_size t + sint (iob_size iob)) = tp_pending_send_size t + sint (iob_size iob)"
    by (rule to_i32_id) (use nn good_iob_pos [OF g] room in linarith)+
  let ?t1 = "emit (OutQueued (iob_contents iob)) (t\<lparr>tp_sendlist := tp_sendlist t @ [iob]\<rparr>)"
  let ?t2 = "?t1\<lparr>tp_pending_send_size := tp_pending_send_size t + sint (iob_size iob)\<rparr>"
  have ok2: "send_ok ?t2" "send_idle ?t2" "same_control t ?t2"
    using sok idle g room
    by (auto simp: send_ok_def last_bytes_def send_idle_def same_control_def count_out_def emit_def)
  have pre2: "pre_ok ty ?t2"
    by (rule pre_ok_same [OF pre ok2]) (use nn good_iob_pos [OF g] in simp)
  show ?thesis
  proof (cases "0 < tp_pending_send_size t")
    case True
    then have "async_send n ok iob t = Done (True, ?t2)" by (simp add: async_send_def b)
    moreover have "tcp_inv ty ?t2"
      using pre2 going True st by (subst tcp_inv_running) (simp_all add: running_def)
    ultimately show ?thesis by blast
  next
    case False
    then have z: "tp_pending_send_size t = 0" using nn by simp
    note e = pending_zero [OF sok z]
    have un: "\<not> is_tracked (tp_s_tracker t)" using pre z by (simp add: pre_ok_def)
    obtain ret t3 where s: "send_once n ?t2 = Done (ret, t3)" "send_ok t3" "send_idle t3"
      "same_control ?t2 t3"
      "if ret = ErrNone then tp_pending_send_size t3 = 0 \<and> tp_last t3 = None \<and> tp_sendlist t3 = []
       else ret \<in> {ErrAgain, ErrFault} \<and> 0 < tp_pending_send_size t3"
      using send_once_spec [OF ok2(1,2), of iob "[]" n] e n by (auto simp: e)
    have pre3: "pre_ok ty t3" by (rule pre_ok_same [OF pre2 s(2-4)]) (use un in simp)
    have st3: "tp_state t3 = StStarted" and un3: "\<not> is_tracked (tp_s_tracker t3)"
      using st un s(4) by (simp_all add: same_control_def)
    have fail: "\<exists>t'. async_send_failed u = (False, t') \<and> tcp_inv ty t'"
      if "pre_ok ty u" "tp_state u = StStarted" for u
      using that by (simp add: async_send_failed_def set_state_def disconnecting_inv)
    have as: "async_send n ok iob t =
        (if ret = ErrNone then Done (True, t3)
         else if ret = ErrAgain then
           run_bind (start_send_tracker ok t3) (\<lambda>(started, t4).
             if started then Done (True, t4) else Done (async_send_failed t4))
         else Done (async_send_failed t3))"
      using z s(1) by (simp add: async_send_def Let_def b [unfolded z, simplified])
    consider "ret = ErrNone" | "ret = ErrAgain" | "ret = ErrFault" using s(5) by (auto split: if_splits)
    then show ?thesis
    proof cases
      case 1
      then have "async_send n ok iob t = Done (True, t3)" using as by simp
      moreover have "tcp_inv ty t3"
        using pre3 st3 s(5) 1 by (subst tcp_inv_running) (simp_all add: running_def)
      ultimately show ?thesis by blast
    next
      case 2
      obtain t4 where t4: "start_send_tracker ok t3 = Done (ok, t4)" "pre_ok ty t4" "is_tracked (tp_s_tracker t4)"
        "tp_state t4 = tp_state t3"
        by (rule start_send_tracker_spec [OF pre3 un3]) (use s(5) 2 in auto)
      have "tcp_inv ty t4" using t4 st3 by (subst tcp_inv_running) (simp_all add: running_def)
      then show ?thesis using as 2 t4 st3 fail [of t4] by (cases ok) auto
    next
      case 3
      then have "async_send n ok iob t = Done (async_send_failed t3)" using as by simp
      then show ?thesis using fail [OF pre3 st3] by auto
    qed
  qed
qed

definition quiet :: "transport_type \<Rightarrow> transport \<Rightarrow> bool" where
  "quiet ty t \<longleftrightarrow>
     tp_type t = ty \<and>
     tp_last t = None \<and> tp_sendlist t = [] \<and> tp_pending_send_size t = 0 \<and> tp_posted t = [] \<and>
     queued (tp_trace t) = [] \<and> socket (tp_trace t) = [] \<and>
     count_out OutDisconnected t = 0 \<and> count_out OutStopped t = 0 \<and>
     \<not> is_tracked (tp_r_tracker t) \<and> \<not> is_tracked (tp_s_tracker t)"

lemma quiet_error: "quiet ty t \<Longrightarrow> tp_state t = StError \<Longrightarrow> tp_flow t \<noteq> None \<Longrightarrow> tcp_inv ty t"
  by (simp add: quiet_def tcp_inv_def callbacks_ok_def running_def idle_before_start_def)

lemma quiet_started:
  "quiet ty t \<Longrightarrow> tp_state t = StStarted \<Longrightarrow> tp_flow t = Some False \<Longrightarrow> tp_service t \<Longrightarrow>
   has_poller (tp_r_tracker t) \<Longrightarrow> has_poller (tp_s_tracker t) \<Longrightarrow> tcp_inv ty t"
  by (simp add: quiet_def tcp_inv_def callbacks_ok_def running_def send_ok_def send_idle_def
      going_ok_def last_bytes_def)

lemma tcp_start_cases:
  assumes "sv" and "mode = ReadModeOnce \<or> mode = ReadModeLoop" and "read_cb cbs" and "stopped_cb cbs"
    and "disconnected_cb cbs" and "tp_flow t = None" and "tp_state t = StNone"
    and "tp_r_tracker t = None" and "tp_s_tracker t = None"
  defines "u \<equiv> t\<lparr>tp_state := StError, tp_cbs := cbs, tp_rmode := mode, tp_service := True, tp_flow := Some False\<rparr>"
  shows "snd (tcp_start sv mode cbs ok_r ok_s t) =
    (if tp_fd t < 0 then emit OutClose u
     else if \<not> ok_r then u\<lparr>tp_r_tracker := Some \<lparr>trk_tracked = False, trk_poller = False\<rparr>\<rparr>
     else if \<not> ok_s then u\<lparr>tp_r_tracker := Some \<lparr>trk_tracked = False, trk_poller = True\<rparr>,
                           tp_s_tracker := Some \<lparr>trk_tracked = False, trk_poller = False\<rparr>\<rparr>
     else u\<lparr>tp_state := StStarted, tp_r_tracker := Some \<lparr>trk_tracked = False, trk_poller = True\<rparr>,
            tp_s_tracker := Some \<lparr>trk_tracked = False, trk_poller = True\<rparr>\<rparr>)"
  using assms
  by (auto simp: tcp_start_def set_state_def open_flow_def install_read_tracker_def
      install_send_tracker_def Let_def emit_def)

lemma tcp_start_inv:
  assumes "tcp_inv ty t"
  shows "tcp_inv ty (snd (tcp_start sv mode cbs ok_r ok_s t))"
proof (cases "sv \<and> (mode = ReadModeOnce \<or> mode = ReadModeLoop) \<and> read_cb cbs \<and> stopped_cb cbs \<and>
    disconnected_cb cbs \<and> tp_flow t = None \<and> tp_state t = StNone")
  case False
  then have "snd (tcp_start sv mode cbs ok_r ok_s t) = t"
    by (auto simp: tcp_start_def set_state_def Let_def)
  with assms show ?thesis by simp
next
  case True
  then have i: "idle_before_start t" "callbacks_ok t" "tp_type t = ty"
    using assms by (simp_all add: tcp_inv_def running_def)
  then have q: "quiet ty t" and tr: "tp_r_tracker t = None" "tp_s_tracker t = None"
    using True by (simp_all add: idle_before_start_def callbacks_ok_def quiet_def is_tracked_def)
  define u where "u = t\<lparr>tp_state := StError, tp_cbs := cbs, tp_rmode := mode, tp_service := True,
      tp_flow := Some False\<rparr>"
  have st: "snd (tcp_start sv mode cbs ok_r ok_s t) =
    (if tp_fd t < 0 then emit OutClose u
     else if \<not> ok_r then u\<lparr>tp_r_tracker := Some \<lparr>trk_tracked = False, trk_poller = False\<rparr>\<rparr>
     else if \<not> ok_s then u\<lparr>tp_r_tracker := Some \<lparr>trk_tracked = False, trk_poller = True\<rparr>,
                           tp_s_tracker := Some \<lparr>trk_tracked = False, trk_poller = False\<rparr>\<rparr>
     else u\<lparr>tp_state := StStarted, tp_r_tracker := Some \<lparr>trk_tracked = False, trk_poller = True\<rparr>,
            tp_s_tracker := Some \<lparr>trk_tracked = False, trk_poller = True\<rparr>\<rparr>)"
    unfolding u_def by (rule tcp_start_cases) (use True tr in simp_all)
  have q: "quiet ty u" and u: "tp_state u = StError" "tp_flow u = Some False" "tp_service u"
    using q by (simp_all add: u_def quiet_def count_out_def)
  have "tcp_inv ty (emit OutClose u)"
    by (rule quiet_error) (use q u in \<open>simp_all add: quiet_def\<close>)
  moreover have "tcp_inv ty (u\<lparr>tp_r_tracker := Some \<lparr>trk_tracked = False, trk_poller = False\<rparr>\<rparr>)"
    by (rule quiet_error) (use q u in \<open>simp_all add: quiet_def count_out_def is_tracked_def\<close>)
  moreover have "tcp_inv ty (u\<lparr>tp_r_tracker := Some \<lparr>trk_tracked = False, trk_poller = True\<rparr>,
      tp_s_tracker := Some \<lparr>trk_tracked = False, trk_poller = False\<rparr>\<rparr>)"
    by (rule quiet_error) (use q u in \<open>simp_all add: quiet_def count_out_def is_tracked_def\<close>)
  moreover have "tcp_inv ty (u\<lparr>tp_state := StStarted,
      tp_r_tracker := Some \<lparr>trk_tracked = False, trk_poller = True\<rparr>,
      tp_s_tracker := Some \<lparr>trk_tracked = False, trk_poller = True\<rparr>\<rparr>)"
    by (rule quiet_started)
      (use q u in \<open>simp_all add: quiet_def count_out_def is_tracked_def has_poller_def\<close>)
  ultimately show ?thesis unfolding st by simp
qed

lemma tcp_stop_inv:
  assumes inv: "tcp_inv ty t"
  shows "tcp_inv ty (tcp_stop t)" "tcp_inv ty (tcp_force_stop t)"
proof -
  have other: "tcp_inv ty (snd (set_state StDisconnecting StStopping t))"
  proof (cases "tp_state t = StDisconnecting")
    case True
    then have "running t" by (simp add: running_def)
    with inv have "pre_ok ty t" by (simp add: tcp_inv_running)
    then have "pre_ok ty (t\<lparr>tp_state := StStopping\<rparr>)" by (rule pre_ok_state) (use True in simp_all)
    moreover have "EvDisconnected \<in> set (tp_posted t)"
      using \<open>pre_ok ty t\<close> True by (simp add: pre_ok_def)
    ultimately show ?thesis using True by (simp add: set_state_def tcp_inv_running running_def)
  qed (use inv in \<open>simp add: set_state_def\<close>)
  have started: "pre_ok ty (shutdown_flow how (t\<lparr>tp_state := StStopping\<rparr>))"
    "running (shutdown_flow how (t\<lparr>tp_state := StStopping\<rparr>))"
    if "tp_state t = StStarted" for how
  proof -
    have "running t" using that by (simp add: running_def)
    with inv have "pre_ok ty t" by (simp add: tcp_inv_running)
    then have p: "pre_ok ty (t\<lparr>tp_state := StStopping\<rparr>)" by (rule pre_ok_state) (use that in simp_all)
    show "pre_ok ty (shutdown_flow how (t\<lparr>tp_state := StStopping\<rparr>))"
    proof (rule pre_ok_same [OF p])
      show "send_ok (shutdown_flow how (t\<lparr>tp_state := StStopping\<rparr>))"
        using p by (simp add: shutdown_flow_def send_ok_emit pre_ok_def)
      show "send_idle (shutdown_flow how (t\<lparr>tp_state := StStopping\<rparr>))"
        using p by (simp add: shutdown_flow_def send_idle_emit pre_ok_def)
      show "same_control (t\<lparr>tp_state := StStopping\<rparr>) (shutdown_flow how (t\<lparr>tp_state := StStopping\<rparr>))"
        by (simp add: shutdown_flow_def same_control_def)
      show "is_tracked (tp_s_tracker (t\<lparr>tp_state := StStopping\<rparr>)) \<longrightarrow>
          0 < tp_pending_send_size (shutdown_flow how (t\<lparr>tp_state := StStopping\<rparr>))"
        using p by (simp add: shutdown_flow_def pre_ok_def)
    qed
    show "running (shutdown_flow how (t\<lparr>tp_state := StStopping\<rparr>))"
      by (simp add: running_def shutdown_flow_def)
  qed
  have post: "tcp_inv ty (post_channel_event EvDisconnected u)"
    if "pre_ok ty u" "running u" "tp_state u = StStopping" for u
  proof -
    have "send_ok (post_channel_event EvDisconnected u)" "send_idle (post_channel_event EvDisconnected u)"
      using that(1)
      by (auto simp: pre_ok_def post_channel_event_def intro: send_ok_cong [of u] send_idle_cong [of u])
    then show ?thesis
      using that
      by (subst tcp_inv_running)
        (simp_all add: pre_ok_def running_def callbacks_ok_def count_out_def post_channel_event_def)
  qed
  have stop_state: "tp_state (shutdown_flow how (t\<lparr>tp_state := StStopping\<rparr>)) = StStopping" for how
    by (simp add: shutdown_flow_def)
  show "tcp_inv ty (tcp_force_stop t)"
    using other started post stop_state
    by (simp add: tcp_force_stop_def is_started_def is_state_def set_state_def)
  have "tcp_inv ty (shutdown_flow ShutRd (t\<lparr>tp_state := StStopping\<rparr>))"
    if "tp_state t = StStarted" "tp_pending_send_size t \<noteq> 0"
  proof -
    have "running t" using that by (simp add: running_def)
    with inv that have "is_tracked (tp_s_tracker t)"
      using pending_nonneg [of t] by (auto simp: tcp_inv_running pre_ok_def)
    with started [OF that(1), of ShutRd] stop_state show ?thesis
      by (simp add: tcp_inv_running) (simp add: shutdown_flow_def)
  qed
  with other started post stop_state show "tcp_inv ty (tcp_stop t)"
    by (simp add: tcp_stop_def is_started_def is_state_def set_state_def Let_def)
qed

lemma tcp_inv_cong:
  assumes "tcp_inv ty t" and "send_ok t \<Longrightarrow> send_ok t'" and "send_idle t \<Longrightarrow> send_idle t'"
    and "same_control t t'" and "tp_pending_send_size t' = tp_pending_send_size t" and "running t"
  shows "tcp_inv ty t'"
proof -
  have pre: "pre_ok ty t" using assms(1,6) by (simp add: tcp_inv_running)
  have "pre_ok ty t'"
    by (rule pre_ok_same [OF pre]) (use assms(2-5) pre in \<open>auto simp: pre_ok_def\<close>)
  moreover have "running t'" using assms(4,6) by (simp add: running_def same_control_def)
  ultimately show ?thesis
    using assms(1,4-6) by (auto simp: tcp_inv_running same_control_def)
qed

lemma r_tracker_inv:
  assumes "tcp_inv ty t" and "running t" and "has_poller trk"
  shows "tcp_inv ty (t\<lparr>tp_r_tracker := trk\<rparr>)"
  using assms
  by (auto simp: tcp_inv_running pre_ok_def running_def callbacks_ok_def count_out_def
      intro: send_ok_cong [of t] send_idle_cong [of t])

lemma start_read_tracker_inv:
  assumes "tcp_inv ty t" and "running t"
  shows "\<exists>b t'. start_read_tracker ok t = Done (b, t') \<and> tcp_inv ty t' \<and> running t' \<and> tp_flow t' = tp_flow t"
proof -
  obtain k where k: "tp_r_tracker t = Some k" "trk_poller k"
    using assms by (auto simp: tcp_inv_running pre_ok_def has_poller_def split: option.splits)
  then have "tcp_inv ty (t\<lparr>tp_r_tracker := Some k'\<rparr>)" if "trk_poller k'" for k'
    using r_tracker_inv [OF assms] that by (simp add: has_poller_def)
  then show ?thesis
    using k assms by (auto simp: start_read_tracker_def start_tracker_def running_def)
qed

lemma rstate_update_inv:
  assumes "tcp_inv ty t" and "running t"
  shows "tcp_inv ty (t\<lparr>tp_rstate := r\<rparr>)"
proof -
  have "send_ok (t\<lparr>tp_rstate := r\<rparr>)" "send_idle (t\<lparr>tp_rstate := r\<rparr>)"
    using assms by (auto simp: tcp_inv_running pre_ok_def intro: send_ok_cong [of t] send_idle_cong [of t])
  then show ?thesis
    using assms by (simp add: tcp_inv_running pre_ok_def running_def callbacks_ok_def count_out_def)
qed

lemma rstate_inv:
  assumes "tcp_inv ty t" and "running t"
  shows "tcp_inv ty (snd (change_read_state from to t))" "running (snd (change_read_state from to t))"
    "tp_flow (snd (change_read_state from to t)) = tp_flow t"
  using assms rstate_update_inv [OF assms, of to]
  by (simp_all add: change_read_state_def running_def)

lemma tcp_async_read_inv:
  assumes "tcp_inv ty t"
  shows "\<exists>e t'. tcp_async_read ok t = Done (e, t') \<and> tcp_inv ty t'"
proof (cases "is_started t")
  case True
  then have run: "running t" by (simp add: is_started_def is_state_def running_def)
  obtain c t1 where c: "change_read_state ReadNone ReadPending t = (c, t1)" by fastforce
  note r = rstate_inv [OF assms run, of ReadNone ReadPending, unfolded c, simplified]
  from start_read_tracker_inv [OF r(1,2), of ok] show ?thesis
    using c r(1) True by (auto simp: tcp_async_read_def)
qed (use assms in \<open>simp add: tcp_async_read_def\<close>)


lemma iob_write_fresh:
  assumes al: "alloc_ok al" "\<forall>m. al m \<noteq> None" and n: "length bs = unat n" "0 < n"
  shows "\<exists>iob. iob_write al (Some bs) n (iob_new True) = Done (True, iob) \<and> iob_wf iob \<and>
    iob_contents iob = bs \<and> iob_raw_size iob = n \<and> iob_size iob = n"
proof -
  obtain blk where blk: "al n = Some blk" using al(2) by blast
  then have len: "length blk = unat n" using al(1) by (simp add: alloc_ok_def)
  let ?iob = "(iob_new True)\<lparr>iob_raw := Some bs, iob_raw_size := n, iob_size := n\<rparr>"
  have "iob_write al (Some bs) n (iob_new True) = Done (True, ?iob)"
    using n blk len
    by (simp add: iob_write_def iob_new_def init_by_alloc_def Let_def iob_reserve_def mem_read_def
        iob_append_raw_def mem_write_def raw_bytes_def)
  moreover have "iob_wf ?iob" "iob_contents ?iob = bs"
    using n by (simp_all add: iob_wf_def iob_new_def raw_bytes_def iob_contents_def)
  ultimately show ?thesis by auto
qed

lemma tcp_send_iob_inv:
  assumes inv: "tcp_inv ty t" and legal: "tcp_legal (OpSendIob b n ok) t"
  shows "\<exists>e t'. tcp_send_iob b n ok t = Done (e, t') \<and> tcp_inv ty t'"
proof (cases "\<exists>iob. b = Some iob \<and> iob_size iob \<noteq> 0 \<and> is_started t")
  case False
  then show ?thesis using inv by (auto simp: tcp_send_iob_def split: option.split)
next
  case True
  then obtain iob where b: "b = Some iob" "iob_size iob \<noteq> 0" "is_started t" by auto
  have "0 < iob_size iob" using b(2) by (simp add: word_gt_0)
  with legal b have l: "good_iob (iob_refer iob)" "taken_ok n (iob_refer iob)"
    "tp_pending_send_size t + sint (iob_size (iob_refer iob)) < 2 ^ 31"
    by (simp_all add: good_iob_def taken_ok_def iob_refer_def iob_wf_def raw_bytes_def)
  have "tp_state t = StStarted" using b(3) by (simp add: is_started_def is_state_def)
  from async_send_inv [OF inv this l, of ok] b show ?thesis by (auto simp: tcp_send_iob_def)
qed

lemma fresh_iob:
  assumes legal: "tcp_legal (OpSend al b sz n ok) t" and b: "b = Some bs" "0 < sz"
  shows "\<exists>iob. iob_write al b (word_of_int sz) (iob_new True) = Done (True, iob) \<and>
    good_iob iob \<and> taken_ok n iob \<and> tp_pending_send_size t + sint (iob_size iob) < 2 ^ 31"
proof -
  let ?n = "word_of_int sz :: u32"
  have sz: "sz < 2 ^ 30" "int (length bs) = sz" "n \<le> sz" "tp_pending_send_size t + sz < 2 ^ 31"
    "alloc_ok al" "\<forall>m. al m \<noteq> None"
    using legal b by simp_all
  have "unat (of_nat (length bs) :: u32) = length bs"
    by (rule unat_of_nat_u32) (use sz in simp)
  moreover have "?n = of_nat (length bs)" using sz(2) by (metis of_int_of_nat_eq)
  ultimately have un: "unat ?n = length bs" by simp
  moreover have "0 < length bs" using b(2) sz(2) by linarith
  then have "0 < ?n" using un by (simp add: word_less_nat_alt)
  ultimately obtain iob where i: "iob_write al (Some bs) ?n (iob_new True) = Done (True, iob)"
    "iob_wf iob" "iob_contents iob = bs" "iob_raw_size iob = ?n" "iob_size iob = ?n"
    using iob_write_fresh [OF sz(5,6), of bs ?n] by auto
  have small: "unat (iob_raw_size iob) < 2 ^ 31" unfolding i(4) un using sz(1,2) by simp
  have sint: "sint (iob_size iob) = sz"
    using good_iob_sint [OF i(2) small] un sz(2) by (simp add: i(5) del: of_nat_unat)
  have "good_iob iob" "taken_ok n iob" "tp_pending_send_size t + sint (iob_size iob) < 2 ^ 31"
    using i(2,5) small \<open>0 < ?n\<close> sint sz by (simp_all add: good_iob_def taken_ok_def)
  with i(1) b(1) show ?thesis by blast
qed

lemma tcp_send_inv:
  assumes inv: "tcp_inv ty t" and legal: "tcp_legal (OpSend al b sz n ok) t"
  shows "\<exists>e t'. tcp_send al b sz n ok t = Done (e, t') \<and> tcp_inv ty t'"
proof (cases "\<exists>bs. b = Some bs \<and> 0 < sz \<and> is_started t")
  case False
  then show ?thesis using inv by (cases b) (auto simp: tcp_send_def)
next
  case True
  then obtain bs where b: "b = Some bs" "0 < sz" "is_started t" by auto
  obtain iob where i: "iob_write al b (word_of_int sz) (iob_new True) = Done (True, iob)"
    "good_iob iob" "taken_ok n iob" "tp_pending_send_size t + sint (iob_size iob) < 2 ^ 31"
    using fresh_iob [OF legal b(1,2)] by blast
  have "tp_state t = StStarted" using b(3) by (simp add: is_started_def is_state_def)
  then obtain e t' where "async_send n ok iob t = Done (e, t')" "tcp_inv ty t'"
    using async_send_inv [OF inv _ i(2-4)] by blast
  then show ?thesis using b i(1) by (simp add: tcp_send_def iob_create_def)
qed

lemma untrack_simps [simp]:
  "has_poller (untrack trk) = has_poller trk" "\<not> is_tracked (untrack trk)"
  by (cases trk; simp add: untrack_def has_poller_def is_tracked_def)+

lemma tracked_running:
  assumes "tcp_inv ty t" and "is_tracked (tp_r_tracker t) \<or> is_tracked (tp_s_tracker t) \<or> tp_posted t \<noteq> []"
  shows "running t"
  using assms by (auto simp: tcp_inv_def idle_before_start_def split: if_splits)

lemma tcp_on_read_event_inv:
  assumes "tcp_inv ty t" and "running t"
  shows "\<exists>t'. tcp_on_read_event data ok t = Done t' \<and> tcp_inv ty t'"
proof -
  have flow: "tp_flow t \<noteq> None" using assms by (simp add: tcp_inv_running pre_ok_def send_idle_def)
  have emit: "tcp_inv ty (emit (OutRead bs) u) \<and> running (emit (OutRead bs) u)" if "tcp_inv ty u" "running u" for u bs
  proof
    show "running (emit (OutRead bs) u)" using that(2) by (simp add: running_def)
    show "tcp_inv ty (emit (OutRead bs) u)"
      by (rule tcp_inv_cong [OF that(1)])
        (use that(2) in \<open>simp_all add: send_ok_emit send_idle_emit same_control_def\<close>)
  qed
  show ?thesis
  proof (cases data)
    case None
    then show ?thesis using flow try_disconnected_inv [OF assms] by (simp add: tcp_on_read_event_def)
  next
    case (Some bs)
    obtain good t1 where g: "(if tp_rmode t = ReadModeOnce then Done (change_read_state ReadPending ReadNone t)
        else start_read_tracker ok t) = Done (good, t1)" "tcp_inv ty t1" "running t1"
    proof (cases "tp_rmode t = ReadModeOnce")
      case True
      with rstate_inv [OF assms, of ReadPending ReadNone] that show thesis by (metis prod.collapse)
    next
      case False
      with start_read_tracker_inv [OF assms, of ok] that show thesis by auto
    qed
    then have "tcp_on_read_event data ok t =
        Done (if \<not> good then snd (try_triggering_disconnected_callback (emit (OutRead bs) t1))
              else emit (OutRead bs) t1)"
      using flow Some by (simp add: tcp_on_read_event_def)
    then show ?thesis
      using emit [OF g(2,3), of bs] try_disconnected_inv [of ty "emit (OutRead bs) t1"] by simp
  qed
qed

lemma tcp_on_send_event_inv:
  assumes inv: "tcp_inv ty t" and legal: "tcp_legal (OpSendEvent n1 n2 ok) t"
  shows "\<exists>t'. tcp_exec (OpSendEvent n1 n2 ok) t = Done t' \<and> tcp_inv ty t'"
proof -
  let ?t = "t\<lparr>tp_s_tracker := untrack (tp_s_tracker t)\<rparr>"
  have run: "running t" by (rule tracked_running [OF inv]) (use legal in simp)
  then have pre0: "pre_ok ty t" using inv by (simp add: tcp_inv_running)
  have pos: "0 < tp_pending_send_size t" using pre0 legal by (simp add: pre_ok_def)
  have sok: "send_ok ?t" and idle: "send_idle ?t"
    using pre0 by (auto simp: pre_ok_def intro: send_ok_cong [of t] send_idle_cong [of t])
  have pre: "pre_ok ty ?t"
    using pre0 sok idle by (simp add: pre_ok_def running_def callbacks_ok_def count_out_def)
  show ?thesis
  proof (cases "tp_last t")
    case None
    then have "tp_sendlist t \<noteq> []" using pos sok by (auto simp: send_ok_def)
    then obtain iob rest where l: "tp_sendlist t = iob # rest" by (cases "tp_sendlist t") auto
    have n2: "taken_ok n2 iob" using legal l by (simp split: option.splits)
    have "\<exists>t'. on_send_continue n2 ok ?t = Done t' \<and> tcp_inv ty t'"
      by (rule on_send_continue_inv [OF pre _ _ _ n2]) (use None l in simp_all)
    then show ?thesis using None by (simp add: tcp_on_send_event_def)
  next
    case (Some iob)
    have i: "tp_flow ?t = Some True" "0 < iob_size iob" "taken_ok n1 iob"
      using idle Some legal by (simp_all add: send_idle_def)
    obtain ret t1 where r: "flow_send n1 ?t = Done (ret, t1)" "send_ok t1" "same_control ?t t1"
      "tp_sendlist t1 = tp_sendlist t" "tp_pending_send_size t1 = tp_pending_send_size t" "tp_last t1 \<noteq> None"
      "if ret = ErrNone then last_bytes t1 = [] \<and> tp_flow t1 = Some False
       else send_idle t1 \<and> ret \<in> {ErrAgain, ErrFault}"
      using flow_send_spec [OF sok i(1) _ i(2,3)] Some by auto
    have un1: "\<not> is_tracked (tp_s_tracker t1)" using r(3) by (simp add: same_control_def)
    show ?thesis
    proof (cases "ret = ErrNone")
      case False
      then have pre1: "pre_ok ty t1"
        by (intro pre_ok_same [OF pre r(2) _ r(3)]) (use r(7) in simp_all)
      then show ?thesis
        using False Some r(1,5,7) pos on_send_again_inv [OF pre1 un1] on_send_disconnected_inv [OF pre1]
        by (auto simp: tcp_on_send_event_def)
    next
      case True
      with r(7) have e: "last_bytes t1 = []" "tp_flow t1 = Some False" by simp_all
      obtain t2 more t3 where h: "handle_sent_buffer t1 = Done t2" "sub_pending t2 = (more, t3)"
        "send_ok t3" "send_idle t3" "same_control t1 t3" "tp_last t3 = None" "tp_sendlist t3 = tp_sendlist t1"
        "more \<longleftrightarrow> tp_sendlist t1 \<noteq> []"
        by (rule sent_buffer_spec [OF r(2) e(2) r(6) e(1)])
      have pre3: "pre_ok ty t3"
        by (rule pre_ok_same [OF pre h(3,4) same_control_trans [OF r(3) h(5)]]) simp
      have un3: "\<not> is_tracked (tp_s_tracker t3)" using un1 h(5) by (simp add: same_control_def)
      show ?thesis
      proof (cases more)
        case True
        then obtain iob' rest where l: "tp_sendlist t3 = iob' # rest" "tp_sendlist t = iob' # rest"
          using h(7,8) r(4) by (cases "tp_sendlist t") auto
        have "\<exists>t'. on_send_continue n2 ok t3 = Done t' \<and> tcp_inv ty t'"
          by (rule on_send_continue_inv [OF pre3 un3 h(6) l(1)]) (use legal l(2) in \<open>simp split: option.splits\<close>)
        then show ?thesis using True \<open>ret = ErrNone\<close> Some r(1) h(1,2) by (simp add: tcp_on_send_event_def)
      next
        case False
        then have "tp_pending_send_size t3 = 0" using h(3,6,7,8) by (simp add: send_ok_def)
        then have "tcp_inv ty (snd (trigger_stopped_callback t3))"
          by (intro trigger_stopped_inv [OF pre3]) simp
        then show ?thesis using False \<open>ret = ErrNone\<close> Some r(1) h(1,2) by (simp add: tcp_on_send_event_def)
      qed
    qed
  qed
qed

lemma posted_update_inv:
  assumes inv: "tcp_inv ty t" and run: "running t" and posted: "tp_posted t = ev # rest"
    and st: "ev = EvDisconnected \<Longrightarrow> tp_state t \<notin> {StDisconnecting, StStopping}"
  shows "tcp_inv ty (t\<lparr>tp_posted := rest\<rparr>)"
proof -
  have pre: "pre_ok ty t" using inv by (simp add: tcp_inv_running [OF run])
  have "send_ok (t\<lparr>tp_posted := rest\<rparr>)" "send_idle (t\<lparr>tp_posted := rest\<rparr>)"
    using pre by (auto simp: pre_ok_def intro: send_ok_cong [of t] send_idle_cong [of t])
  moreover have "running (t\<lparr>tp_posted := rest\<rparr>)" using run by (simp add: running_def)
  ultimately show ?thesis
    using inv run posted st
    by (auto simp: tcp_inv_running pre_ok_def callbacks_ok_def count_out_def running_def)
qed

lemma tcp_deliver_inv:
  assumes inv: "tcp_inv ty t" and posted: "tp_posted t = ev # rest" and ty: "ev = EvRead \<Longrightarrow> ty \<noteq> TransportTls"
  shows "\<exists>t'. tcp_on_channel_event ev (t\<lparr>tp_posted := rest\<rparr>) = Done t' \<and> tcp_inv ty t'"
proof -
  have run: "running t" by (rule tracked_running [OF inv]) (simp add: posted)
  have pre: "pre_ok ty t" using inv by (simp add: tcp_inv_running [OF run])
  show ?thesis
  proof (cases ev)
    case (EvBufferSent iob)
    let ?t = "t\<lparr>tp_posted := rest\<rparr>"
    have i: "tcp_inv ty ?t" by (rule posted_update_inv [OF inv run posted]) (use EvBufferSent in simp)
    have r: "running ?t" using run by (simp add: running_def)
    have "tcp_inv ty (emit (OutRelease iob) (emit (OutSentCb iob) ?t))"
      by (rule tcp_inv_cong [OF i _ _ _ _ r])
        (simp_all add: send_ok_emit send_idle_emit same_control_def)
    then show ?thesis using EvBufferSent by (simp add: tcp_on_channel_event_def)
  next
    case EvRead
    then show ?thesis using pre posted ty by (simp add: pre_ok_def)
  next
    case EvDisconnected
    have final: "tcp_inv ty (emit out (shutdown_flow ShutRdwr (t\<lparr>tp_posted := rest, tp_state := s\<rparr>)))"
      if "tp_state t \<in> {StDisconnecting, StStopping}"
        "(s, out) \<in> {(StDisconnected, OutDisconnected), (StStopped, OutStopped)}" for s out
    proof -
      let ?u = "emit out (shutdown_flow ShutRdwr (t\<lparr>tp_state := s\<rparr>))"
      have "tcp_inv ty ?u" by (rule enter_final [OF pre]) (use that in auto)
      moreover have "running ?u" using that(2) by (auto simp: running_def shutdown_flow_def)
      moreover have "tp_posted ?u = ev # rest" "tp_state ?u = s" using posted by (simp_all add: shutdown_flow_def)
      moreover have "ev = EvDisconnected \<Longrightarrow> tp_state ?u \<notin> {StDisconnecting, StStopping}"
        using that(2) by (auto simp: shutdown_flow_def)
      ultimately have "tcp_inv ty (?u\<lparr>tp_posted := rest\<rparr>)"
        by (intro posted_update_inv [of ty ?u ev rest]) simp_all
      moreover have "emit out (shutdown_flow ShutRdwr (t\<lparr>tp_posted := rest, tp_state := s\<rparr>)) =
          ?u\<lparr>tp_posted := rest\<rparr>"
        by (cases t) (simp add: shutdown_flow_def emit_def)
      ultimately show ?thesis by simp
    qed
    show ?thesis
    proof (cases "tp_state t \<in> {StDisconnecting, StStopping}")
      case True
      then show ?thesis
        using EvDisconnected final [OF True]
        by (auto simp: tcp_on_channel_event_def base_on_channel_event_def trigger_disconnected_callback_def
            trigger_stopped_callback_def set_state_def)
    next
      case False
      then have "tcp_inv ty (t\<lparr>tp_posted := rest\<rparr>)" by (intro posted_update_inv [OF inv run posted]) simp
      with False EvDisconnected show ?thesis
        by (simp add: tcp_on_channel_event_def base_on_channel_event_def trigger_disconnected_callback_def
            trigger_stopped_callback_def set_state_def)
    qed
  qed
qed

lemma tcp_exec_inv:
  assumes inv: "tcp_inv ty t" and ty: "ty \<noteq> TransportTls" and legal: "tcp_legal op t"
  shows "\<exists>t'. tcp_exec op t = Done t' \<and> tcp_inv ty t'"
proof (cases op)
  case (OpAsyncRead ok)
  then show ?thesis using tcp_async_read_inv [OF inv, of ok] by auto
next
  case (OpSend al b sz n ok)
  then show ?thesis using tcp_send_inv [OF inv, of al b sz n ok] legal by auto
next
  case (OpSendIob b n ok)
  then show ?thesis using tcp_send_iob_inv [OF inv, of b n ok] legal by auto
next
  case (OpReadEvent data ok)
  then have tracked: "is_tracked (tp_r_tracker t)" using legal by simp
  then have run: "running t" using tracked_running [OF inv] by simp
  have "has_poller (untrack (tp_r_tracker t))" using inv run by (simp add: tcp_inv_running pre_ok_def)
  then have "tcp_inv ty (t\<lparr>tp_r_tracker := untrack (tp_r_tracker t)\<rparr>)" by (rule r_tracker_inv [OF inv run])
  with run OpReadEvent show ?thesis
    using tcp_on_read_event_inv [of ty "t\<lparr>tp_r_tracker := untrack (tp_r_tracker t)\<rparr>" data ok]
    by (simp add: running_def)
next
  case (OpSendEvent n1 n2 ok)
  then show ?thesis using tcp_on_send_event_inv [OF inv] legal by blast
next
  case OpDeliver
  then obtain ev rest where "tp_posted t = ev # rest" using legal by (cases "tp_posted t") auto
  with OpDeliver tcp_deliver_inv [OF inv _ ty] show ?thesis by simp
qed (use inv tcp_start_inv tcp_stop_inv in auto)

section \<open>Reachable states\<close>

inductive tcp_step :: "transport \<Rightarrow> tcp_op \<Rightarrow> transport \<Rightarrow> bool" where
  tcp_step_op: "tcp_legal op t \<Longrightarrow> tcp_exec op t = Done t' \<Longrightarrow> tcp_step t op t'"

inductive_cases tcp_stepE: "tcp_step t op t'"

inductive tcp_steps :: "transport \<Rightarrow> tcp_op list \<Rightarrow> transport \<Rightarrow> bool" where
  tcp_steps_nil: "tcp_steps t [] t"
| tcp_steps_cons: "tcp_step t op t' \<Longrightarrow> tcp_steps t' ops t'' \<Longrightarrow> tcp_steps t (op # ops) t''"

definition tcp_reachable :: "transport \<Rightarrow> bool" where
  "tcp_reachable t \<longleftrightarrow> (\<exists>fd ops. tcp_steps (tcp_init fd tcp_new) ops t)"

lemma tcp_init_inv: "tcp_inv TransportTcp (tcp_init fd tcp_new)"
  by (simp add: tcp_inv_def callbacks_ok_def count_out_def running_def idle_before_start_def
      tcp_init_def tcp_new_def is_tracked_def)

lemma tcp_step_inv: "tcp_step t op t' \<Longrightarrow> tcp_inv TransportTcp t \<Longrightarrow> tcp_inv TransportTcp t'"
  by (erule tcp_stepE) (use tcp_exec_inv [of TransportTcp] in fastforce)

lemma tcp_steps_inv: "tcp_steps t ops t' \<Longrightarrow> tcp_inv TransportTcp t \<Longrightarrow> tcp_inv TransportTcp t'"
  by (induction rule: tcp_steps.induct) (simp_all add: tcp_step_inv)

lemma tcp_reachable_inv: "tcp_reachable t \<Longrightarrow> tcp_inv TransportTcp t"
  using tcp_steps_inv tcp_init_inv by (auto simp: tcp_reachable_def)

section \<open>The state machine\<close>

text \<open>The transitions the code can make, a step that keeps the state included.\<close>

definition tcp_next :: "transport_state \<Rightarrow> transport_state set" where
  "tcp_next s =
     insert s
      (case s of
         StNone \<Rightarrow> {StStarted, StError}
       | StStarted \<Rightarrow> {StStopping, StDisconnecting, StDisconnected}
       | StStopping \<Rightarrow> {StStopped}
       | StDisconnecting \<Rightarrow> {StStopping, StDisconnected}
       | _ \<Rightarrow> {})"

lemma state_flow_send: "flow_send n t = Done (r, t') \<Longrightarrow> tp_state t' = tp_state t"
  by (auto simp: flow_send_def Let_def split: option.splits bool.splits if_splits prod.splits)

lemma state_handle_sent: "handle_sent_buffer t = Done t' \<Longrightarrow> tp_state t' = tp_state t"
  by (auto simp: handle_sent_buffer_def post_channel_event_def split: option.splits)

lemma state_sub_pending: "sub_pending t = (b, t') \<Longrightarrow> tp_state t' = tp_state t"
  by (auto simp: sub_pending_def)

lemma state_send_once:
  assumes "send_once n t = Done (r, t')"
  shows "tp_state t' = tp_state t"
proof -
  obtain iob rest where l: "tp_last t = None" "tp_sendlist t = iob # rest"
    using assms by (auto simp: send_once_def split: if_splits list.splits)
  let ?u = "t\<lparr>tp_sendlist := rest, tp_last := Some iob, tp_last_size := sint (iob_size iob)\<rparr>"
  obtain ret t1 where w: "flow_want_to_send n ?u = Done (ret, t1)"
    "(if ret = ErrNone then run_bind (handle_sent_buffer t1) (\<lambda>t2.
        let (more, t3) = sub_pending t2 in Done (if more then ErrAgain else ErrNone, t3))
      else if ret = ErrAgain then Done (ErrAgain, t1) else Done (ErrFault, t1)) = Done (r, t')"
    using assms l by (auto simp: send_once_def run_bind_eq_Done)
  have "tp_state t1 = tp_state t"
    using w(1) state_flow_send [of n "?u\<lparr>tp_flow := Some True\<rparr>" ret t1]
    by (auto simp: flow_want_to_send_def split: option.splits if_splits)
  moreover have "tp_state t' = tp_state t1"
  proof (cases "ret = ErrNone")
    case True
    then obtain t2 where t2: "handle_sent_buffer t1 = Done t2"
      "(let (more, t3) = sub_pending t2 in Done (if more then ErrAgain else ErrNone, t3)) = Done (r, t')"
      using w(2) by (auto simp: run_bind_eq_Done)
    obtain more t3 where "sub_pending t2 = (more, t3)" by fastforce
    with t2 show ?thesis using state_handle_sent [OF t2(1)] state_sub_pending [of t2 more t3] by simp
  qed (use w(2) in \<open>simp split: if_splits\<close>)
  ultimately show ?thesis by simp
qed

lemma state_start_send: "start_send_tracker ok t = Done (r, t') \<Longrightarrow> tp_state t' = tp_state t"
  by (auto simp: start_send_tracker_def split: option.splits prod.splits)

lemma state_start_read: "start_read_tracker ok t = Done (r, t') \<Longrightarrow> tp_state t' = tp_state t"
  by (auto simp: start_read_tracker_def split: option.splits prod.splits)

lemma next_trigger_stopped: "tp_state (snd (trigger_stopped_callback t)) \<in> tcp_next (tp_state t)"
  by (simp add: trigger_stopped_callback_def set_state_def tcp_next_def shutdown_flow_def)

lemma next_try_disconnected:
  "tp_state (snd (try_triggering_disconnected_callback t)) \<in> tcp_next (tp_state t)"
  by (simp add: try_triggering_disconnected_callback_def trigger_disconnected_callback_def set_state_def
      tcp_next_def shutdown_flow_def)

lemma next_on_send_disconnected: "tp_state (on_send_disconnected t) \<in> tcp_next (tp_state t)"
  by (simp add: on_send_disconnected_def try_triggering_disconnected_callback_def
      trigger_disconnected_callback_def trigger_stopped_callback_def set_state_def tcp_next_def
      shutdown_flow_def)

lemma next_refl: "tp_state t \<in> tcp_next (tp_state t)"
  by (simp add: tcp_next_def)

lemma next_on_send_again:
  assumes "on_send_again ok t = Done t'"
  shows "tp_state t' \<in> tcp_next (tp_state t)"
proof -
  obtain b t1 where t1: "start_send_tracker ok t = Done (b, t1)"
    "t' = (if b then t1 else on_send_disconnected t1)"
    using assms by (auto simp: on_send_again_def run_bind_eq_Done)
  show ?thesis
    using next_on_send_disconnected [of t1] next_refl [of t1] state_start_send [OF t1(1)] t1(2)
    by (cases b) simp_all
qed

lemma next_on_send_continue:
  assumes "on_send_continue n ok t = Done t'"
  shows "tp_state t' \<in> tcp_next (tp_state t)"
proof -
  obtain r t1 where t1: "send_once n t = Done (r, t1)"
    "(if r = ErrNone then Done (snd (trigger_stopped_callback t1))
      else if r = ErrAgain then on_send_again ok t1 else Done (on_send_disconnected t1)) = Done t'"
    using assms by (auto simp: on_send_continue_def run_bind_eq_Done)
  show ?thesis
    using next_on_send_disconnected [of t1] next_on_send_again [of ok t1 t'] next_trigger_stopped [of t1]
      state_send_once [OF t1(1)] t1(2)
    by (cases "r = ErrNone"; cases "r = ErrAgain") auto
qed

lemma next_async_send_failed: "tp_state (snd (async_send_failed t)) \<in> tcp_next (tp_state t)"
  by (simp add: async_send_failed_def set_state_def tcp_next_def post_channel_event_def)

lemma next_async_send:
  assumes "async_send n ok iob t = Done (b, t')"
  shows "tp_state t' \<in> tcp_next (tp_state t)"
proof (cases "0 < tp_pending_send_size t")
  case True
  then show ?thesis using assms next_refl [of t] by (auto simp: async_send_def Let_def)
next
  case False
  let ?u = "emit (OutQueued (iob_contents iob)) (t\<lparr>tp_sendlist := tp_sendlist t @ [iob]\<rparr>)
      \<lparr>tp_pending_send_size := to_i32 (tp_pending_send_size t + sint (iob_size iob))\<rparr>"
  obtain u r t3 where u: "tp_state u = tp_state t" "send_once n u = Done (r, t3)"
    "(if r = ErrNone then Done (True, t3)
      else if r = ErrAgain then run_bind (start_send_tracker ok t3) (\<lambda>(started, t4).
        if started then Done (True, t4) else Done (async_send_failed t4))
      else Done (async_send_failed t3)) = Done (b, t')"
    using assms False that [of ?u] by (auto simp: async_send_def Let_def run_bind_eq_Done)
  have st: "tp_state t3 = tp_state t" using state_send_once [OF u(2)] u(1) by simp
  consider "r = ErrNone" | "r = ErrAgain" | "r \<noteq> ErrNone" "r \<noteq> ErrAgain" by blast
  then show ?thesis
  proof cases
    case 1
    then show ?thesis using u(3) st next_refl [of t] by simp
  next
    case 2
    then obtain c t4 where t4: "start_send_tracker ok t3 = Done (c, t4)"
      "(if c then (True, t4) else async_send_failed t4) = (b, t')"
      using u(3) by (auto simp: run_bind_eq_Done split: if_splits)
    have "tp_state t4 = tp_state t" using state_start_send [OF t4(1)] st by simp
    then show ?thesis using t4(2) next_async_send_failed [of t4] next_refl [of t]
      by (cases c) auto
  next
    case 3
    then have "snd (async_send_failed t3) = t'" using u(3) by simp
    then show ?thesis using next_async_send_failed [of t3] st by simp
  qed
qed

lemma next_on_send_event:
  assumes "tcp_on_send_event n1 n2 ok t = Done t'"
  shows "tp_state t' \<in> tcp_next (tp_state t)"
proof (cases "tp_last t")
  case None
  then show ?thesis using assms next_on_send_continue by (simp add: tcp_on_send_event_def)
next
  case (Some iob)
  then obtain r t1 where r: "flow_send n1 t = Done (r, t1)"
    "(if r = ErrNone then run_bind (handle_sent_buffer t1) (\<lambda>t2.
        let (more, t3) = sub_pending t2 in
        if more then on_send_continue n2 ok t3 else Done (snd (trigger_stopped_callback t3)))
      else if r = ErrAgain then on_send_again ok t1
      else Done (on_send_disconnected t1)) = Done t'"
    using assms by (auto simp: tcp_on_send_event_def run_bind_eq_Done)
  have st: "tp_state t1 = tp_state t" by (rule state_flow_send [OF r(1)])
  show ?thesis
  proof (cases "r = ErrNone")
    case False
    then show ?thesis
      using r(2) st next_on_send_again [of ok t1 t'] next_on_send_disconnected [of t1]
      by (auto split: if_splits)
  next
    case True
    then obtain t2 where t2: "handle_sent_buffer t1 = Done t2" "(let (more, t3) = sub_pending t2 in
        if more then on_send_continue n2 ok t3 else Done (snd (trigger_stopped_callback t3))) = Done t'"
      using r(2) by (auto simp: run_bind_eq_Done)
    obtain more t3 where sp: "sub_pending t2 = (more, t3)" by fastforce
    with t2 have t: "handle_sent_buffer t1 = Done t2" "sub_pending t2 = (more, t3)"
      "(if more then on_send_continue n2 ok t3 else Done (snd (trigger_stopped_callback t3))) = Done t'"
      by simp_all
    have "tp_state t3 = tp_state t"
      using state_handle_sent [OF t(1)] state_sub_pending [OF t(2)] st by simp
    then show ?thesis
      using t(3) next_on_send_continue [of n2 ok t3 t'] next_trigger_stopped [of t3]
      by (cases more) auto
  qed
qed

lemma next_on_read_event:
  assumes "tcp_on_read_event data ok t = Done t'"
  shows "tp_state t' \<in> tcp_next (tp_state t)"
proof -
  obtain d t2 where d: "tp_state t2 = tp_state t"
    "t' = (if d then snd (try_triggering_disconnected_callback t2) else t2)"
  proof (cases data)
    case None
    then show thesis using assms by (intro that [of t True]) (auto simp: tcp_on_read_event_def split: if_splits)
  next
    case (Some bs)
    define x where "x = (if tp_rmode t = ReadModeOnce then Done (change_read_state ReadPending ReadNone t)
        else start_read_tracker ok t)"
    have fl: "tp_flow t \<noteq> None" using assms by (auto simp: tcp_on_read_event_def split: if_splits)
    have "tcp_on_read_event data ok t = run_bind (run_bind x (\<lambda>(good, t1). Done (\<not> good, emit (OutRead bs) t1))) (\<lambda>(d, t2).
        Done (if d then snd (try_triggering_disconnected_callback t2) else t2))"
      using fl by (simp only: tcp_on_read_event_def Some x_def option.case if_False)
    with assms have "run_bind (run_bind x (\<lambda>(good, t1). Done (\<not> good, emit (OutRead bs) t1))) (\<lambda>(d, t2).
        Done (if d then snd (try_triggering_disconnected_callback t2) else t2)) = Done t'"
      by simp
    then obtain good t1 where g: "x = Done (good, t1)"
      "t' = (if \<not> good then snd (try_triggering_disconnected_callback (emit (OutRead bs) t1))
              else emit (OutRead bs) t1)"
      by (cases x) auto
    have "tp_state t1 = tp_state t"
      using g(1) state_start_read [of ok t good t1]
      by (auto simp: x_def change_read_state_def split: if_splits)
    with g(2) show thesis by (intro that [of "emit (OutRead bs) t1" "\<not> good"]) simp_all
  qed
  then show ?thesis using next_try_disconnected [of t2] next_refl [of t2] by (cases d) simp_all
qed

lemma next_deliver:
  assumes "tcp_on_channel_event ev t = Done t'"
  shows "tp_state t' \<in> tcp_next (tp_state t)"
  using assms
  by (cases ev)
    (auto simp: tcp_on_channel_event_def base_on_channel_event_def trigger_disconnected_callback_def
      trigger_stopped_callback_def set_state_def tcp_next_def shutdown_flow_def split: if_splits)

lemma next_start: "tp_state (snd (tcp_start sv mode cbs ok_r ok_s t)) \<in> tcp_next (tp_state t)"
proof (cases "tp_state t = StNone")
  case False
  then have "snd (tcp_start sv mode cbs ok_r ok_s t) = t"
    by (auto simp: tcp_start_def set_state_def Let_def)
  then show ?thesis by (simp add: next_refl)
next
  case True
  then show ?thesis
    by (auto simp: tcp_start_def set_state_def Let_def open_flow_def install_read_tracker_def
        install_send_tracker_def tcp_next_def split: if_splits)
qed

lemma tcp_exec_next:
  assumes "tcp_exec op t = Done t'"
  shows "tp_state t' \<in> tcp_next (tp_state t)"
proof (cases op)
  case (OpAsyncRead ok)
  then obtain e where "tcp_async_read ok t = Done (e, t')" using assms by (auto simp: run_map_eq_Done)
  then have "tp_state t' = tp_state t"
    by (auto simp: tcp_async_read_def change_read_state_def run_bind_eq_Done split: if_splits
        dest!: state_start_read)
  then show ?thesis using next_refl [of t] by simp
next
  case (OpSend al b sz n ok)
  then obtain e where e: "tcp_send al b sz n ok t = Done (e, t')" using assms by (auto simp: run_map_eq_Done)
  have "t' = t \<or> (\<exists>iob c. async_send n ok iob t = Done (c, t'))"
    using e by (auto simp: tcp_send_def run_bind_eq_Done split: if_splits option.splits)
  then show ?thesis using next_async_send next_refl [of t] by auto
next
  case (OpSendIob b n ok)
  then obtain e where e: "tcp_send_iob b n ok t = Done (e, t')" using assms by (auto simp: run_map_eq_Done)
  have "t' = t \<or> (\<exists>iob c. async_send n ok iob t = Done (c, t'))"
    using e by (auto simp: tcp_send_iob_def run_bind_eq_Done split: if_splits option.splits)
  then show ?thesis using next_async_send next_refl [of t] by auto
next
  case (OpReadEvent data ok)
  then show ?thesis using assms next_on_read_event by fastforce
next
  case (OpSendEvent n1 n2 ok)
  then show ?thesis using assms next_on_send_event by fastforce
next
  case OpDeliver
  then show ?thesis using assms next_deliver next_refl [of t] by (cases "tp_posted t") fastforce+
next
  case (OpStart sv mode cbs ok_r ok_s)
  then show ?thesis using assms next_start by auto
next
  case OpStop
  have "tp_state (tcp_stop t) \<in> tcp_next (tp_state t)"
    by (cases "tp_pending_send_size t = 0")
      (simp_all add: tcp_stop_def is_started_def is_state_def set_state_def tcp_next_def
        post_channel_event_def shutdown_flow_def Let_def)
  then show ?thesis using assms OpStop by simp
next
  case OpForceStop
  have "tp_state (tcp_force_stop t) \<in> tcp_next (tp_state t)"
    by (simp add: tcp_force_stop_def is_started_def is_state_def set_state_def tcp_next_def
        post_channel_event_def shutdown_flow_def Let_def)
  then show ?thesis using assms OpForceStop by simp
qed

section \<open>What a TCP transport promises\<close>

lemma tcp_reachable_step:
  assumes "tcp_reachable t" and "tcp_legal op t" and "tcp_exec op t = Done t'"
  shows "tcp_reachable t'"
proof -
  obtain fd ops where "tcp_steps (tcp_init fd tcp_new) ops t" using assms(1) by (auto simp: tcp_reachable_def)
  moreover have "tcp_step t op t'" using assms(2,3) by (rule tcp_step_op)
  ultimately have "tcp_steps (tcp_init fd tcp_new) (ops @ [op]) t'"
    by (induction rule: tcp_steps.induct) (auto intro: tcp_steps.intros)
  then show ?thesis by (auto simp: tcp_reachable_def)
qed

definition all_callbacks :: transport_callbacks where
  "all_callbacks = \<lparr>read_cb = True, read_from_cb = False, sent_cb = True, disconnected_cb = True, stopped_cb = True\<rparr>"

definition tcp_started :: transport where
  "tcp_started = snd (tcp_start True ReadModeLoop all_callbacks True True (tcp_init 5 tcp_new))"

lemma tcp_started_reachable: "tcp_reachable tcp_started"
proof (rule tcp_reachable_step)
  show "tcp_reachable (tcp_init 5 tcp_new)" using tcp_steps_nil by (auto simp: tcp_reachable_def)
  show "tcp_legal (OpStart True ReadModeLoop all_callbacks True True) (tcp_init 5 tcp_new)" by simp
qed (simp add: tcp_started_def)

lemma tcp_started_fields: "tp_state tcp_started = StStarted" "tp_pending_send_size tcp_started = 0"
  "tp_posted tcp_started = []"
  by (simp_all add: tcp_started_def tcp_start_def tcp_init_def tcp_new_def all_callbacks_def
      set_state_def open_flow_def install_read_tracker_def install_send_tracker_def)

text \<open>
  C26. No operation of a TCP transport and no event delivered to it aborts or touches an
  object that is not there, in any state the transport can reach, as long as the poller,
  the socket and the callers keep to their side.
\<close>

theorem tcp_never_aborts:
  assumes "tcp_reachable t" and "tcp_legal op t"
  shows "\<exists>t'. tcp_exec op t = Done t' \<and> tcp_reachable t'"
  using tcp_exec_inv [OF tcp_reachable_inv [OF assms(1)] _ assms(2)] tcp_reachable_step [OF assms] by blast

theorem tcp_never_aborts_witness:
  "\<exists>t'. tcp_exec (OpSend zero_alloc (Some [1, 2, 3]) 3 2 True) tcp_started = Done t' \<and> tcp_reachable t'"
  by (rule tcp_never_aborts [OF tcp_started_reachable])
    (simp add: zero_alloc_ok tcp_started_fields, simp add: zero_alloc_def)

text \<open>
  C27. The bytes the socket has taken, followed by those still held in the transport, are
  the bytes that were queued, in the order in which they were queued: nothing is lost,
  repeated or reordered. \<open>pending_send_size_\<close> counts the held buffers.
\<close>

theorem tcp_sends_in_order:
  assumes "tcp_reachable t"
  shows "queued (tp_trace t) =
      socket (tp_trace t) @ last_bytes t @ concat (map iob_contents (tp_sendlist t)) \<and>
    tp_pending_send_size t =
      (if tp_last t = None then 0 else tp_last_size t) + size_sum (tp_sendlist t)"
proof (cases "running t")
  case True
  then show ?thesis using tcp_reachable_inv [OF assms] by (simp add: tcp_inv_running pre_ok_def send_ok_def)
next
  case False
  then show ?thesis
    using tcp_reachable_inv [OF assms] by (simp add: tcp_inv_def idle_before_start_def last_bytes_def)
qed

theorem tcp_sends_in_order_witness:
  "queued (tp_trace tcp_started) =
      socket (tp_trace tcp_started) @ last_bytes tcp_started @
      concat (map iob_contents (tp_sendlist tcp_started)) \<and>
    tp_pending_send_size tcp_started =
      (if tp_last tcp_started = None then 0 else tp_last_size tcp_started) + size_sum (tp_sendlist tcp_started)"
  by (rule tcp_sends_in_order [OF tcp_started_reachable])

text \<open>
  The user hears of the end of a connection at most once: the disconnected callback
  has been called exactly when the transport is disconnected, the stopped callback exactly
  when it is stopped, and neither twice.
\<close>

theorem tcp_end_reported_once:
  assumes "tcp_reachable t"
  shows "count_out OutDisconnected t = (if tp_state t = StDisconnected then 1 else 0) \<and>
    count_out OutStopped t = (if tp_state t = StStopped then 1 else 0)"
  using tcp_reachable_inv [OF assms] by (simp add: tcp_inv_def callbacks_ok_def)

theorem tcp_end_reported_once_witness:
  "count_out OutDisconnected tcp_started = (if tp_state tcp_started = StDisconnected then 1 else 0) \<and>
    count_out OutStopped tcp_started = (if tp_state tcp_started = StStopped then 1 else 0)"
  by (rule tcp_end_reported_once [OF tcp_started_reachable])

text \<open>
  The states follow the state machine of the header: a transport starts or fails once,
  leaves \<open>started\<close> towards stopping or disconnecting only, and stays in a final state.
\<close>

theorem tcp_state_machine:
  assumes "tcp_step t op t'"
  shows "(tp_state t, tp_state t') \<in>
    {(StNone, StStarted), (StNone, StError), (StStarted, StStopping), (StStarted, StDisconnecting),
     (StStarted, StDisconnected), (StStopping, StStopped), (StDisconnecting, StStopping),
     (StDisconnecting, StDisconnected)} \<union> Id"
  using assms
proof (rule tcp_stepE)
  assume "tcp_exec op t = Done t'"
  from tcp_exec_next [OF this] show ?thesis by (auto simp: tcp_next_def split: transport_state.splits)
qed

theorem tcp_state_machine_witness:
  "(tp_state tcp_started, tp_state (tcp_stop tcp_started)) \<in>
    {(StNone, StStarted), (StNone, StError), (StStarted, StStopping), (StStarted, StDisconnecting),
     (StStarted, StDisconnected), (StStopping, StStopped), (StDisconnecting, StStopping),
     (StDisconnecting, StDisconnected)} \<union> Id"
  by (rule tcp_state_machine [OF tcp_step_op [of OpStop]]) simp_all

lemma shutdown_flow_state: "tp_state (shutdown_flow how t) = tp_state t"
  by (simp add: shutdown_flow_def)

lemma post_channel_event_state: "tp_state (post_channel_event ev t) = tp_state t"
  by (simp add: post_channel_event_def)

lemma deliver_to_end:
  assumes "tcp_inv TransportTcp t" and "EvDisconnected \<in> set (tp_posted t)" and "tp_state t \<in> {StStopping, StDisconnecting}"
  shows "\<exists>ops t'. tcp_steps t ops t' \<and> tp_state t' \<in> {StStopped, StDisconnected}"
  using assms
proof (induction "tp_posted t" arbitrary: t)
  case (Cons ev rest)
  have p: "tp_posted t = ev # rest" using Cons.hyps(2) by simp
  obtain t' where t': "tcp_on_channel_event ev (t\<lparr>tp_posted := rest\<rparr>) = Done t'" "tcp_inv TransportTcp t'"
    using tcp_deliver_inv [OF Cons.prems(1) p] by auto
  have step: "tcp_step t OpDeliver t'" by (rule tcp_step_op) (simp_all add: p t'(1))
  show ?case
  proof (cases ev)
    case EvDisconnected
    then have "tp_state t' \<in> {StStopped, StDisconnected}"
      using t'(1) Cons.prems(3)
      by (auto simp: tcp_on_channel_event_def base_on_channel_event_def trigger_disconnected_callback_def
          trigger_stopped_callback_def set_state_def shutdown_flow_state)
    then show ?thesis using step tcp_steps_nil tcp_steps_cons by blast
  next
    case (EvBufferSent iob)
    then have "t' = emit (OutRelease iob) (emit (OutSentCb iob) (t\<lparr>tp_posted := rest\<rparr>))"
      using t'(1) by (simp add: tcp_on_channel_event_def)
    then have f: "tp_posted t' = rest" "tp_state t' = tp_state t" by simp_all
    have "EvDisconnected \<in> set rest" using Cons.prems(2) p EvBufferSent by simp
    then obtain ops t'' where "tcp_steps t' ops t''" "tp_state t'' \<in> {StStopped, StDisconnected}"
      using Cons.hyps(1) [of t'] f t'(2) Cons.prems(3) by auto
    then show ?thesis using step tcp_steps_cons by blast
  next
    case EvRead
    then show ?thesis using t'(1) by (simp add: tcp_on_channel_event_def)
  qed
qed simp

lemma failing_send_ends:
  assumes "tcp_inv TransportTcp t" and "tp_state t = StStopping" and "is_tracked (tp_s_tracker t)"
  shows "\<exists>t'. tcp_step t (OpSendEvent 0 0 True) t' \<and> tp_state t' = StStopped"
proof -
  let ?t = "t\<lparr>tp_s_tracker := untrack (tp_s_tracker t)\<rparr>"
  have run: "running t" using assms(2) by (simp add: running_def)
  then have pre: "pre_ok TransportTcp t" using assms(1) by (simp add: tcp_inv_running)
  then have sok: "send_ok t" and idle: "send_idle t" and pos: "0 < tp_pending_send_size t"
    using assms(3) by (simp_all add: pre_ok_def)
  have legal: "tcp_legal (OpSendEvent 0 0 True) t"
  proof -
    have "taken_ok 0 iob" if "good_iob iob" for iob
      using good_iob_pos [OF that] by (simp add: taken_ok_def)
    moreover have "good_iob iob" if "tp_last t = Some iob" for iob
      using that sok idle by (simp add: send_ok_def send_idle_def good_iob_def)
    ultimately show ?thesis
      using sok assms(3) by (auto simp: send_ok_def split: option.split list.split)
  qed
  have fin: "tp_state (on_send_disconnected u) = StStopped" if "tp_state u = StStopping" for u
    using that by (simp add: on_send_disconnected_def try_triggering_disconnected_callback_def
        trigger_stopped_callback_def set_state_def shutdown_flow_def)
  have "\<exists>t'. tcp_exec (OpSendEvent 0 0 True) t = Done t' \<and> tp_state t' = StStopped"
  proof (cases "tp_last t")
    case None
    then have "tp_sendlist t \<noteq> []" using pos sok by (auto simp: send_ok_def)
    then obtain iob rest where "tp_sendlist t = iob # rest" by (cases "tp_sendlist t") auto
    then show ?thesis
      using None idle assms(2) fin
      by (simp add: tcp_on_send_event_def on_send_continue_def send_once_def flow_want_to_send_def
          flow_send_def send_idle_def)
  next
    case (Some iob)
    then show ?thesis
      using idle assms(2) fin by (simp add: tcp_on_send_event_def flow_send_def send_idle_def)
  qed
  then show ?thesis using tcp_step_op [OF legal] by blast
qed

text \<open>
  A transport that is stopping or disconnecting is not stuck: an event that ends it has
  been posted or the socket is being waited for, and steps exist that reach a final state.
\<close>

theorem tcp_end_is_reached:
  assumes "tcp_reachable t" and "tp_state t \<in> {StStopping, StDisconnecting}"
  shows "\<exists>ops t'. tcp_steps t ops t' \<and> tp_state t' \<in> {StStopped, StDisconnected}"
proof (cases "EvDisconnected \<in> set (tp_posted t)")
  case True
  then show ?thesis using deliver_to_end tcp_reachable_inv [OF assms(1)] assms(2) by blast
next
  case False
  have inv: "tcp_inv TransportTcp t" by (rule tcp_reachable_inv [OF assms(1)])
  moreover have "running t" using assms(2) by (auto simp: running_def)
  ultimately have "tp_state t = StStopping" "is_tracked (tp_s_tracker t)"
    using False assms(2) by (auto simp: tcp_inv_running pre_ok_def)
  then show ?thesis using failing_send_ends [OF inv] tcp_steps_nil tcp_steps_cons by blast
qed

theorem tcp_end_is_reached_witness:
  "\<exists>ops t'. tcp_steps (tcp_stop tcp_started) ops t' \<and> tp_state t' \<in> {StStopped, StDisconnected}"
  by (rule tcp_end_is_reached)
    (rule tcp_reachable_step [OF tcp_started_reachable, of OpStop],
      simp_all add: tcp_stop_def tcp_started_fields is_started_def is_state_def set_state_def Let_def
        post_channel_event_state shutdown_flow_state)

end
