(* ===== verification/Tls.thy ===== *)
theory Tls
  imports Tcp
begin

text \<open>
  The TLS transport (tls_transport.h, src/transport/tls_transport.cpp) over its flow
  (src/transport/flow/flow_tls.cpp). It has the state of the TCP transport, its flow is
  given by \<open>init\<close>, and it knows one more channel event: \<open>async_read\<close> posts
  \<open>channel_event_read\<close> when the session still holds decrypted bytes.

  The session is the TLS library's. What its calls return are arguments: \<open>unread\<close> for
  \<open>has_unread_data\<close>, a \<open>tls_input\<close> for \<open>tls_read\<close> (bytes, would block, closed) and an
  integer for \<open>tls_send\<close>. The sending functions repeat those of the TCP transport; the
  lemmas \<open>tls_send_path\<close> say so, and what is known of sending is carried over by them.
\<close>

section \<open>flow_tls\<close>

definition flow_tls_send :: "int \<Rightarrow> transport \<Rightarrow> (error_code \<times> transport) run" where
  "flow_tls_send n t =
     (case (tp_flow t, tp_last t) of
        (Some True, Some iob) \<Rightarrow>
          if n = 0 then Done (ErrFault, t)
          else if n < 0 then Done (ErrAgain, t)
          else
            (let (left, iob') = iob_shift n iob;
                 t' = emit (OutSocket (take (nat n) (iob_contents iob))) (t\<lparr>tp_last := Some iob'\<rparr>)
             in if left > 0 then Done (ErrAgain, t') else Done (ErrNone, t'\<lparr>tp_flow := Some False\<rparr>))
      | _ \<Rightarrow> Fault)"

definition flow_tls_want_to_send :: "int \<Rightarrow> transport \<Rightarrow> (error_code \<times> transport) run" where
  "flow_tls_want_to_send n t =
     (case tp_flow t of
        None \<Rightarrow> Fault
      | Some busy \<Rightarrow>
          if tp_last t = None \<or> busy then Done (ErrFault, t)
          else flow_tls_send n (t\<lparr>tp_flow := Some True\<rparr>))"

section \<open>tls_transport: sending\<close>

definition tls_handle_sent_buffer :: "transport \<Rightarrow> transport run" where
  "tls_handle_sent_buffer t =
     (case tp_last t of
        None \<Rightarrow> Fault
      | Some iob \<Rightarrow>
          Done ((if sent_cb (tp_cbs t) then post_channel_event (EvBufferSent iob) t
                 else emit (OutRelease iob) t)\<lparr>tp_last := None\<rparr>))"

definition tls_sub_pending :: "transport \<Rightarrow> bool \<times> transport" where
  "tls_sub_pending t =
     (tp_pending_send_size t > tp_last_size t,
      t\<lparr>tp_pending_send_size := to_i32 (tp_pending_send_size t - tp_last_size t)\<rparr>)"

definition tls_send_once :: "int \<Rightarrow> transport \<Rightarrow> (error_code \<times> transport) run" where
  "tls_send_once n t =
     (if tp_last t \<noteq> None then Abort
      else case tp_sendlist t of
        [] \<Rightarrow> Abort
      | iob # rest \<Rightarrow>
          run_bind
            (flow_tls_want_to_send n
              (t\<lparr>tp_sendlist := rest, tp_last := Some iob, tp_last_size := sint (iob_size iob)\<rparr>))
            (\<lambda>(ret, t1).
              if ret = ErrNone then
                run_bind (tls_handle_sent_buffer t1) (\<lambda>t2.
                let (more, t3) = tls_sub_pending t2 in
                Done (if more then ErrAgain else ErrNone, t3))
              else if ret = ErrAgain then Done (ErrAgain, t1)
              else Done (ErrFault, t1)))"

definition tls_async_send :: "int \<Rightarrow> bool \<Rightarrow> io_buffer \<Rightarrow> transport \<Rightarrow> (bool \<times> transport) run" where
  "tls_async_send n ok iob t =
     (let t1 = emit (OutQueued (iob_contents iob)) (t\<lparr>tp_sendlist := tp_sendlist t @ [iob]\<rparr>);
          pending = tp_pending_send_size t1;
          t2 = t1\<lparr>tp_pending_send_size := to_i32 (pending + sint (iob_size iob))\<rparr>;
          failed = (\<lambda>u. let (changed, u1) = set_state StStarted StDisconnecting u in
                        (False, if changed then post_channel_event EvDisconnected u1 else u1))
      in
      if pending > 0 then Done (True, t2)
      else
        run_bind (tls_send_once n t2) (\<lambda>(ret, t3).
          if ret = ErrNone then Done (True, t3)
          else if ret = ErrAgain then
            run_bind (start_send_tracker ok t3) (\<lambda>(started, t4).
              if \<not> started then Done (failed t4) else Done (True, t4))
          else Done (failed t3)))"

section \<open>tls_transport: interface\<close>

definition tls_new :: transport where
  "tls_new =
     \<lparr>tp_type = TransportTls, tp_fd = -1, tp_service = False, tp_state = StNone, tp_rmode = ReadModeNone,
      tp_rstate = ReadNone, tp_r_tracker = None, tp_s_tracker = None, tp_pending_send_size = 0,
      tp_cbs = no_callbacks, tp_flow = None, tp_last_size = 0, tp_last = None, tp_sendlist = [],
      tp_posted = [], tp_trace = []\<rparr>"

definition tls_init :: "int \<Rightarrow> transport \<Rightarrow> transport" where
  "tls_init fd t = t\<lparr>tp_flow := Some False, tp_fd := fd\<rparr>"

definition tls_start ::
  "bool \<Rightarrow> read_mode \<Rightarrow> transport_callbacks \<Rightarrow> bool \<Rightarrow> bool \<Rightarrow> transport \<Rightarrow> error_code \<times> transport" where
  "tls_start sv mode cbs ok_r ok_s t =
     (if \<not> sv then (ErrInvalid, t)
      else if mode \<noteq> ReadModeOnce \<and> mode \<noteq> ReadModeLoop then (ErrInvalid, t)
      else if \<not> read_cb cbs \<or> \<not> stopped_cb cbs \<or> \<not> disconnected_cb cbs then (ErrInvalid, t)
      else if tp_flow t = None then (ErrInvalid, t)
      else
        let (ok, t1) = set_state StNone StStarting t in
        if \<not> ok then (ErrFault, t1)
        else
          let t2 = t1\<lparr>tp_cbs := cbs, tp_rmode := mode, tp_service := sv\<rparr>;
              fail = (\<lambda>u. (ErrFault, snd (set_state StStarting StError u)));
              (ok, t3) = install_read_tracker ok_r t2
          in
          if \<not> ok then fail t3
          else
            let (ok, t4) = install_send_tracker ok_s t3 in
            if \<not> ok then fail t4
            else
              let (ok, t5) = set_state StStarting StStarted t4 in
              if ok then (ErrNone, t5) else fail t5)"

definition tls_stop :: "transport \<Rightarrow> transport" where
  "tls_stop t =
     (if is_started t then
        let t1 = snd (set_state StStarted StStopping t) in
        if tp_pending_send_size t1 = 0
        then post_channel_event EvDisconnected (shutdown_flow ShutRdwr t1)
        else shutdown_flow ShutRd t1
      else snd (set_state StDisconnecting StStopping t))"

definition tls_force_stop :: "transport \<Rightarrow> transport" where
  "tls_force_stop t =
     (if is_started t then
        let t1 = snd (set_state StStarted StStopping t) in
        post_channel_event EvDisconnected (shutdown_flow ShutRdwr t1)
      else snd (set_state StDisconnecting StStopping t))"

definition tls_async_read :: "bool \<Rightarrow> bool \<Rightarrow> transport \<Rightarrow> (error_code \<times> transport) run" where
  "tls_async_read unread ok t =
     (if \<not> is_started t then Done (ErrUnstart, t)
      else if tp_rmode t = ReadModeLoop then
        let (changed, t1) = change_read_state ReadNone ReadPending t in
        if \<not> changed then Done (ErrFault, t1)
        else
          run_bind (start_read_tracker ok t1) (\<lambda>(started, t2).
            Done (if \<not> started then ErrFault else ErrNone, t2))
      else if \<not> is_state StStarted t then Done (ErrUnstart, t)
      else
        let (changed, t1) = change_read_state ReadNone ReadPending t in
        if \<not> changed then Done (ErrFault, t1)
        else if unread then Done (ErrNone, post_channel_event EvRead t1)
        else
          run_bind (start_read_tracker ok t1) (\<lambda>(started, t2).
            Done (if \<not> started then ErrFault else ErrNone, t2)))"

definition tls_send ::
  "allocator \<Rightarrow> byte list option \<Rightarrow> int \<Rightarrow> int \<Rightarrow> bool \<Rightarrow> transport \<Rightarrow> (error_code \<times> transport) run" where
  "tls_send al b sz n ok t =
     (if b = None \<or> sz \<le> 0 then Done (ErrInvalid, t)
      else if \<not> is_started t then Done (ErrUnstart, t)
      else
        run_bind (iob_create al 0) (\<lambda>r.
          case r of
            None \<Rightarrow> Done (ErrFault, t)
          | Some iob \<Rightarrow>
              run_bind (iob_write al b (word_of_int sz) iob) (\<lambda>(written, iob1).
                if \<not> written then Done (ErrFault, t)
                else
                  run_bind (tls_async_send n ok iob1 t) (\<lambda>(sent, t1).
                    Done (if sent then ErrNone else ErrFault, t1)))))"

definition tls_send_iob ::
  "io_buffer option \<Rightarrow> int \<Rightarrow> bool \<Rightarrow> transport \<Rightarrow> (error_code \<times> transport) run" where
  "tls_send_iob b n ok t =
     (case b of
        None \<Rightarrow> Done (ErrInvalid, t)
      | Some iob \<Rightarrow>
          if iob_size iob = 0 then Done (ErrInvalid, t)
          else if \<not> is_started t then Done (ErrUnstart, t)
          else
            run_bind (tls_async_send n ok (iob_refer iob) t) (\<lambda>(sent, t1).
              Done (if sent then ErrNone else ErrFault, t1)))"

section \<open>tls_transport: events\<close>

datatype tls_input = TlsData "byte list" | TlsAgain | TlsClosed

definition tls_on_read_event :: "tls_input \<Rightarrow> bool \<Rightarrow> transport \<Rightarrow> transport run" where
  "tls_on_read_event inp ok t =
     (if tp_flow t = None then Fault
      else
        run_bind
          (case inp of
             TlsData bs \<Rightarrow>
               run_bind
                 (if tp_rmode t = ReadModeOnce
                  then Done (change_read_state ReadPending ReadNone t)
                  else start_read_tracker ok t)
                 (\<lambda>(good, t1). Done (\<not> good, emit (OutRead bs) t1))
           | TlsAgain \<Rightarrow>
               run_bind (start_read_tracker ok t) (\<lambda>(good, t1). Done (\<not> good, t1))
           | TlsClosed \<Rightarrow> Done (True, t))
          (\<lambda>(disconnected, t2).
            Done (if disconnected then snd (try_triggering_disconnected_callback t2) else t2)))"

text \<open>The branch \<open>channel_event_read\<close> repeats the body of \<open>on_read_event\<close>.\<close>

definition tls_on_channel_event :: "tls_input \<Rightarrow> bool \<Rightarrow> channel_event \<Rightarrow> transport \<Rightarrow> transport run" where
  "tls_on_channel_event inp ok ev t =
     (case ev of
        EvDisconnected \<Rightarrow> Done (base_on_channel_event t)
      | EvBufferSent iob \<Rightarrow> Done (emit (OutRelease iob) (emit (OutSentCb iob) t))
      | EvRead \<Rightarrow> tls_on_read_event inp ok t)"

definition tls_on_send_disconnected :: "transport \<Rightarrow> transport" where
  "tls_on_send_disconnected t =
     (let (done, t1) = try_triggering_disconnected_callback t in
      if done then t1 else snd (trigger_stopped_callback t1))"

definition tls_on_send_again :: "bool \<Rightarrow> transport \<Rightarrow> transport run" where
  "tls_on_send_again ok t =
     run_bind (start_send_tracker ok t) (\<lambda>(started, t1).
       Done (if \<not> started then tls_on_send_disconnected t1 else t1))"

definition tls_on_send_continue :: "int \<Rightarrow> bool \<Rightarrow> transport \<Rightarrow> transport run" where
  "tls_on_send_continue n ok t =
     run_bind (tls_send_once n t) (\<lambda>(ret, t1).
       if ret = ErrNone then Done (snd (trigger_stopped_callback t1))
       else if ret = ErrAgain then tls_on_send_again ok t1
       else Done (tls_on_send_disconnected t1))"

definition tls_on_send_event :: "int \<Rightarrow> int \<Rightarrow> bool \<Rightarrow> transport \<Rightarrow> transport run" where
  "tls_on_send_event n1 n2 ok t =
     (if tp_last t \<noteq> None then
        run_bind (flow_tls_send n1 t) (\<lambda>(ret, t1).
          if ret = ErrNone then
            run_bind (tls_handle_sent_buffer t1) (\<lambda>t2.
            let (more, t3) = tls_sub_pending t2 in
            if more then tls_on_send_continue n2 ok t3
            else Done (snd (trigger_stopped_callback t3)))
          else if ret = ErrAgain then tls_on_send_again ok t1
          else Done (tls_on_send_disconnected t1))
      else tls_on_send_continue n2 ok t)"

definition tls_clear_send_pockets :: "transport \<Rightarrow> transport" where
  "tls_clear_send_pockets t =
     (let t1 = (case tp_last t of None \<Rightarrow> t | Some iob \<Rightarrow> emit (OutRelease iob) t) in
      (fold (\<lambda>iob u. emit (OutRelease iob) u) (tp_sendlist t1) t1)\<lparr>tp_sendlist := []\<rparr>)"

definition tls_destroy :: "transport \<Rightarrow> transport" where
  "tls_destroy t = base_transport_destroy (tls_clear_send_pockets t)"

section \<open>Sending is as in the TCP transport\<close>

text \<open>
  \<open>shift\<close> returns the size that is left or \<open>-1\<close>, and TCP asks for zero where TLS asks for
  not above zero; the two agree because the session takes at most what it was given.
\<close>

lemma flow_tls_send_eq:
  assumes "\<And>iob. tp_last t = Some iob \<Longrightarrow> iob_wf iob \<and> unat (iob_raw_size iob) < 2 ^ 31 \<and> taken_ok n iob"
  shows "flow_tls_send n t = flow_send n t"
proof (cases "tp_flow t = Some True \<and> tp_last t \<noteq> None \<and> 0 < n")
  case True
  then obtain iob where last: "tp_last t = Some iob" by auto
  with assms have i: "iob_wf iob" "unat (iob_raw_size iob) < 2 ^ 31" "n \<le> sint (iob_size iob)"
    by (simp_all add: taken_ok_def)
  obtain iob' where "iob_shift n iob = (sint (iob_size iob'), iob')" "sint (iob_size iob') = sint (iob_size iob) - n"
    using iob_take [OF i(1,2) _ i(3)] True by blast
  with True last i(3) show ?thesis by (simp add: flow_tls_send_def flow_send_def Let_def)
next
  case False
  then show ?thesis by (auto simp: flow_tls_send_def flow_send_def split: option.split bool.split)
qed

lemma tls_handle_sent_eq: "tls_handle_sent_buffer = handle_sent_buffer"
  by (simp add: fun_eq_iff tls_handle_sent_buffer_def handle_sent_buffer_def)

lemma tls_sub_pending_eq: "tls_sub_pending = sub_pending"
  by (simp add: fun_eq_iff tls_sub_pending_def sub_pending_def)

lemma flow_tls_want_eq:
  assumes "\<And>iob. tp_last t = Some iob \<Longrightarrow> iob_wf iob \<and> unat (iob_raw_size iob) < 2 ^ 31 \<and> taken_ok n iob"
  shows "flow_tls_want_to_send n t = flow_want_to_send n t"
  using flow_tls_send_eq [of "t\<lparr>tp_flow := Some True\<rparr>" n] assms
  by (simp add: flow_tls_want_to_send_def flow_want_to_send_def split: option.split)

lemma tls_send_once_eq:
  assumes "\<And>iob rest. tp_sendlist t = iob # rest \<Longrightarrow> good_iob iob \<and> taken_ok n iob"
  shows "tls_send_once n t = send_once n t"
proof (cases "tp_sendlist t")
  case (Cons iob rest)
  with assms [OF this]
  have "flow_tls_want_to_send n (t\<lparr>tp_sendlist := rest, tp_last := Some iob, tp_last_size := sint (iob_size iob)\<rparr>) =
      flow_want_to_send n (t\<lparr>tp_sendlist := rest, tp_last := Some iob, tp_last_size := sint (iob_size iob)\<rparr>)"
    by (intro flow_tls_want_eq) (simp add: good_iob_def)
  with Cons show ?thesis
    unfolding tls_send_once_def send_once_def tls_handle_sent_eq tls_sub_pending_eq by simp
qed (simp add: tls_send_once_def send_once_def)

lemma tls_async_send_eq:
  assumes "send_ok t" and "good_iob iob" and "taken_ok n iob"
  shows "tls_async_send n ok iob t = async_send n ok iob t"
proof (cases "tp_pending_send_size t > 0")
  case True
  then show ?thesis by (simp add: tls_async_send_def async_send_def Let_def)
next
  case False
  then have "tp_sendlist t = []" using assms(1) size_sum_pos [of "tp_sendlist t"] 
    by (cases "tp_last t") (auto simp: send_ok_def)
  let ?u = "emit (OutQueued (iob_contents iob)) (t\<lparr>tp_sendlist := tp_sendlist t @ [iob]\<rparr>)"
  let ?v = "?u\<lparr>tp_pending_send_size := to_i32 (tp_pending_send_size ?u + sint (iob_size iob))\<rparr>"
  have "tls_send_once n ?v = send_once n ?v"
    by (rule tls_send_once_eq) (use \<open>tp_sendlist t = []\<close> assms in simp)
  with False show ?thesis
    unfolding tls_async_send_def async_send_def async_send_failed_def Let_def
    by (auto intro!: arg_cong [where f = "run_bind _"] simp: fun_eq_iff)
qed

lemma tls_send_again_eq: "tls_on_send_disconnected = on_send_disconnected" "tls_on_send_again = on_send_again"
proof -
  show dis: "tls_on_send_disconnected = on_send_disconnected"
    by (simp add: fun_eq_iff tls_on_send_disconnected_def on_send_disconnected_def)
  have "(\<lambda>(started, t1). Done (if \<not> started then on_send_disconnected t1 else t1)) =
      (\<lambda>(started, t1). Done (if started then t1 else on_send_disconnected t1))"
    by (simp add: fun_eq_iff)
  then show "tls_on_send_again = on_send_again"
    unfolding fun_eq_iff [of tls_on_send_again] tls_on_send_again_def on_send_again_def dis by simp
qed

lemma tls_send_continue_eq:
  assumes "\<And>iob rest. tp_sendlist t = iob # rest \<Longrightarrow> good_iob iob \<and> taken_ok n iob"
  shows "tls_on_send_continue n ok t = on_send_continue n ok t"
  unfolding tls_on_send_continue_def on_send_continue_def tls_send_again_eq
  using tls_send_once_eq [OF assms] by simp

lemma tls_send_event_eq:
  assumes "send_ok t" and "send_idle t"
    and legal: "\<And>iob. tp_last t = Some iob \<Longrightarrow> taken_ok n1 iob"
      "\<And>iob rest. tp_sendlist t = iob # rest \<Longrightarrow> taken_ok n2 iob"
  shows "tls_on_send_event n1 n2 ok t = tcp_on_send_event n1 n2 ok t"
proof -
  have good: "good_iob iob \<and> taken_ok n2 iob" if "tp_sendlist t = iob # rest" for iob rest
    using assms(1) legal(2) that by (simp add: send_ok_def)
  have cont: "tls_on_send_continue n2 ok u = on_send_continue n2 ok u"
    if "tp_sendlist u = tp_sendlist t" for u
    by (rule tls_send_continue_eq) (use good that in simp)
  show ?thesis
  proof (cases "tp_last t")
    case None
    then show ?thesis by (simp add: tls_on_send_event_def tcp_on_send_event_def cont)
  next
    case (Some iob)
    have fs: "flow_tls_send n1 t = flow_send n1 t"
      by (rule flow_tls_send_eq) (use assms Some in \<open>simp add: send_ok_def\<close>)
    have "\<exists>ret t1. flow_send n1 t = Done (ret, t1) \<and> tp_sendlist t1 = tp_sendlist t \<and> tp_last t1 \<noteq> None"
      using flow_send_spec [of t iob n1] assms Some by (auto simp: send_idle_def)
    then obtain ret t1 where r: "flow_send n1 t = Done (ret, t1)" "tp_sendlist t1 = tp_sendlist t"
      "tp_last t1 \<noteq> None" by blast
    show ?thesis
    proof (cases "ret = ErrNone")
      case False
      then show ?thesis using Some r(1) fs
        by (simp add: tls_on_send_event_def tcp_on_send_event_def tls_send_again_eq)
    next
      case True
      obtain t2 where t2: "handle_sent_buffer t1 = Done t2" "tp_sendlist t2 = tp_sendlist t1"
        using r(3) by (auto simp: handle_sent_buffer_def post_channel_event_def)
      obtain more t3 where t3: "sub_pending t2 = (more, t3)" "tp_sendlist t3 = tp_sendlist t2"
        by (simp add: sub_pending_def)
      show ?thesis using True Some r(1,2) fs t2 t3 cont [of t3]
        by (simp add: tls_on_send_event_def tcp_on_send_event_def tls_handle_sent_eq tls_sub_pending_eq)
    qed
  qed
qed

lemma tls_stop_eq: "tls_stop = tcp_stop" "tls_force_stop = tcp_force_stop"
  by (simp_all add: fun_eq_iff tls_stop_def tcp_stop_def tls_force_stop_def tcp_force_stop_def)

lemma tls_destroy_eq: "tls_destroy = tcp_destroy"
  by (simp add: fun_eq_iff tls_destroy_def tcp_destroy_def tls_clear_send_pockets_def clear_sendlist_def)

section \<open>The invariant\<close>

lemma tls_init_inv: "tcp_inv TransportTls (tls_init fd tls_new)"
  by (simp add: tcp_inv_def callbacks_ok_def count_out_def running_def idle_before_start_def
      tls_init_def tls_new_def is_tracked_def)

lemma tls_start_inv:
  assumes "tcp_inv TransportTls t"
  shows "tcp_inv TransportTls (snd (tls_start sv mode cbs ok_r ok_s t))"
proof (cases "sv \<and> (mode = ReadModeOnce \<or> mode = ReadModeLoop) \<and> read_cb cbs \<and> stopped_cb cbs \<and>
    disconnected_cb cbs \<and> tp_flow t \<noteq> None \<and> tp_state t = StNone")
  case False
  then have "snd (tls_start sv mode cbs ok_r ok_s t) = t"
    by (auto simp: tls_start_def set_state_def Let_def)
  with assms show ?thesis by simp
next
  case True
  then have i: "idle_before_start t" "callbacks_ok t" "tp_type t = TransportTls"
    using assms by (simp_all add: tcp_inv_def running_def)
  then have q: "quiet TransportTls t" and tr: "tp_r_tracker t = None" "tp_s_tracker t = None"
    and flow: "tp_flow t = Some False"
    using True by (auto simp: idle_before_start_def callbacks_ok_def quiet_def is_tracked_def)
  define u where "u = t\<lparr>tp_state := StError, tp_cbs := cbs, tp_rmode := mode, tp_service := True\<rparr>"
  have st: "snd (tls_start sv mode cbs ok_r ok_s t) =
    (if \<not> ok_r then u\<lparr>tp_r_tracker := Some \<lparr>trk_tracked = False, trk_poller = False\<rparr>\<rparr>
     else if \<not> ok_s then u\<lparr>tp_r_tracker := Some \<lparr>trk_tracked = False, trk_poller = True\<rparr>,
                           tp_s_tracker := Some \<lparr>trk_tracked = False, trk_poller = False\<rparr>\<rparr>
     else u\<lparr>tp_state := StStarted, tp_r_tracker := Some \<lparr>trk_tracked = False, trk_poller = True\<rparr>,
            tp_s_tracker := Some \<lparr>trk_tracked = False, trk_poller = True\<rparr>\<rparr>)"
    using True tr
    by (auto simp: u_def tls_start_def set_state_def install_read_tracker_def install_send_tracker_def Let_def)
  have q: "quiet TransportTls u" and u: "tp_state u = StError" "tp_flow u = Some False" "tp_service u"
    using q flow by (simp_all add: u_def quiet_def count_out_def)
  have "tcp_inv TransportTls (u\<lparr>tp_r_tracker := Some \<lparr>trk_tracked = False, trk_poller = False\<rparr>\<rparr>)"
    by (rule quiet_error) (use q u in \<open>simp_all add: quiet_def count_out_def is_tracked_def\<close>)
  moreover have "tcp_inv TransportTls (u\<lparr>tp_r_tracker := Some \<lparr>trk_tracked = False, trk_poller = True\<rparr>,
      tp_s_tracker := Some \<lparr>trk_tracked = False, trk_poller = False\<rparr>\<rparr>)"
    by (rule quiet_error) (use q u in \<open>simp_all add: quiet_def count_out_def is_tracked_def\<close>)
  moreover have "tcp_inv TransportTls (u\<lparr>tp_state := StStarted,
      tp_r_tracker := Some \<lparr>trk_tracked = False, trk_poller = True\<rparr>,
      tp_s_tracker := Some \<lparr>trk_tracked = False, trk_poller = True\<rparr>\<rparr>)"
    by (rule quiet_started)
      (use q u in \<open>simp_all add: quiet_def count_out_def is_tracked_def has_poller_def\<close>)
  ultimately show ?thesis unfolding st by simp
qed

lemma post_read_inv:
  assumes "tcp_inv TransportTls t" and "running t"
  shows "tcp_inv TransportTls (post_channel_event EvRead t)"
proof -
  have "send_ok (post_channel_event EvRead t)" "send_idle (post_channel_event EvRead t)"
    using assms by (auto simp: tcp_inv_running pre_ok_def post_channel_event_def
        intro: send_ok_cong [of t] send_idle_cong [of t])
  then show ?thesis
    using assms
    by (subst tcp_inv_running)
      (simp_all add: tcp_inv_running pre_ok_def running_def callbacks_ok_def count_out_def post_channel_event_def)
qed

lemma tls_async_read_inv:
  assumes "tcp_inv TransportTls t"
  shows "\<exists>e t'. tls_async_read unread ok t = Done (e, t') \<and> tcp_inv TransportTls t'"
proof (cases "is_started t")
  case True
  then have run: "running t" by (simp add: is_started_def is_state_def running_def)
  have st: "is_state StStarted t" using True by (simp add: is_started_def)
  obtain c t1 where c: "change_read_state ReadNone ReadPending t = (c, t1)" by fastforce
  note r = rstate_inv [OF assms run, of ReadNone ReadPending, unfolded c, simplified]
  from start_read_tracker_inv [OF r(1,2), of ok] post_read_inv [OF r(1,2)] show ?thesis
    using c r(1) True st by (auto simp: tls_async_read_def)
qed (use assms in \<open>simp add: tls_async_read_def\<close>)

lemma tls_send_inv:
  assumes inv: "tcp_inv ty t" and legal: "tcp_legal (OpSend al b sz n ok) t"
  shows "tls_send al b sz n ok t = tcp_send al b sz n ok t"
proof (cases "\<exists>bs. b = Some bs \<and> 0 < sz \<and> is_started t")
  case False
  then show ?thesis by (cases b) (auto simp: tls_send_def tcp_send_def)
next
  case True
  then obtain bs where b: "b = Some bs" "0 < sz" "is_started t" by auto
  then have sok: "send_ok t" using inv
    by (simp add: tcp_inv_def running_def is_started_def is_state_def)
  obtain iob where i: "iob_write al b (word_of_int sz) (iob_new True) = Done (True, iob)"
    "good_iob iob" "taken_ok n iob"
    using fresh_iob [OF legal b(1,2)] by blast
  with b sok show ?thesis
    by (simp add: tls_send_def tcp_send_def iob_create_def tls_async_send_eq)
qed

lemma tls_send_iob_inv:
  assumes inv: "tcp_inv ty t" and legal: "tcp_legal (OpSendIob b n ok) t"
  shows "tls_send_iob b n ok t = tcp_send_iob b n ok t"
proof (cases "\<exists>iob. b = Some iob \<and> iob_size iob \<noteq> 0 \<and> is_started t")
  case False
  then show ?thesis by (auto simp: tls_send_iob_def tcp_send_iob_def split: option.split)
next
  case True
  then obtain iob where b: "b = Some iob" "iob_size iob \<noteq> 0" "is_started t" by auto
  then have sok: "send_ok t" using inv
    by (simp add: tcp_inv_def running_def is_started_def is_state_def)
  have "0 < iob_size iob" using b(2) by (simp add: word_gt_0)
  with legal b have "good_iob (iob_refer iob)" "taken_ok n (iob_refer iob)"
    by (simp_all add: good_iob_def taken_ok_def iob_refer_def iob_wf_def raw_bytes_def)
  with b sok show ?thesis by (simp add: tls_send_iob_def tcp_send_iob_def tls_async_send_eq)
qed

lemma tls_read_event_eq:
  "tls_on_read_event (TlsData bs) ok = tcp_on_read_event (Some bs) ok"
  "tls_on_read_event TlsClosed ok = tcp_on_read_event None ok"
  by (simp_all add: fun_eq_iff tls_on_read_event_def tcp_on_read_event_def)

lemma tls_on_read_event_inv:
  assumes "tcp_inv ty t" and "running t"
  shows "\<exists>t'. tls_on_read_event inp ok t = Done t' \<and> tcp_inv ty t'"
proof (cases inp)
  case TlsAgain
  obtain good t1 where g: "start_read_tracker ok t = Done (good, t1)" "tcp_inv ty t1" "running t1"
    using start_read_tracker_inv [OF assms, of ok] by blast
  have "tp_flow t \<noteq> None" using assms by (simp add: tcp_inv_running pre_ok_def send_idle_def)
  with g TlsAgain try_disconnected_inv [OF g(2,3)] show ?thesis by (simp add: tls_on_read_event_def)
qed (use tcp_on_read_event_inv [OF assms] tls_read_event_eq in simp_all)

lemma tls_deliver_inv:
  assumes inv: "tcp_inv TransportTls t" and posted: "tp_posted t = ev # rest"
  shows "\<exists>t'. tls_on_channel_event inp ok ev (t\<lparr>tp_posted := rest\<rparr>) = Done t' \<and> tcp_inv TransportTls t'"
proof (cases "ev = EvRead")
  case False
  then have "tls_on_channel_event inp ok ev u = tcp_on_channel_event ev u" for u
    by (cases ev) (simp_all add: tls_on_channel_event_def tcp_on_channel_event_def)
  with tcp_deliver_inv [OF inv posted] False show ?thesis by simp
next
  case True
  have run: "running t" by (rule tracked_running [OF inv]) (simp add: posted)
  have "tcp_inv TransportTls (t\<lparr>tp_posted := rest\<rparr>)"
    by (rule posted_update_inv [OF inv run posted]) (simp add: True)
  moreover have "running (t\<lparr>tp_posted := rest\<rparr>)" using run by (simp add: running_def)
  ultimately show ?thesis using True tls_on_read_event_inv by (simp add: tls_on_channel_event_def)
qed

section \<open>Operations and reachable states\<close>

datatype tls_op =
    TlsStart bool read_mode transport_callbacks bool bool
  | TlsStop
  | TlsForceStop
  | TlsAsyncRead bool bool
  | TlsSend allocator "byte list option" int int bool
  | TlsSendIob "io_buffer option" int bool
  | TlsReadEvent tls_input bool
  | TlsSendEvent int int bool
  | TlsDeliver tls_input bool

fun tls_exec :: "tls_op \<Rightarrow> transport \<Rightarrow> transport run" where
  "tls_exec (TlsStart sv mode cbs ok_r ok_s) t = Done (snd (tls_start sv mode cbs ok_r ok_s t))"
| "tls_exec TlsStop t = Done (tls_stop t)"
| "tls_exec TlsForceStop t = Done (tls_force_stop t)"
| "tls_exec (TlsAsyncRead unread ok) t = run_map snd (tls_async_read unread ok t)"
| "tls_exec (TlsSend al b sz n ok) t = run_map snd (tls_send al b sz n ok t)"
| "tls_exec (TlsSendIob b n ok) t = run_map snd (tls_send_iob b n ok t)"
| "tls_exec (TlsReadEvent inp ok) t =
     tls_on_read_event inp ok (t\<lparr>tp_r_tracker := untrack (tp_r_tracker t)\<rparr>)"
| "tls_exec (TlsSendEvent n1 n2 ok) t =
     tls_on_send_event n1 n2 ok (t\<lparr>tp_s_tracker := untrack (tp_s_tracker t)\<rparr>)"
| "tls_exec (TlsDeliver inp ok) t =
     (case tp_posted t of
        [] \<Rightarrow> Done t
      | ev # rest \<Rightarrow> tls_on_channel_event inp ok ev (t\<lparr>tp_posted := rest\<rparr>))"

text \<open>The environment keeps to what the TCP transport asks of it.\<close>

fun tls_legal :: "tls_op \<Rightarrow> transport \<Rightarrow> bool" where
  "tls_legal (TlsSend al b sz n ok) t = tcp_legal (OpSend al b sz n ok) t"
| "tls_legal (TlsSendIob b n ok) t = tcp_legal (OpSendIob b n ok) t"
| "tls_legal (TlsReadEvent inp ok) t = is_tracked (tp_r_tracker t)"
| "tls_legal (TlsSendEvent n1 n2 ok) t = tcp_legal (OpSendEvent n1 n2 ok) t"
| "tls_legal (TlsDeliver inp ok) t = (tp_posted t \<noteq> [])"
| "tls_legal _ t = True"

lemma tls_exec_inv:
  assumes inv: "tcp_inv TransportTls t" and legal: "tls_legal op t"
  shows "\<exists>t'. tls_exec op t = Done t' \<and> tcp_inv TransportTls t'"
proof (cases op)
  case (TlsAsyncRead unread ok)
  then show ?thesis using tls_async_read_inv [OF inv, of unread ok] by auto
next
  case (TlsSend al b sz n ok)
  then show ?thesis
    using tcp_send_inv [OF inv, of al b sz n ok] tls_send_inv [OF inv, of al b sz n ok] legal by auto
next
  case (TlsSendIob b n ok)
  then show ?thesis
    using tcp_send_iob_inv [OF inv, of b n ok] tls_send_iob_inv [OF inv, of b n ok] legal by auto
next
  case (TlsReadEvent inp ok)
  then have run: "running t" using tracked_running [OF inv] legal by simp
  have "has_poller (untrack (tp_r_tracker t))" using inv run by (simp add: tcp_inv_running pre_ok_def)
  then have "tcp_inv TransportTls (t\<lparr>tp_r_tracker := untrack (tp_r_tracker t)\<rparr>)"
    by (rule r_tracker_inv [OF inv run])
  with run TlsReadEvent show ?thesis
    using tls_on_read_event_inv [of TransportTls "t\<lparr>tp_r_tracker := untrack (tp_r_tracker t)\<rparr>" inp ok]
    by (simp add: running_def)
next
  case (TlsSendEvent n1 n2 ok)
  let ?t = "t\<lparr>tp_s_tracker := untrack (tp_s_tracker t)\<rparr>"
  have legal': "tcp_legal (OpSendEvent n1 n2 ok) t" using legal TlsSendEvent by simp
  then have "running t" using tracked_running [OF inv] by simp
  then have "send_ok ?t" "send_idle ?t"
    using inv by (auto simp: tcp_inv_def intro: send_ok_cong [of t] send_idle_cong [of t])
  then have "tls_on_send_event n1 n2 ok ?t = tcp_on_send_event n1 n2 ok ?t"
    by (rule tls_send_event_eq) (use legal' in simp_all)
  with TlsSendEvent tcp_on_send_event_inv [OF inv legal'] show ?thesis by simp
next
  case (TlsDeliver inp ok)
  then obtain ev rest where "tp_posted t = ev # rest" using legal by (cases "tp_posted t") auto
  with TlsDeliver tls_deliver_inv [OF inv] show ?thesis by simp
qed (use inv tls_start_inv tcp_stop_inv tls_stop_eq in auto)

inductive tls_reachable :: "transport \<Rightarrow> bool" where
  tls_reach_init: "tls_reachable (tls_init fd tls_new)"
| tls_reach_step: "tls_reachable t \<Longrightarrow> tls_legal op t \<Longrightarrow> tls_exec op t = Done t' \<Longrightarrow> tls_reachable t'"

lemma tls_reachable_inv: "tls_reachable t \<Longrightarrow> tcp_inv TransportTls t"
proof (induction rule: tls_reachable.induct)
  case (tls_reach_step t op t')
  then show ?case using tls_exec_inv [of t op] by auto
qed (rule tls_init_inv)

definition tls_started :: transport where
  "tls_started = snd (tls_start True ReadModeOnce all_callbacks True True (tls_init 7 tls_new))"

lemma tls_started_reachable: "tls_reachable tls_started"
  by (rule tls_reach_step [OF tls_reach_init, where op = "TlsStart True ReadModeOnce all_callbacks True True"])
    (simp_all add: tls_started_def)

lemma tls_started_fields: "tp_state tls_started = StStarted" "tp_pending_send_size tls_started = 0"
  "tp_posted tls_started = []"
  by (simp_all add: tls_started_def tls_start_def tls_init_def tls_new_def all_callbacks_def
      set_state_def install_read_tracker_def install_send_tracker_def)

text \<open>
  C28. A reachable TLS transport accepts every operation and event without aborting or
  touching an object that is not there, the posted read event included.
\<close>

theorem tls_never_aborts:
  assumes "tls_reachable t" and "tls_legal op t"
  shows "\<exists>t'. tls_exec op t = Done t' \<and> tls_reachable t'"
  using tls_exec_inv [OF tls_reachable_inv [OF assms(1)] assms(2)] tls_reach_step [OF assms] by blast

theorem tls_never_aborts_witness:
  "\<exists>t'. tls_exec (TlsSend zero_alloc (Some [1, 2, 3]) 3 2 True) tls_started = Done t' \<and> tls_reachable t'"
  by (rule tls_never_aborts [OF tls_started_reachable])
    (simp add: zero_alloc_ok tls_started_fields, simp add: zero_alloc_def)

text \<open>
  C29. A TLS transport keeps the promises of the TCP one: the queued bytes reach the session
  in order, the pending size counts what is held, and the end is reported exactly once.
\<close>

theorem tls_keeps_promises:
  assumes "tls_reachable t"
  shows "queued (tp_trace t) =
      socket (tp_trace t) @ last_bytes t @ concat (map iob_contents (tp_sendlist t)) \<and>
    tp_pending_send_size t =
      (if tp_last t = None then 0 else tp_last_size t) + size_sum (tp_sendlist t) \<and>
    count_out OutDisconnected t = (if tp_state t = StDisconnected then 1 else 0) \<and>
    count_out OutStopped t = (if tp_state t = StStopped then 1 else 0)"
proof (cases "running t")
  case True
  then show ?thesis
    using tls_reachable_inv [OF assms] by (simp add: tcp_inv_running pre_ok_def send_ok_def callbacks_ok_def)
next
  case False
  then show ?thesis
    using tls_reachable_inv [OF assms]
    by (simp add: tcp_inv_def idle_before_start_def last_bytes_def callbacks_ok_def)
qed

theorem tls_keeps_promises_witness:
  "queued (tp_trace tls_started) =
      socket (tp_trace tls_started) @ last_bytes tls_started @
      concat (map iob_contents (tp_sendlist tls_started)) \<and>
    tp_pending_send_size tls_started =
      (if tp_last tls_started = None then 0 else tp_last_size tls_started) + size_sum (tp_sendlist tls_started) \<and>
    count_out OutDisconnected tls_started = (if tp_state tls_started = StDisconnected then 1 else 0) \<and>
    count_out OutStopped tls_started = (if tp_state tls_started = StStopped then 1 else 0)"
  by (rule tls_keeps_promises [OF tls_started_reachable])

text \<open>
  A read that would block costs a TLS transport nothing: the tracker is started again
  and the state, the queues and the trace stay. On a TCP transport the same event ends the
  connection, because its read event takes every result that is not positive for the end.
\<close>

theorem would_block_ends_tcp_only:
  assumes "tp_flow t \<noteq> None" and "tp_state t = StStarted" and "tp_r_tracker t = Some trk"
    and "trk_poller trk" and "\<not> trk_tracked trk"
  shows "tls_on_read_event TlsAgain True t = Done (t\<lparr>tp_r_tracker := Some (trk\<lparr>trk_tracked := True\<rparr>)\<rparr>) \<and>
    (\<exists>t'. tcp_on_read_event None True t = Done t' \<and> tp_state t' = StDisconnected)"
  using assms
  by (simp add: tls_on_read_event_def tcp_on_read_event_def start_read_tracker_def start_tracker_def
      try_triggering_disconnected_callback_def trigger_disconnected_callback_def set_state_def
      shutdown_flow_state)

theorem would_block_ends_tcp_only_witness:
  "tls_on_read_event TlsAgain True tls_started =
      Done (tls_started\<lparr>tp_r_tracker := Some \<lparr>trk_tracked = True, trk_poller = True\<rparr>\<rparr>) \<and>
    (\<exists>t'. tcp_on_read_event None True tls_started = Done t' \<and> tp_state t' = StDisconnected)"
  using would_block_ends_tcp_only [of tls_started "\<lparr>trk_tracked = False, trk_poller = True\<rparr>"]
  by (simp add: tls_started_def tls_start_def tls_init_def tls_new_def all_callbacks_def
      set_state_def install_read_tracker_def install_send_tracker_def)

end
