(* ===== verification/Udp.thy ===== *)
theory Udp
  imports Tcp
begin

text \<open>
  The UDP transport (transport/udp_transport.h and .cpp, flow/flow_udp.h and .cpp) on the same
  record as the TCP transport, its steps and what every sequence of them keeps. An address is a
  number; what \<open>recvfrom\<close> and \<open>sendto\<close> return is an argument.
\<close>

section \<open>udp_transport\<close>

definition udp_new :: transport where
  "udp_new = tcp_new\<lparr>tp_type := TransportUdp\<rparr>"

text \<open>\<open>open_ok\<close>: the flow creates, configures and binds the socket \<open>fd\<close>.\<close>

definition udp_open_flow :: "int \<Rightarrow> bool \<Rightarrow> transport \<Rightarrow> bool \<times> transport" where
  "udp_open_flow fd open_ok t =
     (let t1 = t\<lparr>tp_flow := Some False\<rparr> in if open_ok then (True, t1\<lparr>tp_fd := fd\<rparr>) else (False, t1))"

definition udp_start_fail :: "transport \<Rightarrow> error_code \<times> transport" where
  "udp_start_fail t = (ErrFault, close_flow (snd (set_state StStarting StError t)))"

definition udp_start ::
  "bool \<Rightarrow> read_mode \<Rightarrow> transport_callbacks \<Rightarrow> int \<Rightarrow> bool \<Rightarrow> bool \<Rightarrow> transport \<Rightarrow> error_code \<times> transport" where
  "udp_start sv mode cbs fd open_ok ok_r t =
     (if \<not> sv then (ErrInvalid, t)
      else if mode \<noteq> ReadModeOnce \<and> mode \<noteq> ReadModeLoop then (ErrInvalid, t)
      else if \<not> read_from_cb cbs \<or> \<not> stopped_cb cbs then (ErrInvalid, t)
      else
        let (ok, t1) = set_state StNone StStarting t in
        if \<not> ok then (ErrFault, t1)
        else
          let (ok, t2) = udp_open_flow fd open_ok (t1\<lparr>tp_cbs := cbs, tp_rmode := mode, tp_service := sv\<rparr>) in
          if \<not> ok then udp_start_fail t2
          else
            let (ok, t3) = install_read_tracker ok_r t2 in
            if \<not> ok then udp_start_fail t3
            else
              let (ok, t4) = set_state StStarting StStarted t3 in
              if ok then (ErrNone, t4) else udp_start_fail t4)"

definition udp_stop :: "transport \<Rightarrow> transport" where
  "udp_stop t =
     (let (ok, t1) = set_state StStarted StStopping t in
      if ok then post_channel_event EvDisconnected (shutdown_flow ShutRdwr t1) else t1)"

definition udp_async_read :: "bool \<Rightarrow> transport \<Rightarrow> (error_code \<times> transport) run" where
  "udp_async_read ok t =
     (if \<not> is_started t then Done (ErrUnstart, t)
      else
        let (changed, t1) = change_read_state ReadNone ReadPending t in
        if tp_rmode t = ReadModeLoop \<or> changed then
          run_map (\<lambda>(started, t2). (if changed \<and> started then ErrNone else ErrFault, t2)) (start_read_tracker ok t1)
        else Done (ErrFault, t1))"

text \<open>\<open>n\<close>: what \<open>sendto\<close> returned; a datagram is sent as a whole or not at all.\<close>

definition udp_send :: "byte list option \<Rightarrow> int \<Rightarrow> nat \<Rightarrow> int \<Rightarrow> transport \<Rightarrow> (error_code \<times> transport) run" where
  "udp_send b sz addr n t =
     (case b of
        None \<Rightarrow> Done (ErrInvalid, t)
      | Some bs \<Rightarrow>
          if sz \<le> 0 then Done (ErrInvalid, t)
          else if \<not> is_started t then Done (ErrUnstart, t)
          else if tp_flow t = None then Fault
          else if n < 0 then Done (ErrAgain, t)
          else run_map (\<lambda>data. (ErrNone, emit (OutSendTo addr data) t)) (mem_read bs 0 (nat sz)))"

definition udp_send_iob ::
  "io_buffer option \<Rightarrow> nat \<Rightarrow> int \<Rightarrow> transport \<Rightarrow> (error_code \<times> io_buffer option \<times> transport) run" where
  "udp_send_iob b addr n t =
     (case b of
        None \<Rightarrow> Done (ErrInvalid, b, t)
      | Some iob \<Rightarrow>
          if iob_size iob = 0 then Done (ErrInvalid, b, t)
          else if \<not> is_started t then Done (ErrUnstart, b, t)
          else if tp_flow t = None then Fault
          else if n < 0 then Done (ErrAgain, b, t)
          else
            Done (ErrNone, Some (snd (iob_shift (sint (iob_size iob)) iob)), emit (OutSendTo addr (iob_contents iob)) t))"

text \<open>
  \<open>addr\<close>, \<open>bs\<close>: the sender and the bytes that \<open>recvfrom\<close> gave; no bytes when it returned an
  error or the datagram was empty.
\<close>

definition udp_on_read_event :: "nat \<Rightarrow> byte list \<Rightarrow> bool \<Rightarrow> transport \<Rightarrow> transport run" where
  "udp_on_read_event addr bs ok t =
     (if tp_flow t = None then Fault
      else if bs \<noteq> [] then
        run_map (emit (OutReadFrom addr bs))
          (if tp_rmode t = ReadModeOnce then Done (snd (change_read_state ReadPending ReadNone t))
           else run_map snd (start_read_tracker ok t))
      else run_map snd (start_read_tracker ok t))"

definition udp_destroy :: "transport \<Rightarrow> transport" where
  "udp_destroy t = base_transport_destroy t"

section \<open>Steps\<close>

datatype udp_op =
    UStart bool read_mode transport_callbacks int bool bool
  | UStop
  | UAsyncRead bool
  | USend "byte list option" int nat int
  | USendIob "io_buffer option" nat int
  | URead nat "byte list" bool
  | UDeliver

fun udp_exec :: "udp_op \<Rightarrow> transport \<Rightarrow> transport run" where
  "udp_exec (UStart sv mode cbs fd open_ok ok_r) t = Done (snd (udp_start sv mode cbs fd open_ok ok_r t))"
| "udp_exec UStop t = Done (udp_stop t)"
| "udp_exec (UAsyncRead ok) t = run_map snd (udp_async_read ok t)"
| "udp_exec (USend b sz addr n) t = run_map snd (udp_send b sz addr n t)"
| "udp_exec (USendIob b addr n) t = run_map (\<lambda>r. snd (snd r)) (udp_send_iob b addr n t)"
| "udp_exec (URead addr bs ok) t = udp_on_read_event addr bs ok (t\<lparr>tp_r_tracker := untrack (tp_r_tracker t)\<rparr>)"
| "udp_exec UDeliver t =
     (case tp_posted t of
        [] \<Rightarrow> Done t
      | ev # rest \<Rightarrow> Done (base_on_channel_event (t\<lparr>tp_posted := rest\<rparr>)))"

fun udp_legal :: "udp_op \<Rightarrow> transport \<Rightarrow> bool" where
  "udp_legal (USend b sz addr n) t \<longleftrightarrow> (case b of None \<Rightarrow> True | Some bs \<Rightarrow> sz \<le> int (length bs))"
| "udp_legal (URead addr bs ok) t \<longleftrightarrow> is_tracked (tp_r_tracker t)"
| "udp_legal _ t \<longleftrightarrow> True"

inductive udp_reachable :: "transport \<Rightarrow> bool" where
  start: "udp_reachable udp_new"
| step: "udp_reachable t \<Longrightarrow> udp_legal op t \<Longrightarrow> udp_exec op t = Done t' \<Longrightarrow> udp_reachable t'"

definition udp_inv :: "transport \<Rightarrow> bool" where
  "udp_inv t \<longleftrightarrow>
     count_out OutStopped t = (if tp_state t = StStopped then 1 else 0) \<and> count_out OutDisconnected t = 0 \<and>
     (if tp_state t \<in> {StStarted, StStopping, StStopped}
      then tp_flow t \<noteq> None \<and> tp_service t \<and> has_poller (tp_r_tracker t) \<and>
           (tp_rmode t = ReadModeOnce \<or> tp_rmode t = ReadModeLoop) \<and>
           tp_posted t = (if tp_state t = StStopping then [EvDisconnected] else []) \<and>
           (is_tracked (tp_r_tracker t) \<longleftrightarrow> tp_rstate t = ReadPending) \<and> tp_rstate t \<noteq> ReadInvalid
      else (tp_state t = StNone \<and> tp_r_tracker t = None \<or> tp_state t = StError) \<and> tp_posted t = [] \<and>
           \<not> is_tracked (tp_r_tracker t) \<and> tp_rstate t = ReadNone)"

section \<open>The invariant\<close>

lemmas udp_ops = set_state_def is_started_def is_state_def change_read_state_def Let_def

lemma udp_start_inv:
  assumes "udp_inv t"
  shows "udp_inv (snd (udp_start sv mode cbs fd open_ok ok_r t))"
proof (cases "sv \<and> (mode = ReadModeOnce \<or> mode = ReadModeLoop) \<and> read_from_cb cbs \<and> stopped_cb cbs \<and> tp_state t = StNone")
  case False
  then show ?thesis using assms by (auto simp: udp_start_def udp_ops)
next
  case True
  then have "tp_r_tracker t = None" using assms by (simp add: udp_inv_def)
  then show ?thesis using True assms
    by (cases open_ok; cases ok_r)
      (auto simp: udp_start_def udp_start_fail_def udp_open_flow_def install_read_tracker_def udp_ops udp_inv_def
        close_flow_def emit_def count_out_def is_tracked_def has_poller_def)
qed

lemma udp_stop_inv: "udp_inv t \<Longrightarrow> udp_inv (udp_stop t)"
  by (auto simp: udp_stop_def udp_ops post_channel_event_def shutdown_flow_def emit_def udp_inv_def count_out_def)

lemma udp_deliver_inv:
  assumes "udp_inv t" and "tp_posted t = ev # rest"
  shows "udp_inv (base_on_channel_event (t\<lparr>tp_posted := rest\<rparr>))"
proof -
  have "tp_state t = StStopping" "rest = []" using assms by (auto simp: udp_inv_def split: if_splits)
  then show ?thesis using assms
    by (auto simp: base_on_channel_event_def trigger_disconnected_callback_def trigger_stopped_callback_def udp_ops
      shutdown_flow_def emit_def udp_inv_def count_out_def)
qed

text \<open>Starting the tracker arms it, whatever the kernel says.\<close>

lemma start_read_tracker_armed:
  assumes "has_poller (tp_r_tracker t)"
  shows "\<exists>r trk. start_read_tracker ok t = Done (r, t\<lparr>tp_r_tracker := Some trk\<rparr>) \<and> trk_tracked trk \<and> trk_poller trk"
  using assms by (cases "tp_r_tracker t") (auto simp: start_read_tracker_def start_tracker_def has_poller_def)

lemma udp_inv_armed:
  assumes "udp_inv t" and "tp_state t \<in> {StStarted, StStopping, StStopped}" and "tp_rstate t = ReadPending \<or> tp_rstate t = ReadNone"
    and "trk_poller trk" and "trk_tracked trk"
  shows "udp_inv (t\<lparr>tp_rstate := ReadPending, tp_r_tracker := Some trk\<rparr>)"
  using assms by (auto simp: udp_inv_def is_tracked_def has_poller_def count_out_def)

lemma udp_async_read_inv:
  assumes "udp_inv t"
  shows "\<exists>r t'. udp_async_read ok t = Done (r, t') \<and> udp_inv t'"
proof (cases "tp_state t = StStarted")
  case False
  then show ?thesis using assms by (simp add: udp_async_read_def udp_ops)
next
  case True
  have p: "has_poller (tp_r_tracker t)" and rs: "tp_rstate t = ReadPending \<or> tp_rstate t = ReadNone"
    using assms True by (cases "tp_rstate t"; simp add: udp_inv_def)+
  let ?t = "t\<lparr>tp_rstate := ReadPending\<rparr>"
  obtain r trk where s: "start_read_tracker ok ?t = Done (r, ?t\<lparr>tp_r_tracker := Some trk\<rparr>)" "trk_tracked trk" "trk_poller trk"
    using start_read_tracker_armed [of ?t ok] p by auto
  have i: "udp_inv (?t\<lparr>tp_r_tracker := Some trk\<rparr>)" using udp_inv_armed [OF assms _ rs s(3,2)] True by simp
  show ?thesis
  proof (cases "tp_rstate t = ReadNone")
    case True
    then show ?thesis using \<open>tp_state t = StStarted\<close> s(1) i by (simp add: udp_async_read_def udp_ops)
  next
    case False
    then have "?t = t" using rs by simp
    then show ?thesis using \<open>tp_state t = StStarted\<close> s(1) i False assms by (simp add: udp_async_read_def udp_ops)
  qed
qed

lemma udp_emit_inv: "udp_inv t \<Longrightarrow> out \<noteq> OutStopped \<Longrightarrow> out \<noteq> OutDisconnected \<Longrightarrow> udp_inv (emit out t)"
  by (simp add: udp_inv_def emit_def count_out_def)

lemma udp_send_inv:
  assumes "udp_inv t" and "udp_legal (USend b sz addr n) t"
  shows "\<exists>r t'. udp_send b sz addr n t = Done (r, t') \<and> udp_inv t'"
proof (cases b)
  case None
  then show ?thesis using assms by (simp add: udp_send_def)
next
  case (Some bs)
  have "tp_flow t \<noteq> None" if "is_started t" using assms(1) that by (simp add: udp_inv_def udp_ops)
  moreover have "mem_read bs 0 (nat sz) = Done (take (nat sz) bs)" using assms(2) Some by (auto simp: mem_read_def)
  ultimately show ?thesis using assms(1) Some by (auto simp: udp_send_def udp_emit_inv)
qed

lemma udp_send_iob_inv:
  assumes "udp_inv t"
  shows "\<exists>r b' t'. udp_send_iob b addr n t = Done (r, b', t') \<and> udp_inv t'"
proof -
  have "tp_flow t \<noteq> None" if "is_started t" using assms that by (simp add: udp_inv_def udp_ops)
  then show ?thesis using assms by (cases b) (auto simp: udp_send_iob_def udp_emit_inv)
qed

lemma udp_read_spec:
  assumes "udp_inv t" and "is_tracked (tp_r_tracker t)"
  shows "\<exists>t'. udp_exec (URead addr bs ok) t = Done t' \<and> udp_inv t' \<and>
    tp_trace t' = tp_trace t @ (if bs = [] then [] else [OutReadFrom addr bs]) \<and>
    (is_tracked (tp_r_tracker t') \<longleftrightarrow> bs = [] \<or> tp_rmode t = ReadModeLoop)"
proof -
  have st: "tp_state t \<in> {StStarted, StStopping, StStopped}" and fl: "tp_flow t \<noteq> None" and rs: "tp_rstate t = ReadPending"
    and p: "has_poller (tp_r_tracker t)" and m: "tp_rmode t = ReadModeOnce \<or> tp_rmode t = ReadModeLoop"
    using assms by (auto simp: udp_inv_def split: if_splits)
  let ?t = "t\<lparr>tp_r_tracker := untrack (tp_r_tracker t)\<rparr>"
  have pu: "has_poller (tp_r_tracker ?t)" using p by (cases "tp_r_tracker t") (simp_all add: has_poller_def untrack_def)
  obtain r trk where s: "start_read_tracker ok ?t = Done (r, ?t\<lparr>tp_r_tracker := Some trk\<rparr>)" "trk_tracked trk" "trk_poller trk"
    using start_read_tracker_armed [OF pu, of ok] by blast
  have same: "t\<lparr>tp_rstate := ReadPending, tp_r_tracker := Some trk\<rparr> = t\<lparr>tp_r_tracker := Some trk\<rparr>"
    using rs by (cases t) simp
  have armed: "udp_inv (t\<lparr>tp_r_tracker := Some trk\<rparr>)" using udp_inv_armed [OF assms(1) st _ s(3,2)] rs same by simp
  have idle: "udp_inv (?t\<lparr>tp_rstate := ReadNone\<rparr>)"
    using assms(1) st pu by (auto simp: udp_inv_def count_out_def is_tracked_def untrack_def split: option.splits)
  have nt: "\<not> is_tracked (untrack (tp_r_tracker t))" by (cases "tp_r_tracker t") (simp_all add: untrack_def is_tracked_def)
  show ?thesis
  proof (cases "bs = []")
    case True
    then show ?thesis using fl s armed by (simp add: udp_on_read_event_def is_tracked_def)
  next
    case Some: False
    show ?thesis
    proof (cases "tp_rmode t = ReadModeOnce")
      case True
      then have "udp_exec (URead addr bs ok) t = Done (emit (OutReadFrom addr bs) (?t\<lparr>tp_rstate := ReadNone\<rparr>))"
        using Some fl rs by (simp add: udp_on_read_event_def udp_ops)
      moreover have "udp_inv (emit (OutReadFrom addr bs) (?t\<lparr>tp_rstate := ReadNone\<rparr>))" by (rule udp_emit_inv [OF idle]) simp_all
      ultimately show ?thesis using Some True nt by (simp add: emit_def)
    next
      case False
      then have "udp_exec (URead addr bs ok) t = Done (emit (OutReadFrom addr bs) (t\<lparr>tp_r_tracker := Some trk\<rparr>))"
        using Some fl s(1) by (simp add: udp_on_read_event_def)
      moreover have "udp_inv (emit (OutReadFrom addr bs) (t\<lparr>tp_r_tracker := Some trk\<rparr>))" by (rule udp_emit_inv [OF armed]) simp_all
      ultimately show ?thesis using Some False m s(2) by (simp add: emit_def is_tracked_def)
    qed
  qed
qed

lemma udp_exec_inv:
  assumes "udp_inv t" and "udp_legal op t"
  shows "\<exists>t'. udp_exec op t = Done t' \<and> udp_inv t'"
proof (cases op)
  case (UAsyncRead ok)
  then show ?thesis using udp_async_read_inv [OF assms(1), of ok] by auto
next
  case (USend b sz addr n)
  then show ?thesis using udp_send_inv [of t b sz addr n] assms by auto
next
  case (USendIob b addr n)
  then show ?thesis using udp_send_iob_inv [OF assms(1), of b addr n] by auto
next
  case (URead addr bs ok)
  then show ?thesis using udp_read_spec [of t addr bs ok] assms by auto
next
  case UDeliver
  then show ?thesis using udp_deliver_inv assms(1) by (auto split: list.splits)
qed (use assms udp_start_inv udp_stop_inv in auto)

lemma udp_reachable_inv: "udp_reachable t \<Longrightarrow> udp_inv t"
proof (induction rule: udp_reachable.induct)
  case start
  then show ?case by (simp add: udp_new_def tcp_new_def udp_inv_def count_out_def is_tracked_def)
next
  case (step t op t')
  then show ?case using udp_exec_inv [of t op] by auto
qed


section \<open>What a UDP transport promises\<close>

text \<open>
  C19. Every call, event and delivery of a reachable UDP transport is accepted without an abort
  or a null pointer; the stopped callback is called exactly once, when the transport becomes
  stopped; and a read that was asked for stays armed: the tracker is tracked exactly while a
  read is pending.
\<close>

theorem udp_keeps_promises:
  assumes "udp_reachable t" and "udp_legal op t"
  shows "(\<exists>t'. udp_exec op t = Done t') \<and>
    count_out OutStopped t = (if tp_state t = StStopped then 1 else 0) \<and> count_out OutDisconnected t = 0 \<and>
    (is_tracked (tp_r_tracker t) \<longleftrightarrow> tp_rstate t = ReadPending)"
proof -
  have i: "udp_inv t" by (rule udp_reachable_inv [OF assms(1)])
  moreover have "tp_rstate t \<noteq> ReadPending" if "tp_state t \<notin> {StStarted, StStopping, StStopped}" using that i by (simp add: udp_inv_def)
  ultimately show ?thesis using udp_exec_inv [OF i assms(2)] by (auto simp: udp_inv_def split: if_splits)
qed

definition udp_example :: transport where
  "udp_example = snd (udp_start True ReadModeLoop
     \<lparr>read_cb = False, read_from_cb = True, sent_cb = False, disconnected_cb = False, stopped_cb = True\<rparr> 5 True True udp_new)"

definition udp_example_stopped :: transport where
  "udp_example_stopped = base_on_channel_event ((udp_stop (udp_example\<lparr>tp_rstate := ReadPending,
     tp_r_tracker := Some \<lparr>trk_tracked = True, trk_poller = True\<rparr>\<rparr>))\<lparr>tp_posted := []\<rparr>)"

lemmas udp_eval = udp_example_def udp_start_def udp_open_flow_def install_read_tracker_def udp_ops udp_new_def tcp_new_def

lemma udp_example_reachable: "udp_reachable udp_example"
  unfolding udp_example_def by (rule udp_reachable.step [OF udp_reachable.start, of "UStart True ReadModeLoop
     \<lparr>read_cb = False, read_from_cb = True, sent_cb = False, disconnected_cb = False, stopped_cb = True\<rparr> 5 True True"]) simp_all

lemma udp_example_stopped_reachable: "udp_reachable udp_example_stopped"
proof -
  let ?r = "udp_example\<lparr>tp_rstate := ReadPending, tp_r_tracker := Some \<lparr>trk_tracked = True, trk_poller = True\<rparr>\<rparr>"
  have "udp_reachable ?r"
    by (rule udp_reachable.step [OF udp_example_reachable, of "UAsyncRead True"])
      (simp_all add: udp_eval udp_async_read_def start_read_tracker_def start_tracker_def)
  then have s: "udp_reachable (udp_stop ?r)" by (rule udp_reachable.step [of _ UStop]) simp_all
  have "tp_posted (udp_stop ?r) = [EvDisconnected]"
    by (simp add: udp_eval udp_stop_def post_channel_event_def shutdown_flow_def emit_def)
  then show ?thesis unfolding udp_example_stopped_def
    by (intro udp_reachable.step [OF s, of UDeliver]) simp_all
qed

theorem udp_keeps_promises_witness:
  "count_out OutStopped udp_example_stopped = 1 \<and> (\<exists>t'. udp_exec (USend (Some [1, 2]) 2 7 2) udp_example_stopped = Done t')"
proof -
  have "tp_state udp_example_stopped = StStopped"
    by (simp add: udp_example_stopped_def udp_eval udp_stop_def post_channel_event_def shutdown_flow_def emit_def
      base_on_channel_event_def trigger_disconnected_callback_def trigger_stopped_callback_def)
  then show ?thesis using udp_keeps_promises [OF udp_example_stopped_reachable, of "USend (Some [1, 2]) 2 7 2"] by simp
qed

text \<open>
  A datagram that arrives while the tracker of a reachable UDP transport is tracked is
  handed to the read callback once and unchanged, and the tracker is tracked again in the loop
  mode or when nothing could be read; an empty datagram counts as nothing. The state is not asked: this goes on behind the stopped
  callback.
\<close>

theorem udp_hands_over_datagrams:
  assumes "udp_reachable t" and "is_tracked (tp_r_tracker t)"
  shows "\<exists>t'. udp_exec (URead addr bs ok) t = Done t' \<and>
    tp_trace t' = tp_trace t @ (if bs = [] then [] else [OutReadFrom addr bs]) \<and>
    (is_tracked (tp_r_tracker t') \<longleftrightarrow> bs = [] \<or> tp_rmode t = ReadModeLoop)"
  using udp_read_spec [OF udp_reachable_inv [OF assms(1)] assms(2)] by blast

theorem udp_hands_over_datagrams_witness:
  "\<exists>t'. udp_exec (URead 9 [1, 2, 3] True) udp_example_stopped = Done t' \<and>
    last (tp_trace t') = OutReadFrom 9 [1, 2, 3] \<and> OutStopped \<in> set (tp_trace t')"
proof -
  have f: "is_tracked (tp_r_tracker udp_example_stopped)" "OutStopped \<in> set (tp_trace udp_example_stopped)"
    by (simp_all add: udp_example_stopped_def udp_eval udp_stop_def post_channel_event_def shutdown_flow_def emit_def
      base_on_channel_event_def trigger_disconnected_callback_def trigger_stopped_callback_def is_tracked_def)
  obtain t' where "udp_exec (URead 9 [1, 2, 3] True) udp_example_stopped = Done t'"
    "tp_trace t' = tp_trace udp_example_stopped @ [OutReadFrom 9 [1, 2, 3]]"
    using udp_hands_over_datagrams [OF udp_example_stopped_reachable f(1), of 9 "[1, 2, 3]" True] by auto
  then show ?thesis using f(2) by auto
qed

end
