(* ===== verification/Dialer.thy ===== *)
theory Dialer
  imports Handshaker
begin

text \<open>
  The dialers: \<open>base_dialer\<close>, \<open>tcp_dialer\<close> with \<open>flow_tcp_dialer\<close>, \<open>tls_dialer\<close> with the
  handshaker it creates, and the synchronous dialers on top (transport/base_dialer, tcp_dialer,
  tls_dialer, flow/flow_tcp_dialer).

  \<open>dl_flow\<close> is null or the descriptor of the flow. Whether the socket can be created, bound and
  connected, what the kernel reports as the result of the connection, and what the service and
  the poller accept are arguments. A transport that is handed over is modelled by the flag of
  the callback, which tells whether there is one.
\<close>

section \<open>base_dialer\<close>

datatype dial_out = DialDone bool | DialTimeouted | DialStopped | DialShutdown

record dialer =
  dl_tls :: bool
  dl_xcred :: bool
  dl_state :: transport_state
  dl_flow :: "int option"
  dl_timer :: watch
  dl_tracker :: "tracker option"
  dl_posted :: nat
  dl_hs :: "handshaker option"
  dl_trace :: "dial_out list"

definition dl_new :: "bool \<Rightarrow> bool \<Rightarrow> dialer" where
  "dl_new tls xcred = \<lparr>dl_tls = tls, dl_xcred = xcred, dl_state = StNone, dl_flow = None, dl_timer = NoWatch,
     dl_tracker = None, dl_posted = 0, dl_hs = None, dl_trace = []\<rparr>"

definition dl_set_state :: "transport_state \<Rightarrow> transport_state \<Rightarrow> dialer \<Rightarrow> bool \<times> dialer" where
  "dl_set_state expected desired d =
     (if dl_state d = expected then (True, d\<lparr>dl_state := desired\<rparr>) else (False, d))"

definition dl_emit :: "dial_out \<Rightarrow> dialer \<Rightarrow> dialer" where
  "dl_emit out d = d\<lparr>dl_trace := dl_trace d @ [out]\<rparr>"

definition dl_post :: "dialer \<Rightarrow> dialer" where
  "dl_post d = d\<lparr>dl_posted := dl_posted d + 1\<rparr>"

definition dl_install_tracker :: "bool \<Rightarrow> dialer \<Rightarrow> bool \<times> dialer" where
  "dl_install_tracker ok d =
     (if dl_tracker d \<noteq> None then (False, d)
      else (ok, d\<lparr>dl_tracker := Some \<lparr>trk_tracked = ok, trk_poller = ok\<rparr>\<rparr>))"

definition dl_uninstall_tracker :: "dialer \<Rightarrow> dialer" where
  "dl_uninstall_tracker d = d\<lparr>dl_tracker := uninstall_tracker (dl_tracker d)\<rparr>"

definition dl_start_timer :: "bool \<Rightarrow> bool \<Rightarrow> dialer \<Rightarrow> bool \<times> dialer" where
  "dl_start_timer timed ok d = (let (r, w) = start_watch timed ok (dl_timer d) in (r, d\<lparr>dl_timer := w\<rparr>))"

definition dl_stop_timer :: "dialer \<Rightarrow> dialer" where
  "dl_stop_timer d = d\<lparr>dl_timer := stop_watch (dl_timer d)\<rparr>"

text \<open>\<open>flow_base::shutdown\<close> does nothing without a descriptor.\<close>

definition dl_shutdown_flow :: "dialer \<Rightarrow> dialer" where
  "dl_shutdown_flow d =
     (case dl_flow d of
        None \<Rightarrow> d
      | Some fd \<Rightarrow> if fd > 0 then dl_emit DialShutdown d else d)"

definition dl_interrupt :: "dialer \<Rightarrow> dialer" where
  "dl_interrupt d =
     (let (ok, d1) = dl_set_state StTimeouting StTimeouted d in
      if ok then dl_emit DialTimeouted (dl_shutdown_flow d1)
      else
        let (ok, d2) = dl_set_state StStopping StStopped d1 in
        if ok then dl_emit DialStopped (dl_shutdown_flow d2) else d2)"

definition dl_open_flow :: "int \<Rightarrow> bool \<Rightarrow> dialer \<Rightarrow> bool \<times> dialer" where
  "dl_open_flow fd ok d = (ok, d\<lparr>dl_flow := Some fd\<rparr>)"

definition dl_start_fail :: "dialer \<Rightarrow> error_code \<times> dialer" where
  "dl_start_fail d = (ErrFault, snd (dl_set_state StStarting StError (dl_stop_timer d)))"

definition dl_started :: "dialer \<Rightarrow> error_code \<times> dialer" where
  "dl_started d =
     (let (ok, d1) = dl_set_state StStarting StStarted d in if ok then (ErrNone, d1) else dl_start_fail d1)"

text \<open>
  The destructors: the flow closes its descriptor, then the tracker is taken from the poller.
  (The call of \<open>__close_dial_flow\<close> in the destructor of the base class reaches the empty one.)
\<close>

definition dl_destroy :: "dialer \<Rightarrow> dialer" where
  "dl_destroy d = dl_uninstall_tracker (d\<lparr>dl_flow := map_option (\<lambda>fd. if fd > 0 then - 1 else fd) (dl_flow d)\<rparr>)"

section \<open>tcp_dialer\<close>

definition tcp_dialer_start ::
  "bool \<Rightarrow> bool \<Rightarrow> int \<Rightarrow> bool \<Rightarrow> bool \<Rightarrow> bool \<Rightarrow> bool \<Rightarrow> bool \<Rightarrow> dialer \<Rightarrow> error_code \<times> dialer" where
  "tcp_dialer_start sv cbs fd open_ok timed timer_ok connect_ok trk_ok d =
     (if \<not> sv then (ErrInvalid, d)
      else if \<not> cbs then (ErrInvalid, d)
      else
        let (ok, d1) = dl_set_state StNone StStarting d in
        if \<not> ok then (ErrFault, d1)
        else
          let (ok, d2) = dl_open_flow fd open_ok d1 in
          if \<not> ok then dl_start_fail d2
          else
            let (ok, d3) = dl_start_timer timed timer_ok d2 in
            if \<not> ok then dl_start_fail d3
            else if \<not> connect_ok then dl_start_fail d3
            else
              let (ok, d4) = dl_install_tracker trk_ok d3 in
              if \<not> ok then dl_start_fail d4 else dl_started d4)"

definition tcp_dialer_stop :: "dialer \<Rightarrow> dialer" where
  "tcp_dialer_stop d =
     (let (ok, d1) = dl_set_state StStarted StStopping d in
      if ok then dl_post (dl_shutdown_flow (dl_stop_timer d1))
      else snd (dl_set_state StTimeouting StStopping d1))"

text \<open>\<open>ec\<close>: the error of the connection, 0 for none.\<close>

definition dl_connected :: "int \<Rightarrow> transport_state \<Rightarrow> dialer \<Rightarrow> (bool \<times> bool \<times> dialer) run" where
  "dl_connected ec good d =
     (let d1 = dl_uninstall_tracker (dl_stop_timer d) in
      case dl_flow d1 of
        None \<Rightarrow> Fault
      | Some fd \<Rightarrow>
          let success = (ec = 0); goal = (if success then good else StError);
              (ok, d2) = dl_set_state StStarting goal d1
          in if ok then Done (True, success, d2)
             else let (ok, d3) = dl_set_state StStarted goal d2 in Done (ok, success, d3))"

definition tcp_dialer_on_send_event :: "int \<Rightarrow> bool \<Rightarrow> dialer \<Rightarrow> dialer run" where
  "tcp_dialer_on_send_event ec transport_ok d =
     run_bind (dl_connected ec StFinished d) (\<lambda>(ok, success, d1).
       if \<not> ok then Done d1
       else if success \<and> transport_ok then Done (dl_emit (DialDone True) (d1\<lparr>dl_flow := Some (- 1)\<rparr>))
       else Done (dl_emit (DialDone False) d1))"

definition dialer_on_timeout :: "dialer \<Rightarrow> dialer" where
  "dialer_on_timeout d = (let (ok, d1) = dl_set_state StStarted StTimeouting d in if ok then dl_post d1 else d1)"

section \<open>tls_dialer\<close>

definition tls_dialer_start ::
  "bool \<Rightarrow> bool \<Rightarrow> int \<Rightarrow> bool \<Rightarrow> bool \<Rightarrow> bool \<Rightarrow> bool \<Rightarrow> bool \<Rightarrow> dialer \<Rightarrow> error_code \<times> dialer" where
  "tls_dialer_start sv cbs fd open_ok timed timer_ok connect_ok trk_ok d =
     (if \<not> sv then (ErrInvalid, d)
      else if \<not> cbs then (ErrInvalid, d)
      else if \<not> dl_xcred d then (ErrInvalid, d)
      else
        let (ok, d1) = dl_set_state StNone StStarting d in
        if \<not> ok then (ErrFault, d1)
        else
          let (ok, d2) = dl_open_flow fd open_ok d1 in
          if \<not> ok then dl_start_fail d2
          else if \<not> connect_ok then dl_start_fail d2
          else
            let (ok, d3) = dl_start_timer timed timer_ok d2 in
            if \<not> ok then dl_start_fail d3
            else
              let (ok, d4) = dl_install_tracker trk_ok d3 in
              if \<not> ok then dl_start_fail d4 else dl_started d4)"

definition tls_dialer_stop :: "dialer \<Rightarrow> dialer" where
  "tls_dialer_stop d =
     (let (ok, d1) = dl_set_state StStarted StStopping d in
      if ok then dl_post (dl_shutdown_flow (dl_stop_timer d1))
      else
        let (ok, d2) = dl_set_state StHandshaking StStopping d1 in
        if ok then dl_post (dl_shutdown_flow d2)
        else snd (dl_set_state StTimeouting StStopping d2))"

text \<open>What the handshaker that a connected dialer creates will meet.\<close>

record hs_setup =
  hs_alloc :: bool
  hs_new_flow :: bool
  hs_flow_ok :: bool
  hs_phase :: tls_handshake_phase
  hs_timed :: bool
  hs_timer_ok :: bool
  hs_trk_ok :: bool

definition tls_dialer_handshake :: "hs_setup \<Rightarrow> dialer \<Rightarrow> bool \<times> dialer" where
  "tls_dialer_handshake hs d =
     (if \<not> hs_alloc hs then (False, d\<lparr>dl_hs := None\<rparr>)
      else
        let (ok, h1) = hk_init (hs_new_flow hs) (hs_flow_ok hs) hk_new;
            d1 = d\<lparr>dl_flow := Some (- 1), dl_hs := Some h1\<rparr>
        in if \<not> ok then (False, d1)
           else
             let (ok, h2) = hk_start True True (hs_phase hs) (hs_timed hs) (hs_timer_ok hs) (hs_trk_ok hs) h1
             in (ok, d1\<lparr>dl_hs := Some h2\<rparr>))"

definition tls_dialer_on_send_event :: "int \<Rightarrow> hs_setup \<Rightarrow> dialer \<Rightarrow> dialer run" where
  "tls_dialer_on_send_event ec hs d =
     run_bind (dl_connected ec StHandshaking d) (\<lambda>(ok, success, d1).
       if \<not> ok then Done d1
       else
         let (done_ok, d2) = (if success then tls_dialer_handshake hs d1 else (False, d1)) in
         if done_ok then Done d2
         else
           let (ok, d3) = dl_set_state StHandshaking StError d2 in
           Done (if ok then dl_emit (DialDone False) d3 else d3))"

text \<open>The callbacks of the handshaker; \<open>on_handshake_stopped\<close> does nothing.\<close>

definition tls_dialer_on_handshaked :: "bool \<Rightarrow> bool \<Rightarrow> dialer \<Rightarrow> dialer" where
  "tls_dialer_on_handshaked transport_ok success d =
     (let (ok, d1) = dl_set_state StHandshaking StFinished d in
      if \<not> ok then d1
      else if success \<and> transport_ok
      then dl_emit (DialDone True) (d1\<lparr>dl_hs := map_option hk_unlock_flow (dl_hs d1)\<rparr>)
      else dl_emit (DialDone False) d1)"

definition tls_dialer_on_hs_out :: "bool \<Rightarrow> hk_out \<Rightarrow> dialer \<Rightarrow> dialer" where
  "tls_dialer_on_hs_out transport_ok out d =
     (case out of HkHandshaked success \<Rightarrow> tls_dialer_on_handshaked transport_ok success d | _ \<Rightarrow> d)"

section \<open>Steps\<close>

text \<open>
  The owner starts and stops the dialer; the poller reports the tracked socket and delivers
  posted events; the timer fires once; events of the handshaker of a TLS dialer.
\<close>

datatype dl_op =
    DlStart bool bool int bool bool bool bool bool
  | DlStop
  | DlSend int bool hs_setup
  | DlTimeout
  | DlDeliver
  | DlHs hk_op bool

fun dl_exec :: "dl_op \<Rightarrow> dialer \<Rightarrow> dialer run" where
  "dl_exec (DlStart sv cbs fd open_ok timed timer_ok connect_ok trk_ok) d =
     Done (snd (if dl_tls d then tls_dialer_start sv cbs fd open_ok timed timer_ok connect_ok trk_ok d
                else tcp_dialer_start sv cbs fd open_ok timed timer_ok connect_ok trk_ok d))"
| "dl_exec DlStop d = Done (if dl_tls d then tls_dialer_stop d else tcp_dialer_stop d)"
| "dl_exec (DlSend ec transport_ok hs) d =
     (let d1 = d\<lparr>dl_tracker := map_option (\<lambda>k. k\<lparr>trk_tracked := False\<rparr>) (dl_tracker d)\<rparr> in
      if dl_tls d then tls_dialer_on_send_event ec hs d1 else tcp_dialer_on_send_event ec transport_ok d1)"
| "dl_exec DlTimeout d = Done (dialer_on_timeout (d\<lparr>dl_timer := WatchDone\<rparr>))"
| "dl_exec DlDeliver d = Done (dl_interrupt (d\<lparr>dl_posted := dl_posted d - 1\<rparr>))"
| "dl_exec (DlHs op transport_ok) d =
     (case dl_hs d of
        None \<Rightarrow> Fault
      | Some h \<Rightarrow>
          run_map (\<lambda>h'. fold (tls_dialer_on_hs_out transport_ok) (drop (length (hk_trace h)) (hk_trace h'))
              (d\<lparr>dl_hs := Some h'\<rparr>))
            (hk_exec op h))"

fun hs_event :: "hk_op \<Rightarrow> bool" where
  "hs_event (HkIo phase ok) = True"
| "hs_event HkTimeout = True"
| "hs_event HkDeliver = True"
| "hs_event _ = False"

fun dl_legal :: "dl_op \<Rightarrow> dialer \<Rightarrow> bool" where
  "dl_legal (DlSend ec ok hs) d \<longleftrightarrow> tracked (dl_tracker d)"
| "dl_legal DlTimeout d \<longleftrightarrow> dl_timer d = Watching"
| "dl_legal DlDeliver d \<longleftrightarrow> 0 < dl_posted d"
| "dl_legal (DlHs op ok) d \<longleftrightarrow> hs_event op \<and> (case dl_hs d of None \<Rightarrow> False | Some h \<Rightarrow> hk_legal op h)"
| "dl_legal _ d \<longleftrightarrow> True"

inductive dl_steps :: "dialer \<Rightarrow> dialer \<Rightarrow> bool" where
  refl: "dl_steps d d"
| step: "dl_steps d d' \<Longrightarrow> dl_legal op d' \<Longrightarrow> dl_exec op d' = Done d'' \<Longrightarrow> dl_steps d d''"

definition dl_reports :: "dialer \<Rightarrow> dial_out list" where
  "dl_reports d = filter (\<lambda>out. out \<noteq> DialShutdown) (dl_trace d)"

text \<open>What the callbacks must have been in each state.\<close>

definition dl_reported :: "dialer \<Rightarrow> bool" where
  "dl_reported d \<longleftrightarrow>
     (case dl_state d of
        StFinished \<Rightarrow> dl_reports d \<in> {[DialDone True], [DialDone False]}
      | StTimeouted \<Rightarrow> dl_reports d = [DialTimeouted]
      | StStopped \<Rightarrow> dl_reports d = [DialStopped]
      | StError \<Rightarrow>
          (if dl_tls d then dl_reports d \<in> {[], [DialDone False]}
           else dl_reports d = (if has_trk_poller (dl_tracker d) then [DialDone False] else []))
      | _ \<Rightarrow> dl_reports d = [])"

text \<open>A handshaker that has not come to its end and waits for an event.\<close>

definition hs_running :: "handshaker option \<Rightarrow> bool" where
  "hs_running hs = (case hs of None \<Rightarrow> False | Some h \<Rightarrow> hk_state h \<in> {StStarted, StTimeouting})"

definition dl_inv :: "dialer \<Rightarrow> bool" where
  "dl_inv d \<longleftrightarrow>
     dl_reported d \<and>
     (case dl_hs d of None \<Rightarrow> True | Some h \<Rightarrow> dl_tls d \<and> hk_inv h) \<and>
     (case dl_state d of
        StNone \<Rightarrow> dl_timer d = NoWatch \<and> dl_tracker d = None \<and> dl_posted d = 0 \<and> dl_hs d = None
      | StStarted \<Rightarrow> dl_flow d \<noteq> None \<and> has_trk_poller (dl_tracker d) \<and> tracked (dl_tracker d) \<and> dl_posted d = 0 \<and> dl_hs d = None
      | StHandshaking \<Rightarrow> dl_tls d \<and> dl_flow d \<noteq> None \<and> has_trk_poller (dl_tracker d) \<and> \<not> tracked (dl_tracker d) \<and> dl_posted d = 0 \<and>
          dl_timer d \<noteq> Watching \<and> hs_running (dl_hs d)
      | StTimeouting \<Rightarrow> dl_flow d \<noteq> None \<and> has_trk_poller (dl_tracker d) \<and> dl_posted d = 1 \<and> dl_timer d = WatchDone
      | StStopping \<Rightarrow> dl_flow d \<noteq> None \<and> has_trk_poller (dl_tracker d) \<and> dl_posted d = 1 \<and> dl_timer d \<noteq> Watching
      | StStarting \<Rightarrow> False
      | StDisconnecting \<Rightarrow> False
      | StDisconnected \<Rightarrow> False
      | StError \<Rightarrow> \<not> tracked (dl_tracker d) \<and> dl_posted d = 0 \<and> dl_timer d \<noteq> Watching
      | StFinished \<Rightarrow> \<not> tracked (dl_tracker d) \<and> dl_posted d = 0 \<and> dl_timer d \<noteq> Watching
      | _ \<Rightarrow> dl_posted d = 0 \<and> dl_timer d \<noteq> Watching \<and> dl_flow d \<noteq> None)"


section \<open>What a handshaker tells its dialer\<close>

definition hk_next :: "handshaker \<Rightarrow> handshaker \<Rightarrow> bool" where
  "hk_next h h' \<longleftrightarrow> (\<exists>outs. hk_trace h' = hk_trace h @ outs) \<and>
     (hk_state h \<notin> {StNone, StStopping, StStopped} \<longrightarrow> hk_state h' \<notin> {StNone, StStopping, StStopped})"

lemma hk_next_finished: "hk_finished h = Done h' \<Longrightarrow> hk_next h h'"
  by (auto simp: hk_next_def hk_finished_def hk_ops split: option.splits if_splits)

lemma hk_next_failed: "hk_failed h = Done h' \<Longrightarrow> hk_next h h'"
  using hk_next_finished [of "h\<lparr>hk_state := StError\<rparr>" h'] by (auto simp: hk_next_def hk_failed_def hk_ops split: if_splits)

lemma hk_next_cong: "hk_next h1 h' \<Longrightarrow> hk_trace h1 = hk_trace h \<Longrightarrow> hk_state h1 = hk_state h \<Longrightarrow> hk_next h h'"
  by (simp add: hk_next_def)

lemma hk_next_track: "hk_track ph ok h = Done h' \<Longrightarrow> hk_next h h'"
proof -
  assume t: "hk_track ph ok h = Done h'"
  obtain trk where trk: "hk_tracker h = Some trk" "trk_poller trk" using t by (auto simp: hk_track_def split: option.splits if_splits)
  obtain r k where r: "start_tracker ok trk = (r, k)" by fastforce
  let ?h = "h\<lparr>hk_tracker := Some k, hk_expects := ph\<rparr>"
  have "h' = ?h \<or> hk_failed ?h = Done h'" using t trk r by (auto simp: hk_track_def Let_def split: if_splits)
  then show ?thesis
  proof
    assume "h' = ?h"
    then show ?thesis by (simp add: hk_next_def)
  next
    assume "hk_failed ?h = Done h'"
    then show ?thesis by (rule hk_next_cong [OF hk_next_failed]) simp_all
  qed
qed

lemma hk_next_process: "hk_process phase ok h = Done h' \<Longrightarrow> hk_next h h'"
proof (cases phase)
  case HsOk
  assume "hk_process phase ok h = Done h'"
  then have "(hk_state h = StStarted \<and> hk_finished (h\<lparr>hk_state := StFinished\<rparr>) = Done h') \<or> h' = h"
    using HsOk by (auto simp: hk_process_def hk_ops split: if_splits)
  then show ?thesis using hk_next_finished [of "h\<lparr>hk_state := StFinished\<rparr>" h'] by (auto simp: hk_next_def)
qed (auto simp: hk_process_def dest: hk_next_track hk_next_failed split: if_splits)

lemma hk_next_exec:
  assumes "hs_event op" and "hk_exec op h = Done h'"
  shows "hk_next h h'"
proof (cases op)
  case (HkIo phase ok)
  then show ?thesis using assms by (auto intro: hk_next_cong [OF hk_next_process])
next
  case HkTimeout
  then show ?thesis using assms by (auto simp: hk_next_def hk_on_timeout_def hk_ops split: if_splits)
next
  case HkDeliver
  then show ?thesis using assms by (auto intro: hk_next_cong [OF hk_next_finished])
qed (use assms in simp_all)

definition keeps_poller :: "handshaker \<Rightarrow> handshaker \<Rightarrow> bool" where
  "keeps_poller h h' \<longleftrightarrow> has_trk_poller (hk_tracker h') = has_trk_poller (hk_tracker h)"

lemma keeps_poller_finished: "hk_finished h = Done h' \<Longrightarrow> keeps_poller h h'"
  by (auto simp: keeps_poller_def hk_finished_def hk_ops has_trk_poller_def uninstall_tracker_def split: option.splits if_splits)

lemma keeps_poller_failed: "hk_failed h = Done h' \<Longrightarrow> keeps_poller h h'"
  using keeps_poller_finished [of "h\<lparr>hk_state := StError\<rparr>" h']
  by (auto simp: keeps_poller_def hk_failed_def hk_ops split: if_splits)

lemma keeps_poller_track: "hk_track ph ok h = Done h' \<Longrightarrow> keeps_poller h h'"
proof -
  assume t: "hk_track ph ok h = Done h'"
  obtain trk where trk: "hk_tracker h = Some trk" "trk_poller trk" using t by (auto simp: hk_track_def split: option.splits if_splits)
  obtain r k where r: "start_tracker ok trk = (r, k)" by fastforce
  then have k: "trk_poller k" using trk(2) by (auto simp: start_tracker_def split: if_splits)
  let ?h = "h\<lparr>hk_tracker := Some k, hk_expects := ph\<rparr>"
  have "h' = ?h \<or> hk_failed ?h = Done h'" using t trk r by (auto simp: hk_track_def Let_def split: if_splits)
  then have "has_trk_poller (hk_tracker h') = has_trk_poller (hk_tracker ?h)"
    using keeps_poller_failed [of ?h h'] by (auto simp: keeps_poller_def)
  then show ?thesis using trk k by (simp add: keeps_poller_def has_trk_poller_def)
qed

lemma keeps_poller_process: "hk_process phase ok h = Done h' \<Longrightarrow> keeps_poller h h'"
proof (cases phase)
  case HsOk
  assume "hk_process phase ok h = Done h'"
  then have "(hk_state h = StStarted \<and> hk_finished (h\<lparr>hk_state := StFinished\<rparr>) = Done h') \<or> h' = h"
    using HsOk by (auto simp: hk_process_def hk_ops split: if_splits)
  then show ?thesis using keeps_poller_finished [of "h\<lparr>hk_state := StFinished\<rparr>" h'] by (auto simp: keeps_poller_def)
qed (auto simp: hk_process_def dest: keeps_poller_track keeps_poller_failed split: if_splits)

lemma hk_keeps_poller:
  assumes "hs_event op" and "hk_exec op h = Done h'"
  shows "has_trk_poller (hk_tracker h') = has_trk_poller (hk_tracker h)"
proof (cases op)
  case (HkIo phase ok)
  then show ?thesis using assms keeps_poller_process [of phase ok _ h']
    by (fastforce simp: keeps_poller_def has_trk_poller_def split: option.splits)
next
  case HkTimeout
  then show ?thesis using assms by (auto simp: hk_on_timeout_def hk_ops split: if_splits)
next
  case HkDeliver
  then show ?thesis using assms keeps_poller_finished [of _ h'] by (fastforce simp: keeps_poller_def)
qed (use assms in simp_all)

text \<open>
  While the handshaker runs an event either leaves it running and silent, or brings it to its
  end with one \<open>handshaked\<close> callback.
\<close>

lemma hs_event_outs:
  assumes "hk_inv h" and "hk_state h \<in> {StStarted, StTimeouting}" and "hs_event op" and "hk_legal op h"
  shows "\<exists>h' outs. hk_exec op h = Done h' \<and> hk_inv h' \<and> hk_trace h' = hk_trace h @ outs \<and>
    (if hk_state h' \<in> {StStarted, StTimeouting} then filter (\<lambda>out. out \<noteq> HkCloseFd) outs = []
     else \<exists>s. filter (\<lambda>out. out \<noteq> HkCloseFd) outs = [HkHandshaked s])"
proof -
  obtain h' where h': "hk_exec op h = Done h'" "hk_inv h'" using hk_exec_inv [OF assms(1,4)] by blast
  have n: "hk_next h h'" by (rule hk_next_exec [OF assms(3) h'(1)])
  then obtain outs where outs: "hk_trace h' = hk_trace h @ outs" by (auto simp: hk_next_def)
  have st: "hk_state h' \<notin> {StNone, StStopping, StStopped}" using n assms(2) by (auto simp: hk_next_def)
  have "hk_reports h = []" using assms(1,2) by (auto simp: hk_invs)
  then have r: "filter (\<lambda>out. out \<noteq> HkCloseFd) outs = hk_report h'"
    using h'(2) outs by (simp add: hk_inv_def hk_reports_def)
  have "has_trk_poller (hk_tracker h')" if "hk_state h' = StError"
  proof (rule ccontr)
    assume np: "\<not> has_trk_poller (hk_tracker h')"
    have "has_trk_poller (hk_tracker h)" using assms(1,2) by (auto simp: hk_invs)
    then have "has_trk_poller (hk_tracker h')" using hk_keeps_poller [OF assms(3) h'(1)] by simp
    then show False using np by simp
  qed
  then have "if hk_state h' \<in> {StStarted, StTimeouting} then hk_report h' = [] else \<exists>s. hk_report h' = [HkHandshaked s]"
    using st h'(2) by (cases "hk_state h'") (auto simp: hk_inv_def hk_report_def)
  then show ?thesis using h' outs r by auto
qed

lemma fold_hs_outs:
  "fold (tls_dialer_on_hs_out ok) outs d = fold (tls_dialer_on_hs_out ok) (filter (\<lambda>out. out \<noteq> HkCloseFd) outs) d"
  by (induction outs arbitrary: d) (auto simp: tls_dialer_on_hs_out_def)


section \<open>The invariant\<close>

lemma dl_reports_simps [simp]:
  "dl_reports (d\<lparr>dl_state := st\<rparr>) = dl_reports d" "dl_reports (d\<lparr>dl_flow := fl\<rparr>) = dl_reports d"
  "dl_reports (d\<lparr>dl_timer := w\<rparr>) = dl_reports d" "dl_reports (d\<lparr>dl_tracker := trk\<rparr>) = dl_reports d"
  "dl_reports (d\<lparr>dl_posted := n\<rparr>) = dl_reports d" "dl_reports (d\<lparr>dl_hs := hs\<rparr>) = dl_reports d"
  "dl_reports (d\<lparr>dl_trace := tr @ outs\<rparr>) = dl_reports (d\<lparr>dl_trace := tr\<rparr>) @ filter (\<lambda>out. out \<noteq> DialShutdown) outs"
  "dl_reports (d\<lparr>dl_trace := dl_trace d\<rparr>) = dl_reports d"
  by (simp_all add: dl_reports_def)

lemma dl_shutdown_simps [simp]:
  "dl_reports (dl_shutdown_flow d) = dl_reports d" "dl_state (dl_shutdown_flow d) = dl_state d"
  "dl_flow (dl_shutdown_flow d) = dl_flow d" "dl_timer (dl_shutdown_flow d) = dl_timer d"
  "dl_tracker (dl_shutdown_flow d) = dl_tracker d" "dl_posted (dl_shutdown_flow d) = dl_posted d"
  "dl_hs (dl_shutdown_flow d) = dl_hs d" "dl_tls (dl_shutdown_flow d) = dl_tls d"
  by (auto simp: dl_shutdown_flow_def dl_emit_def split: option.splits)

lemmas dl_ops = dl_set_state_def dl_post_def dl_stop_timer_def Let_def
lemmas dl_starts = dl_open_flow_def dl_start_timer_def dl_install_tracker_def dl_start_fail_def dl_started_def start_watch_def
lemmas dl_invs = dl_inv_def dl_reported_def

lemma poller_simps [simp]:
  "has_trk_poller None = False" "tracked None = False"
  "has_trk_poller (Some k) = trk_poller k" "tracked (Some k) = trk_tracked k"
  by (simp_all add: has_trk_poller_def tracked_def)

lemma tcp_dialer_start_inv:
  assumes "dl_inv d" and "\<not> dl_tls d"
  shows "dl_inv (snd (tcp_dialer_start sv cbs fd open_ok timed timer_ok connect_ok trk_ok d))"
proof (cases "sv \<and> cbs \<and> dl_state d = StNone")
  case False
  then show ?thesis using assms by (auto simp: tcp_dialer_start_def dl_ops)
next
  case True
  then show ?thesis using assms
    by (cases open_ok; cases timed; cases timer_ok; cases connect_ok; cases trk_ok)
      (simp_all add: tcp_dialer_start_def dl_starts dl_ops dl_invs)
qed

lemma tls_dialer_start_inv:
  assumes "dl_inv d" and "dl_tls d"
  shows "dl_inv (snd (tls_dialer_start sv cbs fd open_ok timed timer_ok connect_ok trk_ok d))"
proof (cases "sv \<and> cbs \<and> dl_xcred d \<and> dl_state d = StNone")
  case False
  then show ?thesis using assms by (auto simp: tls_dialer_start_def dl_ops)
next
  case True
  then show ?thesis using assms
    by (cases open_ok; cases timed; cases timer_ok; cases connect_ok; cases trk_ok)
      (simp_all add: tls_dialer_start_def dl_starts dl_ops dl_invs)
qed

lemma tcp_dialer_stop_inv: "dl_inv d \<Longrightarrow> dl_inv (tcp_dialer_stop d)"
  by (cases "dl_state d") (auto simp: tcp_dialer_stop_def dl_ops dl_invs split: option.splits)

lemma tls_dialer_stop_inv: "dl_inv d \<Longrightarrow> dl_inv (tls_dialer_stop d)"
  by (cases "dl_state d") (auto simp: tls_dialer_stop_def dl_ops dl_invs split: option.splits)

lemma dl_timeout_inv: "dl_inv d \<Longrightarrow> dl_timer d = Watching \<Longrightarrow> dl_inv (dialer_on_timeout (d\<lparr>dl_timer := WatchDone\<rparr>))"
  by (cases "dl_state d") (auto simp: dialer_on_timeout_def dl_ops dl_invs split: option.splits)

lemma dl_deliver_inv: "dl_inv d \<Longrightarrow> 0 < dl_posted d \<Longrightarrow> dl_inv (dl_interrupt (d\<lparr>dl_posted := dl_posted d - 1\<rparr>))"
  by (cases "dl_state d") (auto simp: dl_interrupt_def dl_emit_def dl_ops dl_invs split: option.splits)

text \<open>A socket event, seen by what it finds: the dialer is still waiting for it, or not any more.\<close>

lemma dl_connected_late:
  assumes "dl_inv d" and "tracked (dl_tracker d)" and "dl_state d \<noteq> StStarted"
  shows "\<exists>success d'. dl_connected ec good (d\<lparr>dl_tracker := map_option (\<lambda>k. k\<lparr>trk_tracked := False\<rparr>) (dl_tracker d)\<rparr>) =
    Done (False, success, d') \<and> dl_inv d'"
proof -
  obtain k where k: "dl_tracker d = Some k" "trk_tracked k" using assms(2) by (cases "dl_tracker d") auto
  have st: "dl_state d \<in> {StTimeouting, StStopping, StTimeouted, StStopped}" and fl: "dl_flow d \<noteq> None"
    using assms k by (auto simp: dl_invs split: transport_state.splits)
  define d' where "d' = d\<lparr>dl_tracker := uninstall_tracker (Some (k\<lparr>trk_tracked := False\<rparr>)), dl_timer := stop_watch (dl_timer d)\<rparr>"
  have "dl_inv d'" using assms(1) st k(1)
    by (cases "dl_state d") (auto simp: d'_def dl_invs uninstall_tracker_def split: option.splits)
  moreover obtain fd where "dl_flow d = Some fd" using fl by blast
  then have "dl_connected ec good (d\<lparr>dl_tracker := map_option (\<lambda>k. k\<lparr>trk_tracked := False\<rparr>) (dl_tracker d)\<rparr>) =
      Done (False, ec = 0, d')"
    using st k(1) by (auto simp: dl_connected_def dl_ops dl_uninstall_tracker_def d'_def)
  ultimately show ?thesis by blast
qed

lemma dl_connected_waiting:
  assumes "dl_inv d" and "dl_state d = StStarted"
  shows "\<exists>d'. dl_connected ec good (d\<lparr>dl_tracker := map_option (\<lambda>k. k\<lparr>trk_tracked := False\<rparr>) (dl_tracker d)\<rparr>) =
    Done (True, ec = 0, d') \<and> dl_state d' = (if ec = 0 then good else StError) \<and> dl_tls d' = dl_tls d \<and>
    dl_reports d' = [] \<and> dl_posted d' = 0 \<and> dl_hs d' = None \<and> dl_timer d' \<noteq> Watching \<and> dl_flow d' \<noteq> None \<and>
    has_trk_poller (dl_tracker d') \<and> \<not> tracked (dl_tracker d')"
proof -
  obtain k fd where k: "dl_tracker d = Some k" "trk_poller k" "dl_flow d = Some fd"
    using assms by (cases "dl_tracker d") (auto simp: dl_invs)
  have f: "dl_reports d = []" "dl_posted d = 0" "dl_hs d = None" using assms by (simp_all add: dl_invs)
  define d' where "d' = d\<lparr>dl_tracker := uninstall_tracker (Some (k\<lparr>trk_tracked := False\<rparr>)), dl_timer := stop_watch (dl_timer d),
    dl_state := (if ec = 0 then good else StError)\<rparr>"
  have "dl_connected ec good (d\<lparr>dl_tracker := map_option (\<lambda>k. k\<lparr>trk_tracked := False\<rparr>) (dl_tracker d)\<rparr>) = Done (True, ec = 0, d')"
    using assms(2) k by (auto simp: dl_connected_def dl_ops dl_uninstall_tracker_def d'_def)
  then show ?thesis using f k by (intro exI [of _ d']) (auto simp: d'_def uninstall_tracker_def)
qed

lemma tcp_dialer_send_inv:
  assumes "dl_inv d" and "\<not> dl_tls d" and "tracked (dl_tracker d)"
  shows "\<exists>d'. tcp_dialer_on_send_event ec ok (d\<lparr>dl_tracker := map_option (\<lambda>k. k\<lparr>trk_tracked := False\<rparr>) (dl_tracker d)\<rparr>) = Done d' \<and>
    dl_inv d'"
proof (cases "dl_state d = StStarted")
  case True
  obtain d1 where d1: "dl_connected ec StFinished (d\<lparr>dl_tracker := map_option (\<lambda>k. k\<lparr>trk_tracked := False\<rparr>) (dl_tracker d)\<rparr>) =
      Done (True, ec = 0, d1)" "dl_state d1 = (if ec = 0 then StFinished else StError)" "dl_tls d1 = dl_tls d"
      "dl_reports d1 = []" "dl_posted d1 = 0" "dl_hs d1 = None" "dl_timer d1 \<noteq> Watching"
      "has_trk_poller (dl_tracker d1)" "\<not> tracked (dl_tracker d1)"
    using dl_connected_waiting [OF assms(1) True, of ec StFinished] by auto
  let ?d = "if ec = 0 \<and> ok then dl_emit (DialDone True) (d1\<lparr>dl_flow := Some (- 1)\<rparr>) else dl_emit (DialDone False) d1"
  have "tcp_dialer_on_send_event ec ok (d\<lparr>dl_tracker := map_option (\<lambda>k. k\<lparr>trk_tracked := False\<rparr>) (dl_tracker d)\<rparr>) = Done ?d"
    using d1(1) by (simp add: tcp_dialer_on_send_event_def)
  moreover have "dl_inv ?d"
    using d1(2-) assms(2) by (cases "ec = 0"; cases ok) (simp_all add: dl_invs dl_emit_def)
  ultimately show ?thesis by blast
next
  case False
  then obtain success d1 where "dl_connected ec StFinished (d\<lparr>dl_tracker := map_option (\<lambda>k. k\<lparr>trk_tracked := False\<rparr>) (dl_tracker d)\<rparr>) =
      Done (False, success, d1)" "dl_inv d1"
    using dl_connected_late [OF assms(1,3)] by blast
  then show ?thesis by (simp add: tcp_dialer_on_send_event_def)
qed

lemma tls_dialer_handshake_spec:
  assumes "tls_dialer_handshake hs d = (ok, d')"
  shows "\<exists>fl h. d' = d\<lparr>dl_flow := fl, dl_hs := h\<rparr> \<and> (dl_flow d \<noteq> None \<longrightarrow> fl \<noteq> None) \<and>
    (case h of None \<Rightarrow> True | Some h \<Rightarrow> hk_inv h) \<and> (ok \<longrightarrow> hs_running h)"
proof (cases "hs_alloc hs")
  case False
  then have "\<not> ok \<and> d' = d\<lparr>dl_flow := dl_flow d, dl_hs := None\<rparr>" using assms by (simp add: tls_dialer_handshake_def)
  then show ?thesis by (intro exI [of _ "dl_flow d"] exI [of _ None]) simp
next
  case True
  obtain i h1 where i: "hk_init (hs_new_flow hs) (hs_flow_ok hs) hk_new = (i, h1)" by fastforce
  obtain r h2 where r: "hk_start True True (hs_phase hs) (hs_timed hs) (hs_timer_ok hs) (hs_trk_ok hs) h1 = (r, h2)" by fastforce
  have "hk_inv hk_new" by (rule hk_reachable_inv [OF hk_reachable.start])
  then have i1: "hk_inv h1" using hk_init_inv [of hk_new "hs_new_flow hs" "hs_flow_ok hs"] i by (simp add: hk_new_def)
  have i2: "hk_inv h2" using hk_start_inv [OF i1] r by (metis snd_conv)
  have "hk_state h2 = StStarted" if r
    using that r by (auto simp: hk_start_def hk_start_begin_def hk_start_end_def hk_start_fail_def hk_ops split: if_splits prod.splits)
  moreover have "d' = d\<lparr>dl_flow := Some (- 1), dl_hs := Some (if i then h2 else h1)\<rparr> \<and> ok = (i \<and> r)"
    using assms True i r by (auto simp: tls_dialer_handshake_def Let_def split: if_splits)
  ultimately show ?thesis using i1 i2
    by (intro exI [of _ "Some (- 1)"] exI [of _ "Some (if i then h2 else h1)"]) (simp add: hs_running_def)
qed

lemma tls_dialer_send_inv:
  assumes "dl_inv d" and "dl_tls d" and "tracked (dl_tracker d)"
  shows "\<exists>d'. tls_dialer_on_send_event ec hs (d\<lparr>dl_tracker := map_option (\<lambda>k. k\<lparr>trk_tracked := False\<rparr>) (dl_tracker d)\<rparr>) = Done d' \<and>
    dl_inv d'"
proof (cases "dl_state d = StStarted")
  case True
  obtain d1 where d1: "dl_connected ec StHandshaking (d\<lparr>dl_tracker := map_option (\<lambda>k. k\<lparr>trk_tracked := False\<rparr>) (dl_tracker d)\<rparr>) =
      Done (True, ec = 0, d1)" "dl_state d1 = (if ec = 0 then StHandshaking else StError)" "dl_tls d1"
      "dl_reports d1 = []" "dl_posted d1 = 0" "dl_hs d1 = None" "dl_timer d1 \<noteq> Watching" "dl_flow d1 \<noteq> None"
      "has_trk_poller (dl_tracker d1)" "\<not> tracked (dl_tracker d1)"
    using dl_connected_waiting [OF assms(1) True, of ec StHandshaking] assms(2) by auto
  show ?thesis
  proof (cases "ec = 0")
    case False
    then show ?thesis using d1 by (auto simp: tls_dialer_on_send_event_def dl_ops dl_invs)
  next
    case True
    obtain ok d2 where h: "tls_dialer_handshake hs d1 = (ok, d2)" by fastforce
    obtain fl hk where d2: "d2 = d1\<lparr>dl_flow := fl, dl_hs := hk\<rparr>" "fl \<noteq> None"
      "case hk of None \<Rightarrow> True | Some h \<Rightarrow> hk_inv h" "ok \<longrightarrow> hs_running hk"
      using tls_dialer_handshake_spec [OF h] d1(8) by blast
    have "tls_dialer_on_send_event ec hs (d\<lparr>dl_tracker := map_option (\<lambda>k. k\<lparr>trk_tracked := False\<rparr>) (dl_tracker d)\<rparr>) =
        Done (if ok then d2 else dl_emit (DialDone False) (d2\<lparr>dl_state := StError\<rparr>))"
      using d1(1,2) h True d2(1) by (simp add: tls_dialer_on_send_event_def dl_ops)
    moreover have "dl_inv d2" if ok
      using that d1 d2 True by (auto simp: dl_invs split: option.splits)
    moreover have "dl_inv (dl_emit (DialDone False) (d2\<lparr>dl_state := StError\<rparr>))"
      using d1 d2 by (auto simp: dl_invs dl_emit_def split: option.splits)
    ultimately show ?thesis by auto
  qed
next
  case False
  then show ?thesis using dl_connected_late [OF assms(1,3) False, of ec StHandshaking]
    by (auto simp: tls_dialer_on_send_event_def)
qed


lemma dl_hs_inv:
  assumes "dl_inv d" and "dl_legal (DlHs op ok) d"
  shows "\<exists>d'. dl_exec (DlHs op ok) d = Done d' \<and> dl_inv d'"
proof -
  obtain h where h: "dl_hs d = Some h" "hs_event op" "hk_legal op h" using assms(2) by (auto split: option.splits)
  have i: "hk_inv h" "dl_tls d" using assms(1) h(1) by (auto simp: dl_inv_def)
  show ?thesis
  proof (cases "dl_state d = StHandshaking")
    case True
    then have run: "hk_state h \<in> {StStarted, StTimeouting}" using assms(1) h(1) by (auto simp: dl_invs hs_running_def)
    obtain h' outs where h': "hk_exec op h = Done h'" "hk_inv h'" "hk_trace h' = hk_trace h @ outs"
      "if hk_state h' \<in> {StStarted, StTimeouting} then filter (\<lambda>out. out \<noteq> HkCloseFd) outs = []
       else \<exists>s. filter (\<lambda>out. out \<noteq> HkCloseFd) outs = [HkHandshaked s]"
      using hs_event_outs [OF i(1) run h(2,3)] by blast
    let ?d = "d\<lparr>dl_hs := Some h'\<rparr>"
    have ex: "dl_exec (DlHs op ok) d = Done (fold (tls_dialer_on_hs_out ok) (filter (\<lambda>out. out \<noteq> HkCloseFd) outs) ?d)"
      using h(1) h'(1,3) fold_hs_outs [of ok outs ?d] by simp
    show ?thesis
    proof (cases "hk_state h' \<in> {StStarted, StTimeouting}")
      case run': True
      then have "dl_exec (DlHs op ok) d = Done ?d" using ex h'(4) by simp
      moreover have "dl_inv ?d" using assms(1) True h'(2) run' by (auto simp: dl_invs hs_running_def)
      ultimately show ?thesis by blast
    next
      case False
      then obtain s where s: "filter (\<lambda>out. out \<noteq> HkCloseFd) outs = [HkHandshaked s]" using h'(4) by auto
      have hs: "hk_inv (hk_unlock_flow h')" if "hk_state h' \<noteq> StStopping"
        using h'(2) that False by (cases "hk_state h'") (auto simp: hk_unlock_flow_def hk_invs)
      have "hk_state h' \<noteq> StStopping" using hk_next_exec [OF h(2) h'(1)] run by (auto simp: hk_next_def)
      then have "dl_inv (tls_dialer_on_handshaked ok s ?d)"
        using assms(1) True h'(2) hs i(2) by (cases "s \<and> ok") (auto simp: tls_dialer_on_handshaked_def dl_ops dl_emit_def dl_invs)
      then show ?thesis using ex s by (simp add: tls_dialer_on_hs_out_def)
    qed
  next
    case False
    obtain h' where h': "hk_exec op h = Done h'" "hk_inv h'" using hk_exec_inv [OF i(1) h(3)] by blast
    have "fold (tls_dialer_on_hs_out ok) outs e = e" if "dl_state e \<noteq> StHandshaking" for outs e
      using that by (induction outs) (auto simp: tls_dialer_on_hs_out_def tls_dialer_on_handshaked_def dl_ops split: hk_out.splits)
    then have "dl_exec (DlHs op ok) d = Done (d\<lparr>dl_hs := Some h'\<rparr>)" using h(1) h'(1) False by simp
    moreover have "dl_inv (d\<lparr>dl_hs := Some h'\<rparr>)"
      using assms(1) h(1) h'(2) i(2) False by (cases "dl_state d") (auto simp: dl_invs)
    ultimately show ?thesis by blast
  qed
qed

lemma dl_exec_inv:
  assumes "dl_inv d" and "dl_legal op d"
  shows "\<exists>d'. dl_exec op d = Done d' \<and> dl_inv d'"
proof (cases op)
  case (DlStart sv cbs fd open_ok timed timer_ok connect_ok trk_ok)
  then show ?thesis using tcp_dialer_start_inv tls_dialer_start_inv assms(1) by (cases "dl_tls d") auto
next
  case DlStop
  then show ?thesis using tcp_dialer_stop_inv tls_dialer_stop_inv assms(1) by auto
next
  case (DlSend ec ok hs)
  then show ?thesis using tcp_dialer_send_inv tls_dialer_send_inv assms by (cases "dl_tls d") (auto simp: Let_def)
next
  case DlTimeout
  then show ?thesis using dl_timeout_inv assms by auto
next
  case DlDeliver
  then show ?thesis using dl_deliver_inv assms by auto
next
  case (DlHs op ok)
  then show ?thesis using dl_hs_inv assms by blast
qed

lemma dl_steps_inv: "dl_steps d d' \<Longrightarrow> dl_inv d \<Longrightarrow> dl_inv d'"
proof (induction rule: dl_steps.induct)
  case (step d d' op d'')
  then show ?case using dl_exec_inv [of d' op] by auto
qed

lemma dl_keeps_tls:
  "dl_tls (snd (dl_set_state a b d)) = dl_tls d" "dl_tls (dl_post d) = dl_tls d" "dl_tls (dl_stop_timer d) = dl_tls d"
  "dl_tls (dl_emit out d) = dl_tls d" "dl_tls (dl_uninstall_tracker d) = dl_tls d"
  by (simp_all add: dl_set_state_def dl_post_def dl_stop_timer_def dl_emit_def dl_uninstall_tracker_def)

lemma dl_connected_tls: "dl_connected ec good d = Done (ok, success, d') \<Longrightarrow> dl_tls d' = dl_tls d"
  by (auto simp: dl_connected_def dl_ops dl_uninstall_tracker_def split: option.splits if_splits)

lemma tls_handshaked_tls: "dl_tls (fold (tls_dialer_on_hs_out ok) outs d) = dl_tls d"
  by (induction outs arbitrary: d)
    (auto simp: tls_dialer_on_hs_out_def tls_dialer_on_handshaked_def dl_ops dl_emit_def split: hk_out.splits)

lemma dl_exec_tls:
  assumes e: "dl_exec op d = Done d'"
  shows "dl_tls d' = dl_tls d"
proof (cases op)
  case (DlStart sv cbs fd open_ok timed timer_ok connect_ok trk_ok)
  show ?thesis using e DlStart
    by (auto simp: tcp_dialer_start_def tls_dialer_start_def dl_starts dl_ops split: if_splits)
next
  case DlStop
  show ?thesis using e DlStop by (auto simp: tcp_dialer_stop_def tls_dialer_stop_def dl_ops split: if_splits)
next
  case (DlSend ec ok hs)
  let ?d = "d\<lparr>dl_tracker := map_option (\<lambda>k. k\<lparr>trk_tracked := False\<rparr>) (dl_tracker d)\<rparr>"
  show ?thesis
  proof (cases "dl_tls d")
    case True
    then obtain r success d1 where c: "dl_connected ec StHandshaking ?d = Done (r, success, d1)"
      using e DlSend by (auto simp: tls_dialer_on_send_event_def run_bind_eq_Done)
    have "dl_tls d1 = dl_tls d" using dl_connected_tls [OF c] by simp
    moreover have "dl_tls (snd (tls_dialer_handshake hs d1)) = dl_tls d1"
      by (auto simp: tls_dialer_handshake_def Let_def split: prod.splits)
    ultimately show ?thesis using e DlSend True c
      by (auto simp: tls_dialer_on_send_event_def dl_ops dl_emit_def split: if_splits prod.splits)
  next
    case False
    then obtain r success d1 where c: "dl_connected ec StFinished ?d = Done (r, success, d1)"
      using e DlSend by (auto simp: tcp_dialer_on_send_event_def run_bind_eq_Done)
    show ?thesis using e DlSend False c dl_connected_tls [OF c]
      by (auto simp: tcp_dialer_on_send_event_def dl_emit_def split: if_splits)
  qed
next
  case DlTimeout
  show ?thesis using e DlTimeout by (auto simp: dialer_on_timeout_def dl_ops split: if_splits)
next
  case DlDeliver
  show ?thesis using e DlDeliver by (auto simp: dl_interrupt_def dl_ops dl_emit_def split: if_splits)
next
  case (DlHs hop ok)
  show ?thesis using e DlHs by (auto simp: run_map_eq_Done tls_handshaked_tls split: option.splits)
qed

lemma dl_steps_tls: "dl_steps d d' \<Longrightarrow> dl_tls d' = dl_tls d"
  by (induction rule: dl_steps.induct) (auto dest: dl_exec_tls)

lemma dl_new_inv: "dl_inv (dl_new tls xcred)"
  by (simp add: dl_new_def dl_invs dl_reports_def)


section \<open>The synchronous dialers\<close>

text \<open>
  \<open>dial\<close> waits for the promise that \<open>on_dialed\<close> and \<open>on_timeouted\<close> set (to whether there is a
  transport); setting it twice throws and \<open>on_stopped\<close> fails its assertion. The result of a
  trace: the value of the promise, if it has one.
\<close>

fun sync_promise :: "dial_out list \<Rightarrow> bool option \<Rightarrow> bool option run" where
  "sync_promise [] p = Done p"
| "sync_promise (DialDone success # outs) p = (if p = None then sync_promise outs (Some success) else Abort)"
| "sync_promise (DialTimeouted # outs) p = (if p = None then sync_promise outs (Some False) else Abort)"
| "sync_promise (DialStopped # outs) p = Abort"
| "sync_promise (DialShutdown # outs) p = sync_promise outs p"

lemma sync_promise_filter: "sync_promise (filter (\<lambda>out. out \<noteq> DialShutdown) outs) p = sync_promise outs p"
  by (induction outs p rule: sync_promise.induct) auto

lemma sync_promise_reports: "sync_promise (dl_trace d) p = sync_promise (dl_reports d) p"
  by (simp add: dl_reports_def sync_promise_filter)

text \<open>
  \<open>dial\<close> up to the wait for the promise, with the dialer of the object before and after; the
  first component says whether it waits. Otherwise it returns no transport.
\<close>

definition sync_tcp_dial ::
  "bool \<Rightarrow> int \<Rightarrow> bool \<Rightarrow> bool \<Rightarrow> bool \<Rightarrow> bool \<Rightarrow> bool \<Rightarrow> dialer option \<Rightarrow> bool \<times> dialer option" where
  "sync_tcp_dial sv fd open_ok timed timer_ok connect_ok trk_ok dialer =
     (if dialer \<noteq> None then (False, dialer)
      else
        let (ec, d) = tcp_dialer_start sv True fd open_ok timed timer_ok connect_ok trk_ok (dl_new False False) in
        if ec \<noteq> ErrNone then (False, Some d) else (True, Some d))"

definition sync_tls_dial ::
  "bool \<Rightarrow> bool \<Rightarrow> int \<Rightarrow> bool \<Rightarrow> bool \<Rightarrow> bool \<Rightarrow> bool \<Rightarrow> bool \<Rightarrow> dialer option \<Rightarrow> bool \<times> dialer option" where
  "sync_tls_dial xcred sv fd open_ok timed timer_ok connect_ok trk_ok dialer =
     (if dialer \<noteq> None then (False, dialer)
      else
        let (ec, d) = tls_dialer_start sv True fd open_ok timed timer_ok connect_ok trk_ok (dl_new True xcred) in
        if ec \<noteq> ErrNone then (False, Some d) else (True, Some d))"

text \<open>A dial that fails at once leaves its dialer behind, so that no later one is tried.\<close>

lemma sync_dial_once:
  assumes "sync_tcp_dial sv fd open_ok timed timer_ok connect_ok trk_ok None = (waits, dialer)"
  shows "sync_tcp_dial sv' fd' open_ok' timed' timer_ok' connect_ok' trk_ok' dialer = (False, dialer)"
  using assms by (auto simp: sync_tcp_dial_def split: prod.splits if_splits)

section \<open>What a dialer promises\<close>

text \<open>
  C22. A TCP or TLS dialer accepts every call, event and timeout without following a null
  pointer, and tells its owner how it ended at most once: dialed in the state finished,
  timeouted, stopped, each with its callback; a TCP dialer whose connection fails reports that
  as well.
\<close>

theorem dialer_reports_once:
  assumes "dl_steps (dl_new tls xcred) d" and "dl_legal op d"
  shows "dl_reported d \<and> (\<exists>d'. dl_exec op d = Done d')"
proof -
  have "dl_inv d" by (rule dl_steps_inv [OF assms(1) dl_new_inv])
  then show ?thesis using dl_exec_inv [OF _ assms(2)] by (auto simp: dl_inv_def)
qed

definition hs_fine :: hs_setup where
  "hs_fine = \<lparr>hs_alloc = True, hs_new_flow = True, hs_flow_ok = True, hs_phase = HsRead, hs_timed = True, hs_timer_ok = True,
     hs_trk_ok = True\<rparr>"

lemma dl_example:
  "dl_steps (dl_new False True) (snd (tcp_dialer_start True True 5 True True True True True (dl_new False True)))"
  "dl_steps (dl_new True True) (snd (tls_dialer_start True True 5 True True True True True (dl_new True True)))"
  by (rule dl_steps.step [OF dl_steps.refl, of "DlStart True True 5 True True True True True"]; simp add: dl_new_def)+

lemma dl_example_fields:
  "dl_state (snd (tls_dialer_start True True 5 True True True True True (dl_new True True))) = StStarted"
  "tracked (dl_tracker (snd (tls_dialer_start True True 5 True True True True True (dl_new True True))))"
  "dl_state (snd (tcp_dialer_start True True 5 True True True True True (dl_new False True))) = StStarted"
  "tracked (dl_tracker (snd (tcp_dialer_start True True 5 True True True True True (dl_new False True))))"
  by (simp_all add: tls_dialer_start_def tcp_dialer_start_def dl_starts dl_ops dl_new_def)

theorem dialer_reports_once_witness:
  "\<exists>d'. dl_exec (DlSend 111 True hs_fine) (snd (tcp_dialer_start True True 5 True True True True True (dl_new False True))) = Done d'"
  using dialer_reports_once [OF dl_example(1), of "DlSend 111 True hs_fine"] dl_example_fields(4) by simp

text \<open>
  A dialer that is not idle and has not ended waits for something: its socket is tracked,
  an event is posted for it, or the handshaker it created waits in the same sense.
\<close>

theorem dialer_keeps_waiting:
  assumes "dl_steps (dl_new tls xcred) d"
    and "dl_state d \<notin> {StNone, StError, StFinished, StTimeouted, StStopped}"
  shows "tracked (dl_tracker d) \<or> 0 < dl_posted d \<or>
    (\<exists>h. dl_hs d = Some h \<and> (tracked (hk_tracker h) \<or> 0 < hk_posted h))"
proof -
  have i: "dl_inv d" by (rule dl_steps_inv [OF assms(1) dl_new_inv])
  show ?thesis
  proof (cases "dl_state d = StHandshaking")
    case True
    then obtain h where h: "dl_hs d = Some h" "hk_inv h" "hk_state h \<in> {StStarted, StTimeouting}"
      using i by (auto simp: dl_inv_def hs_running_def split: option.splits)
    then have "tracked (hk_tracker h) \<or> 0 < hk_posted h" by (auto simp: hk_inv_def)
    then show ?thesis using h(1) by blast
  next
    case False
    then show ?thesis using i assms(2) by (cases "dl_state d") (auto simp: dl_inv_def)
  qed
qed

theorem dialer_keeps_waiting_witness:
  "tracked (dl_tracker (snd (tls_dialer_start True True 5 True True True True True (dl_new True True)))) \<or>
   0 < dl_posted (snd (tls_dialer_start True True 5 True True True True True (dl_new True True))) \<or>
   (\<exists>h. dl_hs (snd (tls_dialer_start True True 5 True True True True True (dl_new True True))) = Some h \<and>
     (tracked (hk_tracker h) \<or> 0 < hk_posted h))"
  using dialer_keeps_waiting [OF dl_example(2)] dl_example_fields(1) by simp

text \<open>A dialer that has failed without a word.\<close>

definition dl_silent :: "dialer \<Rightarrow> bool" where
  "dl_silent d \<longleftrightarrow> dl_state d = StError \<and> dl_reports d = [] \<and> dl_posted d = 0 \<and> \<not> tracked (dl_tracker d) \<and>
     dl_timer d \<noteq> Watching \<and> dl_hs d = None"

lemma dl_silent_step:
  assumes "dl_silent d" and "dl_legal op d" and "dl_exec op d = Done d'"
  shows "dl_silent d'"
proof (cases op)
  case (DlStart sv cbs fd open_ok timed timer_ok connect_ok trk_ok)
  then show ?thesis using assms
    by (auto simp: dl_silent_def tls_dialer_start_def tcp_dialer_start_def dl_ops split: if_splits)
next
  case DlStop
  then show ?thesis using assms by (auto simp: dl_silent_def tls_dialer_stop_def tcp_dialer_stop_def dl_ops split: if_splits)
qed (use assms in \<open>auto simp: dl_silent_def split: option.splits\<close>)

lemma dl_silent_steps: "dl_steps d d' \<Longrightarrow> dl_silent d \<Longrightarrow> dl_silent d'"
  by (induction rule: dl_steps.induct) (auto intro: dl_silent_step)

text \<open>
  When the connection of a TLS dialer fails nobody is told: the dialer is in the state
  error, no callback is called then or ever after, and \<open>dial\<close> of the synchronous dialer waits
  for ever.
\<close>

theorem tls_dial_failure_is_silent:
  assumes "dl_steps (dl_new True xcred) d" and "dl_state d = StStarted" and "ec \<noteq> 0"
  shows "\<exists>d1. dl_exec (DlSend ec ok hs) d = Done d1 \<and> dl_state d1 = StError \<and>
    (\<forall>d2. dl_steps d1 d2 \<longrightarrow> dl_reports d2 = [] \<and> sync_promise (dl_trace d2) None = Done None)"
proof -
  have i: "dl_inv d" by (rule dl_steps_inv [OF assms(1) dl_new_inv])
  have tls: "dl_tls d" using dl_steps_tls [OF assms(1)] by (simp add: dl_new_def)
  obtain d1 where d1: "dl_connected ec StHandshaking (d\<lparr>dl_tracker := map_option (\<lambda>k. k\<lparr>trk_tracked := False\<rparr>) (dl_tracker d)\<rparr>) =
      Done (True, ec = 0, d1)" "dl_state d1 = (if ec = 0 then StHandshaking else StError)"
      "dl_reports d1 = []" "dl_posted d1 = 0" "dl_hs d1 = None" "dl_timer d1 \<noteq> Watching" "\<not> tracked (dl_tracker d1)"
    using dl_connected_waiting [OF i assms(2), of ec StHandshaking] by auto
  then have "dl_exec (DlSend ec ok hs) d = Done d1" and s: "dl_silent d1"
    using assms(3) tls by (simp_all add: tls_dialer_on_send_event_def dl_ops dl_silent_def)
  moreover have "dl_reports d2 = [] \<and> sync_promise (dl_trace d2) None = Done None" if "dl_steps d1 d2" for d2
    using dl_silent_steps [OF that s] by (simp add: dl_silent_def sync_promise_reports)
  ultimately show ?thesis using d1(2) assms(3) by auto
qed

theorem tls_dial_failure_is_silent_witness:
  "\<exists>d1. dl_exec (DlSend 111 True hs_fine) (snd (tls_dialer_start True True 5 True True True True True (dl_new True True))) =
    Done d1 \<and> dl_state d1 = StError"
  using tls_dial_failure_is_silent [OF dl_example(2) dl_example_fields(1), of 111 True hs_fine] by auto

text \<open>
  The synchronous TCP dialer, which never stops the dialer it waits for, gets exactly one
  answer when that dialer ends and none before.
\<close>

theorem sync_tcp_dial_answered:
  assumes "dl_steps (dl_new False xcred) d" and "dl_state d \<noteq> StStopped"
  shows "\<exists>p. sync_promise (dl_trace d) None = Done p \<and>
    (p \<noteq> None \<longleftrightarrow> dl_state d \<in> {StFinished, StTimeouted} \<or> dl_state d = StError \<and> has_trk_poller (dl_tracker d))"
proof -
  have "dl_inv d" "\<not> dl_tls d"
    using dl_steps_inv [OF assms(1) dl_new_inv] dl_steps_tls [OF assms(1)] by (simp_all add: dl_new_def)
  then show ?thesis using assms(2) unfolding sync_promise_reports
    by (cases "dl_state d") (auto simp: dl_invs)
qed

theorem sync_tcp_dial_answered_witness:
  "\<exists>p. sync_promise (dl_trace (snd (tcp_dialer_start True True 5 True True True True True (dl_new False True)))) None = Done p \<and> p = None"
  using sync_tcp_dial_answered [OF dl_example(1)] dl_example_fields(3) by auto

end
