(* ===== verification/Acceptor.thy ===== *)
theory Acceptor
  imports Dialer "HOL-Library.Multiset"
begin

text \<open>
  The acceptors: \<open>base_acceptor\<close>, \<open>tcp_acceptor\<close> with \<open>flow_tcp_acceptor\<close>, and \<open>tls_acceptor\<close>
  with its map of handshakers (transport/base_acceptor, tcp_acceptor, tls_acceptor,
  flow/flow_tcp_acceptor).

  \<open>ac_trace\<close> has what becomes of the connections: the kernel gave a descriptor to \<open>accept\<close>, a
  transport for it was handed over, or it was closed. A handshaker that leaves the map is
  destroyed together with its flow, which closes the descriptor.
\<close>

section \<open>base_acceptor\<close>

datatype ac_out = AcConn int | AcAccepted int | AcClosed int | AcStopped

record acceptor =
  ac_tls :: bool
  ac_xcred :: bool
  ac_state :: transport_state
  ac_flow :: "int option"
  ac_tracker :: "tracker option"
  ac_posted :: nat
  ac_hss :: "(nat \<times> int \<times> handshaker) list"
  ac_ids :: nat
  ac_trace :: "ac_out list"

definition ac_new :: "bool \<Rightarrow> bool \<Rightarrow> acceptor" where
  "ac_new tls xcred = \<lparr>ac_tls = tls, ac_xcred = xcred, ac_state = StNone, ac_flow = None, ac_tracker = None,
     ac_posted = 0, ac_hss = [], ac_ids = 0, ac_trace = []\<rparr>"

definition ac_set_state :: "transport_state \<Rightarrow> transport_state \<Rightarrow> acceptor \<Rightarrow> bool \<times> acceptor" where
  "ac_set_state expected desired a =
     (if ac_state a = expected then (True, a\<lparr>ac_state := desired\<rparr>) else (False, a))"

definition ac_emit :: "ac_out list \<Rightarrow> acceptor \<Rightarrow> acceptor" where
  "ac_emit outs a = a\<lparr>ac_trace := ac_trace a @ outs\<rparr>"

definition ac_install_tracker :: "bool \<Rightarrow> acceptor \<Rightarrow> bool \<times> acceptor" where
  "ac_install_tracker ok a =
     (if ac_tracker a \<noteq> None then (False, a)
      else (ok, a\<lparr>ac_tracker := Some \<lparr>trk_tracked = ok, trk_poller = ok\<rparr>\<rparr>))"

definition ac_start_tracker :: "bool \<Rightarrow> acceptor \<Rightarrow> (bool \<times> acceptor) run" where
  "ac_start_tracker ok a =
     (case ac_tracker a of
        None \<Rightarrow> Abort
      | Some trk \<Rightarrow> (let (r, trk') = start_tracker ok trk in Done (r, a\<lparr>ac_tracker := Some trk'\<rparr>)))"

definition ac_uninstall_tracker :: "acceptor \<Rightarrow> acceptor" where
  "ac_uninstall_tracker a = a\<lparr>ac_tracker := uninstall_tracker (ac_tracker a)\<rparr>"

definition ac_interrupt :: "acceptor \<Rightarrow> acceptor" where
  "ac_interrupt a =
     (let (ok, a1) = ac_set_state StStopping StStopped a in if ok then ac_emit [AcStopped] a1 else a1)"

definition ac_open_flow :: "int \<Rightarrow> bool \<Rightarrow> acceptor \<Rightarrow> bool \<times> acceptor" where
  "ac_open_flow fd ok a = (ok, a\<lparr>ac_flow := Some fd\<rparr>)"

definition ac_close_flow :: "acceptor \<Rightarrow> acceptor" where
  "ac_close_flow a = a\<lparr>ac_flow := map_option (\<lambda>fd. if fd > 0 then - 1 else fd) (ac_flow a)\<rparr>"

text \<open>
  \<open>flow_tcp_acceptor::accept\<close>: \<open>client\<close> is what the kernel returned, \<open>opts_ok\<close> whether the
  options of the new socket can be set.
\<close>

definition ac_accept :: "int \<Rightarrow> bool \<Rightarrow> acceptor \<Rightarrow> int \<times> acceptor" where
  "ac_accept client opts_ok a =
     (if client = - 1 then (- 1, a)
      else
        let a1 = ac_emit [AcConn client] a in
        if \<not> opts_ok then (- 1, ac_emit [AcClosed client] a1) else (client, a1))"

definition ac_start_fail :: "acceptor \<Rightarrow> error_code \<times> acceptor" where
  "ac_start_fail a = (ErrFault, ac_close_flow (snd (ac_set_state StStarting StError a)))"

definition acceptor_start :: "bool \<Rightarrow> bool \<Rightarrow> int \<Rightarrow> bool \<Rightarrow> bool \<Rightarrow> acceptor \<Rightarrow> error_code \<times> acceptor" where
  "acceptor_start sv cbs fd open_ok trk_ok a =
     (if \<not> sv then (ErrInvalid, a)
      else if \<not> cbs then (ErrInvalid, a)
      else if ac_tls a \<and> \<not> ac_xcred a then (ErrInvalid, a)
      else
        let (ok, a1) = ac_set_state StNone StStarting a in
        if \<not> ok then (ErrFault, a1)
        else
          let (ok, a2) = ac_open_flow fd open_ok a1 in
          if \<not> ok then ac_start_fail a2
          else
            let (ok, a3) = ac_install_tracker trk_ok a2 in
            if \<not> ok then ac_start_fail a3
            else
              let (ok, a4) = ac_set_state StStarting StStarted a3 in
              if ok then (ErrNone, a4) else ac_start_fail a4)"

section \<open>tcp_acceptor\<close>

definition tcp_acceptor_stop :: "acceptor \<Rightarrow> acceptor" where
  "tcp_acceptor_stop a =
     (let (ok, a1) = ac_set_state StStarted StStopping a in
      if ok then (ac_close_flow a1)\<lparr>ac_posted := ac_posted a1 + 1\<rparr> else a1)"

definition tcp_acceptor_on_read_event :: "int \<Rightarrow> bool \<Rightarrow> bool \<Rightarrow> bool \<Rightarrow> acceptor \<Rightarrow> acceptor run" where
  "tcp_acceptor_on_read_event client opts_ok transport_ok trk_ok a =
     (if ac_flow a = None then Fault
      else
        let (fd, a1) = ac_accept client opts_ok a;
            a2 = (if fd > 0 then ac_emit [if transport_ok then AcAccepted fd else AcClosed fd] a1 else a1)
        in run_map snd (ac_start_tracker trk_ok a2))"

section \<open>tls_acceptor\<close>

fun hs_lookup :: "nat \<Rightarrow> (nat \<times> int \<times> handshaker) list \<Rightarrow> (int \<times> handshaker) option" where
  "hs_lookup i [] = None"
| "hs_lookup i ((j, e) # hs) = (if j = i then Some e else hs_lookup i hs)"

definition hs_remove :: "nat \<Rightarrow> (nat \<times> int \<times> handshaker) list \<Rightarrow> (nat \<times> int \<times> handshaker) list" where
  "hs_remove i hs = filter (\<lambda>e. fst e \<noteq> i) hs"

text \<open>
  \<open>__remove_handshaker\<close>: whether the handshaker was in the map; \<open>keep\<close> when its flow goes on
  in a transport.
\<close>

definition ac_remove_handshaker :: "nat \<Rightarrow> acceptor \<Rightarrow> bool \<times> acceptor" where
  "ac_remove_handshaker i a =
     (if hs_lookup i (ac_hss a) = None then (False, a) else (True, a\<lparr>ac_hss := hs_remove i (ac_hss a)\<rparr>))"

text \<open>The part of \<open>on_read_event\<close> for a new connection.\<close>

definition tls_acceptor_begin :: "hs_setup \<Rightarrow> int \<Rightarrow> acceptor \<Rightarrow> acceptor" where
  "tls_acceptor_begin hs fd a =
     (if \<not> hs_alloc hs then ac_emit [AcClosed fd] a
      else
        let i = ac_ids a; a1 = a\<lparr>ac_ids := i + 1, ac_hss := (i, fd, hk_new) # ac_hss a\<rparr>;
            (ok, h1) = hk_init (hs_new_flow hs) (hs_flow_ok hs) hk_new
        in if \<not> ok then ac_emit (map (\<lambda>out. AcClosed fd) (hk_trace h1)) (snd (ac_remove_handshaker i a1))
           else
             let (ok, h2) = hk_start True True (hs_phase hs) (hs_timed hs) (hs_timer_ok hs) (hs_trk_ok hs) h1 in
             if \<not> ok then ac_emit [AcClosed fd] (snd (ac_remove_handshaker i a1))
             else a1\<lparr>ac_hss := (i, fd, h2) # ac_hss a\<rparr>)"

definition tls_acceptor_on_read_event :: "int \<Rightarrow> bool \<Rightarrow> hs_setup \<Rightarrow> bool \<Rightarrow> acceptor \<Rightarrow> acceptor run" where
  "tls_acceptor_on_read_event client opts_ok hs trk_ok a =
     (if ac_flow a = None then Fault
      else
        let (fd, a1) = ac_accept client opts_ok a;
            a2 = (if fd > 0 then tls_acceptor_begin hs fd a1 else a1)
        in run_map snd (ac_start_tracker trk_ok a2))"

definition tls_acceptor_on_handshaked :: "nat \<Rightarrow> int \<Rightarrow> bool \<Rightarrow> bool \<Rightarrow> acceptor \<Rightarrow> acceptor" where
  "tls_acceptor_on_handshaked i fd transport_ok success a =
     (let (found, a1) = ac_remove_handshaker i a in
      if \<not> found then a1
      else if success \<and> ac_state a1 = StStarted
      then ac_emit [if transport_ok then AcAccepted fd else AcClosed fd] a1
      else ac_emit [AcClosed fd] a1)"

definition tls_acceptor_on_handshake_stopped :: "nat \<Rightarrow> int \<Rightarrow> acceptor \<Rightarrow> acceptor" where
  "tls_acceptor_on_handshake_stopped i fd a =
     (let (found, a1) = ac_remove_handshaker i a in if found then ac_emit [AcClosed fd] a1 else a1)"

definition tls_acceptor_on_hs_out :: "nat \<Rightarrow> int \<Rightarrow> bool \<Rightarrow> hk_out \<Rightarrow> acceptor \<Rightarrow> acceptor" where
  "tls_acceptor_on_hs_out i fd transport_ok out a =
     (case out of
        HkHandshaked success \<Rightarrow> tls_acceptor_on_handshaked i fd transport_ok success a
      | HkStopped \<Rightarrow> tls_acceptor_on_handshake_stopped i fd a
      | HkCloseFd \<Rightarrow> a)"

text \<open>
  The handshakers are stopped and forgotten; with the last reference each one is destroyed.
\<close>

definition tls_acceptor_stop_all :: "acceptor \<Rightarrow> acceptor" where
  "tls_acceptor_stop_all a = (ac_emit (map (\<lambda>(i, fd, h). AcClosed fd) (ac_hss a)) a)\<lparr>ac_hss := []\<rparr>"

definition tls_acceptor_stop :: "acceptor \<Rightarrow> acceptor" where
  "tls_acceptor_stop a =
     (let (ok, a1) = ac_set_state StStarted StStopping a in
      if ok then (let a2 = tls_acceptor_stop_all (ac_close_flow a1) in a2\<lparr>ac_posted := ac_posted a2 + 1\<rparr>) else a1)"

definition tls_acceptor_destroy :: "acceptor \<Rightarrow> acceptor" where
  "tls_acceptor_destroy a = ac_uninstall_tracker (tls_acceptor_stop_all a)"

section \<open>Steps\<close>

datatype ac_op =
    AcStart bool bool int bool bool
  | AcStop
  | AcRead int bool bool hs_setup bool
  | AcDeliver
  | AcHs nat hk_op bool

fun ac_exec :: "ac_op \<Rightarrow> acceptor \<Rightarrow> acceptor run" where
  "ac_exec (AcStart sv cbs fd open_ok trk_ok) a = Done (snd (acceptor_start sv cbs fd open_ok trk_ok a))"
| "ac_exec AcStop a = Done (if ac_tls a then tls_acceptor_stop a else tcp_acceptor_stop a)"
| "ac_exec (AcRead client opts_ok transport_ok hs trk_ok) a =
     (let a1 = a\<lparr>ac_tracker := map_option (\<lambda>k. k\<lparr>trk_tracked := False\<rparr>) (ac_tracker a)\<rparr> in
      if ac_tls a then tls_acceptor_on_read_event client opts_ok hs trk_ok a1
      else tcp_acceptor_on_read_event client opts_ok transport_ok trk_ok a1)"
| "ac_exec AcDeliver a = Done (ac_interrupt (a\<lparr>ac_posted := ac_posted a - 1\<rparr>))"
| "ac_exec (AcHs i op transport_ok) a =
     (case hs_lookup i (ac_hss a) of
        None \<Rightarrow> Fault
      | Some (fd, h) \<Rightarrow>
          run_map (\<lambda>h'. fold (tls_acceptor_on_hs_out i fd transport_ok) (drop (length (hk_trace h)) (hk_trace h'))
              (a\<lparr>ac_hss := map (\<lambda>e. if fst e = i then (i, fd, h') else e) (ac_hss a)\<rparr>))
            (hk_exec op h))"

text \<open>
  The kernel hands out positive descriptors, and none from a listening socket that is closed;
  the flow of a handshaker whose object exists can be initialised.
\<close>

fun ac_legal :: "ac_op \<Rightarrow> acceptor \<Rightarrow> bool" where
  "ac_legal (AcRead client opts_ok transport_ok hs trk_ok) a \<longleftrightarrow>
     tracked (ac_tracker a) \<and> (client = - 1 \<or> 0 < client \<and> (case ac_flow a of None \<Rightarrow> False | Some fd \<Rightarrow> 0 < fd)) \<and> (hs_new_flow hs \<longrightarrow> hs_flow_ok hs)"
| "ac_legal AcDeliver a \<longleftrightarrow> 0 < ac_posted a"
| "ac_legal (AcHs i op ok) a \<longleftrightarrow>
     hs_event op \<and> (case hs_lookup i (ac_hss a) of None \<Rightarrow> False | Some (fd, h) \<Rightarrow> hk_legal op h)"
| "ac_legal _ a \<longleftrightarrow> True"

inductive ac_steps :: "acceptor \<Rightarrow> acceptor \<Rightarrow> bool" where
  refl: "ac_steps a a"
| step: "ac_steps a a' \<Longrightarrow> ac_legal op a' \<Longrightarrow> ac_exec op a' = Done a'' \<Longrightarrow> ac_steps a a''"

fun conns :: "ac_out list \<Rightarrow> int list" where
  "conns [] = []"
| "conns (AcConn fd # outs) = fd # conns outs"
| "conns (_ # outs) = conns outs"

fun handed :: "ac_out list \<Rightarrow> int list" where
  "handed [] = []"
| "handed (AcAccepted fd # outs) = fd # handed outs"
| "handed (_ # outs) = handed outs"

fun closed :: "ac_out list \<Rightarrow> int list" where
  "closed [] = []"
| "closed (AcClosed fd # outs) = fd # closed outs"
| "closed (_ # outs) = closed outs"

definition handshaking :: "acceptor \<Rightarrow> int list" where
  "handshaking a = map (\<lambda>(i, fd, h). fd) (ac_hss a)"


section \<open>The invariant\<close>

definition hss_ok :: "acceptor \<Rightarrow> bool" where
  "hss_ok a \<longleftrightarrow> distinct (map fst (ac_hss a)) \<and>
     (\<forall>(i, fd, h)\<in>set (ac_hss a). i < ac_ids a \<and> hk_inv h \<and> hk_state h \<in> {StStarted, StTimeouting})"

definition conserved :: "acceptor \<Rightarrow> bool" where
  "conserved a \<longleftrightarrow>
     mset (conns (ac_trace a)) = mset (handed (ac_trace a)) + mset (closed (ac_trace a)) + mset (handshaking a)"

definition ac_control :: "acceptor \<Rightarrow> bool" where
  "ac_control a \<longleftrightarrow>
     count_list (ac_trace a) AcStopped = (if ac_state a = StStopped then 1 else 0) \<and>
     (case ac_state a of
        StNone \<Rightarrow> ac_tracker a = None \<and> ac_posted a = 0
      | StStarted \<Rightarrow> ac_flow a \<noteq> None \<and> has_trk_poller (ac_tracker a) \<and> tracked (ac_tracker a) \<and> ac_posted a = 0
      | StStopping \<Rightarrow> ac_flow a \<noteq> None \<and> has_trk_poller (ac_tracker a) \<and> ac_posted a = 1
      | StStopped \<Rightarrow> ac_flow a \<noteq> None \<and> has_trk_poller (ac_tracker a) \<and> ac_posted a = 0
      | StError \<Rightarrow> \<not> tracked (ac_tracker a) \<and> ac_posted a = 0
      | _ \<Rightarrow> False)"

definition ac_inv :: "acceptor \<Rightarrow> bool" where
  "ac_inv a \<longleftrightarrow> ac_control a \<and> hss_ok a \<and> conserved a"

lemma out_lists_append [simp]:
  "conns (xs @ ys) = conns xs @ conns ys" "handed (xs @ ys) = handed xs @ handed ys" "closed (xs @ ys) = closed xs @ closed ys"
proof -
  show "conns (xs @ ys) = conns xs @ conns ys" by (induction xs rule: conns.induct) simp_all
  show "handed (xs @ ys) = handed xs @ handed ys" by (induction xs rule: handed.induct) simp_all
  show "closed (xs @ ys) = closed xs @ closed ys" by (induction xs rule: closed.induct) simp_all
qed

lemmas ac_ops = ac_set_state_def ac_emit_def Let_def

lemma acceptor_start_inv:
  assumes "ac_inv a"
  shows "ac_inv (snd (acceptor_start sv cbs fd open_ok trk_ok a))"
proof (cases "sv \<and> cbs \<and> (ac_tls a \<longrightarrow> ac_xcred a) \<and> ac_state a = StNone")
  case False
  then show ?thesis using assms by (auto simp: acceptor_start_def ac_ops)
next
  case True
  then have "ac_tracker a = None" using assms by (simp add: ac_inv_def ac_control_def)
  then show ?thesis using True assms
    by (cases open_ok; cases trk_ok)
      (auto simp: acceptor_start_def ac_start_fail_def ac_open_flow_def ac_install_tracker_def ac_close_flow_def ac_ops
        ac_inv_def ac_control_def hss_ok_def conserved_def handshaking_def)
qed

lemma closed_all [simp]: "closed (map (\<lambda>(i, fd, h). AcClosed fd) hs) = map (\<lambda>(i, fd, h). fd) hs"
  by (induction hs) auto

lemma conns_all [simp]: "conns (map (\<lambda>(i, fd, h). AcClosed fd) hs) = []" "handed (map (\<lambda>(i, fd, h). AcClosed fd) hs) = []"
  "count_list (map (\<lambda>(i, fd, h). AcClosed fd) hs) AcStopped = 0"
  by (induction hs) auto

lemma acceptor_stop_inv:
  assumes "ac_inv a"
  shows "ac_inv (if ac_tls a then tls_acceptor_stop a else tcp_acceptor_stop a)"
proof (cases "ac_state a = StStarted")
  case True
  then show ?thesis using assms
    by (auto simp: tls_acceptor_stop_def tcp_acceptor_stop_def tls_acceptor_stop_all_def ac_close_flow_def ac_ops
        ac_inv_def ac_control_def hss_ok_def conserved_def handshaking_def)
next
  case False
  then show ?thesis using assms by (simp add: tls_acceptor_stop_def tcp_acceptor_stop_def ac_ops)
qed

lemma ac_deliver_inv: "ac_inv a \<Longrightarrow> 0 < ac_posted a \<Longrightarrow> ac_inv (ac_interrupt (a\<lparr>ac_posted := ac_posted a - 1\<rparr>))"
  by (cases "ac_state a")
    (auto simp: ac_interrupt_def ac_ops ac_inv_def ac_control_def hss_ok_def conserved_def handshaking_def)

text \<open>What becomes of a new connection keeps the account, and leaves the control state alone.\<close>

definition same_ac :: "acceptor \<Rightarrow> acceptor \<Rightarrow> bool" where
  "same_ac a a' \<longleftrightarrow> ac_tls a' = ac_tls a \<and> ac_state a' = ac_state a \<and> ac_flow a' = ac_flow a \<and> ac_tracker a' = ac_tracker a \<and> ac_posted a' = ac_posted a \<and>
     count_list (ac_trace a') AcStopped = count_list (ac_trace a) AcStopped"

lemma same_ac_trans: "same_ac a b \<Longrightarrow> same_ac b c \<Longrightarrow> same_ac a c"
  by (simp add: same_ac_def)

definition owes :: "int list \<Rightarrow> acceptor \<Rightarrow> bool" where
  "owes fds a \<longleftrightarrow>
     mset (conns (ac_trace a)) = mset (handed (ac_trace a)) + mset (closed (ac_trace a)) + mset (handshaking a) + mset fds"

lemma owes_none: "conserved a \<longleftrightarrow> owes [] a"
  by (simp add: conserved_def owes_def)

lemma ac_accept_spec:
  assumes "ac_accept client opts_ok a = (fd, a')" and "conserved a" and "client = - 1 \<or> 0 < client"
  shows "same_ac a a' \<and> ac_hss a' = ac_hss a \<and> ac_ids a' = ac_ids a \<and> (if fd > 0 then owes [fd] a' else conserved a')"
  using assms by (auto simp: ac_accept_def ac_ops same_ac_def owes_def conserved_def handshaking_def split: if_splits)

lemma settle_spec:
  assumes "owes [fd] a" and "out = AcAccepted fd \<or> out = AcClosed fd"
  shows "conserved (ac_emit [out] a)" and "same_ac a (ac_emit [out] a)" and "hss_ok (ac_emit [out] a) = hss_ok a"
  using assms by (auto simp: owes_def conserved_def ac_emit_def handshaking_def same_ac_def hss_ok_def)

lemma hs_remove_fresh: "\<forall>e\<in>set hs. fst e < i \<Longrightarrow> hs_remove i ((i, x) # hs) = hs"
  by (auto simp: hs_remove_def filter_id_conv)

lemma tls_acceptor_begin_spec:
  assumes "owes [fd] a" and "hss_ok a" and "hs_new_flow hs \<longrightarrow> hs_flow_ok hs"
  shows "conserved (tls_acceptor_begin hs fd a) \<and> same_ac a (tls_acceptor_begin hs fd a) \<and> hss_ok (tls_acceptor_begin hs fd a)"
proof -
  let ?i = "ac_ids a"
  obtain r h1 where h1: "hk_init (hs_new_flow hs) (hs_flow_ok hs) hk_new = (r, h1)" by fastforce
  obtain q h2 where h2: "hk_start True True (hs_phase hs) (hs_timed hs) (hs_timer_ok hs) (hs_trk_ok hs) h1 = (q, h2)" by fastforce
  have ids: "\<forall>e\<in>set (ac_hss a). fst e < ?i" using assms(2) by (auto simp: hss_ok_def)
  define b where "b = a\<lparr>ac_ids := Suc ?i\<rparr>"
  have b: "owes [fd] b" "hss_ok b" "same_ac a b" "\<forall>e\<in>set (ac_hss a). fst e < Suc ?i"
    using assms(1,2) ids by (auto simp: b_def owes_def hss_ok_def same_ac_def handshaking_def)
  have rm: "snd (ac_remove_handshaker ?i (a\<lparr>ac_ids := ?i + 1, ac_hss := (?i, fd, hk_new) # ac_hss a\<rparr>)) = b"
    using ids by (simp add: ac_remove_handshaker_def hs_remove_fresh b_def)
  have inv0: "hk_inv hk_new" by (rule hk_reachable_inv [OF hk_reachable.start])
  have i1: "hk_inv h1" using hk_init_inv [OF inv0, of "hs_new_flow hs" "hs_flow_ok hs"] h1 by (simp add: hk_new_def)
  have i2: "hk_inv h2" using hk_start_inv [OF i1] h2 by (metis snd_conv)
  show ?thesis
  proof (cases "hs_alloc hs")
    case False
    then show ?thesis using settle_spec [OF assms(1), of "AcClosed fd"] assms(2) by (simp add: tls_acceptor_begin_def)
  next
    case alloc: True
    show ?thesis
    proof (cases "r \<and> q")
      case True
      have st: "hk_state h2 = StStarted"
        using True h2 by (auto simp: hk_start_def hk_start_begin_def hk_start_end_def hk_start_fail_def hk_ops split: if_splits prod.splits)
      have e: "tls_acceptor_begin hs fd a = b\<lparr>ac_hss := (?i, fd, h2) # ac_hss a\<rparr>"
        using True alloc h1 h2 by (simp add: tls_acceptor_begin_def Let_def b_def)
      show ?thesis unfolding e
        using b ids st i2 assms(1,2) by (auto simp: b_def owes_def conserved_def handshaking_def same_ac_def hss_ok_def)
    next
      case False
      have "hk_trace h1 = [HkCloseFd]" if "\<not> r"
        using that h1 assms(3) by (auto simp: hk_init_def hk_open_flow_def hk_ops hk_new_def split: if_splits)
      then have "tls_acceptor_begin hs fd a = ac_emit [AcClosed fd] b"
        using False alloc h1 h2 rm by (auto simp: tls_acceptor_begin_def Let_def)
      then show ?thesis using settle_spec [OF b(1), of "AcClosed fd"] b(2,3) same_ac_trans by auto
    qed
  qed
qed

text \<open>The tracker is armed again, whatever the kernel says.\<close>

lemma ac_rearm:
  assumes "same_ac (a\<lparr>ac_tracker := map_option (\<lambda>k. k\<lparr>trk_tracked := False\<rparr>) (ac_tracker a)\<rparr>) a'"
    and "ac_control a" and "tracked (ac_tracker a)"
  shows "\<exists>r a''. ac_start_tracker ok a' = Done (r, a'') \<and> ac_control a'' \<and> ac_state a'' = ac_state a \<and> ac_tls a'' = ac_tls a \<and> (hss_ok a' \<longrightarrow> hss_ok a'') \<and> (conserved a' \<longrightarrow> conserved a'')"
proof -
  obtain k where k: "ac_tracker a = Some k" "trk_tracked k" using assms(3) by (cases "ac_tracker a") auto
  have pl: "trk_poller k" using assms(2) k by (auto simp: ac_control_def split: transport_state.splits)
  have t: "ac_tracker a' = Some (k\<lparr>trk_tracked := False\<rparr>)" using assms(1) k by (simp add: same_ac_def)
  define a'' where "a'' = a'\<lparr>ac_tracker := Some (k\<lparr>trk_tracked := True\<rparr>)\<rparr>"
  have "ac_start_tracker ok a' = Done (ok, a'')" using t pl by (simp add: ac_start_tracker_def start_tracker_def a''_def)
  moreover have "ac_control a''" using assms(1,2) k pl
    by (cases "ac_state a") (auto simp: ac_control_def same_ac_def a''_def)
  moreover have "ac_state a'' = ac_state a \<and> ac_tls a'' = ac_tls a" using assms(1) by (simp add: a''_def same_ac_def)
  ultimately show ?thesis by (auto simp: a''_def hss_ok_def conserved_def handshaking_def)
qed


lemma ac_flow_tracked: "ac_control a \<Longrightarrow> tracked (ac_tracker a) \<Longrightarrow> ac_flow a \<noteq> None"
  by (auto simp: ac_control_def split: transport_state.splits)

lemma ac_read_inv:
  assumes "ac_inv a" and "ac_legal (AcRead client opts_ok transport_ok hs trk_ok) a"
  shows "\<exists>a'. ac_exec (AcRead client opts_ok transport_ok hs trk_ok) a = Done a' \<and> ac_inv a' \<and> ac_state a' = ac_state a \<and> ac_tls a' = ac_tls a"
proof -
  define a0 where "a0 = a\<lparr>ac_tracker := map_option (\<lambda>k. k\<lparr>trk_tracked := False\<rparr>) (ac_tracker a)\<rparr>"
  have l: "tracked (ac_tracker a)" "client = - 1 \<or> 0 < client" "hs_new_flow hs \<longrightarrow> hs_flow_ok hs" using assms(2) by auto
  have c: "ac_control a" and h0: "hss_ok a0" and c0: "conserved a0"
    using assms(1) by (simp_all add: ac_inv_def a0_def hss_ok_def conserved_def handshaking_def)
  have fl: "ac_flow a0 \<noteq> None" using ac_flow_tracked [OF c l(1)] by (simp add: a0_def)
  obtain fd a1 where acc: "ac_accept client opts_ok a0 = (fd, a1)" by fastforce
  have s1: "same_ac a0 a1" and h1: "hss_ok a1" and o1: "if fd > 0 then owes [fd] a1 else conserved a1"
    using ac_accept_spec [OF acc c0 l(2)] h0 by (auto simp: hss_ok_def)
  define a2 where "a2 = (if fd > 0 then if ac_tls a then tls_acceptor_begin hs fd a1
      else ac_emit [if transport_ok then AcAccepted fd else AcClosed fd] a1 else a1)"
  have a2: "same_ac a0 a2 \<and> hss_ok a2 \<and> conserved a2"
  proof (cases "fd > 0")
    case True
    then have o: "owes [fd] a1" using o1 by simp
    show ?thesis
    proof (cases "ac_tls a")
      case tls: True
      then show ?thesis using True tls_acceptor_begin_spec [OF o h1 l(3)] same_ac_trans [OF s1] by (simp add: a2_def)
    next
      case False
      have "if transport_ok then AcAccepted fd = AcAccepted fd else True" by simp
      then show ?thesis using True False settle_spec [OF o, of "if transport_ok then AcAccepted fd else AcClosed fd"] h1 same_ac_trans [OF s1]
        by (simp add: a2_def)
    qed
  next
    case False
    then show ?thesis using s1 h1 o1 by (simp add: a2_def)
  qed
  obtain r a3 where a3: "ac_start_tracker trk_ok a2 = Done (r, a3)" "ac_control a3" "hss_ok a3" "conserved a3"
    "ac_state a3 = ac_state a" "ac_tls a3 = ac_tls a"
    using ac_rearm [of a a2 trk_ok] a2 c l(1) by (auto simp: a0_def)
  have "ac_exec (AcRead client opts_ok transport_ok hs trk_ok) a = Done a3"
    using a3(1) fl acc by (auto simp: tls_acceptor_on_read_event_def tcp_acceptor_on_read_event_def a0_def [symmetric] a2_def)
  then show ?thesis using a3 by (simp add: ac_inv_def)
qed

lemma mset_hs_remove:
  assumes "distinct (map fst hs)" and "hs_lookup i hs = Some (fd, h)"
  shows "mset (map (\<lambda>(i, fd, h). fd) hs) = {#fd#} + mset (map (\<lambda>(i, fd, h). fd) (hs_remove i hs))"
  using assms
proof (induction hs)
  case (Cons e hs)
  obtain j fd' h' where e: "e = (j, fd', h')" by (cases e) auto
  show ?case
  proof (cases "j = i")
    case True
    then have "hs_remove i hs = hs" using Cons.prems(1) e by (force simp: hs_remove_def filter_id_conv)
    then show ?thesis using True e Cons.prems(2) by (simp add: hs_remove_def)
  next
    case False
    then show ?thesis using Cons e by (simp add: hs_remove_def)
  qed
qed simp

lemma hs_lookup_mem: "hs_lookup i hs = Some e \<Longrightarrow> (i, e) \<in> set hs"
  by (induction i hs rule: hs_lookup.induct) (auto split: if_splits)

text \<open>The map after an event of one handshaker, which is the same object.\<close>

definition hs_update :: "nat \<Rightarrow> int \<Rightarrow> handshaker \<Rightarrow> (nat \<times> int \<times> handshaker) list \<Rightarrow> (nat \<times> int \<times> handshaker) list" where
  "hs_update i fd h' hs = map (\<lambda>e. if fst e = i then (i, fd, h') else e) hs"

lemma hs_update_keeps:
  assumes "distinct (map fst hs)" and "hs_lookup i hs = Some (fd, h)"
  shows "map (\<lambda>(i, fd, h). fd) (hs_update i fd h' hs) = map (\<lambda>(i, fd, h). fd) hs" and "map fst (hs_update i fd h' hs) = map fst hs"
    and "hs_lookup i (hs_update i fd h' hs) = Some (fd, h')" and "hs_remove i (hs_update i fd h' hs) = hs_remove i hs"
proof -
  show "map (\<lambda>(i, fd, h). fd) (hs_update i fd h' hs) = map (\<lambda>(i, fd, h). fd) hs" using assms
  proof (induction hs)
    case (Cons e hs)
    obtain j fd' h' where e: "e = (j, fd', h')" by (cases e) auto
    show ?case
    proof (cases "j = i")
      case True
      then have "i \<notin> fst ` set hs" using Cons.prems(1) e by simp
      then have "hs_update i fd h'' hs = hs" for h'' by (auto simp: hs_update_def image_iff intro!: map_idI)
      then show ?thesis using True e Cons.prems(2) by (simp add: hs_update_def)
    next
      case False
      then show ?thesis using Cons e by (simp add: hs_update_def)
    qed
  qed (simp add: hs_update_def)
  show "map fst (hs_update i fd h' hs) = map fst hs" by (auto simp: hs_update_def)
  show "hs_lookup i (hs_update i fd h' hs) = Some (fd, h')" using assms(2)
    by (induction hs) (auto simp: hs_update_def)
  show "hs_remove i (hs_update i fd h' hs) = hs_remove i hs"
    by (induction hs) (auto simp: hs_update_def hs_remove_def)
qed

lemma fold_ac_outs:
  "fold (tls_acceptor_on_hs_out i fd ok) outs a = fold (tls_acceptor_on_hs_out i fd ok) (filter (\<lambda>out. out \<noteq> HkCloseFd) outs) a"
  by (induction outs arbitrary: a) (auto simp: tls_acceptor_on_hs_out_def)

lemma hss_ok_remove: "hss_ok (a\<lparr>ac_hss := hs\<rparr>) \<Longrightarrow> hss_ok (a\<lparr>ac_hss := hs_remove i hs\<rparr>)"
  by (auto simp: hss_ok_def hs_remove_def distinct_map inj_on_def)


lemma ac_hs_inv:
  assumes "ac_inv a" and "ac_legal (AcHs i op ok) a"
  shows "\<exists>a'. ac_exec (AcHs i op ok) a = Done a' \<and> ac_inv a' \<and> ac_state a' = ac_state a \<and> ac_tls a' = ac_tls a"
proof -
  obtain fd h where h: "hs_lookup i (ac_hss a) = Some (fd, h)" "hs_event op" "hk_legal op h"
    using assms(2) by (auto split: option.splits)
  have c: "ac_control a" "hss_ok a" "conserved a" using assms(1) by (simp_all add: ac_inv_def)
  have d: "distinct (map fst (ac_hss a))" using c(2) by (simp add: hss_ok_def)
  have m: "(i, fd, h) \<in> set (ac_hss a)" by (rule hs_lookup_mem [OF h(1)])
  have hi: "hk_inv h" "hk_state h \<in> {StStarted, StTimeouting}" "i < ac_ids a" using c(2) m by (auto simp: hss_ok_def)
  obtain h' outs where h': "hk_exec op h = Done h'" "hk_inv h'" "hk_trace h' = hk_trace h @ outs"
    "if hk_state h' \<in> {StStarted, StTimeouting} then filter (\<lambda>out. out \<noteq> HkCloseFd) outs = []
     else \<exists>s. filter (\<lambda>out. out \<noteq> HkCloseFd) outs = [HkHandshaked s]"
    using hs_event_outs [OF hi(1,2) h(2,3)] by blast
  define a1 where "a1 = a\<lparr>ac_hss := hs_update i fd h' (ac_hss a)\<rparr>"
  note up = hs_update_keeps [OF d h(1), of h']
  have ex: "ac_exec (AcHs i op ok) a = Done (fold (tls_acceptor_on_hs_out i fd ok) (filter (\<lambda>out. out \<noteq> HkCloseFd) outs) a1)"
    using h(1) h'(1,3) fold_ac_outs [of i fd ok outs a1] by (simp add: a1_def hs_update_def)
  have s1: "same_ac a a1" by (simp add: a1_def same_ac_def)
  have o1: "conserved a1" using c(3) up(1) by (simp add: a1_def conserved_def handshaking_def)
  have rest: "hss_ok (a\<lparr>ac_hss := hs_remove i (ac_hss a)\<rparr>)" by (rule hss_ok_remove) (use c(2) in simp)
  have inv: "ac_inv a' \<and> ac_state a' = ac_state a \<and> ac_tls a' = ac_tls a" if "same_ac a a'" "hss_ok a'" "conserved a'" for a'
    using that c(1) by (cases "ac_state a") (simp_all add: ac_inv_def ac_control_def same_ac_def)
  show ?thesis
  proof (cases "hk_state h' \<in> {StStarted, StTimeouting}")
    case True
    have "distinct (map fst (ac_hss a1))" using d up(2) by (simp add: a1_def)
    moreover have "\<forall>(i, fd, h)\<in>set (ac_hss a1). i < ac_ids a1 \<and> hk_inv h \<and> hk_state h \<in> {StStarted, StTimeouting}"
      using c(2) h'(2) True hi(3) by (auto simp: a1_def hss_ok_def hs_update_def)
    ultimately have "hss_ok a1" unfolding hss_ok_def ..
    then show ?thesis using ex h'(4) True inv [OF s1 _ o1] by simp
  next
    case False
    then obtain s where s: "filter (\<lambda>out. out \<noteq> HkCloseFd) outs = [HkHandshaked s]" using h'(4) by (auto split: if_splits)
    define a2 where "a2 = a\<lparr>ac_hss := hs_remove i (ac_hss a)\<rparr>"
    have rm: "ac_remove_handshaker i a1 = (True, a2)"
      using up(3,4) by (simp add: ac_remove_handshaker_def a1_def a2_def)
    have ow: "owes [fd] a2"
      using c(3) mset_hs_remove [OF d h(1)] by (simp add: a2_def owes_def conserved_def handshaking_def)
    define out where "out = (if s \<and> ac_state a2 = StStarted \<and> ok then AcAccepted fd else AcClosed fd)"
    have out: "out = AcAccepted fd \<or> out = AcClosed fd" by (simp add: out_def)
    have e: "fold (tls_acceptor_on_hs_out i fd ok) (filter (\<lambda>out. out \<noteq> HkCloseFd) outs) a1 = ac_emit [out] a2"
      using s rm by (simp add: tls_acceptor_on_hs_out_def tls_acceptor_on_handshaked_def out_def)
    have "same_ac a a2" "hss_ok a2" using rest by (simp_all add: a2_def same_ac_def)
    then show ?thesis using ex e inv settle_spec [OF ow out] same_ac_trans by metis
  qed
qed

lemma ac_exec_inv: "ac_inv a \<Longrightarrow> ac_legal op a \<Longrightarrow> \<exists>a'. ac_exec op a = Done a' \<and> ac_inv a'"
proof (cases op)
  case (AcRead client opts_ok transport_ok hs trk_ok)
  then show "ac_inv a \<Longrightarrow> ac_legal op a \<Longrightarrow> ?thesis" using ac_read_inv by blast
next
  case (AcHs i hop ok)
  then show "ac_inv a \<Longrightarrow> ac_legal op a \<Longrightarrow> ?thesis" using ac_hs_inv by blast
qed (use acceptor_start_inv acceptor_stop_inv ac_deliver_inv in simp_all)

lemma ac_new_inv: "ac_inv (ac_new tls xcred)"
  by (simp add: ac_new_def ac_inv_def ac_control_def hss_ok_def conserved_def handshaking_def)

lemma ac_steps_inv: "ac_steps a a' \<Longrightarrow> ac_inv a \<Longrightarrow> ac_inv a'"
proof (induction rule: ac_steps.induct)
  case (step a a' op a'')
  then show ?case using ac_exec_inv [of a' op] by auto
qed


section \<open>What an acceptor promises\<close>


text \<open>
  A TLS acceptor takes three connections: one is handed over, one fails its handshake, one is
  still in it when the acceptor is stopped, and a fourth is refused for lack of memory.
\<close>

fun ac_run :: "ac_op list \<Rightarrow> acceptor \<Rightarrow> acceptor option" where
  "ac_run [] a = Some a"
| "ac_run (op # ops) a =
     (if ac_legal op a then (case ac_exec op a of Done a' \<Rightarrow> ac_run ops a' | _ \<Rightarrow> None) else None)"

lemma ac_run_steps: "ac_run ops a = Some a' \<Longrightarrow> ac_steps a0 a \<Longrightarrow> ac_steps a0 a'"
  by (induction ops a rule: ac_run.induct) (auto split: if_splits run.splits intro: ac_steps.step)

definition good_hs :: hs_setup where
  "good_hs = \<lparr>hs_alloc = True, hs_new_flow = True, hs_flow_ok = True, hs_phase = HsRead, hs_timed = True,
     hs_timer_ok = True, hs_trk_ok = True\<rparr>"

definition ac_example :: "ac_op list" where
  "ac_example = [AcStart True True 5 True True, AcRead 7 True True good_hs True, AcRead 8 True True good_hs True,
     AcRead 9 True True good_hs True, AcRead 10 True True (good_hs\<lparr>hs_alloc := False\<rparr>) True,
     AcHs 0 (HkIo HsOk True) True, AcHs 1 (HkIo HsError True) True, AcStop, AcDeliver]"


text \<open>A stopping acceptor has closed its socket and forgotten its handshakers.\<close>

definition ac_quiet :: "acceptor \<Rightarrow> bool" where
  "ac_quiet a \<longleftrightarrow>
     (\<not> ac_tls a \<longrightarrow> ac_hss a = []) \<and>
     (ac_state a \<in> {StStopping, StStopped} \<longrightarrow> ac_hss a = [] \<and> (\<forall>fd. ac_flow a = Some fd \<longrightarrow> fd \<le> 0))"

lemma ac_quiet_read:
  assumes "ac_inv a" and "ac_quiet a" and "ac_legal (AcRead client opts_ok transport_ok hs trk_ok) a"
    and "ac_exec (AcRead client opts_ok transport_ok hs trk_ok) a = Done a'"
  shows "ac_quiet a'"
proof -
  have st: "ac_state a' = ac_state a" "ac_tls a' = ac_tls a" using ac_read_inv [OF assms(1,3)] assms(4) by auto
  have "ac_hss a' = [] \<and> (\<forall>fd. ac_flow a' = Some fd \<longrightarrow> fd \<le> 0)" if "ac_state a \<in> {StStopping, StStopped}"
  proof -
    have q: "ac_hss a = []" "\<forall>fd. ac_flow a = Some fd \<longrightarrow> fd \<le> 0" using that assms(2) by (auto simp: ac_quiet_def)
    then have "client = - 1" using assms(3) by (auto split: option.splits)
    then show ?thesis using assms(4) q
      by (auto simp: tls_acceptor_on_read_event_def tcp_acceptor_on_read_event_def ac_accept_def ac_start_tracker_def Let_def
          run_map_def split: if_splits option.splits prod.splits)
  qed
  moreover have "ac_hss a' = []" if "\<not> ac_tls a"
    using that assms(2,4)
    by (auto simp: tcp_acceptor_on_read_event_def ac_accept_def ac_start_tracker_def ac_ops ac_quiet_def
        run_map_def split: if_splits option.splits prod.splits)
  ultimately show ?thesis using st by (simp add: ac_quiet_def)
qed

lemma ac_exec_quiet:
  assumes "ac_inv a" and "ac_quiet a" and "ac_legal op a" and "ac_exec op a = Done a'"
  shows "ac_quiet a'"
proof (cases op)
  case (AcStart sv cbs fd open_ok trk_ok)
  then show ?thesis using assms
    by (auto simp: acceptor_start_def ac_start_fail_def ac_open_flow_def ac_install_tracker_def ac_close_flow_def ac_ops
        ac_quiet_def split: if_splits)
next
  case AcStop
  then show ?thesis using assms
    by (auto simp: tls_acceptor_stop_def tcp_acceptor_stop_def tls_acceptor_stop_all_def ac_close_flow_def ac_ops ac_quiet_def
        split: if_splits)
next
  case (AcRead client opts_ok transport_ok hs trk_ok)
  then show ?thesis using assms ac_quiet_read by blast
next
  case AcDeliver
  then show ?thesis using assms by (auto simp: ac_interrupt_def ac_ops ac_quiet_def split: if_splits)
next
  case (AcHs i hop ok)
  then have "ac_hss a \<noteq> []" using assms(3) by auto
  moreover have "ac_state a' = ac_state a" "ac_tls a' = ac_tls a" using ac_hs_inv [OF assms(1)] AcHs assms(3,4) by fastforce+
  ultimately show ?thesis using assms(2) by (auto simp: ac_quiet_def)
qed

lemma ac_steps_quiet: "ac_steps a a' \<Longrightarrow> ac_inv a \<Longrightarrow> ac_quiet a \<Longrightarrow> ac_quiet a'"
proof (induction rule: ac_steps.induct)
  case (step a a' op a'')
  then show ?case using ac_exec_quiet [of a' op a''] ac_steps_inv by blast
qed

text \<open>
  An acceptor that is started keeps its tracker with the poller, so that it sees the next
  connection whatever happened to the last one. One that has been stopped has its socket closed
  and leaves no connection behind: every descriptor it took was handed over or closed.
\<close>

theorem acceptor_keeps_listening:
  assumes "ac_steps (ac_new tls xcred) a"
  shows "(ac_state a = StStarted \<longrightarrow> tracked (ac_tracker a)) \<and>
    (ac_state a = StStopping \<or> ac_state a = StStopped \<longrightarrow>
      (\<forall>fd. ac_flow a = Some fd \<longrightarrow> fd \<le> 0) \<and>
      mset (conns (ac_trace a)) = mset (handed (ac_trace a)) + mset (closed (ac_trace a)))"
proof -
  have "ac_inv a" by (rule ac_steps_inv [OF assms ac_new_inv])
  moreover have "ac_quiet a" by (rule ac_steps_quiet [OF assms ac_new_inv]) (simp add: ac_new_def ac_quiet_def)
  ultimately show ?thesis by (auto simp: ac_inv_def ac_control_def conserved_def ac_quiet_def handshaking_def)
qed

theorem acceptor_keeps_listening_witness:
  "\<exists>a. ac_run ac_example (ac_new True True) = Some a \<and> ac_state a = StStopped \<and> ac_flow a = Some (- 1) \<and>
    mset (conns (ac_trace a)) = mset (handed (ac_trace a)) + mset (closed (ac_trace a))"
proof -
  have "ac_run ac_example (ac_new True True) \<noteq> None \<and> (let a = the (ac_run ac_example (ac_new True True)) in
      ac_state a = StStopped \<and> ac_flow a = Some (- 1))" by code_simp
  then obtain a where a: "ac_run ac_example (ac_new True True) = Some a" "ac_state a = StStopped" "ac_flow a = Some (- 1)"
    by (auto simp: Let_def)
  from acceptor_keeps_listening [OF ac_run_steps [OF a(1) ac_steps.refl]] show ?thesis using a by blast
qed

end
