(* ===== verification/Frame.thy ===== *)
theory Frame
  imports Buffer Utils
begin

text \<open>
  The header of a websocket frame (include/pump/proto/http/frame.h,
  src/proto/http/frame.cpp), read from and written to an \<open>io_buffer\<close>.

  A length of two or eight bytes is read into the memory of an integer and then converted
  with \<open>transform_endian\<close>; on the little-endian machine of the model the bytes in memory are
  \<open>le_bytes\<close>. \<open>wire\<close> is the layout the packed header has.
\<close>

section \<open>The code\<close>

record frame_header =
  fh_fin :: bool
  fh_code :: byte
  fh_len :: u64
  fh_key :: "byte list"
  fh_unpacked :: bool

definition wscode_end :: byte where "wscode_end = 0xFF"

definition frame_new :: "bool \<Rightarrow> byte \<Rightarrow> u64 \<Rightarrow> byte list \<Rightarrow> frame_header" where
  "frame_new fin code len key =
     \<lparr>fh_fin = fin, fh_code = code, fh_len = len, fh_key = key, fh_unpacked = False\<rparr>"

definition frame_reset :: "frame_header \<Rightarrow> frame_header" where
  "frame_reset h = h\<lparr>fh_fin := True, fh_code := wscode_end, fh_len := 0, fh_key := []\<rparr>"

definition le_bytes :: "'a :: len word \<Rightarrow> byte list" where
  "le_bytes w = map (\<lambda>i. ucast (drop_bit (8 * i) w)) [0..<LENGTH('a) div 8]"

fun le_value :: "byte list \<Rightarrow> 'a :: len word" where
  "le_value [] = 0"
| "le_value (b # bs) = ucast b OR push_bit 8 (le_value bs)"

text \<open>The extended length; the first component is false when the buffer is too short.\<close>

definition unpack_length :: "frame_header \<Rightarrow> io_buffer \<Rightarrow> (bool \<times> frame_header \<times> io_buffer) run" where
  "unpack_length h iob =
     (if fh_len h = 126 then
        run_bind (iob_read 2 iob) (\<lambda>(r, iob1).
          case r of
            None \<Rightarrow> Done (False, h, iob1)
          | Some bs \<Rightarrow> Done (True, h\<lparr>fh_len := ucast (transform_endian_i16 (le_value bs))\<rparr>, iob1))
      else if fh_len h = 127 then
        run_bind (iob_read 8 iob) (\<lambda>(r, iob1).
          case r of
            None \<Rightarrow> Done (False, h, iob1)
          | Some bs \<Rightarrow> Done (True, h\<lparr>fh_len := transform_endian_i64 (le_value bs)\<rparr>, iob1))
      else Done (True, h, iob))"

definition unpack_key :: "byte \<Rightarrow> frame_header \<Rightarrow> io_buffer \<Rightarrow> (frame_header \<times> io_buffer) run" where
  "unpack_key b h iob =
     (if b AND 0x80 \<noteq> 0 then
        run_bind (iob_read 4 iob) (\<lambda>(r, iob1).
          case r of
            None \<Rightarrow> Done (h\<lparr>fh_key := take 4 (fh_key h @ replicate 4 0)\<rparr>, iob1)
          | Some bs \<Rightarrow> Done (h\<lparr>fh_key := bs, fh_unpacked := True\<rparr>, iob1))
      else Done (h\<lparr>fh_unpacked := True\<rparr>, iob))"

text \<open>The body of the \<open>do\<close> block; leaving it early is \<open>break\<close>.\<close>

definition unpack_fields :: "frame_header \<Rightarrow> io_buffer \<Rightarrow> (frame_header \<times> io_buffer) run" where
  "unpack_fields h iob =
     run_bind (iob_read_byte iob) (\<lambda>(r1, iob1).
       case r1 of
         None \<Rightarrow> Done (h, iob1)
       | Some b1 \<Rightarrow>
           let h1 = h\<lparr>fh_fin := b1 AND 0x80 \<noteq> 0, fh_code := b1 AND 0x0f\<rparr> in
           run_bind (iob_read_byte iob1) (\<lambda>(r2, iob2).
             case r2 of
               None \<Rightarrow> Done (h1, iob2)
             | Some b2 \<Rightarrow>
                 run_bind (unpack_length (h1\<lparr>fh_len := ucast (b2 AND 0x0f)\<rparr>) iob2) (\<lambda>(ok, h2, iob3).
                   if \<not> ok then Done (h2, iob3) else unpack_key b2 h2 iob3)))"

definition unpack_header :: "frame_header \<Rightarrow> io_buffer \<Rightarrow> (bool \<times> frame_header \<times> io_buffer) run" where
  "unpack_header h iob =
     run_bind (unpack_fields h iob) (\<lambda>(h1, iob1).
       let iob2 =
         (if \<not> fh_unpacked h1 then snd (iob_shift (sint (iob_size iob1 - iob_size iob)) iob1) else iob1)
       in Done (fh_unpacked h1, h1, iob2))"

definition length_byte :: "frame_header \<Rightarrow> byte" where
  "length_byte h =
     (let b = (if length (fh_key h) = 4 then 0x80 else 0) in
      if fh_len h < 126 then b OR ucast (fh_len h)
      else if fh_len h \<le> 65535 then b OR 126
      else b OR 127)"

definition pack_length :: "allocator \<Rightarrow> frame_header \<Rightarrow> io_buffer \<Rightarrow> (bool \<times> io_buffer) run" where
  "pack_length al h iob =
     (if fh_len h \<ge> 126 \<and> fh_len h \<le> 65535
      then iob_write al (Some (le_bytes (transform_endian_i16 (ucast (fh_len h))))) 2 iob
      else if fh_len h > 65535
      then iob_write al (Some (le_bytes (transform_endian_i64 (fh_len h)))) 8 iob
      else Done (True, iob))"

definition pack_header :: "allocator \<Rightarrow> frame_header \<Rightarrow> io_buffer \<Rightarrow> (bool \<times> io_buffer) run" where
  "pack_header al h iob =
     run_bind (iob_write_fill al (if fh_fin h then fh_code h OR 0x80 else fh_code h) 1 iob) (\<lambda>(ok1, iob1).
       if \<not> ok1 then Done (False, iob1)
       else
         run_bind (iob_write_fill al (length_byte h) 1 iob1) (\<lambda>(ok2, iob2).
           if \<not> ok2 then Done (False, iob2)
           else
             run_bind (pack_length al h iob2) (\<lambda>(ok3, iob3).
               if \<not> ok3 then Done (False, iob3)
               else if length (fh_key h) = 4 then
                 run_bind (iob_write al (Some (fh_key h)) 4 iob3) (\<lambda>(ok4, iob4). Done (ok4, iob4))
               else Done (True, iob3))))"

text \<open>The loop over the payload; a payload that ends before \<open>payload_len_\<close> is overrun.\<close>

fun mask_loop :: "nat \<Rightarrow> nat \<Rightarrow> byte list \<Rightarrow> byte list \<Rightarrow> byte list run" where
  "mask_loop 0 i key b = Done b"
| "mask_loop (Suc n) i key b =
     run_bind (mem_get b i) (\<lambda>x.
     run_bind (mem_get key (i mod 4)) (\<lambda>k.
     run_bind (mem_set b i (x XOR k)) (\<lambda>b'. mask_loop n (Suc i) key b')))"

definition mask_payload :: "frame_header \<Rightarrow> byte list \<Rightarrow> byte list run" where
  "mask_payload h b =
     (if length (fh_key h) = 4 then mask_loop (unat (fh_len h)) 0 (fh_key h) b else Done b)"

section \<open>Bytes of an integer\<close>

lemma bit_le_value:
  "bit (le_value bs :: 'a :: len word) n \<longleftrightarrow>
    n < LENGTH('a) \<and> n div 8 < length bs \<and> bit (bs ! (n div 8)) (n mod 8)"
proof (induction bs arbitrary: n)
  case (Cons b bs)
  show ?case
  proof (cases "n < 8")
    case True
    then show ?thesis by (auto simp: bit_simps dest: bit_imp_le_length)
  next
    case False
    then have "n div 8 = Suc ((n - 8) div 8)" "n mod 8 = (n - 8) mod 8"
      by (simp_all add: div_if le_mod_geq)
    moreover have "\<not> bit b n" using False by (auto dest: bit_imp_le_length)
    ultimately show ?thesis using False Cons.IH [of "n - 8"] by (auto simp: bit_simps)
  qed
qed simp

lemma length_le_bytes [simp]: "length (le_bytes (w :: 'a :: len word)) = LENGTH('a) div 8"
  by (simp add: le_bytes_def)

lemma le_value_bytes:
  assumes "8 dvd LENGTH('a :: len)"
  shows "le_value (le_bytes (w :: 'a word)) = w"
proof (rule bit_word_eqI)
  fix n assume n: "n < LENGTH('a)"
  have k: "n div 8 < LENGTH('a) div 8" using n assms by (metis dvd_div_mult_self less_mult_imp_div_less)
  have "8 * (n div 8) + n mod 8 = n" by simp
  then show "bit (le_value (le_bytes w) :: 'a word) n = bit w n"
    using n k by (simp add: bit_le_value le_bytes_def bit_simps)
qed

section \<open>Masking\<close>

lemma mask_loop_spec:
  assumes "length key = 4"
  shows "i + n \<le> length b \<Longrightarrow>
    mask_loop n i key b = Done (map (\<lambda>j. if i \<le> j \<and> j < i + n then b ! j XOR key ! (j mod 4) else b ! j) [0..<length b])"
proof (induction n arbitrary: i b)
  case 0
  have "map (\<lambda>j. if i \<le> j \<and> j < i + 0 then b ! j XOR key ! (j mod 4) else b ! j) [0..<length b] = b"
    by (rule nth_equalityI) auto
  then show ?case by simp
next
  case (Suc n)
  let ?b = "b[i := b ! i XOR key ! (i mod 4)]"
  have "mask_loop (Suc n) i key b = mask_loop n (Suc i) key ?b"
    using Suc.prems assms by (simp add: mem_get_def mem_set_def)
  also have "\<dots> = Done (map (\<lambda>j. if Suc i \<le> j \<and> j < Suc i + n then ?b ! j XOR key ! (j mod 4) else ?b ! j)
      [0..<length ?b])"
    by (rule Suc.IH) (use Suc.prems in simp)
  also have "map (\<lambda>j. if Suc i \<le> j \<and> j < Suc i + n then ?b ! j XOR key ! (j mod 4) else ?b ! j) [0..<length ?b] =
      map (\<lambda>j. if i \<le> j \<and> j < i + Suc n then b ! j XOR key ! (j mod 4) else b ! j) [0..<length b]"
    using Suc.prems by (intro nth_equalityI) (auto simp: nth_list_update)
  finally show ?case .
qed

lemma mask_loop_overrun:
  "i \<le> length b \<Longrightarrow> length b < i + n \<Longrightarrow> length key = 4 \<Longrightarrow> mask_loop n i key b = Fault"
proof (induction n arbitrary: i b)
  case (Suc n)
  then show ?case by (cases "i < length b") (simp_all add: mem_get_def mem_set_def)
qed simp

text \<open>
  Masking a payload a second time with the same key restores it, and only the first
  \<open>payload_len_\<close> bytes change; a buffer shorter than \<open>payload_len_\<close> is overrun.
\<close>

theorem mask_payload_involution:
  assumes "length (fh_key h) = 4"
  shows "(if unat (fh_len h) \<le> length b
    then \<exists>b'. mask_payload h b = Done b' \<and> mask_payload h b' = Done b \<and> length b' = length b \<and>
      drop (unat (fh_len h)) b' = drop (unat (fh_len h)) b
    else mask_payload h b = Fault)"
proof (cases "unat (fh_len h) \<le> length b")
  case False
  then show ?thesis
    using mask_loop_overrun [of 0 b "unat (fh_len h)" "fh_key h"] assms by (simp add: mask_payload_def)
next
  case True
  let ?n = "unat (fh_len h)" and ?k = "fh_key h"
  let ?f = "\<lambda>b. map (\<lambda>j. if j < ?n then b ! j XOR ?k ! (j mod 4) else b ! j) [0..<length b]"
  have m: "mask_payload h c = Done (?f c)" if "?n \<le> length c" for c
    using mask_loop_spec [OF assms, of 0 ?n c] that assms by (simp add: mask_payload_def)
  have "?f (?f b) = b" by (rule nth_equalityI) (auto simp: xor.assoc)
  moreover have "drop ?n (?f b) = drop ?n b" by (rule nth_equalityI) auto
  ultimately show ?thesis using True m [of b] m [of "?f b"] by simp
qed

theorem mask_payload_involution_witness:
  "\<exists>b'. mask_payload (frame_new True 1 3 [1, 2, 3, 4]) [10, 20, 30, 40] = Done b' \<and>
    mask_payload (frame_new True 1 3 [1, 2, 3, 4]) b' = Done [10, 20, 30, 40] \<and> length b' = length [10, 20, 30, 40 :: byte] \<and>
    drop 3 b' = [40]"
  using mask_payload_involution [of "frame_new True 1 3 [1, 2, 3, 4]" "[10, 20, 30, 40]"]
  by (simp add: frame_new_def)

section \<open>The wire format\<close>

definition wire_length :: "frame_header \<Rightarrow> byte list" where
  "wire_length h =
     (if fh_len h < 126 then []
      else if fh_len h \<le> 65535 then rev (le_bytes (ucast (fh_len h) :: u16))
      else rev (le_bytes (fh_len h)))"

text \<open>First byte, length byte, length in network order, key: RFC 6455, section 5.2.\<close>

definition wire :: "frame_header \<Rightarrow> byte list" where
  "wire h =
     [if fh_fin h then fh_code h OR 0x80 else fh_code h, length_byte h] @ wire_length h @
     (if length (fh_key h) = 4 then fh_key h else [])"

lemma network_order:
  "le_bytes (transform_endian_i16 v) = rev (le_bytes v)"
  "le_bytes (transform_endian_i64 w) = rev (le_bytes w)"
proof -
  show "le_bytes (transform_endian_i16 v) = rev (le_bytes v)"
  proof (rule nth_equalityI)
    fix i assume "i < length (le_bytes (transform_endian_i16 v))"
    then have i: "i < 2" "Suc 0 - i < 2" by auto
    have "bit (le_bytes (transform_endian_i16 v) ! i) n = bit (rev (le_bytes v) ! i) n" if "n < 8" for n
      using i that by (simp add: le_bytes_def rev_nth nth_append bit_simps transform_i16_bit swap_bit_def del: upt_Suc)
    then show "le_bytes (transform_endian_i16 v) ! i = rev (le_bytes v) ! i" by (intro bit_word_eqI) simp
  qed simp
  show "le_bytes (transform_endian_i64 w) = rev (le_bytes w)"
  proof (rule nth_equalityI)
    fix i assume "i < length (le_bytes (transform_endian_i64 w))"
    then have i: "i < 8" "7 - i < 8" by auto
    have "bit (le_bytes (transform_endian_i64 w) ! i) n = bit (rev (le_bytes w) ! i) n" if "n < 8" for n
      using i that by (simp add: le_bytes_def rev_nth nth_append bit_simps transform_i64_bit swap_bit_def del: upt_Suc)
    then show "le_bytes (transform_endian_i64 w) ! i = rev (le_bytes w) ! i" by (intro bit_word_eqI) simp
  qed simp
qed

section \<open>Packing\<close>

text \<open>A buffer that can still grow by a few bytes.\<close>

definition roomy :: "nat \<Rightarrow> io_buffer \<Rightarrow> bool" where
  "roomy k iob \<longleftrightarrow> iob_wf iob \<and> iob_alloced iob \<and> unat (iob_raw_size iob) < 2 ^ k"

lemma reserve_size:
  assumes "iob_reserve al n iob = Done (ok, iob')"
  shows "iob_raw_size iob' = iob_raw_size iob \<or> iob_raw_size iob' = (iob_raw_size iob + n) div 2 * 3"
  using assms by (auto simp: iob_reserve_def run_bind_eq_Done Let_def split: if_splits option.splits)

lemma append_raw_size:
  "iob_append_raw bs n iob = Done iob' \<Longrightarrow> iob_raw_size iob' = iob_raw_size iob"
  by (auto simp: iob_append_raw_def run_bind_eq_Done)

lemma init_size: "init_by_alloc al n iob = Done (ok, iob') \<Longrightarrow> iob_raw_size iob' \<in> {iob_raw_size iob, n}"
  by (auto simp: init_by_alloc_def split: if_splits option.splits)

lemma grow_roomy:
  assumes "unat (r :: u32) < 2 ^ k" and "unat (n :: u32) < 16" and "6 \<le> k" and "k \<le> 24"
  shows "unat ((r + n) div 2 * 3) < 2 ^ (k + 1)"
proof -
  have "(2::nat) ^ k \<le> 2 ^ 24" using assms(4) by (rule power_increasing) simp
  then have r: "unat r + unat n < 2 ^ 24 + 16" using assms(1,2) by linarith
  have "(2::nat) ^ 6 \<le> 2 ^ k" using assms(3) by (rule power_increasing) simp
  moreover have "unat ((r + n) div 2 * 3) = (unat r + unat n) div 2 * 3"
    by (rule unat_grow) (use r in simp_all)
  ultimately show ?thesis using assms(1,2) by simp
qed

lemma roomy_fits:
  assumes "roomy k iob" and "unat (n :: u32) < 16" and "k \<le> 24"
  shows "grow_fits n iob"
proof -
  have "(2::nat) ^ k \<le> 2 ^ 24" using assms(3) by (rule power_increasing) simp
  then have "unat (iob_raw_size iob) < 2 ^ 24" using assms(1) by (simp add: roomy_def)
  with assms(2) show ?thesis by (simp add: grow_fits_def)
qed

lemma write_roomy:
  assumes room: "roomy k iob" and k: "6 \<le> k" "k \<le> 24" and al: "alloc_ok al" "\<forall>m. al m \<noteq> None"
    and n: "length bs = unat n" "0 < n" "unat n < 16"
  shows "\<exists>iob'. iob_write al (Some bs) n iob = Done (True, iob') \<and> roomy (k + 1) iob' \<and>
    iob_contents iob' = iob_contents iob @ bs"
proof -
  have wf: "iob_wf iob" "iob_alloced iob" and small: "unat (iob_raw_size iob) < 2 ^ k"
    using room by (simp_all add: roomy_def)
  have "(unat n + unat n) div 2 * 3 < 2 ^ 32" using n(3) by simp
  then obtain iob' where w: "iob_write al (Some bs) n iob = Done (True, iob')" "iob_wf iob'"
    "iob_contents iob' = iob_contents iob @ bs" "iob_alloced iob'"
    using iob_write_spec [OF wf al(1) n(1,2) roomy_fits [OF room n(3) k(2)]] al(2) by (metis (full_types))
  have step: "unat r' < 2 ^ (k + 1)" if "r' = r \<or> r' = (r + n) div 2 * 3" "r \<in> {iob_raw_size iob, n}" for r r' :: u32
  proof -
    have k6: "(2::nat) ^ 6 \<le> 2 ^ k" using k(1) by (rule power_increasing) simp
    then have "unat r < 2 ^ k" using that(2) small n(3) by auto
    then show ?thesis using that(1) grow_roomy [OF _ n(3) k] by auto
  qed
  have "unat (iob_raw_size iob') < 2 ^ (k + 1)"
  proof -
    obtain iob1 iob3 ok where p: "(if iob_raw iob = None then init_by_alloc al n iob else Done (True, iob)) = Done (True, iob1)"
      "iob_reserve al n (if iob_rpos iob1 = iob_raw_size iob1 then iob_clear iob1 else iob1) = Done (True, iob3)"
      "iob_append_raw bs n iob3 = Done iob'"
      using w(1) wf(2) n(1,2)
      by (auto simp: iob_write_def run_bind_eq_Done mem_read_def Let_def split: if_splits)
    have "iob_raw_size iob1 \<in> {iob_raw_size iob, n}"
      using p(1) init_size [of al n iob True iob1] by (auto split: if_splits)
    moreover have "iob_raw_size iob3 = iob_raw_size iob1 \<or> iob_raw_size iob3 = (iob_raw_size iob1 + n) div 2 * 3"
      using reserve_size [OF p(2)] by (auto simp: iob_clear_def split: if_splits)
    ultimately have "unat (iob_raw_size iob3) < 2 ^ (k + 1)" by (intro step [of _ "iob_raw_size iob1"])
    then show ?thesis using append_raw_size [OF p(3)] by simp
  qed
  with w show ?thesis by (auto simp: roomy_def)
qed

lemma fill_roomy:
  assumes room: "roomy k iob" and k: "6 \<le> k" "k \<le> 24" and al: "alloc_ok al" "\<forall>m. al m \<noteq> None"
  shows "\<exists>iob'. iob_write_fill al c 1 iob = Done (True, iob') \<and> roomy (k + 1) iob' \<and>
    iob_contents iob' = iob_contents iob @ [c]"
proof -
  have wf: "iob_wf iob" "iob_alloced iob" and small: "unat (iob_raw_size iob) < 2 ^ k"
    using room by (simp_all add: roomy_def)
  have n: "(0 :: u32) < 1" "unat (1 :: u32) < 16" by simp_all
  let ?iob2 = "if iob_rpos iob = iob_raw_size iob then iob_clear iob else iob"
  obtain iob3 where r: "(if iob_raw iob = None then init_by_alloc al 1 iob else iob_reserve al 1 ?iob2) = Done (True, iob3)"
    "iob_wf iob3" "iob_raw iob3 \<noteq> None" "room_for 1 iob3" "iob_contents iob3 = iob_contents iob"
    "iob_alloced iob3" "unat (iob_raw_size iob3) < 2 ^ (k + 1)"
  proof (cases "iob_raw iob")
    case None
    obtain blk where "al 1 = Some blk" using al(2) by blast
    obtain iob1 where i: "init_by_alloc al 1 iob = Done (True, iob1)" "iob_wf iob1"
      "iob_raw iob1 = Some blk" "iob_contents iob1 = []" "iob_contents iob = []" "iob_alloced iob1"
      "iob_raw_size iob1 = 1" "iob_size iob1 = 0" "iob_rpos iob1 = 0"
      by (rule init_by_alloc_fresh [OF wf None n(1) \<open>al 1 = Some blk\<close> al(1)]) blast
    have "(2::nat) ^ 6 \<le> 2 ^ k" using k(1) by (rule power_increasing) simp
    then have "Suc 0 < 2 * 2 ^ k" by simp
    with None i show thesis by (intro that [of iob1]) (simp_all add: room_for_def)
  next
    case (Some raw)
    note c = iob_clear_if_full [OF wf(1)]
    have "roomy k ?iob2" using room c by (simp add: roomy_def)
    then have fits: "grow_fits 1 ?iob2" by (rule roomy_fits [OF _ n(2) k(2)])
    have raw: "iob_raw ?iob2 = Some raw" using Some c(3) by simp
    obtain ok iob3 where q: "iob_reserve al 1 ?iob2 = Done (ok, iob3)" "iob_wf iob3"
      "iob_contents iob3 = iob_contents ?iob2" "iob_raw iob3 \<noteq> None" "iob_alloced iob3 = iob_alloced ?iob2"
      "ok \<Longrightarrow> room_for 1 iob3" "(\<forall>m. al m \<noteq> None) \<longrightarrow> ok"
      by (rule iob_reserve_keeps [OF c(1) raw al(1) fits n(1)]) blast
    have ok: "ok" using q(7) al(2) by simp
    have rs: "iob_raw_size ?iob2 = iob_raw_size iob" by (rule c(6))
    have "iob_raw_size iob3 = iob_raw_size iob \<or> iob_raw_size iob3 = (iob_raw_size iob + 1) div 2 * 3"
      using reserve_size [OF q(1)] unfolding rs .
    then have "unat (iob_raw_size iob3) < 2 ^ (k + 1)"
      using small grow_roomy [OF small n(2) k] by auto
    then show thesis using Some q ok c wf(2) by (intro that [of iob3]) simp_all
  qed
  obtain iob4 where a: "iob_append_raw [c] 1 iob3 = Done iob4" "iob_wf iob4"
    "iob_contents iob4 = iob_contents iob3 @ [c]" "iob_alloced iob4 = iob_alloced iob3"
    by (rule iob_append_raw_spec [OF r(2-4), of "[c]"]) simp_all
  have "iob_write_fill al c 1 iob = Done (True, iob4)"
    using wf(2) r(1) a(1)
    by (cases "iob_raw iob"; cases "iob_rpos iob = iob_raw_size iob"; simp add: iob_write_fill_def Let_def)
  with a r append_raw_size [OF a(1)] show ?thesis by (auto simp: roomy_def)
qed

lemma pack_header_roomy:
  assumes "roomy 20 iob" and "alloc_ok al" and "\<forall>m. al m \<noteq> None"
  shows "\<exists>iob'. pack_header al h iob = Done (True, iob') \<and> roomy 24 iob' \<and>
    iob_contents iob' = iob_contents iob @ wire h"
proof -
  let ?b1 = "if fh_fin h then fh_code h OR 0x80 else fh_code h"
  note al = assms(2,3)
  obtain iob1 where 1: "iob_write_fill al ?b1 1 iob = Done (True, iob1)" "roomy 21 iob1"
    "iob_contents iob1 = iob_contents iob @ [?b1]" using fill_roomy [OF assms(1) _ _ al, of ?b1] by auto
  obtain iob2 where 2: "iob_write_fill al (length_byte h) 1 iob1 = Done (True, iob2)" "roomy 22 iob2"
    "iob_contents iob2 = iob_contents iob1 @ [length_byte h]"
    using fill_roomy [OF 1(2) _ _ al, of "length_byte h"] by auto
  obtain iob3 where 3: "pack_length al h iob2 = Done (True, iob3)" "roomy 23 iob3"
    "iob_contents iob3 = iob_contents iob2 @ wire_length h"
  proof (cases "fh_len h < 126")
    case True
    then have "\<not> 126 \<le> fh_len h" "\<not> 65535 < fh_len h"
      by (simp_all add: word_less_nat_alt word_le_nat_alt)
    with True 2(2) show thesis by (intro that [of iob2]) (simp_all add: pack_length_def wire_length_def roomy_def)
  next
    case False
    then have ge: "126 \<le> fh_len h" by simp
    show thesis
    proof (cases "fh_len h \<le> 65535")
      case True
      let ?bs = "le_bytes (transform_endian_i16 (ucast (fh_len h)))"
      obtain iob3 where "iob_write al (Some ?bs) 2 iob2 = Done (True, iob3)" "roomy 23 iob3"
        "iob_contents iob3 = iob_contents iob2 @ ?bs"
        using write_roomy [OF 2(2) _ _ al, of ?bs 2] by auto
      with True False ge show thesis
        by (intro that [of iob3]) (simp_all add: pack_length_def wire_length_def network_order)
    next
      case big: False
      let ?bs = "le_bytes (transform_endian_i64 (fh_len h))"
      obtain iob3 where "iob_write al (Some ?bs) 8 iob2 = Done (True, iob3)" "roomy 23 iob3"
        "iob_contents iob3 = iob_contents iob2 @ ?bs"
        using write_roomy [OF 2(2) _ _ al, of ?bs 8] by auto
      with big False show thesis
        by (intro that [of iob3]) (simp_all add: pack_length_def wire_length_def network_order)
    qed
  qed
  show ?thesis
  proof (cases "length (fh_key h) = 4")
    case False
    with 1 2 3 show ?thesis by (simp add: pack_header_def wire_def roomy_def)
  next
    case True
    obtain iob4 where "iob_write al (Some (fh_key h)) 4 iob3 = Done (True, iob4)" "roomy 24 iob4"
      "iob_contents iob4 = iob_contents iob3 @ fh_key h"
      using write_roomy [OF 3(2) _ _ al, of "fh_key h" 4] True by auto
    with True 1 2 3 show ?thesis by (simp add: pack_header_def wire_def roomy_def)
  qed
qed

text \<open>
  Packing a header appends its wire form to the buffer: flags and code, length byte,
  extended length in network order, key.
\<close>

theorem pack_header_wire:
  assumes "iob_wf iob" and "iob_alloced iob" and "unat (iob_raw_size iob) < 2 ^ 20"
    and "alloc_ok al" and "\<forall>m. al m \<noteq> None"
  shows "\<exists>iob'. pack_header al h iob = Done (True, iob') \<and> iob_wf iob' \<and>
    iob_contents iob' = iob_contents iob @ wire h"
  using pack_header_roomy [of iob al h] assms by (auto simp: roomy_def)

theorem pack_header_wire_witness:
  "\<exists>iob'. pack_header zero_alloc (frame_new True 1 300 [9, 8, 7, 6]) (iob_new True) = Done (True, iob') \<and> iob_wf iob' \<and>
    iob_contents iob' = iob_contents (iob_new True) @ wire (frame_new True 1 300 [9, 8, 7, 6])"
  by (rule pack_header_wire)
    (simp_all add: iob_new_wf zero_alloc_ok, simp add: zero_alloc_def)

section \<open>Unpacking\<close>

lemma nibble_length: "ucast (b AND 0x0f :: byte) \<noteq> (126 :: u64)" "ucast (b AND 0x0f :: byte) \<noteq> (127 :: u64)"
proof -
  have "unat (b AND 0x0f) \<le> 15" using word_and_le1 [of b "0x0f"] by (simp add: word_le_nat_alt)
  then have "unat (ucast (b AND 0x0f) :: u64) \<le> 15" by (simp add: unsigned_ucast_eq take_bit_nat_eq_self)
  then show "ucast (b AND 0x0f :: byte) \<noteq> (126 :: u64)" "ucast (b AND 0x0f :: byte) \<noteq> (127 :: u64)"
    by auto
qed

lemma shift_restores:
  assumes wf: "iob_wf iob" and d: "unat d \<le> unat (iob_size iob)" and small: "unat (iob_raw_size iob) < 2 ^ 31"
  shows "snd (iob_shift (sint (iob_size (iob_advance d iob) - iob_size iob)) (iob_advance d iob)) = iob"
proof -
  have "unat (iob_rpos iob) + unat (iob_size iob) \<le> unat (iob_raw_size iob)"
    using wf by (simp add: iob_wf_def)
  then have ds: "unat d < 2 ^ 31" using d small by linarith
  have "sint (- d) = - int (unat d)"
  proof (cases "d = 0")
    case False
    have "int (unat d) < int (2 ^ 31)" using ds by (simp only: of_nat_less_iff)
    then have "int (unat d) \<le> 2 ^ 31" by (simp only: of_nat_power of_nat_numeral)
    then have b: "- (2 ^ 31) \<le> - int (unat d)" by (simp only: neg_le_iff_le)
    have "- int (unat d) \<le> 0" by (simp only: neg_le_0_iff_le of_nat_0_le_iff)
    then have "- int (unat d) < 2 ^ 31" by (rule order_le_less_trans) simp
    note b = b this
    have "sint (word_of_int (- int (unat d)) :: u32) = signed_take_bit 31 (- int (unat d))"
      by (simp only: signed_of_int) simp
    also have "\<dots> = - int (unat d)" by (rule signed_take_bit_int_eq_self [OF b])
    finally show ?thesis by (simp only: word_of_neg_unat)
  qed simp
  then have "sint (iob_size (iob_advance d iob) - iob_size iob) = - int (unat d)" by simp
  then show ?thesis using iob_shift_back [OF wf d small] by simp
qed

lemma unpack_header_effect:
  assumes "iob_wf iob" and "unat (iob_raw_size iob) < 2 ^ 31" and "\<not> fh_unpacked h"
  defines "cs \<equiv> iob_contents iob"
  shows "\<exists>h' iob'. unpack_header h iob = Done (fh_unpacked h', h', iob') \<and>
    (if length cs < 2 \<or> length cs < 6 \<and> cs ! 1 AND 0x80 \<noteq> 0
     then \<not> fh_unpacked h' \<and> iob' = iob
     else h' = \<lparr>fh_fin = (cs ! 0 AND 0x80 \<noteq> 0), fh_code = cs ! 0 AND 0x0f, fh_len = ucast (cs ! 1 AND 0x0f),
                fh_key = (if cs ! 1 AND 0x80 \<noteq> 0 then take 4 (drop 2 cs) else fh_key h), fh_unpacked = True\<rparr> \<and>
       iob_wf iob' \<and> iob_contents iob' = drop (if cs ! 1 AND 0x80 \<noteq> 0 then 6 else 2) cs)"
proof -
  note wf = assms(1)
  have len: "length cs = unat (iob_size iob)" using length_iob_contents [OF wf] by (simp add: cs_def)
  have undo: "snd (iob_shift (sint (iob_size (iob_advance d iob) - iob_size iob)) (iob_advance d iob)) = iob"
    if "unat d \<le> length cs" for d
    by (rule shift_restores [OF wf _ assms(2)]) (use that len in simp)
  show ?thesis
  proof (cases "length cs < 2")
    case short: True
    show ?thesis
    proof (cases "length cs = 0")
      case True
      then have "unpack_fields h iob = Done (h, iob)"
        using len by (simp add: unpack_fields_def iob_read_byte_spec [OF wf])
      with short assms(3) undo [of 0] show ?thesis by (simp add: unpack_header_def)
    next
      case False
      then have one: "length cs = 1" using short by linarith
      note a = iob_advance_wf [OF wf, of 1]
      have a1: "iob_wf (iob_advance 1 iob)" "unat (iob_size (iob_advance 1 iob)) = 0"
        using a(1,4) one len by simp_all
      have "\<exists>h'. unpack_fields h iob = Done (h', iob_advance 1 iob) \<and> \<not> fh_unpacked h'"
        using one len assms(3) a1
        by (simp add: unpack_fields_def iob_read_byte_spec [OF wf] iob_read_byte_spec [OF a1(1)] Let_def)
      then obtain h' where h': "unpack_fields h iob = Done (h', iob_advance 1 iob)" "\<not> fh_unpacked h'" by blast
      with short undo [of 1] one show ?thesis by (auto simp: unpack_header_def)
    qed
  next
    case False
    then obtain b1 b2 rest where cs: "cs = b1 # b2 # rest"
      by (cases cs; cases "tl cs") auto
    have l2: "unat (1 :: u32) \<le> unat (iob_size iob)" using len cs by simp
    note a = iob_advance_wf [OF wf l2]
    let ?i1 = "iob_advance 1 iob" and ?i2 = "iob_advance 2 iob"
    have c1: "iob_contents ?i1 = b2 # rest" using a(2) cs by (simp add: cs_def)
    have s1: "unat (iob_size ?i1) = Suc (length rest)" using length_iob_contents [OF a(1)] c1 by simp
    have l2': "unat (2 :: u32) \<le> unat (iob_size iob)" using len cs by simp
    note a2 = iob_advance_wf [OF wf l2']
    have c2: "iob_contents ?i2 = rest" using a2(2) cs by (simp add: cs_def)
    have s2: "unat (iob_size ?i2) = length rest" using length_iob_contents [OF a2(1)] c2 by simp
    let ?h = "h\<lparr>fh_fin := b1 AND 0x80 \<noteq> 0, fh_code := b1 AND 0x0f, fh_len := ucast (b2 AND 0x0f)\<rparr>"
    have r1: "iob_read_byte iob = Done (Some b1, ?i1)"
      using iob_read_byte_spec [OF wf] len cs by (simp add: cs_def [symmetric])
    have r2: "iob_read_byte ?i1 = Done (Some b2, ?i2)"
      using iob_read_byte_spec [OF a(1)] s1 c1 by simp
    have f: "unpack_fields h iob = unpack_key b2 ?h ?i2"
      by (simp add: unpack_fields_def r1 r2 Let_def unpack_length_def nibble_length)
    show ?thesis
    proof (cases "b2 AND 0x80 = 0")
      case True
      then have "unpack_header h iob = Done (True, ?h\<lparr>fh_unpacked := True\<rparr>, ?i2)"
        by (simp add: unpack_header_def f unpack_key_def)
      with True a2(1) c2 cs show ?thesis by (cases h) simp
    next
      case mask: False
      have r: "iob_read 4 ?i2 = Done (if 4 \<le> length rest then (Some (take 4 rest), iob_advance 4 ?i2) else (None, ?i2))"
        using iob_read_spec [OF a2(1), of 4] s2 c2 by simp
      show ?thesis
      proof (cases "4 \<le> length rest")
        case True
        have l4: "unat (4 :: u32) \<le> unat (iob_size ?i2)" using s2 True by simp
        note a4 = iob_advance_wf [OF a2(1) l4]
        have "unpack_header h iob = Done (True, ?h\<lparr>fh_key := take 4 rest, fh_unpacked := True\<rparr>, iob_advance 4 ?i2)"
          using mask True by (simp add: unpack_header_def f unpack_key_def r)
        moreover have "iob_contents (iob_advance 4 ?i2) = drop 4 rest" using a4(2) c2 by simp
        ultimately show ?thesis using mask True a4(1) cs by (cases h) simp
      next
        case False
        have "unpack_header h iob =
            Done (False, ?h\<lparr>fh_key := take 4 (fh_key h @ replicate 4 0)\<rparr>,
              snd (iob_shift (sint (iob_size ?i2 - iob_size iob)) ?i2))"
          using mask False assms(3) by (simp add: unpack_header_def f unpack_key_def r)
        with undo [of 2] cs mask False assms(3) show ?thesis by simp
      qed
    qed
  qed
qed

text \<open>
  What unpacking a header does, byte for byte: it needs two bytes and four more when
  the mask bit is set. With fewer it reports failure and leaves the buffer as it was. With
  enough it consumes exactly these, and takes the payload length from the low four bits of
  the second byte.
\<close>

theorem unpack_header_result:
  assumes "iob_wf iob" and "unat (iob_raw_size iob) < 2 ^ 31" and "\<not> fh_unpacked h"
  defines "cs \<equiv> iob_contents iob"
  shows "\<exists>h' iob'. unpack_header h iob = Done (fh_unpacked h', h', iob') \<and>
    (if length cs < 2 \<or> length cs < 6 \<and> cs ! 1 AND 0x80 \<noteq> 0
     then \<not> fh_unpacked h' \<and> iob' = iob
     else h' = \<lparr>fh_fin = (cs ! 0 AND 0x80 \<noteq> 0), fh_code = cs ! 0 AND 0x0f, fh_len = ucast (cs ! 1 AND 0x0f),
                fh_key = (if cs ! 1 AND 0x80 \<noteq> 0 then take 4 (drop 2 cs) else fh_key h), fh_unpacked = True\<rparr> \<and>
       iob_wf iob' \<and> iob_contents iob' = drop (if cs ! 1 AND 0x80 \<noteq> 0 then 6 else 2) cs)"
  unfolding cs_def by (rule unpack_header_effect [OF assms(1-3)])

lemma wire_short:
  assumes "fh_len h < 16"
  shows "wire h = [if fh_fin h then fh_code h OR 0x80 else fh_code h,
     (if length (fh_key h) = 4 then 0x80 else 0) OR ucast (fh_len h)] @ (if length (fh_key h) = 4 then fh_key h else [])"
proof -
  have "fh_len h < 126" using assms by (simp add: word_less_nat_alt)
  then show ?thesis by (simp add: wire_def wire_length_def length_byte_def Let_def)
qed

text \<open>A buffer that holds given bytes.\<close>

definition iob_of :: "byte list \<Rightarrow> io_buffer" where
  "iob_of bs = (iob_new True)\<lparr>iob_raw := Some bs, iob_raw_size := of_nat (length bs), iob_size := of_nat (length bs)\<rparr>"

theorem unpack_header_result_witness:
  "\<exists>h' iob'. unpack_header (frame_new True 0 0 []) (iob_of [0x81, 0x85, 1, 2, 3, 4, 7]) = Done (True, h', iob') \<and>
    fh_code h' = 1 \<and> fh_len h' = 5 \<and> fh_key h' = [1, 2, 3, 4] \<and> iob_contents iob' = [7]"
  using unpack_header_result [of "iob_of [0x81, 0x85, 1, 2, 3, 4, 7]" "frame_new True 0 0 []"]
  by (auto simp: iob_of_def iob_new_def iob_wf_def raw_bytes_def iob_contents_def frame_new_def)

lemma or_high_bit:
  assumes "b < 16"
  shows "(b OR 0x80) AND 0x80 \<noteq> (0 :: byte)" "b AND 0x80 = 0" "(b OR 0x80) AND 0x0f = b" "b AND 0x0f = b"
proof -
  have "(b OR 0x80) AND 0x80 \<noteq> (0 :: byte) \<and> b AND 0x80 = 0 \<and> (b OR 0x80) AND 0x0f = b \<and> b AND 0x0f = b"
    using assms by (rule byte_below) (simp add: upt_16)
  then show "(b OR 0x80) AND 0x80 \<noteq> (0 :: byte)" "b AND 0x80 = 0" "(b OR 0x80) AND 0x0f = b" "b AND 0x0f = b"
    by simp_all
qed

lemma unpack_wire_plain:
  assumes "iob_wf iob" and "unat (iob_raw_size iob) < 2 ^ 31" and "iob_contents iob = wire h @ rest"
    and "fh_len h < 16" and "fh_code h < 16" and "length (fh_key h) \<in> {0, 4}" and "\<not> fh_unpacked g" and "fh_key g = []"
  shows "\<exists>iob'. unpack_header g iob = Done (True, h\<lparr>fh_unpacked := True\<rparr>, iob') \<and> iob_contents iob' = rest"
proof -
  let ?l = "ucast (fh_len h) :: byte"
  have n: "unat (fh_len h) < 16" using assms(4) by (simp add: word_less_nat_alt)
  have "unat ?l = take_bit 8 (unat (fh_len h))" by (simp add: unsigned_ucast_eq unsigned_take_bit_eq)
  also have "\<dots> = unat (fh_len h)" using n by (intro take_bit_nat_eq_self) simp
  finally have ul': "unat ?l = unat (fh_len h)" .
  then have l: "?l < 16" using n by (simp add: word_less_nat_alt)
  have "unat (ucast ?l :: u64) = take_bit 64 (unat ?l)" by (simp add: unsigned_ucast_eq unsigned_take_bit_eq)
  also have "\<dots> = unat (fh_len h)" using n ul' by (simp add: take_bit_nat_eq_self)
  finally have ul: "ucast ?l = fh_len h" by (simp only: word_unat_eq_iff)
  note bits = or_high_bit [OF l] or_high_bit [OF assms(5)]
  let ?b1 = "if fh_fin h then fh_code h OR 0x80 else fh_code h"
  let ?b2 = "(if length (fh_key h) = 4 then 0x80 else 0) OR ?l"
  have cs: "iob_contents iob = ?b1 # ?b2 # (if length (fh_key h) = 4 then fh_key h else []) @ rest"
    using assms(3) wire_short [OF assms(4)] by simp
  have b1: "(?b1 AND 0x80 \<noteq> 0) = fh_fin h" "?b1 AND 0x0f = fh_code h" using bits by auto
  have b2: "(?b2 AND 0x80 \<noteq> 0) = (length (fh_key h) = 4)" "?b2 AND 0x0f = ?l"
    using bits by (auto simp: or.commute)
  have rec: "h\<lparr>fh_unpacked := True\<rparr> = \<lparr>fh_fin = fh_fin h, fh_code = fh_code h, fh_len = fh_len h,
      fh_key = fh_key h, fh_unpacked = True\<rparr>" by (cases h) simp
  show ?thesis
  proof (cases "length (fh_key h) = 4")
    case True
    then show ?thesis using unpack_header_effect [OF assms(1,2,7)] cs b1 b2 ul
      by (auto simp: rec)
  next
    case False
    then have "fh_key h = []" using assms(6) by simp
    then show ?thesis using False unpack_header_effect [OF assms(1,2,7)] cs b1 b2 ul assms(8)
      by (auto simp: rec)
  qed
qed

text \<open>
  Unpacking undoes packing for payloads of at most 15 bytes and codes of four bits:
  flags, code, length and key come back and exactly the header is consumed.
\<close>

theorem unpack_wire_roundtrip:
  assumes "iob_wf iob" and "unat (iob_raw_size iob) < 2 ^ 31" and "iob_contents iob = wire h @ rest"
    and "fh_len h < 16" and "fh_code h < 16" and "length (fh_key h) \<in> {0, 4}" and "\<not> fh_unpacked g" and "fh_key g = []"
  shows "\<exists>iob'. unpack_header g iob = Done (True, h\<lparr>fh_unpacked := True\<rparr>, iob') \<and> iob_contents iob' = rest"
  using assms by (rule unpack_wire_plain)

theorem unpack_wire_roundtrip_witness:
  "\<exists>iob'. unpack_header (frame_new True 0 0 []) (iob_of [0x82, 0x83, 1, 2, 3, 4, 9, 9, 9]) =
      Done (True, \<lparr>fh_fin = True, fh_code = 2, fh_len = 3, fh_key = [1, 2, 3, 4], fh_unpacked = True\<rparr>, iob') \<and>
    iob_contents iob' = [9, 9, 9]"
  using unpack_wire_roundtrip [of "iob_of [0x82, 0x83, 1, 2, 3, 4, 9, 9, 9]" "frame_new True 2 3 [1, 2, 3, 4]"
      "[9, 9, 9]" "frame_new True 0 0 []"]
  by (simp add: iob_of_def iob_new_def iob_wf_def raw_bytes_def iob_contents_def frame_new_def wire_short)

text \<open>
  For longer payloads unpacking does not undo packing: the length that comes out has
  only the low four bits of the length byte, so a payload of 126 bytes or more is taken for
  14 or 15 bytes, and its extended length stays in the buffer as if it were payload.
\<close>

theorem unpack_wire_long:
  assumes "iob_wf iob" and "unat (iob_raw_size iob) < 2 ^ 31" and "iob_contents iob = wire h @ rest"
    and "fh_key h = []" and "\<not> fh_unpacked g" and "126 \<le> fh_len h"
  shows "\<exists>h' iob'. unpack_header g iob = Done (True, h', iob') \<and>
    fh_len h' = (if fh_len h \<le> 65535 then 14 else 15) \<and> iob_contents iob' = wire_length h @ rest"
proof -
  have "\<not> fh_len h < 126" using assms(6) by simp
  then have "iob_contents iob = (if fh_fin h then fh_code h OR 0x80 else fh_code h) #
      (if fh_len h \<le> 65535 then 126 else 127) # wire_length h @ rest"
    using assms(3,4) by (simp add: wire_def length_byte_def)
  then show ?thesis using unpack_header_effect [OF assms(1,2,5)]
    by (cases "fh_len h \<le> 65535") auto
qed

theorem unpack_wire_long_witness:
  "\<exists>h' iob'. unpack_header (frame_new True 0 0 []) (iob_of [0x81, 126, 1, 44, 65]) = Done (True, h', iob') \<and>
    fh_len h' = 14 \<and> iob_contents iob' = wire_length (frame_new True 1 300 []) @ [65]"
  using unpack_wire_long [of "iob_of [0x81, 126, 1, 44, 65]" "frame_new True 1 300 []" "[65]" "frame_new True 0 0 []"]
  by (simp add: iob_of_def iob_new_def iob_wf_def raw_bytes_def iob_contents_def frame_new_def wire_def wire_length_def
      length_byte_def le_bytes_def upt_conv_Cons)

end
