(* ===== verification/Ordered_Map.thy ===== *)
theory Ordered_Map
  imports Prelude "HOL-Library.List_Lexorder"
begin

text \<open>
  \<open>std::map\<close>: what the components that keep one rely on, as a locale, and the list of
  entries in ascending order of the keys that stands for it in the model. The keys of the
  sources are strings, compared byte by byte as unsigned characters, which is the order of
  lists of bytes in \<open>List_Lexorder\<close>.
\<close>

section \<open>The interface\<close>

locale std_map =
  fixes empty_map :: 'm
    and lookup :: "'m \<Rightarrow> 'k \<Rightarrow> 'v option"
    and update :: "'k \<Rightarrow> 'v \<Rightarrow> 'm \<Rightarrow> 'm"
    and map_wf :: "'m \<Rightarrow> bool"
  assumes wf_empty: "map_wf empty_map"
    and wf_update: "map_wf m \<Longrightarrow> map_wf (update k v m)"
    and lookup_empty: "lookup empty_map k = None"
    and lookup_update: "map_wf m \<Longrightarrow> lookup (update k v m) k' = (if k' = k then Some v else lookup m k')"
begin

definition put_all :: "('k \<times> 'v) list \<Rightarrow> 'm \<Rightarrow> 'm" where
  "put_all kvs m = fold (\<lambda>(k, v). update k v) kvs m"

lemma put_all_Nil [simp]: "put_all [] m = m"
  by (simp add: put_all_def)

lemma put_all_Cons [simp]: "put_all ((k, v) # kvs) m = put_all kvs (update k v m)"
  by (simp add: put_all_def)

lemma wf_put_all: "map_wf m \<Longrightarrow> map_wf (put_all kvs m)"
  by (induction kvs arbitrary: m) (auto simp: wf_update)

lemma lookup_put_all:
  "map_wf m \<Longrightarrow> distinct (map fst kvs) \<Longrightarrow>
   lookup (put_all kvs m) k = (case map_of kvs k of Some v \<Rightarrow> Some v | None \<Rightarrow> lookup m k)"
proof (induction kvs arbitrary: m)
  case (Cons kv kvs)
  obtain k' v where kv: "kv = (k', v)" by (cases kv)
  have "k' \<notin> fst ` set kvs" using Cons.prems(2) kv by simp
  then have "map_of kvs k' = None" by (simp add: map_of_eq_None_iff)
  then show ?case using Cons.IH [OF wf_update [OF Cons.prems(1)]] Cons.prems kv
    by (auto simp: lookup_update split: option.split)
qed simp

end

locale std_map_entries = std_map empty_map lookup update map_wf
  for empty_map :: 'm and lookup :: "'m \<Rightarrow> 'k \<Rightarrow> 'v option" and update and map_wf +
  fixes entries :: "'m \<Rightarrow> ('k \<times> 'v) list"
  assumes entries_distinct: "map_wf m \<Longrightarrow> distinct (map fst (entries m))"
    and entries_lookup: "map_wf m \<Longrightarrow> map_of (entries m) = lookup m"
    and map_ext: "map_wf m \<Longrightarrow> map_wf m' \<Longrightarrow> lookup m = lookup m' \<Longrightarrow> m = m'"
begin

lemma put_all_entries: "map_wf m \<Longrightarrow> put_all (entries m) empty_map = m"
proof (rule map_ext)
  assume m: "map_wf m"
  show "map_wf (put_all (entries m) empty_map)" by (rule wf_put_all [OF wf_empty])
  show "lookup (put_all (entries m) empty_map) = lookup m"
    using lookup_put_all [OF wf_empty entries_distinct [OF m]] entries_lookup [OF m]
    by (auto simp: fun_eq_iff lookup_empty split: option.split)
qed

end

section \<open>Entries in ascending order\<close>

type_synonym ('k, 'v) omap = "('k \<times> 'v) list"

fun om_put :: "'k :: linorder \<Rightarrow> 'v \<Rightarrow> ('k, 'v) omap \<Rightarrow> ('k, 'v) omap" where
  "om_put k v [] = [(k, v)]"
| "om_put k v ((k', v') # m) =
     (if k < k' then (k, v) # (k', v') # m
      else if k' < k then (k', v') # om_put k v m
      else (k, v) # m)"

definition om_wf :: "('k :: linorder, 'v) omap \<Rightarrow> bool" where
  "om_wf m \<longleftrightarrow> sorted_wrt (<) (map fst m)"

lemma om_put_keys: "fst ` set (om_put k v m) = insert k (fst ` set m)"
  by (induction m rule: om_put.induct) (auto split: if_splits)

lemma om_put_wf: "om_wf m \<Longrightarrow> om_wf (om_put k v m)"
proof (induction k v m rule: om_put.induct)
  case (2 k v k' v' m)
  have "\<forall>x\<in>fst ` set (om_put k v m). k' < x" if "k' < k"
    using that 2(2) unfolding om_put_keys by (auto simp: om_wf_def)
  with 2 show ?case by (auto simp: om_wf_def)
qed (simp add: om_wf_def)

lemma om_get_put: "om_wf m \<Longrightarrow> map_of (om_put k v m) k' = (if k' = k then Some v else map_of m k')"
proof (induction k v m rule: om_put.induct)
  case (2 k v j u m)
  have "k \<notin> fst ` set m" if "k < j"
    using that 2(2) by (auto simp: om_wf_def)
  then have "k < j \<Longrightarrow> map_of m k = None" by (simp add: map_of_eq_None_iff)
  with 2 show ?case by (auto simp: om_wf_def not_less)
qed simp

lemma om_wf_distinct: "om_wf m \<Longrightarrow> distinct (map fst m)"
  unfolding om_wf_def by (rule strict_sorted_iff [THEN iffD1, THEN conjunct2])

lemma om_ext:
  assumes "om_wf m" and "om_wf m'" and "map_of m = map_of m'"
  shows "m = m'"
proof (rule map_sorted_distinct_set_unique)
  note d = om_wf_distinct [OF assms(1)] om_wf_distinct [OF assms(2)]
  show "set m = set m'" using d assms(3) by (simp add: map_of_inject_set [symmetric])
  then show "inj_on fst (set m \<union> set m')" using d by (simp add: distinct_map)
  show "distinct (map fst m)" "distinct (map fst m')" by (rule d)+
  show "sorted (map fst m)" "sorted (map fst m')"
    using assms(1,2) by (simp_all add: om_wf_def strict_sorted_imp_sorted)
qed

interpretation om: std_map "[]" map_of om_put om_wf
proof unfold_locales
  show "om_wf []" by (simp add: om_wf_def)
qed (simp_all add: om_put_wf om_get_put)

interpretation ome: std_map_entries "[]" map_of om_put om_wf "\<lambda>m. m"
  by unfold_locales (simp_all add: om_wf_distinct om_ext)

end
