(* ===== verification/Http_Header.thy ===== *)
theory Http_Header
  imports Http_Utils Ordered_Map
begin

text \<open>
  src/proto/http/header.cpp: the headers of a packet, a \<open>std::map\<close> from names to lists of
  values. A text that is parsed is a list of exactly the \<open>size\<close> bytes the caller names.
\<close>

record header =
  hd_parsed :: bool
  hd_map :: "(byte list, byte list list) omap"

definition header_new :: header where
  "header_new = \<lparr>hd_parsed = False, hd_map = []\<rparr>"

section \<open>Setting and getting\<close>

definition head_value_sep :: "byte list" where "head_value_sep = B ''; ''"

text \<open>The regular expression \<open>[,;] *\<close>.\<close>

definition head_split :: separator where "head_split = ([44, 59], True)"

definition set_head_int :: "byte list \<Rightarrow> int \<Rightarrow> header \<Rightarrow> header" where
  "set_head_int name val h =
     (let strval = snd (c_snprintf 63 (print_d val));
          vals = (case map_of (hd_map h) name of None \<Rightarrow> [] | Some vs \<Rightarrow> vs)
      in h\<lparr>hd_map := om_put name (vals @ [strval]) (hd_map h)\<rparr>)"

definition set_head :: "byte list \<Rightarrow> byte list \<Rightarrow> header \<Rightarrow> header" where
  "set_head name val h =
     (let vals = split_string val head_split in
      case map_of (hd_map h) name of
        None \<Rightarrow> h\<lparr>hd_map := om_put name vals (hd_map h)\<rparr>
      | Some old \<Rightarrow> h\<lparr>hd_map := om_put name (old @ vals) (hd_map h)\<rparr>)"

definition set_unique_head_int :: "byte list \<Rightarrow> int \<Rightarrow> header \<Rightarrow> header" where
  "set_unique_head_int name val h =
     h\<lparr>hd_map := om_put name [snd (c_snprintf 63 (print_d val))] (hd_map h)\<rparr>"

definition set_unique_head :: "byte list \<Rightarrow> byte list \<Rightarrow> header \<Rightarrow> header" where
  "set_unique_head name val h =
     h\<lparr>hd_map := om_put name (split_string val head_split) (hd_map h)\<rparr>"

definition get_head_values :: "byte list \<Rightarrow> header \<Rightarrow> byte list list option" where
  "get_head_values name h =
     (case map_of (hd_map h) name of
        None \<Rightarrow> None
      | Some vs \<Rightarrow> if vs = [] then None else Some vs)"

definition get_head_int :: "byte list \<Rightarrow> header \<Rightarrow> int option" where
  "get_head_int name h =
     (case map_of (hd_map h) name of
        None \<Rightarrow> None
      | Some vs \<Rightarrow> if vs = [] then None else Some (to_i32 (atol (c_str (vs ! 0)))))"

definition get_head :: "byte list \<Rightarrow> header \<Rightarrow> byte list option" where
  "get_head name h =
     (case map_of (hd_map h) name of
        None \<Rightarrow> None
      | Some vs \<Rightarrow> if vs = [] then None else Some (join_strings vs head_value_sep))"

definition has_head :: "byte list \<Rightarrow> header \<Rightarrow> bool" where
  "has_head name h = (map_of (hd_map h) name \<noteq> None)"

section \<open>Parsing\<close>

text \<open>
  One line, its end included: the name and the new content of the variable \<open>value\<close>, which
  keeps what the line before has left there when the value is empty. \<open>None\<close> is the error
  return; the assertion that the value starts in front of the end of the line is a branch.
\<close>

definition parse_header_line :: "byte list \<Rightarrow> byte list \<Rightarrow> (byte list \<times> byte list) option run" where
  "parse_header_line val line =
     (let name = takeWhile (\<lambda>c. c \<noteq> 58) line;
          after = dropWhile (\<lambda>c. c \<noteq> 58) line
      in if after = [] \<or> name = [] then Done None
         else
           (let v = dropWhile (\<lambda>c. c = 32 \<or> c = 58) after in
            if length v < 2 then Abort
            else
              (let text = take (length v - 2) v in
               Done (Some (name, if text \<noteq> [] then text else val)))))"

lemma find_line_end_whole:
  "find_http_line_end s (int (length s)) = Done (line_length (take 2048 s))"
  using find_http_line_end_spec [of "int (length s)" s]
  by (auto simp: min_def)

lemma find_line_end_bounds:
  "find_http_line_end s (int (length s)) = Done (Some n) \<Longrightarrow> 2 \<le> n \<and> n \<le> length s"
  using line_length_bounds [of "take 2048 s" n] by (auto simp: find_line_end_whole)

text \<open>The loop over the lines: what is left of the text, \<open>None\<close> on an error.\<close>

function header_loop :: "byte list \<Rightarrow> header \<Rightarrow> byte list \<Rightarrow> (byte list option \<times> header) run" where
  "header_loop val h beg =
     (case find_http_line_end beg (int (length beg)) of
        Abort \<Rightarrow> Abort
      | Fault \<Rightarrow> Fault
      | Done None \<Rightarrow> Done (Some beg, h)
      | Done (Some n) \<Rightarrow>
          if n = 2 then Done (Some (drop 2 beg), h\<lparr>hd_parsed := True\<rparr>)
          else
            (case parse_header_line val (take n beg) of
               Abort \<Rightarrow> Abort
             | Fault \<Rightarrow> Fault
             | Done None \<Rightarrow> Done (None, h)
             | Done (Some (name, val')) \<Rightarrow> header_loop val' (set_head name val' h) (drop n beg)))"
  by pat_completeness auto
termination
  by (relation "measure (\<lambda>(val, h, beg). length beg)") (auto dest!: find_line_end_bounds)

declare header_loop.simps [simp del]

definition parse_header :: "byte list \<Rightarrow> header \<Rightarrow> (int \<times> header) run" where
  "parse_header b h =
     (if hd_parsed h then Done (0, h)
      else run_map (\<lambda>(rest, h').
             (case rest of None \<Rightarrow> - 1 | Some r \<Rightarrow> int (length b) - int (length r), h'))
           (header_loop [] h b))"

section \<open>Serializing\<close>

definition header_line :: "byte list \<Rightarrow> byte list list \<Rightarrow> byte list" where
  "header_line name vals =
     c_str name @ B '': '' @
     c_str (if length vals = 1 then vals ! 0 else join_strings vals head_value_sep) @ http_crlf"

definition serialize_header :: "header \<Rightarrow> byte list \<Rightarrow> int \<times> byte list" where
  "serialize_header h buffer =
     (let (size, out) =
        foldl (\<lambda>(size, out) (name, vals).
          if vals = [] then (size, out)
          else (let (n, text) = c_snprintf http_line_max_length (header_line name vals)
                in (size + n, out @ text)))
          (0, buffer) (hd_map h)
      in (size + 2, out @ http_crlf))"

section \<open>Lemmas on lines\<close>

lemma header_new_fields [simp]: "hd_parsed header_new = False" "hd_map header_new = []"
  by (simp_all add: header_new_def)

lemma parse_header_line_total:
  assumes "line_length (take 2048 s) = Some n"
  shows "parse_header_line val (take n s) \<notin> {Abort, Fault}"
proof -
  from line_length_split [OF assms] obtain l where
    l: "take 2048 s = l @ 13 # 10 # drop n (take 2048 s)" "n = length l + 2" by blast
  have "take n s = take n (take 2048 s)" using line_length_bounds [OF assms] by simp
  also have "\<dots> = l @ [13, 10]" by (subst l(1)) (simp add: l(2))
  finally have line: "take n s = l @ [13, 10]" .
  show ?thesis
  proof (cases "58 \<in> set l")
    case True
    then have "dropWhile (\<lambda>c. c \<noteq> 58) (l @ [13, 10]) = dropWhile (\<lambda>c. c \<noteq> 58) l @ [13, 10]"
      by (simp add: dropWhile_append1)
    moreover have "2 \<le> length (dropWhile (\<lambda>c. c = 32 \<or> c = 58) (m @ [13 :: byte, 10]))" for m
      by (induction m) auto
    ultimately show ?thesis by (simp add: parse_header_line_def line Let_def not_less [symmetric])
  next
    case False
    then have "dropWhile (\<lambda>c. c \<noteq> 58) (l @ [13, 10]) = []" by auto
    then show ?thesis by (simp add: parse_header_line_def line)
  qed
qed

lemma header_loop_total:
  "\<exists>r h'. header_loop val h beg = Done (r, h') \<and> (\<forall>x. r = Some x \<longrightarrow> length x \<le> length beg)"
proof (induction val h beg rule: header_loop.induct)
  case (1 val h beg)
  show ?case
  proof (cases "line_length (take 2048 beg)")
    case None
    then show ?thesis by (simp add: header_loop.simps [of val h beg] find_line_end_whole)
  next
    case (Some n)
    note b = line_length_bounds [OF Some]
    have f: "find_http_line_end beg (int (length beg)) = Done (Some n)" by (simp add: find_line_end_whole Some)
    obtain out where out: "parse_header_line val (take n beg) = Done out"
      using parse_header_line_total [OF Some, of val] by (cases "parse_header_line val (take n beg)") auto
    consider (last) "n = 2" | (bad) "n \<noteq> 2" "parse_header_line val (take n beg) = Done None"
      | (more) name val' where "n \<noteq> 2" "parse_header_line val (take n beg) = Done (Some (name, val'))"
      using out by (cases out) auto
    then show ?thesis
    proof cases
      case more
      from 1 [OF f _ more(1,2)] obtain r h' where
        r: "header_loop val' (set_head name val' h) (drop n beg) = Done (r, h')"
          "\<And>x. r = Some x \<Longrightarrow> length x \<le> length (drop n beg)"
        by fastforce
      then show ?thesis using more f by (fastforce simp: header_loop.simps [of val h beg])
    qed (simp_all add: header_loop.simps [of val h beg] f)
  qed
qed

lemma parse_header_bounds:
  "\<exists>n h'. parse_header b h = Done (n, h') \<and> (n = - 1 \<or> 0 \<le> n \<and> n \<le> int (length b))"
proof -
  obtain r h' where "header_loop [] h b = Done (r, h')" "\<And>x. r = Some x \<Longrightarrow> length x \<le> length b"
    using header_loop_total [of "[]" h b] by blast
  then show ?thesis by (cases r) (auto simp: parse_header_def)
qed

text \<open>
  Parsing headers returns for every text and never fails an assertion or reads outside
  of it: it reports an error or how many bytes it used, which are not more than there are.
\<close>

theorem parse_header_total:
  "\<exists>n h'. parse_header b h = Done (n, h') \<and> (n = - 1 \<or> 0 \<le> n \<and> n \<le> int (length b))"
  by (rule parse_header_bounds)

section \<open>Round trip\<close>

text \<open>Names and values that survive the way over the wire.\<close>

definition good_name :: "byte list \<Rightarrow> bool" where
  "good_name n \<longleftrightarrow> n \<noteq> [] \<and> set n \<inter> {0, 13, 58} = {}"

definition good_value :: "byte list \<Rightarrow> bool" where
  "good_value v \<longleftrightarrow> v \<noteq> [] \<and> set v \<inter> {0, 13, 44, 59} = {} \<and> hd v \<notin> {32, 58}"

definition good_line :: "byte list \<times> byte list list \<Rightarrow> bool" where
  "good_line e \<longleftrightarrow> good_name (fst e) \<and> snd e \<noteq> [] \<and> list_all good_value (snd e) \<and>
     length (header_line (fst e) (snd e)) < http_line_max_length"

definition header_text :: "(byte list, byte list list) omap \<Rightarrow> byte list" where
  "header_text m = concat (map (\<lambda>(n, vs). header_line n vs) m) @ http_crlf"

lemma head_sep_eq: "head_value_sep = [59, 32]"
  by (simp add: head_value_sep_def B_def)

lemma join_good:
  assumes "vs \<noteq> []" and "list_all good_value vs"
  shows "join_strings vs head_value_sep \<noteq> [] \<and> hd (join_strings vs head_value_sep) \<notin> {32, 58} \<and>
    set (join_strings vs head_value_sep) \<inter> {0, 13} = {}"
  using assms
proof (induction vs rule: induct_list012)
  case (2 v)
  then show ?case by (auto simp: join_strings_def good_value_def)
next
  case (3 v w vs)
  then have "v \<noteq> []" "hd v \<notin> {32, 58}" "set v \<inter> {0, 13} = {}" by (auto simp: good_value_def)
  with 3 show ?case by (auto simp: join_strings_Cons head_sep_eq)
qed simp

lemma split_rest_join_good:
  assumes "vs \<noteq> []" and "list_all good_value vs"
  shows "split_rest head_split (join_strings vs head_value_sep) = vs"
  using assms
proof (induction vs rule: induct_list012)
  case (2 v)
  then have "find_sep head_split v = None"
    by (intro find_sep_free) (auto simp: sep_free_def good_value_def head_split_def)
  with 2 show ?case by (simp add: split_rest.simps join_strings_def good_value_def)
next
  case (3 v w vs)
  let ?r = "join_strings (w # vs) head_value_sep"
  have "sep_free head_split v" using 3(4) by (auto simp: sep_free_def good_value_def head_split_def)
  from find_sep_at [OF this, of 59 "32 # ?r"] join_good [of "w # vs"] 3(4)
  have "find_sep head_split (v @ 59 # 32 # ?r) = Some (v, ?r)"
    by (cases ?r) (auto simp: head_split_def)
  with 3 show ?case by (simp add: join_strings_Cons head_sep_eq split_rest.simps [of head_split "v @ _"])
qed simp

lemma split_join_good:
  assumes "vs \<noteq> []" and "list_all good_value vs"
  shows "split_string (join_strings vs head_value_sep) head_split = vs"
proof -
  let ?j = "join_strings vs head_value_sep"
  have "?j \<noteq> []" using join_good [OF assms] by blast
  with split_rest_join_good [OF assms] show ?thesis
    by (cases "find_sep head_split ?j") (auto simp: split_string_def split_rest.simps [of head_split ?j])
qed

lemma c_str_free: "0 \<notin> set s \<Longrightarrow> c_str s = s"
  unfolding c_str_def by (rule takeWhile_eq_all_conv [THEN iffD2]) auto

lemma header_line_good:
  assumes "good_line (n, vs)"
  shows "header_line n vs = n @ [58, 32] @ join_strings vs head_value_sep @ [13, 10]"
proof -
  have "0 \<notin> set n" "0 \<notin> set (join_strings vs head_value_sep)"
    using assms join_good [of vs] by (auto simp: good_line_def good_name_def)
  moreover have "vs ! 0 = join_strings vs head_value_sep" if "length vs = 1"
    using that by (cases vs) (auto simp: join_strings_def)
  ultimately show ?thesis by (simp add: header_line_def c_str_free B_def http_crlf_def)
qed

lemma header_line_parse:
  assumes "good_line (n, vs)"
  shows "parse_header_line val (header_line n vs) = Done (Some (n, join_strings vs head_value_sep))"
proof -
  let ?j = "join_strings vs head_value_sep"
  have n: "n \<noteq> []" "58 \<notin> set n" using assms by (auto simp: good_line_def good_name_def)
  have j: "?j \<noteq> []" "hd ?j \<notin> {32, 58}" using assms join_good [of vs] by (auto simp: good_line_def)
  have 1: "takeWhile (\<lambda>c. c \<noteq> 58) (n @ 58 # r) = n" "dropWhile (\<lambda>c. c \<noteq> 58) (n @ 58 # r) = 58 # r" for r
    using n(2) by (auto simp: takeWhile_append dropWhile_append)
  have 2: "dropWhile (\<lambda>c. c = 32 \<or> c = 58) (58 # 32 # ?j @ r) = ?j @ r" for r
    using j by (cases ?j) auto
  show ?thesis using n(1) j(1) 1 2 by (simp add: header_line_good [OF assms] parse_header_line_def)
qed

lemma header_line_length:
  assumes "good_line (n, vs)"
  shows "line_length (take 2048 (header_line n vs @ r)) = Some (length (header_line n vs))"
    and "2 < length (header_line n vs)"
proof -
  let ?l = "n @ [58, 32] @ join_strings vs head_value_sep"
  have "13 \<notin> set ?l" using assms join_good [of vs] by (auto simp: good_line_def good_name_def)
  note len = line_length_line [OF this]
  have "length (header_line n vs) \<le> 2048" using assms by (simp add: good_line_def http_line_max_length_def)
  then have "take 2048 (header_line n vs @ r) = ?l @ 13 # 10 # take (2048 - length (header_line n vs)) r"
    by (simp only: take_append take_all) (simp add: header_line_good [OF assms])
  then show "line_length (take 2048 (header_line n vs @ r)) = Some (length (header_line n vs))"
    by (simp only: len) (simp add: header_line_good [OF assms])
  show "2 < length (header_line n vs)" using header_line_good [OF assms] by simp
qed

lemma header_loop_line:
  assumes "good_line (n, vs)"
  shows "header_loop val h (header_line n vs @ r) =
    header_loop (join_strings vs head_value_sep) (set_head n (join_strings vs head_value_sep) h) r"
proof -
  have "find_http_line_end (header_line n vs @ r) (int (length (header_line n vs @ r))) =
      Done (Some (length (header_line n vs)))"
    unfolding find_line_end_whole header_line_length(1) [OF assms] ..
  then show ?thesis
    using header_line_length(2) [OF assms] header_line_parse [OF assms, of val]
    by (simp add: header_loop.simps [of val h "header_line n vs @ r"])
qed

lemma header_loop_end: "header_loop val h (http_crlf @ r) = Done (Some r, h\<lparr>hd_parsed := True\<rparr>)"
proof -
  have "find_http_line_end (http_crlf @ r) (int (length (http_crlf @ r))) = Done (Some 2)"
    unfolding find_line_end_whole by (simp add: http_crlf_def numeral_eq_Suc)
  then show ?thesis unfolding header_loop.simps [of val h "http_crlf @ r"] by (simp add: http_crlf_def)
qed

definition put_heads :: "(byte list, byte list list) omap \<Rightarrow> header \<Rightarrow> header" where
  "put_heads m h = h\<lparr>hd_map := om.put_all m (hd_map h), hd_parsed := True\<rparr>"

lemma set_head_good:
  assumes "good_line (n, vs)" and "map_of (hd_map h) n = None"
  shows "set_head n (join_strings vs head_value_sep) h = h\<lparr>hd_map := om_put n vs (hd_map h)\<rparr>"
  using assms split_join_good [of vs] by (simp add: set_head_def good_line_def)

lemma fresh_names:
  assumes "om_wf (hd_map h)" and "\<forall>e\<in>set ((n, vs) # m). map_of (hd_map h) (fst e) = None"
    and "distinct (map fst ((n, vs) # m))"
  shows "\<forall>e\<in>set m. map_of (hd_map (h\<lparr>hd_map := om_put n vs (hd_map h)\<rparr>)) (fst e) = None"
  using assms by (force simp: om_get_put)

lemma header_loop_text:
  assumes "list_all good_line m" and "distinct (map fst m)" and "om_wf (hd_map h)"
    and "\<forall>e\<in>set m. map_of (hd_map h) (fst e) = None"
  shows "header_loop val h (header_text m @ r) = Done (Some r, put_heads m h)"
  using assms
proof (induction m arbitrary: h val)
  case Nil
  then show ?case by (simp add: header_text_def header_loop_end put_heads_def)
next
  case (Cons e m)
  obtain n vs where e: "e = (n, vs)" by (cases e)
  let ?h = "h\<lparr>hd_map := om_put n vs (hd_map h)\<rparr>"
  have good: "good_line (n, vs)" using Cons.prems(1) e by simp
  have "header_loop v ?h (header_text m @ r) = Done (Some r, put_heads m ?h)" for v
    by (rule Cons.IH) (use Cons.prems fresh_names [of h n vs m] e in \<open>auto simp: om_put_wf\<close>)
  then show ?case
    using header_loop_line [OF good, of val h "header_text m @ r"] set_head_good [OF good, of h] Cons.prems(4) e
    by (simp add: header_text_def put_heads_def)
qed

lemma serialize_text:
  assumes "list_all good_line m"
  shows "serialize_header \<lparr>hd_parsed = p, hd_map = m\<rparr> buffer =
    (int (length (header_text m)), buffer @ header_text m)"
proof -
  have "foldl (\<lambda>(size, out) (name, vals).
          if vals = [] then (size, out)
          else (let (n, text) = c_snprintf http_line_max_length (header_line name vals)
                in (size + n, out @ text))) (i, b) m =
      (i + int (length (concat (map (\<lambda>(n, vs). header_line n vs) m))),
       b @ concat (map (\<lambda>(n, vs). header_line n vs) m))" for i b
    using assms
    by (induction m arbitrary: i b) (auto simp: good_line_def c_snprintf_def)
  then show ?thesis by (simp add: serialize_header_def header_text_def http_crlf_def)
qed

lemma put_heads_new: "om_wf m \<Longrightarrow> put_heads m header_new = \<lparr>hd_parsed = True, hd_map = m\<rparr>"
  using ome.put_all_entries by (simp add: put_heads_def header_new_def)

lemma parse_header_text:
  assumes "om_wf m" and "list_all good_line m"
  shows "parse_header (header_text m @ rest) header_new =
    Done (int (length (header_text m)), \<lparr>hd_parsed = True, hd_map = m\<rparr>)"
proof -
  have "om_wf (hd_map header_new)" by (simp add: om.wf_empty)
  from header_loop_text [OF assms(2) om_wf_distinct [OF assms(1)] this, of "[]" rest] put_heads_new [OF assms(1)]
  show ?thesis by (simp add: parse_header_def)
qed

text \<open>
  Headers with names and values that the syntax allows, and lines that fit into the
  line buffer, come back from the wire as they were: parsing what serializing has written
  uses up exactly that and gives the same map.
\<close>

theorem header_roundtrip:
  assumes "om_wf m" and "list_all good_line m"
    and "serialize_header \<lparr>hd_parsed = p, hd_map = m\<rparr> [] = (sz, text)"
  shows "sz = int (length text) \<and>
    parse_header (text @ rest) header_new = Done (sz, \<lparr>hd_parsed = True, hd_map = m\<rparr>)"
  using parse_header_text [OF assms(1,2), of rest] serialize_text [OF assms(2), of p "[]"] assms(3)
  by simp

definition example_heads :: "(byte list, byte list list) omap" where
  "example_heads = [(B ''Accept'', [B ''a/b'', B ''c'']), (B ''Host'', [B ''h:80''])]"

lemma example_heads_good: "om_wf example_heads \<and> list_all good_line example_heads"
  by code_simp

theorem header_roundtrip_witness:
  "parse_header (B ''Accept: a/b; c'' @ [13, 10] @ B ''Host: h:80'' @ [13, 10, 13, 10] @ B ''body'') header_new =
     Done (30, \<lparr>hd_parsed = True, hd_map = example_heads\<rparr>)"
proof -
  have "serialize_header \<lparr>hd_parsed = False, hd_map = example_heads\<rparr> [] =
      (30, B ''Accept: a/b; c'' @ [13, 10] @ B ''Host: h:80'' @ [13, 10, 13, 10])"
    by code_simp
  from header_roundtrip [OF _ _ this, of "B ''body''"] example_heads_good show ?thesis by simp
qed

section \<open>Arrival in pieces\<close>

lemma line_length_prefix:
  assumes "13 \<notin> set l" and "p @ q = l @ 13 # 10 # r" and "length p < length l + 2"
  shows "line_length p = None"
  using assms
proof (induction l arbitrary: p)
  case Nil
  then consider "p = []" | "p = [13]" by (cases p; cases "tl p") auto
  then show ?case by cases auto
next
  case (Cons c l)
  show ?case
  proof (cases p)
    case p: (Cons d p')
    with Cons have "line_length p' = None" by auto
    with Cons.prems p show ?thesis by (cases p') auto
  qed simp
qed

lemma header_loop_waits:
  assumes "13 \<notin> set l" and "p @ q = l @ 13 # 10 # r" and "length p < length l + 2"
  shows "header_loop val h p = Done (Some p, h)"
proof -
  have "take 2048 p @ drop 2048 p @ q = l @ 13 # 10 # r" using assms(2) by (metis append_assoc append_take_drop_id)
  then have "line_length (take 2048 p) = None" using assms by (intro line_length_prefix [of l _ "drop 2048 p @ q"]) auto
  then show ?thesis by (simp add: header_loop.simps [of val h p] find_line_end_whole)
qed

text \<open>
  A piece that ends inside of the headers \<open>m\<close>: the complete lines are taken, and what is left
  is again the text of headers, \<open>m1\<close>, that lead to the same map.
\<close>

definition heads_left :: "(byte list, byte list list) omap \<Rightarrow> header \<Rightarrow> bool" where
  "heads_left m h \<longleftrightarrow> list_all good_line m \<and> distinct (map fst m) \<and> om_wf (hd_map h) \<and>
     (\<forall>e\<in>set m. map_of (hd_map h) (fst e) = None)"

lemma heads_left_all: "om_wf m \<Longrightarrow> list_all good_line m \<Longrightarrow> heads_left m header_new"
  by (simp add: heads_left_def om_wf_distinct om.wf_empty)

lemma heads_left_next:
  assumes "heads_left ((n, vs) # m) h"
  shows "heads_left m (h\<lparr>hd_map := om_put n vs (hd_map h)\<rparr>)"
  using assms fresh_names [of h n vs m] by (auto simp: heads_left_def om_put_wf)

lemma header_loop_left: "heads_left m h \<Longrightarrow> header_loop val h (header_text m @ r) = Done (Some r, put_heads m h)"
  by (rule header_loop_text) (simp_all add: heads_left_def)

lemma header_loop_cut:
  assumes "heads_left m h" and "p @ q = header_text m @ r" and "length p < length (header_text m)"
  shows "\<exists>k h1 m1. header_loop val h p = Done (Some (drop k p), h1) \<and> k \<le> length p \<and> hd_parsed h1 = hd_parsed h \<and>
    drop k p @ q = header_text m1 @ r \<and> heads_left m1 h1 \<and> put_heads m1 h1 = put_heads m h"
  using assms
proof (induction m arbitrary: h val p)
  case Nil
  then have "header_loop val h p = Done (Some (drop 0 p), h)"
    using header_loop_waits [of "[]" p q r val h] by (simp add: header_text_def http_crlf_def)
  with Nil show ?case by (intro exI [of _ 0] exI [of _ h] exI [of _ "[]"]) simp
next
  case (Cons e m)
  obtain n vs where e: "e = (n, vs)" by (cases e)
  let ?h = "h\<lparr>hd_map := om_put n vs (hd_map h)\<rparr>"
  let ?l = "header_line n vs"
  let ?j = "join_strings vs head_value_sep"
  have good: "good_line (n, vs)" and fresh: "map_of (hd_map h) n = None" using Cons.prems(1) e by (simp_all add: heads_left_def)
  have whole: "header_text (e # m) @ r = ?l @ header_text m @ r" by (simp add: header_text_def e)
  show ?case
  proof (cases "length p < length ?l")
    case True
    let ?b = "n @ [58, 32] @ join_strings vs head_value_sep"
    have "13 \<notin> set ?b" using good join_good [of vs] by (auto simp: good_line_def good_name_def)
    moreover have "p @ q = ?b @ 13 # 10 # header_text m @ r"
      using Cons.prems(2) whole by (simp add: header_line_good [OF good])
    moreover have "length p < length ?b + 2" using True by (simp add: header_line_good [OF good])
    ultimately have "header_loop val h p = Done (Some (drop 0 p), h)" using header_loop_waits [of ?b p q] by simp
    then show ?thesis using Cons.prems by (intro exI [of _ 0] exI [of _ h] exI [of _ "e # m"]) simp
  next
    case False
    have "p @ q = ?l @ header_text m @ r" using Cons.prems(2) whole by simp
    then obtain us where us: "p = ?l @ us \<and> us @ q = header_text m @ r \<or> p @ us = ?l \<and> q = us @ header_text m @ r"
      unfolding append_eq_append_conv2 by blast
    have "us = []" if "p @ us = ?l" using False arg_cong [OF that, of length]
      by (simp flip: length_0_conv)
    with us obtain p' where p: "p = ?l @ p'" "p' @ q = header_text m @ r" by fastforce
    have "length p' < length (header_text m)"
      using Cons.prems(3) p(1) whole [THEN arg_cong [of _ _ length]] by simp
    from Cons.IH [OF heads_left_next [OF Cons.prems(1) [unfolded e]] p(2) this, of ?j]
    obtain k h1 m1 where IH: "header_loop ?j ?h p' = Done (Some (drop k p'), h1)" "k \<le> length p'" "hd_parsed h1 = hd_parsed h"
      "drop k p' @ q = header_text m1 @ r" "heads_left m1 h1" "put_heads m1 h1 = put_heads m ?h" by auto
    have "header_loop val h p = Done (Some (drop (length ?l + k) p), h1)"
      using header_loop_line [OF good, of val h p'] set_head_good [OF good fresh] IH(1) p(1) by simp
    moreover have "put_heads m ?h = put_heads (e # m) h" by (simp add: put_heads_def e)
    ultimately show ?thesis using IH(2-6) p(1)
      by (intro exI [of _ "length ?l + k"] exI [of _ h1] exI [of _ m1]) simp
  qed
qed

text \<open>
  Headers may arrive in two pieces, cut anywhere: the first call uses up the complete
  lines and leaves the rest, the second call with the rest and the second piece completes
  the headers, and together they use up what one call would have.
\<close>

theorem header_in_pieces:
  assumes "om_wf m" and "list_all good_line m"
    and "serialize_header \<lparr>hd_parsed = b, hd_map = m\<rparr> [] = (sz, text)"
    and "p @ q = text @ rest" and "length p < length text"
  shows "\<exists>k h1. parse_header p header_new = Done (int k, h1) \<and> k \<le> length p \<and> \<not> hd_parsed h1 \<and>
    parse_header (drop k p @ q) h1 = Done (int (length text) - int k, \<lparr>hd_parsed = True, hd_map = m\<rparr>)"
proof -
  have whole: "text = header_text m" using serialize_text [OF assms(2), of b "[]"] assms(3) by simp
  from header_loop_cut [OF heads_left_all [OF assms(1,2)] assms(4,5) [unfolded whole], of "[]"]
  obtain k h1 m1 where c: "header_loop [] header_new p = Done (Some (drop k p), h1)" "k \<le> length p" "\<not> hd_parsed h1"
      "drop k p @ q = header_text m1 @ rest" "heads_left m1 h1" "put_heads m1 h1 = \<lparr>hd_parsed = True, hd_map = m\<rparr>"
    by (auto simp: put_heads_new [OF assms(1)])
  have k: "header_loop [] header_new p = Done (Some (drop k p), h1)" "k \<le> length p" "\<not> hd_parsed h1"
      "header_loop [] h1 (drop k p @ q) = Done (Some rest, \<lparr>hd_parsed = True, hd_map = m\<rparr>)"
    using c header_loop_left [OF c(5), of "[]" rest] by simp_all
  have "length p + length q = length text + length rest" using arg_cong [OF assms(4), of length] by simp
  with k show ?thesis by (intro exI [of _ k] exI [of _ h1]) (simp add: parse_header_def)
qed

theorem header_in_pieces_witness:
  "\<exists>k h1. parse_header (B ''Accept: a/b; c'' @ [13, 10] @ B ''Ho'') header_new = Done (int k, h1) \<and> k \<le> length (B ''Accept: a/b; c'' @ [13, 10] @ B ''Ho'') \<and> \<not> hd_parsed h1 \<and>
    parse_header (drop k (B ''Accept: a/b; c'' @ [13, 10] @ B ''Ho'') @ B ''st: h:80'' @ [13, 10, 13, 10]) h1 =
      Done (30 - int k, \<lparr>hd_parsed = True, hd_map = example_heads\<rparr>)"
proof -
  have "serialize_header \<lparr>hd_parsed = False, hd_map = example_heads\<rparr> [] =
      (30, B ''Accept: a/b; c'' @ [13, 10] @ B ''Host: h:80'' @ [13, 10, 13, 10])"
    by code_simp
  from header_in_pieces [OF _ _ this, of "B ''Accept: a/b; c'' @ [13, 10] @ B ''Ho''" "B ''st: h:80'' @ [13, 10, 13, 10]" "[]"]
    example_heads_good
  show ?thesis by (simp add: B_def)
qed

section \<open>Values\<close>

text \<open>
  An empty value is not taken as such: the header gets the value of the line before it.
\<close>

theorem empty_value_inherits:
  assumes "good_line (n, vs)" and "good_name n'" and "n' \<noteq> n" and "length n' < 2000"
  shows "\<exists>h. parse_header (header_line n vs @ n' @ [58, 13, 10, 13, 10]) header_new =
      Done (int (length (header_line n vs) + length n' + 5), h) \<and> hd_parsed h \<and>
    get_head_values n h = Some vs \<and> get_head_values n' h = Some vs"
proof -
  let ?j = "join_strings vs head_value_sep"
  let ?h1 = "header_new\<lparr>hd_map := [(n, vs)]\<rparr>"
  let ?h2 = "?h1\<lparr>hd_map := om_put n' vs [(n, vs)]\<rparr>"
  have n': "n' \<noteq> []" "58 \<notin> set n'" "13 \<notin> set (n' @ [58])" using assms(2) by (auto simp: good_name_def)
  have len: "line_length (take 2048 (n' @ [58, 13, 10, 13, 10])) = Some (length n' + 3)"
    using line_length_line [OF n'(3), of "[13, 10]"] assms(4) by simp
  have line: "parse_header_line ?j (n' @ [58, 13, 10]) = Done (Some (n', ?j))"
    using n' by (simp add: parse_header_line_def takeWhile_append dropWhile_append)
  have f: "find_http_line_end (n' @ [58, 13, 10, 13, 10]) (int (length (n' @ [58, 13, 10, 13, 10]))) =
      Done (Some (length n' + 3))"
    unfolding find_line_end_whole len ..
  have vs: "vs \<noteq> []" "list_all good_value vs" using assms(1) by (simp_all add: good_line_def)
  have set1: "set_head n ?j header_new = ?h1" using set_head_good [OF assms(1), of header_new] by simp
  have set2: "set_head n' ?j ?h1 = ?h2"
    using assms(3) split_join_good [OF vs] by (simp add: set_head_def)
  have "header_loop ?j ?h1 (n' @ [58, 13, 10, 13, 10]) = header_loop ?j ?h2 (http_crlf @ [])"
    unfolding header_loop.simps [of ?j ?h1] f using n'(1) line set2 by (simp add: http_crlf_def)
  then have "header_loop [] header_new (header_line n vs @ n' @ [58, 13, 10, 13, 10]) =
      Done (Some [], ?h2\<lparr>hd_parsed := True\<rparr>)"
    unfolding header_loop_line [OF assms(1)] set1 header_loop_end by simp
  then show ?thesis using vs(1) assms(3)
    by (simp add: parse_header_def get_head_values_def om_get_put om_wf_def)
qed

theorem empty_value_inherits_witness:
  "\<exists>h. parse_header (B ''a: x'' @ [13, 10] @ B ''b:'' @ [13, 10, 13, 10]) header_new = Done (12, h) \<and> hd_parsed h \<and>
    get_head_values (B ''a'') h = Some [B ''x''] \<and> get_head_values (B ''b'') h = Some [B ''x'']"
  using empty_value_inherits [of "B ''a''" "[B ''x'']" "B ''b''"]
  by (simp add: good_line_def good_name_def good_value_def header_line_def B_def c_str_def http_crlf_def
      http_line_max_length_def)

text \<open>
  Setting a number and reading it gives it back, for every \<open>int32_t\<close>; setting replaces
  what a name had, and other names keep their values.
\<close>

theorem head_int_roundtrip:
  assumes "om_wf (hd_map h)" and "- (2 ^ 31) \<le> i" and "i < 2 ^ 31"
  shows "get_head_int name (set_unique_head_int name i h) = Some i \<and>
    (name' \<noteq> name \<longrightarrow> get_head_values name' (set_unique_head_int name i h) = get_head_values name' h) \<and>
    om_wf (hd_map (set_unique_head_int name i h))"
proof -
  have "take 62 (print_d i) = print_d i" "c_str (print_d i) = print_d i"
    using print_d_length [OF assms(2,3)] c_str_print_d by simp_all
  then show ?thesis using assms atol_print_d [OF assms(2,3)]
    by (simp add: get_head_int_def set_unique_head_int_def om_get_put c_snprintf_def to_i32_in_range
        get_head_values_def om_put_wf)
qed

end
