(* ===== verification/Http_Body.thy ===== *)
theory Http_Body
  imports Http_Utils
begin

text \<open>
  src/proto/http/body.cpp and include/pump/proto/http/body.h: the body of a packet, with a
  length known in advance or in chunks. A text that is parsed is a list of exactly the
  \<open>size\<close> bytes the caller names; a pointer into it is the text from there on.
  Sums of \<open>int32_t\<close> wrap around (\<open>to_i32\<close>).
\<close>

record body =
  bd_chunked :: bool
  bd_data :: "byte list"
  bd_expected :: int
  bd_parsing :: int
  bd_finished :: bool

definition body_new :: body where
  "body_new = \<lparr>bd_chunked = False, bd_data = [], bd_expected = 0, bd_parsing = 0, bd_finished = False\<rparr>"

definition set_chunked :: "body \<Rightarrow> body" where
  "set_chunked bd = bd\<lparr>bd_chunked := True\<rparr>"

definition body_append :: "byte list \<Rightarrow> body \<Rightarrow> body" where
  "body_append data bd = bd\<lparr>bd_data := bd_data bd @ data\<rparr>"

definition set_expected_size :: "int \<Rightarrow> body \<Rightarrow> body" where
  "set_expected_size n bd = bd\<lparr>bd_expected := n\<rparr>"

definition body_serialize :: "body \<Rightarrow> byte list \<Rightarrow> int \<times> byte list" where
  "body_serialize bd buf =
     (if bd_chunked bd then
        (let (n, chunk_len) = c_snprintf 63 (print_zx (length (bd_data bd)) @ http_crlf) in
         (n + to_i32 (int (length (bd_data bd))) + 2, buf @ chunk_len @ bd_data bd @ http_crlf))
      else if bd_data bd = [] then (0, buf)
      else (to_i32 (int (length (bd_data bd))), buf @ bd_data bd))"

section \<open>Parsing by length\<close>

text \<open>A negative count makes \<open>append\<close> throw, which nobody catches.\<close>

definition parse_by_length :: "byte list \<Rightarrow> body \<Rightarrow> (int \<times> body) run" where
  "parse_by_length b bd =
     (let rest = bd_expected bd - to_i32 (int (length (bd_data bd)));
          parse_size = (if rest > int (length b) then int (length b) else rest)
      in if parse_size < 0 then Abort
         else
           (let bd1 = body_append (take (nat parse_size) b) bd;
                bd2 = (if to_i32 (int (length (bd_data bd1))) = bd_expected bd1 then bd1\<lparr>bd_finished := True\<rparr> else bd1)
            in Done (parse_size, bd2)))"

section \<open>Parsing by chunks\<close>

datatype size_line = SizeBad | SizeCut | SizeLine int "byte list"

text \<open>The loop over the digits. Without an end of line it stops at the end of the text.\<close>

fun chunk_size_line :: "int \<Rightarrow> byte list \<Rightarrow> size_line" where
  "chunk_size_line n [] = SizeLine n []"
| "chunk_size_line n (c # r) =
     (if n \<ge> 1048576 then SizeBad
      else if c = 13 then
        (case r of [] \<Rightarrow> SizeCut | d # r' \<Rightarrow> if d \<noteq> 10 then SizeBad else SizeLine n r')
      else chunk_size_line (n * 16 + uint (hex_to_dec c)) r)"

text \<open>The first half of a round: \<open>Inl\<close> is a return with what is left, \<open>None\<close> for an error.\<close>

definition chunk_begin :: "body \<Rightarrow> byte list \<Rightarrow> (byte list option \<times> body) run + body \<times> byte list" where
  "chunk_begin bd pos =
     (if bd_parsing bd = 0 then
        (case chunk_size_line 0 pos of
           SizeBad \<Rightarrow> Inl (Done (None, bd))
         | SizeCut \<Rightarrow> Inl (Done (Some pos, bd))
         | SizeLine n size_pos \<Rightarrow>
             (let bd1 = bd\<lparr>bd_expected := to_i32 (bd_expected bd + n), bd_parsing := n\<rparr> in
              if n = 0 then
                Inl (case size_pos of
                       c # d # r \<Rightarrow>
                         if c \<noteq> 13 \<or> d \<noteq> 10 then Done (None, bd1)
                         else if to_i32 (int (length (bd_data bd1))) \<noteq> bd_expected bd1 then Abort
                         else Done (Some r, bd1\<lparr>bd_finished := True\<rparr>)
                     | _ \<Rightarrow> Done (Some pos, bd1))
              else Inr (bd1\<lparr>bd_parsing := n + 2\<rparr>, size_pos)))
      else Inr (bd, pos))"

definition append_advance :: "int \<Rightarrow> int \<Rightarrow> body \<Rightarrow> byte list \<Rightarrow> (body \<times> byte list) run" where
  "append_advance n adv bd pos =
     (if adv < 0 then Fault
      else run_bind (mem_read pos 0 (nat n)) (\<lambda>data. Done (body_append data bd, drop (nat adv) pos)))"

text \<open>The second half: whether the loop is left, the body and the position.\<close>

definition chunk_data :: "body \<Rightarrow> byte list \<Rightarrow> (bool \<times> body \<times> byte list) run" where
  "chunk_data bd pos =
     (let left = int (length pos);
          diff = left - bd_parsing bd
      in if diff \<ge> 0 then
           run_map (\<lambda>(bd', pos'). (False, bd'\<lparr>bd_parsing := 0\<rparr>, pos'))
             (append_advance (if bd_parsing bd > 2 then bd_parsing bd - 2 else 0) (bd_parsing bd) bd pos)
         else if bd_parsing bd = 2 then Done (True, bd, pos)
         else if 2 \<le> - diff then
           run_map (\<lambda>(bd', pos'). (False, bd'\<lparr>bd_parsing := bd_parsing bd - left\<rparr>, pos'))
             (append_advance left left bd pos)
         else
           run_map (\<lambda>(bd', pos'). (False, bd'\<lparr>bd_parsing := 2\<rparr>, pos'))
             (append_advance (bd_parsing bd - 2) (bd_parsing bd - 2) bd pos))"

lemma chunk_size_line_shorter:
  "chunk_size_line n s = SizeLine m r \<Longrightarrow> length r \<le> length s \<and> (s \<noteq> [] \<longrightarrow> length r < length s)"
proof (induction n s rule: chunk_size_line.induct)
  case (2 n c r')
  then show ?case by (cases "c = 13") (fastforce split: if_splits list.splits)+
qed simp

lemma chunk_begin_shorter:
  assumes "chunk_begin bd pos = Inr (bd1, pos1)" and "pos \<noteq> []"
  shows "length pos1 \<le> length pos \<and> (length pos1 = length pos \<longrightarrow> bd_parsing bd1 \<noteq> 0)"
  using assms chunk_size_line_shorter [of 0 pos]
  by (auto simp: chunk_begin_def Let_def split: if_splits size_line.splits)

lemma append_advance_eq_Done:
  "append_advance n adv bd pos = Done (bd', pos') \<longleftrightarrow>
   0 \<le> adv \<and> nat n \<le> length pos \<and> bd' = body_append (take (nat n) pos) bd \<and> pos' = drop (nat adv) pos"
  by (auto simp: append_advance_def mem_read_def)

lemma chunk_data_shorter:
  assumes "chunk_data bd pos = Done (False, bd', pos')"
  shows "length pos' \<le> length pos \<and> (pos \<noteq> [] \<and> bd_parsing bd \<noteq> 0 \<longrightarrow> length pos' < length pos)"
  using assms
  by (auto simp: chunk_data_def Let_def run_map_eq_Done append_advance_eq_Done split: if_splits)

function chunk_loop :: "body \<Rightarrow> byte list \<Rightarrow> (byte list option \<times> body) run" where
  "chunk_loop bd pos =
     (if pos = [] then Done (Some [], bd)
      else
        (case chunk_begin bd pos of
           Inl r \<Rightarrow> r
         | Inr (bd1, pos1) \<Rightarrow>
             (case chunk_data bd1 pos1 of
                Abort \<Rightarrow> Abort
              | Fault \<Rightarrow> Fault
              | Done (True, bd2, pos2) \<Rightarrow> Done (Some pos2, bd2)
              | Done (False, bd2, pos2) \<Rightarrow> chunk_loop bd2 pos2)))"
  by pat_completeness auto
termination
proof (relation "measure (\<lambda>(bd, pos). length pos)", goal_cases)
  case (2 bd pos x bd1 pos1 xa b y bd2 pos2)
  then show ?case
    using chunk_begin_shorter [of bd pos bd1 pos1] chunk_data_shorter [of bd1 pos1 bd2 pos2]
    by (cases "pos1 = []") auto
qed simp

declare chunk_loop.simps [simp del]

definition parse_by_chunk :: "byte list \<Rightarrow> body \<Rightarrow> (int \<times> body) run" where
  "parse_by_chunk b bd =
     run_map (\<lambda>(rest, bd'). (case rest of None \<Rightarrow> - 1 | Some r \<Rightarrow> int (length b) - int (length r), bd'))
       (chunk_loop bd b)"

definition body_parse :: "byte list \<Rightarrow> body \<Rightarrow> (int \<times> body) run" where
  "body_parse b bd = (if bd_chunked bd then parse_by_chunk b bd else parse_by_length b bd)"

section \<open>Nothing goes wrong\<close>

definition body_inv :: "body \<Rightarrow> bool" where
  "body_inv bd \<longleftrightarrow>
     (if bd_chunked bd
      then 0 \<le> bd_parsing bd \<and> bd_parsing bd \<noteq> 1 \<and> bd_parsing bd < 2 ^ 26 \<and>
        bd_expected bd = to_i32 (int (length (bd_data bd)) + max 0 (bd_parsing bd - 2))
      else int (length (bd_data bd)) \<le> bd_expected bd \<and> bd_expected bd < 2 ^ 31)"

lemma to_i32_add: "to_i32 (to_i32 a + b) = to_i32 (a + b)"
  unfolding to_i32_mod by (simp add: algebra_simps mod_simps)

lemma to_i32_idem [simp]: "to_i32 (to_i32 a) = to_i32 a"
  using to_i32_add [of a 0] by simp

lemma chunk_size_line_bounds:
  "chunk_size_line n s = SizeLine m r \<Longrightarrow> 0 \<le> n \<Longrightarrow> n < 2 ^ 25 \<Longrightarrow> 0 \<le> m \<and> m < 2 ^ 25"
proof (induction n s rule: chunk_size_line.induct)
  case (2 n c s)
  have "0 \<le> uint (hex_to_dec c)" "uint (hex_to_dec c) < 2 ^ 8"
    using uint_lt2p [of "hex_to_dec c"] by simp_all
  then show ?case using 2 by (cases "c = 13") (auto split: if_splits list.splits)
qed simp

lemma chunk_begin_inv:
  assumes "body_inv bd" and "bd_chunked bd"
  shows "(\<exists>r bd'. chunk_begin bd pos = Inl (Done (r, bd')) \<and> bd_chunked bd' \<and>
      (\<forall>x. r = Some x \<longrightarrow> length x \<le> length pos \<and> body_inv bd')) \<or>
    (\<exists>bd1 pos1. chunk_begin bd pos = Inr (bd1, pos1) \<and> bd_chunked bd1 \<and> body_inv bd1 \<and> bd_parsing bd1 \<noteq> 0)"
proof (cases "bd_parsing bd = 0")
  case p: True
  have e: "bd_expected bd = to_i32 (int (length (bd_data bd)))" using assms p by (simp add: body_inv_def)
  show ?thesis
  proof (cases "chunk_size_line 0 pos")
    case (SizeLine n size_pos)
    note b = chunk_size_line_bounds [OF SizeLine] chunk_size_line_shorter [OF SizeLine]
    show ?thesis
    proof (cases "n = 0")
      case True
      let ?bd = "bd\<lparr>bd_expected := to_i32 (bd_expected bd + n), bd_parsing := n\<rparr>"
      have inv: "body_inv ?bd" "body_inv (?bd\<lparr>bd_finished := True\<rparr>)" "bd_chunked ?bd"
        using True e assms(2) by (simp_all add: body_inv_def)
      have size: "to_i32 (int (length (bd_data ?bd))) = bd_expected ?bd" using True e by simp
      consider (short) "length size_pos < 2" | (long) c d r where "size_pos = c # d # r"
        by (cases size_pos; cases "tl size_pos") auto
      then show ?thesis
      proof cases
        case short
        then have "chunk_begin bd pos = Inl (Done (Some pos, ?bd))"
          using p SizeLine True by (cases size_pos; cases "tl size_pos") (auto simp: chunk_begin_def)
        then show ?thesis using inv by blast
      next
        case long
        then have "chunk_begin bd pos =
            Inl (if c \<noteq> 13 \<or> d \<noteq> 10 then Done (None, ?bd) else Done (Some r, ?bd\<lparr>bd_finished := True\<rparr>))"
          using p SizeLine True size by (simp add: chunk_begin_def)
        moreover have "length r \<le> length pos" using b(2) long by simp
        ultimately show ?thesis using inv by (cases "c \<noteq> 13 \<or> d \<noteq> 10") auto
      qed
    next
      case False
      then show ?thesis using p SizeLine e assms b
        by (simp add: chunk_begin_def body_inv_def to_i32_add)
    qed
  qed (use p assms in \<open>simp_all add: chunk_begin_def\<close>)
qed (use assms in \<open>simp add: chunk_begin_def\<close>)

lemma chunk_data_inv:
  assumes "body_inv bd" and "bd_chunked bd" and "bd_parsing bd \<noteq> 0"
  shows "\<exists>stop bd' pos'. chunk_data bd pos = Done (stop, bd', pos') \<and> bd_chunked bd' \<and> body_inv bd' \<and>
    length pos' \<le> length pos"
proof -
  have p: "2 \<le> bd_parsing bd" "bd_parsing bd < 2 ^ 26"
    and e: "bd_expected bd = to_i32 (int (length (bd_data bd)) + (bd_parsing bd - 2))"
    using assms by (auto simp: body_inv_def)
  let ?q = "bd_parsing bd" and ?left = "int (length pos)"
  consider (all) "?q \<le> ?left" | (tail) "?left < ?q" "?q = 2" | (part) "?left + 2 \<le> ?q" "?q \<noteq> 2"
    | (edge) "?left + 1 = ?q" "?q \<noteq> 2"
    by linarith
  then show ?thesis
  proof cases
    case all
    let ?bd = "(body_append (take (nat (?q - 2)) pos) bd)\<lparr>bd_parsing := 0\<rparr>"
    have "chunk_data bd pos = Done (False, ?bd, drop (nat ?q) pos)"
      using all p by (auto simp: chunk_data_def append_advance_def mem_read_def)
    moreover have "body_inv ?bd" "bd_chunked ?bd"
      using all p e assms(2) by (simp_all add: body_inv_def body_append_def)
    ultimately show ?thesis by (intro exI conjI) (assumption | simp)+
  next
    case tail
    then show ?thesis using assms by (simp add: chunk_data_def ex_bool_eq)
  next
    case part
    let ?bd = "(body_append pos bd)\<lparr>bd_parsing := ?q - ?left\<rparr>"
    have "chunk_data bd pos = Done (False, ?bd, [])"
      using part by (auto simp: chunk_data_def append_advance_def mem_read_def)
    moreover have "body_inv ?bd" "bd_chunked ?bd"
      using part p e assms(2) by (simp_all add: body_inv_def body_append_def algebra_simps)
    ultimately show ?thesis by (intro exI conjI) (assumption | simp)+
  next
    case edge
    let ?bd = "(body_append (take (nat (?q - 2)) pos) bd)\<lparr>bd_parsing := 2\<rparr>"
    have "chunk_data bd pos = Done (False, ?bd, drop (nat (?q - 2)) pos)"
      using edge p by (auto simp: chunk_data_def append_advance_def mem_read_def)
    moreover have "body_inv ?bd" "bd_chunked ?bd"
      using edge p e assms(2) by (simp_all add: body_inv_def body_append_def)
    ultimately show ?thesis by (intro exI conjI) (assumption | simp)+
  qed
qed

lemma chunk_loop_inv:
  assumes "body_inv bd" and "bd_chunked bd"
  shows "\<exists>r bd'. chunk_loop bd pos = Done (r, bd') \<and> bd_chunked bd' \<and>
    (\<forall>x. r = Some x \<longrightarrow> length x \<le> length pos \<and> body_inv bd')"
  using assms
proof (induction bd pos rule: chunk_loop.induct)
  case (1 bd pos)
  show ?case
  proof (cases "pos = []")
    case False
    from chunk_begin_inv [OF 1(2,3), of pos] show ?thesis
    proof (elim disjE exE conjE)
      fix r bd'
      assume "chunk_begin bd pos = Inl (Done (r, bd'))" "bd_chunked bd'"
        "\<forall>x. r = Some x \<longrightarrow> length x \<le> length pos \<and> body_inv bd'"
      then show ?thesis using False by (simp add: chunk_loop.simps [of bd pos])
    next
      fix bd1 pos1
      assume b: "chunk_begin bd pos = Inr (bd1, pos1)" "bd_chunked bd1" "body_inv bd1" "bd_parsing bd1 \<noteq> 0"
      obtain stop bd2 pos2 where d: "chunk_data bd1 pos1 = Done (stop, bd2, pos2)" "bd_chunked bd2" "body_inv bd2"
          "length pos2 \<le> length pos1"
        using chunk_data_inv [OF b(3,2,4), of pos1] by blast
      have l: "length pos1 \<le> length pos" using chunk_begin_shorter [OF b(1) False] by simp
      show ?thesis
      proof (cases stop)
        case True
        then show ?thesis using b(1) d l False by (simp add: chunk_loop.simps [of bd pos])
      next
        case go: False
        with 1(1) [OF False b(1) refl d(1) refl _ refl d(3,2)] obtain r bd' where
          "chunk_loop bd2 pos2 = Done (r, bd')" "bd_chunked bd'"
          "\<And>x. r = Some x \<Longrightarrow> length x \<le> length pos2 \<and> body_inv bd'"
          by auto
        then show ?thesis using b(1) d l False go by (fastforce simp: chunk_loop.simps [of bd pos])
      qed
    qed
  qed (use 1(2,3) in \<open>simp add: chunk_loop.simps [of bd "[]"]\<close>)
qed

lemma body_parse_inv:
  assumes "body_inv bd"
  shows "\<exists>n bd'. body_parse b bd = Done (n, bd') \<and> bd_chunked bd' = bd_chunked bd \<and>
    (n = - 1 \<or> 0 \<le> n \<and> n \<le> int (length b) \<and> body_inv bd')"
proof (cases "bd_chunked bd")
  case True
  obtain r bd' where "chunk_loop bd b = Done (r, bd')" "bd_chunked bd'"
      "\<And>x. r = Some x \<Longrightarrow> length x \<le> length b \<and> body_inv bd'"
    using chunk_loop_inv [OF assms True, of b] by blast
  then show ?thesis using True by (cases r) (auto simp: body_parse_def parse_by_chunk_def)
next
  case False
  then have "int (length (bd_data bd)) \<le> bd_expected bd" "bd_expected bd < 2 ^ 31"
    using assms by (simp_all add: body_inv_def)
  then show ?thesis using False
    by (auto simp: body_parse_def parse_by_length_def Let_def to_i32_in_range body_append_def body_inv_def)
qed

text \<open>
  C37. Parsing a body never fails the assertion on its size, never reads outside of the
  text and always returns, whatever the text: an error, or a number of used bytes that are
  there, and then the body is ready for the next piece.
\<close>

theorem body_parse_total:
  assumes "body_inv bd"
  shows "\<exists>n bd'. body_parse b bd = Done (n, bd') \<and> bd_chunked bd' = bd_chunked bd \<and>
    (n = - 1 \<or> 0 \<le> n \<and> n \<le> int (length b) \<and> body_inv bd')"
  by (rule body_parse_inv [OF assms])

theorem body_parse_total_witness:
  "\<exists>n bd'. body_parse (B ''5;x'') (set_chunked body_new) = Done (n, bd') \<and> bd_chunked bd' \<and>
    (n = - 1 \<or> 0 \<le> n \<and> n \<le> 3 \<and> body_inv bd')"
  using body_parse_total [of "set_chunked body_new" "B ''5;x''"]
  by (simp add: body_inv_def set_chunked_def body_new_def to_i32_in_range)

section \<open>Chunks there and back\<close>

definition hex_char :: "nat \<Rightarrow> byte" where
  "hex_char d = (if d < 10 then 48 + of_nat d else 87 + of_nat d)"

lemma hex_char: "d < 16 \<Longrightarrow> hex_char d \<noteq> 13 \<and> uint (hex_to_dec (hex_char d)) = int d"
  by (erule nat_below) (simp add: upt_conv_Cons hex_char_def hex_to_dec_def)

lemma foldl_digits_ge: "a \<le> foldl (\<lambda>a d. a * 16 + d) a (ds :: nat list)"
proof (induction ds arbitrary: a)
  case (Cons d ds)
  have "a \<le> a * 16 + d" by simp
  also have "\<dots> \<le> foldl (\<lambda>a d. a * 16 + d) (a * 16 + d) ds" by (rule Cons.IH)
  finally show ?case by simp
qed simp

lemma chunk_size_line_digits:
  "\<forall>d\<in>set ds. d < 16 \<Longrightarrow> foldl (\<lambda>a d. a * 16 + d) a ds < 1048576 \<Longrightarrow>
   chunk_size_line (int a) (map hex_char ds @ r) = chunk_size_line (int (foldl (\<lambda>a d. a * 16 + d) a ds)) r"
proof (induction ds arbitrary: a)
  case (Cons d ds)
  have "a \<le> foldl (\<lambda>a d. a * 16 + d) a (d # ds)" by (rule foldl_digits_ge)
  then have a: "a < 1048576" using Cons.prems(2) by simp
  have "d < 16" using Cons.prems(1) by simp
  note h = hex_char [OF this]
  have "chunk_size_line (int a) (map hex_char (d # ds) @ r) = chunk_size_line (int (a * 16 + d)) (map hex_char ds @ r)"
    using h a by simp
  also have "\<dots> = chunk_size_line (int (foldl (\<lambda>a d. a * 16 + d) (a * 16 + d) ds)) r"
    using Cons by (intro Cons.IH) simp_all
  finally show ?case by simp
qed simp

lemma chunk_size_line_hex:
  "n < 1048576 \<Longrightarrow> chunk_size_line 0 (print_zx n @ r) = chunk_size_line (int n) r"
  using chunk_size_line_digits [of "digits 16 n" 0 r] digits_less [of 16 _ n] digits_value [of 16 n]
  by (simp add: print_zx_def hex_char_def [abs_def])

lemma print_zx_Nil [simp]: "print_zx n \<noteq> []"
  by (simp add: print_zx_def)

text \<open>What \<open>serialize\<close> writes for one piece of data in chunk mode.\<close>

definition chunk_wire :: "byte list \<Rightarrow> byte list" where
  "chunk_wire c = snd (body_serialize (body_append c (set_chunked body_new)) [])"

lemma chunk_wire_eq:
  assumes "length c < 1048576"
  shows "chunk_wire c = print_zx (length c) @ [13, 10] @ c @ [13, 10]"
proof -
  have "length (digits 16 (length c)) \<le> 5" by (rule digits_length) (use assms in simp_all)
  then show ?thesis
    by (simp add: chunk_wire_def body_serialize_def body_append_def set_chunked_def body_new_def c_snprintf_def
        http_crlf_def print_zx_def)
qed

lemma chunk_loop_chunk:
  assumes "bd_parsing bd = 0" and "0 < length c" and "length c < 1048576"
  shows "chunk_loop bd (chunk_wire c @ r) =
    chunk_loop (bd\<lparr>bd_data := bd_data bd @ c, bd_expected := to_i32 (bd_expected bd + int (length c))\<rparr>) r"
proof -
  let ?bd = "bd\<lparr>bd_expected := to_i32 (bd_expected bd + int (length c)), bd_parsing := int (length c) + 2\<rparr>"
  let ?bd2 = "bd\<lparr>bd_data := bd_data bd @ c, bd_expected := to_i32 (bd_expected bd + int (length c))\<rparr>"
  have "chunk_size_line 0 (chunk_wire c @ r) = SizeLine (int (length c)) (c @ 13 # 10 # r)"
    using chunk_size_line_hex [OF assms(3)] assms by (simp add: chunk_wire_eq)
  then have 1: "chunk_begin bd (chunk_wire c @ r) = Inr (?bd, c @ 13 # 10 # r)"
    using assms by (simp add: chunk_begin_def)
  have "bd_parsing bd = 0 \<Longrightarrow> bd\<lparr>bd_data := x, bd_expected := y, bd_parsing := 0\<rparr> = bd\<lparr>bd_data := x, bd_expected := y\<rparr>" for x y
    by (cases bd) simp
  then have 2: "chunk_data ?bd (c @ 13 # 10 # r) = Done (False, ?bd2, r)"
    using assms by (simp add: chunk_data_def append_advance_def mem_read_def body_append_def nat_add_distrib)
  have "chunk_wire c \<noteq> []" using assms(3) by (simp add: chunk_wire_eq)
  then show ?thesis unfolding chunk_loop.simps [of bd "chunk_wire c @ r"] 1 by (simp add: 2)
qed

lemma last_chunk: "chunk_wire [] = [48, 13, 10, 13, 10]"
  by code_simp

lemma chunk_loop_last:
  assumes "bd_parsing bd = 0" and "bd_expected bd = to_i32 (int (length (bd_data bd)))"
  shows "chunk_loop bd (chunk_wire [] @ r) = Done (Some r, bd\<lparr>bd_finished := True\<rparr>)"
proof -
  have "bd\<lparr>bd_expected := bd_expected bd, bd_parsing := 0, bd_finished := True\<rparr> = bd\<lparr>bd_finished := True\<rparr>"
    using assms(1) by (cases bd) simp
  then show ?thesis using assms
    by (simp add: chunk_loop.simps [of bd "_ # _"] last_chunk chunk_begin_def hex_to_dec_def)
qed

text \<open>
  C38. A body sent in chunks comes back: parsing the pieces as they are serialized, each one
  shorter than a mebibyte, and the empty piece at the end, gives their concatenation, is
  finished exactly at the end of the last piece and does not touch what follows.
\<close>

theorem chunked_roundtrip:
  assumes "list_all (\<lambda>c. 0 < length c \<and> length c < 1048576) cs"
  shows "\<exists>bd. body_parse (concat (map chunk_wire (cs @ [[]])) @ rest) (set_chunked body_new) =
      Done (int (length (concat (map chunk_wire (cs @ [[]])))), bd) \<and>
    bd_data bd = concat cs \<and> bd_finished bd"
proof -
  have "\<exists>bd'. chunk_loop bd (concat (map chunk_wire cs) @ chunk_wire [] @ rest) = Done (Some rest, bd') \<and>
      bd_data bd' = bd_data bd @ concat cs \<and> bd_finished bd'"
    if "bd_parsing bd = 0" "bd_expected bd = to_i32 (int (length (bd_data bd)))" for bd
    using assms that
  proof (induction cs arbitrary: bd)
    case Nil
    then show ?case using chunk_loop_last [of bd rest] by simp
  next
    case (Cons c cs)
    let ?bd = "bd\<lparr>bd_data := bd_data bd @ c, bd_expected := to_i32 (bd_expected bd + int (length c))\<rparr>"
    have "\<exists>bd'. chunk_loop ?bd (concat (map chunk_wire cs) @ chunk_wire [] @ rest) = Done (Some rest, bd') \<and>
        bd_data bd' = bd_data ?bd @ concat cs \<and> bd_finished bd'"
      by (rule Cons.IH) (use Cons.prems in \<open>simp_all add: to_i32_add\<close>)
    then show ?case using Cons.prems chunk_loop_chunk [of bd c "concat (map chunk_wire cs) @ chunk_wire [] @ rest"]
      by simp
  qed
  from this [of "set_chunked body_new"] show ?thesis
    by (auto simp: body_parse_def parse_by_chunk_def set_chunked_def body_new_def to_i32_in_range)
qed

theorem chunked_roundtrip_witness:
  "\<exists>bd. body_parse (B ''3'' @ [13, 10] @ B ''abc'' @ [13, 10] @ B ''2'' @ [13, 10] @ B ''de'' @ [13, 10] @ B ''0'' @ [13, 10, 13, 10])
      (set_chunked body_new) = Done (20, bd) \<and> bd_data bd = B ''abcde'' \<and> bd_finished bd"
proof -
  have "chunk_wire (B ''abc'') = B ''3'' @ [13, 10] @ B ''abc'' @ [13, 10]"
    "chunk_wire (B ''de'') = B ''2'' @ [13, 10] @ B ''de'' @ [13, 10]" by code_simp+
  with chunked_roundtrip [of "[B ''abc'', B ''de'']" "[]"] show ?thesis by (simp add: last_chunk B_def)
qed

text \<open>
  A chunk is misread when its size line arrives in two pieces with the cut in front of
  the carriage return: the digits are taken for the whole line, and the end of the line is
  taken for the first two bytes of the data.
\<close>

theorem chunk_size_cut:
  assumes "2 \<le> length c" and "length c < 1048576"
  shows "\<exists>bd bd'. body_parse (print_zx (length c)) (set_chunked body_new) = Done (int (length (print_zx (length c))), bd) \<and>
    body_parse ([13, 10] @ c) bd = Done (int (length c) + 2, bd') \<and> bd_data bd' = [13, 10] @ take (length c - 2) c"
proof -
  let ?n = "int (length c)"
  let ?bd = "(set_chunked body_new)\<lparr>bd_expected := ?n, bd_parsing := ?n + 2\<rparr>"
  have c: "c \<noteq> []" using assms(1) by (cases c) simp_all
  have n: "to_i32 ?n = ?n" using assms(2) by (intro to_i32_in_range) simp_all
  have "chunk_size_line 0 (print_zx (length c)) = SizeLine ?n []"
    using chunk_size_line_hex [OF assms(2), of "[]"] by simp
  then have "chunk_begin (set_chunked body_new) (print_zx (length c)) = Inr (?bd, [])"
    using c n by (simp add: chunk_begin_def set_chunked_def body_new_def)
  moreover have "chunk_data ?bd [] = Done (False, ?bd, [])"
    using c by (simp add: chunk_data_def append_advance_def mem_read_def body_append_def set_chunked_def body_new_def)
  ultimately have 1: "body_parse (print_zx (length c)) (set_chunked body_new) =
      Done (int (length (print_zx (length c))), ?bd)"
    by (simp add: body_parse_def parse_by_chunk_def chunk_loop.simps [of "set_chunked body_new"]
        chunk_loop.simps [of ?bd "[]"]) (simp add: set_chunked_def)
  let ?bd2 = "?bd\<lparr>bd_data := [13, 10] @ take (length c - 2) c, bd_parsing := 0\<rparr>"
  obtain k where k: "length c = k + 2" using assms(1) by (metis add.commute le_Suc_ex)
  have "chunk_data ?bd ([13, 10] @ c) = Done (False, ?bd2, [])"
    using k by (simp add: chunk_data_def append_advance_def mem_read_def body_append_def set_chunked_def body_new_def nat_add_distrib)
  moreover have "chunk_begin ?bd ([13, 10] @ c) = Inr (?bd, [13, 10] @ c)" by (simp add: chunk_begin_def)
  ultimately have "chunk_loop ?bd ([13, 10] @ c) = Done (Some [], ?bd2)"
    unfolding chunk_loop.simps [of ?bd "[13, 10] @ c"] by (simp add: chunk_loop.simps [of _ "[]"])
  then have "body_parse ([13, 10] @ c) ?bd = Done (?n + 2, ?bd2)"
    by (simp add: body_parse_def parse_by_chunk_def set_chunked_def)
  with 1 show ?thesis by (intro exI [of _ ?bd] exI [of _ ?bd2]) simp
qed

theorem chunk_size_cut_witness:
  "\<exists>bd bd'. body_parse (B ''5'') (set_chunked body_new) = Done (1, bd) \<and>
    body_parse ([13, 10] @ B ''hello'') bd = Done (7, bd') \<and> bd_data bd' = [13, 10] @ B ''hel''"
proof -
  have "print_zx (length (B ''hello'')) = B ''5''" "length (B ''hello'') = 5" by code_simp+
  then show ?thesis using chunk_size_cut [of "B ''hello''"]
    by (simp add: B_def [of "''hel''"] B_def [of "''hello''"] B_def [of "''5''"] del: length_B)
qed

lemma body_parse_length:
  fixes b :: "byte list"
  assumes "\<not> bd_chunked bd" and "int (length (bd_data bd)) \<le> bd_expected bd" and "bd_expected bd < 2 ^ 31"
  defines "k \<equiv> min (nat (bd_expected bd) - length (bd_data bd)) (length b)"
  shows "body_parse b bd = Done (int k, bd\<lparr>bd_data := bd_data bd @ take k b,
    bd_finished := bd_finished bd \<or> length (bd_data bd) + k = nat (bd_expected bd)\<rparr>)"
proof -
  let ?r = "bd_expected bd - int (length (bd_data bd))"
  have k: "length (bd_data bd @ take k b) = length (bd_data bd) + k" by (simp add: k_def)
  have r: "(if ?r > int (length b) then int (length b) else ?r) = int k"
    using assms(2) by (auto simp: k_def min_def)
  have le: "length (bd_data bd) + k \<le> nat (bd_expected bd)" using assms(2) unfolding k_def by linarith
  then have d: "to_i32 (int (length (bd_data bd) + k)) = int (length (bd_data bd) + k)"
    "to_i32 (int (length (bd_data bd))) = int (length (bd_data bd))"
    using assms(2,3) by (auto intro!: to_i32_in_range)
  have fin: "int (length (bd_data bd) + k) = bd_expected bd \<longleftrightarrow> length (bd_data bd) + k = nat (bd_expected bd)"
    using assms(2) by linarith
  have same: "bd_finished bd \<Longrightarrow> bd\<lparr>bd_data := x, bd_finished := True\<rparr> = bd\<lparr>bd_data := x\<rparr>"
    "\<not> bd_finished bd \<Longrightarrow> bd\<lparr>bd_data := x, bd_finished := False\<rparr> = bd\<lparr>bd_data := x\<rparr>" for x
    by (cases bd; simp)+
  show ?thesis
    unfolding body_parse_def parse_by_length_def Let_def d(2) r using assms(1)
    by (cases "bd_finished bd") (simp_all add: body_append_def k d(1) fin same del: of_nat_add length_append)
qed

text \<open>
  A body with a known length may arrive in two pieces: the data is the first \<open>n\<close> bytes
  of what arrives, nothing behind them is used, and it is finished as soon as they are there.
\<close>

theorem length_body_in_pieces:
  assumes "0 \<le> n" and "n < 2 ^ 31"
  shows "\<exists>bd bd'. body_parse p (set_expected_size n body_new) = Done (min n (int (length p)), bd) \<and>
    body_parse q bd = Done (min (n - min n (int (length p))) (int (length q)), bd') \<and>
    bd_data bd' = take (nat n) (p @ q) \<and> (bd_finished bd' \<longleftrightarrow> n \<le> int (length p + length q))"
proof -
  let ?a = "min (nat n) (length p)"
  let ?b = "min (nat n - ?a) (length q)"
  let ?bd = "body_new\<lparr>bd_expected := n, bd_data := take ?a p, bd_finished := (?a = nat n)\<rparr>"
  have 1: "body_parse p (set_expected_size n body_new) = Done (int ?a, ?bd)"
    using body_parse_length [of "set_expected_size n body_new" p] assms
    by (simp add: set_expected_size_def body_new_def)
  have l: "length (take ?a p) = ?a" by simp
  have 2: "body_parse q ?bd = Done (int ?b, ?bd\<lparr>bd_data := take ?a p @ take ?b q,
      bd_finished := ?a = nat n \<or> ?a + ?b = nat n\<rparr>)"
    using body_parse_length [of ?bd q] assms l by (simp add: body_new_def del: length_take)
  have n: "n = int (nat n)" using assms(1) by simp
  have ia: "int ?a = min n (int (length p))" by (subst (2) n) (simp only: of_nat_min)
  have ib: "int ?b = min (n - min n (int (length p))) (int (length q))"
    unfolding ia [symmetric] by (subst (2) n) (simp add: of_nat_min of_nat_diff)
  have d: "take ?a p @ take ?b q = take (nat n) (p @ q)" by (cases "nat n \<le> length p") (auto simp: min_def)
  have f: "(?a = nat n \<or> ?a + ?b = nat n) \<longleftrightarrow> n \<le> int (length p + length q)"
    using assms(1) by (cases "nat n \<le> length p") auto
  show ?thesis
    by (intro exI conjI, rule 1 [unfolded ia], rule 2 [unfolded ib]) (simp_all add: d f del: take_append)
qed

theorem length_body_in_pieces_witness:
  "\<exists>bd bd'. body_parse (B ''ab'') (set_expected_size 3 body_new) = Done (2, bd) \<and>
    body_parse (B ''cde'') bd = Done (1, bd') \<and> bd_data bd' = B ''abc'' \<and> bd_finished bd'"
  using length_body_in_pieces [of 3 "B ''ab''" "B ''cde''"] by (simp add: B_def)

end
