(* ===== verification/Http_Uri.thy ===== *)
theory Http_Uri
  imports Http_Utils Ordered_Map
begin

text \<open>
  src/proto/http/uri.cpp and include/pump/proto/http/uri.h. The one regular expression of
  \<open>uri::parse\<close> is a definition of its own: none of its parts can give characters back to
  the part before it, so that the leftmost greedy match \<open>std::regex_match\<close> looks for is
  found by taking the longest run for every part, with one alternative, whether the text
  starts with a scheme.
\<close>

record uri =
  ur_type :: "byte list"
  ur_host :: "byte list"
  ur_path :: "byte list"
  ur_params :: "(byte list, byte list) omap"

definition uri_http :: "byte list" where "uri_http = B ''http''"
definition uri_https :: "byte list" where "uri_https = B ''https''"
definition uri_ws :: "byte list" where "uri_ws = B ''ws''"
definition uri_wss :: "byte list" where "uri_wss = B ''wss''"
definition uri_end :: "byte list" where "uri_end = []"

definition uri_new :: uri where
  "uri_new = \<lparr>ur_type = uri_end, ur_host = [], ur_path = [], ur_params = []\<rparr>"

definition uri_reset :: "uri \<Rightarrow> uri" where
  "uri_reset u = u\<lparr>ur_type := uri_end, ur_params := [], ur_host := [], ur_path := []\<rparr>"

section \<open>The regular expression\<close>

definition re_word :: "byte \<Rightarrow> bool" where
  "re_word c \<longleftrightarrow> c_isalnum c \<or> c = 95"

definition host_char :: "byte \<Rightarrow> bool" where
  "host_char c \<longleftrightarrow> re_word c \<or> c \<in> set (B ''-~@#$%&+=|.'')"

definition path_char :: "byte \<Rightarrow> bool" where
  "path_char c \<longleftrightarrow> re_word c \<or> c \<in> set (B ''-~@#$%&+=|./'')"

definition param_char :: "byte \<Rightarrow> bool" where
  "param_char c \<longleftrightarrow> re_word c \<or> c \<in> set (B ''~!@#$%&+=|:;,.'')"

definition schemes :: "byte list list" where
  "schemes = [B ''https'', B ''http'', B ''HTTPS'', B ''HTTP'', B ''wss'', B ''ws'', B ''WSS'', B ''WS'']"

fun strip_prefix :: "'a list \<Rightarrow> 'a list \<Rightarrow> 'a list option" where
  "strip_prefix [] s = Some s"
| "strip_prefix (p # ps) [] = None"
| "strip_prefix (p # ps) (c # s) = (if p = c then strip_prefix ps s else None)"

fun scheme_of :: "byte list list \<Rightarrow> byte list \<Rightarrow> (byte list \<times> byte list) option" where
  "scheme_of [] s = None"
| "scheme_of (x # xs) s =
     (case strip_prefix (x @ B ''://'') s of Some r \<Rightarrow> Some (x, r) | None \<Rightarrow> scheme_of xs s)"

text \<open>Host, path and parameters, \<open>None\<close> for a group that takes no part in the match.\<close>

definition match_rest :: "byte list \<Rightarrow> (byte list \<times> byte list option \<times> byte list option) option" where
  "match_rest s =
     (let name = takeWhile host_char s;
          r0 = dropWhile host_char s;
          port = (if r0 \<noteq> [] \<and> hd r0 = 58 then 58 # take 5 (takeWhile is_digit (tl r0)) else []);
          r1 = drop (length port) r0;
          path = (if r1 \<noteq> [] \<and> hd r1 = 47 then Some (takeWhile path_char r1) else None);
          r2 = (if path = None then r1 else dropWhile path_char r1);
          param = (if r2 \<noteq> [] \<and> hd r2 = 63 then Some (63 # takeWhile param_char (tl r2)) else None);
          r3 = (if param = None then r2 else dropWhile param_char (tl r2))
      in if name = [] \<or> r3 \<noteq> [] then None else Some (name @ port, path, param))"

definition uri_match :: "byte list \<Rightarrow> (byte list option \<times> byte list \<times> byte list option \<times> byte list option) option" where
  "uri_match url =
     (case scheme_of schemes url of
        Some (x, r) \<Rightarrow>
          (case match_rest r of
             Some (host, path, param) \<Rightarrow> Some (Some x, host, path, param)
           | None \<Rightarrow> map_option (\<lambda>m. (None, m)) (match_rest url))
      | None \<Rightarrow> map_option (\<lambda>m. (None, m)) (match_rest url))"

section \<open>Operations\<close>

definition to_lower :: "byte \<Rightarrow> byte" where
  "to_lower c = (if 65 \<le> c \<and> c \<le> 90 then c + 32 else c)"

definition set_param :: "byte list \<Rightarrow> byte list \<Rightarrow> uri \<Rightarrow> uri" where
  "set_param key val u = u\<lparr>ur_params := om_put key val (ur_params u)\<rparr>"

definition set_host :: "byte list \<Rightarrow> uri \<Rightarrow> uri" where
  "set_host host u = u\<lparr>ur_host := host\<rparr>"

definition set_path :: "byte list \<Rightarrow> uri \<Rightarrow> uri" where
  "set_path path u = u\<lparr>ur_path := path\<rparr>"

text \<open>The regular expression \<open>[=&]\<close>.\<close>

definition param_split :: separator where "param_split = ([61, 38], False)"

fun set_params :: "byte list list \<Rightarrow> uri \<Rightarrow> uri" where
  "set_params (k # v # kvs) u = set_params kvs (set_param k v u)"
| "set_params _ u = u"

definition uri_parse :: "byte list \<Rightarrow> uri \<Rightarrow> bool \<times> uri" where
  "uri_parse url u =
     (case uri_match url of
        None \<Rightarrow> (False, u)
      | Some (sch, host, path, param) \<Rightarrow>
          (let u1 = u\<lparr>ur_type := (case sch of Some x \<Rightarrow> map to_lower x | None \<Rightarrow> uri_http),
                     ur_host := host,
                     ur_path := (case path of Some p \<Rightarrow> p | None \<Rightarrow> [47])\<rparr>
           in case param of
                None \<Rightarrow> (True, u1)
              | Some q \<Rightarrow>
                  (let (ok, new_params) = url_decode q [] in
                   if \<not> ok then (False, u1)
                   else
                     (let kvs = split_string new_params param_split in
                      if length kvs mod 2 \<noteq> 0 then (False, u1)
                      else (True, set_params kvs u1)))))"

definition get_param :: "byte list \<Rightarrow> uri \<Rightarrow> byte list option" where
  "get_param key u = map_of (ur_params u) key"

definition to_url :: "uri \<Rightarrow> byte list" where
  "to_url u =
     (if ur_type u = uri_end then []
      else
        (let url = ur_type u @ B ''://'' @ ur_host u @ ur_path u;
             param_val = map (\<lambda>(k, v). k @ [61] @ v) (ur_params u)
         in if param_val \<noteq> [] then url @ [63] @ join_strings param_val [38] else url))"

text \<open>The host and port \<open>to_address\<close> hands to the constructor of \<open>address\<close>.\<close>

definition to_address :: "uri \<Rightarrow> (byte list \<times> u16) option" where
  "to_address u =
     (let results = split_string (ur_host u) ([58], False) in
      if results = [] then None
      else Some (results ! 0,
        if length results > 1 then word_of_int (to_i32 (atol (c_str (results ! 1))))
        else if ur_type u = uri_https \<or> ur_type u = uri_wss then 443
        else 80))"

section \<open>Lemmas\<close>

lemma strip_prefix_append [simp]: "strip_prefix p (p @ s) = Some s"
  by (induction p) auto

definition good_uri :: "uri \<Rightarrow> bool" where
  "good_uri u \<longleftrightarrow> ur_type u \<in> {uri_http, uri_https, uri_ws, uri_wss} \<and>
     ur_host u \<noteq> [] \<and> list_all host_char (ur_host u) \<and>
     (\<exists>p. ur_path u = 47 # p \<and> list_all path_char p)"

lemma scheme_of_good:
  assumes "x \<in> {uri_http, uri_https, uri_ws, uri_wss}"
  shows "scheme_of schemes (x @ B ''://'' @ r) = Some (x, r) \<and> map to_lower x = x \<and> x \<noteq> []"
  using assms
  by (auto simp: uri_http_def uri_https_def uri_ws_def uri_wss_def schemes_def B_def to_lower_def)

lemma uri_chars:
  "\<not> host_char 47" "\<not> host_char 58" "\<not> host_char 63" "path_char 47" "\<not> path_char 63"
  "\<not> param_char 63"
  by (simp_all add: host_char_def path_char_def param_char_def re_word_def c_isalnum_def is_digit_def B_def)

lemma takeWhile_run:
  "list_all P xs \<Longrightarrow> ys = [] \<or> \<not> P (hd ys) \<Longrightarrow> takeWhile P (xs @ ys) = xs \<and> dropWhile P (xs @ ys) = ys"
  by (induction xs) (cases ys; auto)+

lemma match_rest_parts:
  assumes "h \<noteq> []" and "list_all host_char h" and "list_all path_char p"
    and "list_all param_char q"
  shows "match_rest (h @ 47 # p) = Some (h, Some (47 # p), None)"
    and "match_rest (h @ 47 # p @ 63 # q) = Some (h, Some (47 # p), Some (63 # q))"
proof -
  have h: "takeWhile host_char (h @ 47 # r) = h" "dropWhile host_char (h @ 47 # r) = 47 # r" for r
    using takeWhile_run [OF assms(2), of "47 # r"] uri_chars by auto
  have p: "takeWhile path_char (47 # p) = 47 # p" "dropWhile path_char (47 # p) = []"
    "takeWhile path_char (47 # p @ 63 # q) = 47 # p" "dropWhile path_char (47 # p @ 63 # q) = 63 # q"
    using takeWhile_run [OF assms(3), of "[]"] takeWhile_run [OF assms(3), of "63 # q"] uri_chars by auto
  have q: "takeWhile param_char q = q" "dropWhile param_char q = []"
    using takeWhile_run [OF assms(4), of "[]"] by auto
  show "match_rest (h @ 47 # p) = Some (h, Some (47 # p), None)"
    using assms(1) by (simp add: match_rest_def h p del: takeWhile.simps dropWhile.simps)
  show "match_rest (h @ 47 # p @ 63 # q) = Some (h, Some (47 # p), Some (63 # q))"
    using assms(1) by (simp add: match_rest_def h p q del: takeWhile.simps dropWhile.simps)
qed

text \<open>
  A URL without parameters is read back as it was written: its type, its host and its
  path come back, whatever the object held before.
\<close>

theorem uri_roundtrip:
  assumes "good_uri u" and "ur_params u = []"
  shows "uri_parse (to_url u) v = (True, v\<lparr>ur_type := ur_type u, ur_host := ur_host u, ur_path := ur_path u\<rparr>)"
proof -
  obtain p where p: "ur_path u = 47 # p" "list_all path_char p" using assms(1) by (auto simp: good_uri_def)
  have t: "ur_type u \<in> {uri_http, uri_https, uri_ws, uri_wss}" "ur_host u \<noteq> []" "list_all host_char (ur_host u)"
    using assms(1) by (simp_all add: good_uri_def)
  have url: "to_url u = ur_type u @ B ''://'' @ (ur_host u @ 47 # p)"
    using scheme_of_good [OF t(1)] assms(2) p(1) by (simp add: to_url_def uri_end_def)
  show ?thesis
    unfolding uri_parse_def url uri_match_def
    using scheme_of_good [OF t(1)] match_rest_parts(1) [OF t(2,3) p(2), of "[]"] p(1) by simp
qed

theorem uri_roundtrip_witness:
  "uri_parse (B ''wss://a.b/c'') uri_new = (True, \<lparr>ur_type = B ''wss'', ur_host = B ''a.b'', ur_path = B ''/c'', ur_params = []\<rparr>)"
proof -
  let ?u = "\<lparr>ur_type = B ''wss'', ur_host = B ''a.b'', ur_path = B ''/c'', ur_params = []\<rparr>"
  have "good_uri ?u"
    by (simp add: good_uri_def B_def uri_wss_def host_char_def path_char_def re_word_def c_isalnum_def is_digit_def)
  moreover have "to_url ?u = B ''wss://a.b/c''" by code_simp
  ultimately show ?thesis using uri_roundtrip [of ?u uri_new] by (simp add: uri_new_def)
qed

text \<open>
  With a parameter it is not: the name of the first parameter comes back with the
  question mark in front of it, so that the parameter is not found under its name.
\<close>

theorem uri_reparse_params:
  assumes "good_uri u" and "ur_params u = [(k, w)]" and "w \<noteq> []"
    and "list_all (\<lambda>c. param_char c \<and> c \<notin> {37, 38, 43, 61}) k" and "list_all (\<lambda>c. param_char c \<and> c \<notin> {37, 38, 43, 61}) w"
  shows "\<exists>v. uri_parse (to_url u) uri_new = (True, v) \<and> get_param (63 # k) v = Some w \<and> get_param k v = None"
proof -
  obtain p where p: "ur_path u = 47 # p" "list_all path_char p" using assms(1) by (auto simp: good_uri_def)
  have t: "ur_type u \<in> {uri_http, uri_https, uri_ws, uri_wss}" "ur_host u \<noteq> []" "list_all host_char (ur_host u)"
    using assms(1) by (simp_all add: good_uri_def)
  let ?q = "k @ 61 # w"
  have url: "to_url u = ur_type u @ B ''://'' @ (ur_host u @ 47 # p @ 63 # ?q)"
    using scheme_of_good [OF t(1)] assms(2) p(1) by (simp add: to_url_def uri_end_def join_strings_def)
  have "list_all param_char ?q" using assms(4,5) by (auto simp: list_all_iff param_char_def B_def)
  note m = match_rest_parts(2) [OF t(2,3) p(2) this]
  have dec: "list_all (\<lambda>c. c \<noteq> 37 \<and> c \<noteq> 43) s \<Longrightarrow> url_decode_loop s d = (True, d @ s)" for s d
    by (induction s arbitrary: d) auto
  have d: "url_decode (63 # ?q) [] = (True, 63 # ?q)"
    unfolding url_decode_def using dec [of "63 # ?q" "[]"] assms(4,5) by (auto simp: list_all_iff)
  have "sep_free param_split (63 # k)" "sep_free param_split w"
    using assms(4,5) by (auto simp: sep_free_def param_split_def list_all_iff)
  then have s: "split_string (63 # ?q) param_split = [63 # k, w]"
    using find_sep_at [of param_split "63 # k" 61 w] assms(3) find_sep_free [of param_split w]
    by (simp add: split_string_def split_rest.simps [of _ w] param_split_def)
  show ?thesis
    unfolding uri_parse_def url uri_match_def
    using scheme_of_good [OF t(1)] m d s
    by (simp add: set_param_def get_param_def uri_new_def)
qed

theorem uri_reparse_params_witness:
  "\<exists>v. uri_parse (B ''http://h/p?a=1'') uri_new = (True, v) \<and> get_param (B ''?a'') v = Some (B ''1'') \<and>
    get_param (B ''a'') v = None"
proof -
  let ?u = "\<lparr>ur_type = B ''http'', ur_host = B ''h'', ur_path = B ''/p'', ur_params = [(B ''a'', B ''1'')]\<rparr>"
  have "good_uri ?u"
    by (simp add: good_uri_def B_def uri_http_def host_char_def path_char_def re_word_def c_isalnum_def is_digit_def)
  moreover have "to_url ?u = B ''http://h/p?a=1''" by code_simp
  ultimately show ?thesis using uri_reparse_params [of ?u "B ''a''" "B ''1''"]
    by (simp add: B_def param_char_def re_word_def c_isalnum_def is_digit_def)
qed

end
