(* ===== verification/Http_Packet.thy ===== *)
theory Http_Packet
  imports Http_Header Http_Body Http_Uri
begin

text \<open>
  include/pump/proto/http/packet.h, src/proto/http/request.cpp and response.cpp: requests
  and responses, which extend the packet. A text that is parsed is a list of exactly the
  \<open>size\<close> bytes the caller names. The context pointer of a packet is not modelled, and a
  body object is always created (\<open>pump_object_create\<close> does not fail).
\<close>

section \<open>Packets\<close>

datatype http_version = VersionUnknown | Version10 | Version11 | Version20

datatype parse_status = ParseNone | ParseLine | ParseHeader | ParseBody | ParseFinished | ParseFailed

record packet =
  pk_header :: header
  pk_version :: http_version
  pk_body :: "body option"
  pk_status :: parse_status

definition get_http_version_string :: "http_version \<Rightarrow> byte list" where
  "get_http_version_string v =
     (case v of
        Version10 \<Rightarrow> B ''HTTP/1.0''
      | Version11 \<Rightarrow> B ''HTTP/1.1''
      | Version20 \<Rightarrow> B ''HTTP/2.0''
      | VersionUnknown \<Rightarrow> [])"

definition packet_is_parse_finished :: "'a packet_scheme \<Rightarrow> bool" where
  "packet_is_parse_finished p = (pk_status p = ParseFinished)"

text \<open>The body the headers announce.\<close>

definition begin_body :: "'a packet_scheme \<Rightarrow> 'a packet_scheme" where
  "begin_body p =
     (let h = pk_header p;
          len = (case get_head_int (B ''Content-Length'') h of
                   Some n \<Rightarrow> Some n
                 | None \<Rightarrow> get_head_int (B ''content-length'') h)
      in case len of
           Some n \<Rightarrow> if n > 0 then p\<lparr>pk_body := Some (set_expected_size n body_new)\<rparr> else p
         | None \<Rightarrow>
             (let enc = (case get_head (B ''Transfer-Encoding'') h of
                           Some t \<Rightarrow> Some t
                         | None \<Rightarrow> get_head (B ''transfer-encoding'') h)
              in case enc of
                   Some t \<Rightarrow> if t = B ''chunked'' then p\<lparr>pk_body := Some (set_chunked body_new)\<rparr> else p
                 | None \<Rightarrow> p))"

text \<open>
  The phases behind the start line, which requests and responses share but for what they do
  with the complete headers (\<open>hook\<close>): \<open>off\<close> is what is used up already, \<open>pos\<close> the text
  from there on.
\<close>

definition parse_body_phase :: "int \<Rightarrow> byte list \<Rightarrow> 'a packet_scheme \<Rightarrow> (int \<times> 'a packet_scheme) run" where
  "parse_body_phase off pos p =
     (if pk_status p = ParseBody then
        (case pk_body p of
           None \<Rightarrow> Abort
         | Some bd \<Rightarrow>
             run_bind (body_parse pos bd) (\<lambda>(n, bd').
               (let p1 = p\<lparr>pk_body := Some bd'\<rparr> in
                if n < 0 then Done (- 1, p1)
                else if bd_finished bd' then Done (off + n, p1\<lparr>pk_status := ParseFinished\<rparr>)
                else Done (off + n, p1))))
      else Done (off, p))"

definition parse_header_phase ::
  "('a packet_scheme \<Rightarrow> 'a packet_scheme) \<Rightarrow> int \<Rightarrow> byte list \<Rightarrow> 'a packet_scheme \<Rightarrow> (int \<times> 'a packet_scheme) run" where
  "parse_header_phase hook off pos p =
     (if pk_status p = ParseHeader then
        run_bind (parse_header pos (pk_header p)) (\<lambda>(n, h).
          (let p1 = p\<lparr>pk_header := h\<rparr> in
           if n < 0 then Done (- 1, p1)
           else if n = 0 then Done (off, p1)
           else if \<not> hd_parsed h then Done (off + n, p1)
           else
             (let p2 = begin_body (hook p1);
                  p3 = p2\<lparr>pk_status := (if pk_body p2 \<noteq> None then ParseBody else ParseFinished)\<rparr>
              in parse_body_phase (off + n) (drop (nat n) pos) p3)))
      else parse_body_phase off pos p)"

definition packet_serialize :: "(byte list \<Rightarrow> int \<times> byte list) \<Rightarrow> 'a packet_scheme \<Rightarrow> byte list \<Rightarrow> int \<times> byte list" where
  "packet_serialize start p buffer =
     (let (n1, buf1) = start buffer in
      if n1 < 0 then (- 1, buf1)
      else
        (let (n2, buf2) = serialize_header (pk_header p) buf1 in
         if n2 < 0 then (- 1, buf2)
         else
           (case pk_body p of
              None \<Rightarrow> (n1 + n2, buf2)
            | Some bd \<Rightarrow>
                (let (n3, buf3) = body_serialize bd buf2 in
                 if n3 < 0 then (- 1, buf3) else (n1 + n2 + n3, buf3)))))"

definition version_of :: "byte list \<Rightarrow> http_version option" where
  "version_of s =
     (if s = B ''HTTP/1.0'' then Some Version10
      else if s = B ''HTTP/1.1'' then Some Version11
      else if s = B ''HTTP/2.0'' then Some Version20
      else None)"

section \<open>Requests\<close>

datatype http_method = MethodUnknown | MethodGet | MethodPost | MethodHead | MethodPut | MethodDelete

record request = packet +
  rq_uri :: uri
  rq_method :: http_method

definition request_method_strings :: "http_method \<Rightarrow> byte list" where
  "request_method_strings m =
     (case m of
        MethodUnknown \<Rightarrow> B ''UNKNOWN''
      | MethodGet \<Rightarrow> B ''GET''
      | MethodPost \<Rightarrow> B ''POST''
      | MethodHead \<Rightarrow> B ''HEAD''
      | MethodPut \<Rightarrow> B ''PUT''
      | MethodDelete \<Rightarrow> B ''DELETE'')"

definition request_new :: request where
  "request_new = \<lparr>pk_header = header_new, pk_version = VersionUnknown, pk_body = None, pk_status = ParseNone,
     rq_uri = uri_new, rq_method = MethodUnknown\<rparr>"

definition request_new_url :: "byte list \<Rightarrow> request" where
  "request_new_url url = request_new\<lparr>rq_uri := snd (uri_parse url uri_new)\<rparr>"

definition starts :: "byte list \<Rightarrow> byte list \<Rightarrow> bool" where
  "starts lit line \<longleftrightarrow> length lit < length line \<and> take (length lit) line = lit"

definition parse_method :: "byte list \<Rightarrow> (http_method \<times> nat) option" where
  "parse_method line =
     (if starts (B ''GET '') line then Some (MethodGet, 4)
      else if starts (B ''POST '') line then Some (MethodPost, 5)
      else if starts (B ''HEAD '') line then Some (MethodHead, 5)
      else if starts (B ''PUT '') line then Some (MethodPut, 4)
      else if starts (B ''DELETE '') line then Some (MethodDelete, 7)
      else None)"

text \<open>
  The parameters behind the question mark: what is left of the line, and the URI; \<open>None\<close>
  for an error.
\<close>

definition parse_request_params :: "byte list \<Rightarrow> uri \<Rightarrow> (byte list \<times> uri) option" where
  "parse_request_params s u =
     (let raw_params = takeWhile (\<lambda>c. c \<noteq> 32) s;
          r = dropWhile (\<lambda>c. c \<noteq> 32) s
      in if raw_params = [] \<or> r = [] then None
         else
           (let (ok, params) = url_decode raw_params [] in
            if \<not> ok then None
            else
              (let vals = split_string params param_split in
               if vals = [] \<or> length vals mod 2 \<noteq> 0 then None
               else Some (r, set_params vals u))))"

text \<open>Path and parameters: what is left of the line, \<open>None\<close> for an error.\<close>

definition parse_request_target :: "byte list \<Rightarrow> request \<Rightarrow> byte list option \<times> request" where
  "parse_request_target s rq =
     (let path = takeWhile (\<lambda>c. c \<noteq> 32 \<and> c \<noteq> 63) s;
          r = dropWhile (\<lambda>c. c \<noteq> 32 \<and> c \<noteq> 63) s
      in if path = [] \<or> r = [] then (None, rq)
         else
           (let rq1 = rq\<lparr>rq_uri := set_path path (rq_uri rq)\<rparr> in
            if hd r = 63 then
              (case parse_request_params (tl r) (rq_uri rq1) of
                 None \<Rightarrow> (None, rq1)
               | Some (r2, u) \<Rightarrow> (Some r2, rq1\<lparr>rq_uri := u\<rparr>))
            else (Some r, rq1)))"

text \<open>The eight bytes of the version are compared wherever the line ends.\<close>

definition parse_request_line :: "byte list \<Rightarrow> request \<Rightarrow> (int \<times> request) run" where
  "parse_request_line b rq =
     run_bind (find_http_line_end b (int (length b))) (\<lambda>e.
       case e of
         None \<Rightarrow> Done (0, rq)
       | Some n \<Rightarrow>
           (case parse_method (take n b) of
              None \<Rightarrow> Done (- 1, rq)
            | Some (m, k) \<Rightarrow>
                (case parse_request_target (drop k (take n b)) (rq\<lparr>rq_method := m\<rparr>) of
                   (None, rq1) \<Rightarrow> Done (- 1, rq1)
                 | (Some r, rq1) \<Rightarrow>
                     run_bind (mem_read b (n - length r + 1) 8) (\<lambda>v.
                       case version_of v of
                         None \<Rightarrow> Done (- 1, rq1)
                       | Some ver \<Rightarrow> Done (int n, rq1\<lparr>pk_version := ver\<rparr>)))))"

definition request_host :: "request \<Rightarrow> request" where
  "request_host rq =
     (case get_head (B ''Host'') (pk_header rq) of
        Some host \<Rightarrow> rq\<lparr>rq_uri := set_host host (rq_uri rq)\<rparr>
      | None \<Rightarrow> rq)"

definition request_parse :: "byte list \<Rightarrow> request \<Rightarrow> (int \<times> request) run" where
  "request_parse b rq =
     (if pk_status rq = ParseFinished then Done (0, rq)
      else
        (let rq0 = (if pk_status rq = ParseNone then rq\<lparr>pk_status := ParseLine\<rparr> else rq) in
         if pk_status rq0 = ParseLine then
           run_bind (parse_request_line b rq0) (\<lambda>(n, rq1).
             if n \<le> 0 then Done (n, rq1)
             else parse_header_phase request_host n (drop (nat n) b) (rq1\<lparr>pk_status := ParseHeader\<rparr>))
         else parse_header_phase request_host 0 b rq0))"

definition serialize_request_line :: "request \<Rightarrow> byte list \<Rightarrow> int \<times> byte list" where
  "serialize_request_line rq buf =
     (let (n, tmp) = c_snprintf 255
            (request_method_strings (rq_method rq) @ [32] @ c_str (ur_path (rq_uri rq)) @ [32] @
             get_http_version_string (pk_version rq) @ http_crlf)
      in (n, buf @ tmp))"

definition request_serialize :: "request \<Rightarrow> byte list \<Rightarrow> int \<times> byte list" where
  "request_serialize rq buffer = packet_serialize (serialize_request_line rq) rq buffer"

section \<open>Responses\<close>

record response = packet +
  rs_status_code :: int

definition http_code_desc_map :: "(int \<times> byte list) list" where
  "http_code_desc_map =
    [(0, []), (100, B ''Continue''), (101, B ''Switching protos''), (200, B ''OK''), (201, B ''Created''),
     (202, B ''Accepted''), (203, B ''Non-Authoritative Information''), (204, B ''No Content''),
     (205, B ''Reset Content''), (206, B ''Partial Content''), (300, B ''Multiple Choices''),
     (301, B ''Moved Permanently''), (302, B ''Found''), (303, B ''See Other''), (304, B ''Not Modified''),
     (305, B ''Use Proxy''), (307, B ''Temporary Redirect''), (400, B ''Bad Request''),
     (401, B ''Unauthorized''), (403, B ''Forbidden''), (404, B ''Not Found''), (405, B ''Method Not Allowed''),
     (406, B ''Not Acceptable''), (407, B ''Proxy Authentication Required''), (408, B ''Request Timeout''),
     (409, B ''Conflict''), (410, B ''Gone''), (411, B ''Length Required''), (412, B ''Precondition Failed''),
     (413, B ''Request Entity Too Large''), (414, B ''Request URI Too Long''),
     (416, B ''Requested Range Not Satisfiable''), (500, B ''Internal Server Error''),
     (501, B ''Not Implemented''), (502, B ''Bad Gateway''), (503, B ''Service Unavailable''),
     (504, B ''Gateway Timeout''), (505, B ''HTTP Version Not Supported'')]"

definition get_http_code_desc :: "int \<Rightarrow> byte list" where
  "get_http_code_desc code = (case map_of http_code_desc_map code of Some d \<Rightarrow> d | None \<Rightarrow> [])"

definition response_new :: response where
  "response_new = \<lparr>pk_header = header_new, pk_version = VersionUnknown, pk_body = None, pk_status = ParseNone,
     rs_status_code = 0\<rparr>"

fun parse_code :: "int \<Rightarrow> byte list \<Rightarrow> int \<times> byte list" where
  "parse_code code [] = (code, [])"
| "parse_code code (c # r) = (if c = 32 then (code, c # r) else parse_code (to_i32 (code * 10 + (sint c - 48))) r)"

text \<open>
  \<open>strncmp\<close> stops at the first difference, which a carriage return in the first eight bytes
  is, so that it stays inside of the line.
\<close>

definition parse_response_line :: "byte list \<Rightarrow> response \<Rightarrow> (int \<times> response) run" where
  "parse_response_line b rs =
     run_bind (find_http_line_end b (int (length b))) (\<lambda>e.
       case e of
         None \<Rightarrow> Done (0, rs)
       | Some n \<Rightarrow>
           (case version_of (take 8 b) of
              None \<Rightarrow> Done (- 1, rs)
            | Some ver \<Rightarrow>
                (let (code, r) = parse_code (rs_status_code rs) (dropWhile (\<lambda>c. c = 32) (drop 8 (take n b)));
                     rs1 = rs\<lparr>pk_version := ver, rs_status_code := code\<rparr>
                 in if r = [] then Done (- 1, rs1) else Done (int n, rs1))))"

definition response_parse :: "byte list \<Rightarrow> response \<Rightarrow> (int \<times> response) run" where
  "response_parse b rs =
     (if pk_status rs = ParseFinished then Done (0, rs)
      else
        (let rs0 = (if pk_status rs = ParseNone then rs\<lparr>pk_status := ParseLine\<rparr> else rs) in
         if pk_status rs0 = ParseLine then
           run_bind (parse_response_line b rs0) (\<lambda>(n, rs1).
             if n \<le> 0 then Done (n, rs1)
             else parse_header_phase id n (drop (nat n) b) (rs1\<lparr>pk_status := ParseHeader\<rparr>))
         else parse_header_phase id 0 b rs0))"

definition serialize_response_line :: "response \<Rightarrow> byte list \<Rightarrow> int \<times> byte list" where
  "serialize_response_line rs buf =
     (let (n, tmp) = c_snprintf 127
            (get_http_version_string (pk_version rs) @ [32] @ print_d (rs_status_code rs) @ [32] @
             get_http_code_desc (rs_status_code rs) @ http_crlf)
      in (n, buf @ tmp))"

definition response_serialize :: "response \<Rightarrow> byte list \<Rightarrow> int \<times> byte list" where
  "response_serialize rs buffer = packet_serialize (serialize_response_line rs) rs buffer"

section \<open>Safety\<close>

definition packet_inv :: "'a packet_scheme \<Rightarrow> bool" where
  "packet_inv p \<longleftrightarrow> (case pk_body p of None \<Rightarrow> pk_status p \<noteq> ParseBody | Some bd \<Rightarrow> body_inv bd)"

lemma fresh_body_inv:
  "0 \<le> n \<Longrightarrow> n < 2 ^ 31 \<Longrightarrow> body_inv (set_expected_size n body_new)" "body_inv (set_chunked body_new)"
  by (simp_all add: body_inv_def set_expected_size_def set_chunked_def body_new_def to_i32_in_range)

lemma get_head_int_range: "get_head_int name h = Some n \<Longrightarrow> - (2 ^ 31) \<le> n \<and> n < 2 ^ 31"
  using to_i32_bounds by (auto simp: get_head_int_def split: option.splits if_splits)

lemma begin_body_cases:
  "begin_body p = p \<or> (\<exists>bd. begin_body p = p\<lparr>pk_body := Some bd\<rparr> \<and> body_inv bd)"
proof -
  have "0 < n \<Longrightarrow> get_head_int name h = Some n \<Longrightarrow> body_inv (set_expected_size n body_new)" for n name h
    using get_head_int_range [of name h n] fresh_body_inv(1) [of n] by simp
  then show ?thesis using fresh_body_inv(2)
    by (auto simp: begin_body_def Let_def split: option.splits)
qed

definition in_text :: "int \<Rightarrow> int \<Rightarrow> (int \<times> 'a packet_scheme) run \<Rightarrow> bool" where
  "in_text off len r \<longleftrightarrow> (\<exists>n p. r = Done (n, p) \<and> (n = - 1 \<or> off \<le> n \<and> n \<le> off + len \<and> packet_inv p))"

lemma parse_body_phase_safe:
  assumes "packet_inv p" and "0 \<le> off"
  shows "in_text off (int (length pos)) (parse_body_phase off pos p)"
proof (cases "pk_status p = ParseBody")
  case True
  then obtain bd where bd: "pk_body p = Some bd" "body_inv bd" using assms(1) by (auto simp: packet_inv_def split: option.splits)
  from body_parse_inv [OF bd(2), of pos] obtain n bd' where
    n: "body_parse pos bd = Done (n, bd')" "n = - 1 \<or> 0 \<le> n \<and> n \<le> int (length pos) \<and> body_inv bd'" by blast
  show ?thesis
  proof (cases "n = - 1")
    case True
    then show ?thesis using n bd \<open>pk_status p = ParseBody\<close> by (simp add: in_text_def parse_body_phase_def)
  next
    case False
    then show ?thesis using n bd \<open>pk_status p = ParseBody\<close>
      by (cases "bd_finished bd'") (simp_all add: in_text_def parse_body_phase_def packet_inv_def)
  qed
qed (use assms in \<open>simp add: in_text_def parse_body_phase_def\<close>)

lemma parse_header_phase_safe:
  assumes "packet_inv p" and "0 \<le> off"
    and hook: "\<And>q. pk_body (hook q) = pk_body q \<and> pk_status (hook q) = pk_status q"
  shows "in_text off (int (length pos)) (parse_header_phase hook off pos p)"
proof (cases "pk_status p = ParseHeader")
  case st: True
  obtain n h where n: "parse_header pos (pk_header p) = Done (n, h)" "n = - 1 \<or> 0 \<le> n \<and> n \<le> int (length pos)"
    using parse_header_bounds by blast
  let ?p1 = "p\<lparr>pk_header := h\<rparr>"
  let ?p2 = "begin_body (hook ?p1)"
  let ?p3 = "?p2\<lparr>pk_status := (if pk_body ?p2 \<noteq> None then ParseBody else ParseFinished)\<rparr>"
  consider (bad) "n = - 1" | (none) "n = 0" | (more) "0 < n" "\<not> hd_parsed h" | (all) "0 < n" "hd_parsed h"
    using n(2) by linarith
  then show ?thesis
  proof cases
    case all
    have "packet_inv ?p3" using begin_body_cases [of "hook ?p1"] assms(1) hook [of ?p1] st
      by (auto simp: packet_inv_def split: option.splits)
    from parse_body_phase_safe [OF this, of "off + n" "drop (nat n) pos"] assms(2) all n
    have "in_text (off + n) (int (length pos) - n) (parse_header_phase hook off pos p)"
      by (simp add: parse_header_phase_def st Let_def of_nat_diff nat_le_iff)
    then show ?thesis using all by (fastforce simp: in_text_def)
  qed (use n st assms in \<open>auto simp: in_text_def parse_header_phase_def packet_inv_def split: option.splits\<close>)
qed (use parse_body_phase_safe [OF assms(1,2)] in \<open>simp add: parse_header_phase_def\<close>)

lemma line_found:
  "find_http_line_end b (int (length b)) = Done (Some n) \<Longrightarrow> 0 < n \<and> n \<le> length b"
  using find_line_end_bounds [of b n] by auto

lemma find_line_cases:
  obtains "find_http_line_end b (int (length b)) = Done None"
  | n where "find_http_line_end b (int (length b)) = Done (Some n)" "0 < n" "n \<le> length b"
  using line_found [of b] find_line_end_whole [of b] by (cases "line_length (take 2048 b)") auto

definition line_result :: "byte list \<Rightarrow> 'a packet_scheme \<Rightarrow> (int \<times> 'a packet_scheme) run \<Rightarrow> bool" where
  "line_result b p r \<longleftrightarrow> (\<exists>n q. r = Done (n, q) \<and> - 1 \<le> n \<and> n \<le> int (length b) \<and>
     pk_body q = pk_body p \<and> pk_status q = pk_status p)"



lemma parse_response_line_result: "line_result b rs (parse_response_line b rs)"
  by (cases b rule: find_line_cases)
    (auto simp: parse_response_line_def line_result_def Let_def split: option.split prod.split)


lemma start_phase_safe:
  assumes "packet_inv p" and "line_result b p r"
    and hook: "\<And>q. pk_body (hook q) = pk_body q \<and> pk_status (hook q) = pk_status q"
  shows "in_text 0 (int (length b)) (run_bind r (\<lambda>(n, q).
      if n \<le> 0 then Done (n, q)
      else parse_header_phase hook n (drop (nat n) b) (q\<lparr>pk_status := ParseHeader\<rparr>)))"
proof -
  obtain n q where q: "r = Done (n, q)" "- 1 \<le> n" "n \<le> int (length b)"
      "pk_body q = pk_body p" "pk_status q = pk_status p"
    using assms(2) unfolding line_result_def by blast
  have qi: "packet_inv q" "packet_inv (q\<lparr>pk_status := ParseHeader\<rparr>)"
    using assms(1) q(4,5) by (auto simp: packet_inv_def split: option.splits)
  show ?thesis
  proof (cases "n \<le> 0")
    case True
    then have "n = - 1 \<or> n = 0" using q(2) by linarith
    then show ?thesis using q(1) qi by (auto simp: in_text_def)
  next
    case False
    then have "0 \<le> n" by simp
    from parse_header_phase_safe [OF qi(2) this hook, of "drop (nat n) b"] False q(3)
    show ?thesis by (auto simp: q(1) in_text_def)
  qed
qed

lemma packet_inv_start: "packet_inv p \<Longrightarrow> packet_inv (if pk_status p = ParseNone then p\<lparr>pk_status := ParseLine\<rparr> else p)"
  by (auto simp: packet_inv_def split: option.splits)



text \<open>
  C36. Parsing a response never fails an assertion and never reads outside of the text,
  whatever arrives in whatever pieces: it reports an error or a number of used bytes that
  are there, and after every piece the response is ready for the next one.
\<close>

theorem response_parse_safe:
  assumes "packet_inv rs"
  shows "\<exists>n rs'. response_parse b rs = Done (n, rs') \<and> (n = - 1 \<or> 0 \<le> n \<and> n \<le> int (length b) \<and> packet_inv rs')"
proof -
  let ?rs = "if pk_status rs = ParseNone then rs\<lparr>pk_status := ParseLine\<rparr> else rs"
  have hook: "pk_body (id q) = pk_body q \<and> pk_status (id q) = pk_status q" for q :: response by simp
  have "in_text 0 (int (length b)) (response_parse b rs)"
  proof (cases "pk_status ?rs = ParseLine")
    case True
    from start_phase_safe [OF packet_inv_start [OF assms] parse_response_line_result hook] True show ?thesis
      by (auto simp: response_parse_def Let_def)
  next
    case False
    then have "response_parse b rs = (if pk_status rs = ParseFinished then Done (0, rs) else parse_header_phase id 0 b rs)"
      by (auto simp: response_parse_def split: if_splits)
    then show ?thesis using parse_header_phase_safe [OF assms _ hook, of 0 b] assms
      by (auto simp: in_text_def id_def)
  qed
  then show ?thesis by (auto simp: in_text_def)
qed

theorem response_parse_safe_witness:
  "\<exists>n rs'. response_parse (B ''HTTP/1.1'') response_new = Done (n, rs') \<and> (n = - 1 \<or> 0 \<le> n \<and> n \<le> 8 \<and> packet_inv rs')"
  using response_parse_safe [of response_new "B ''HTTP/1.1''"] by (simp add: packet_inv_def response_new_def)

section \<open>Round trips\<close>

text \<open>The headers name the body that follows: none, or one of a known length.\<close>

definition announces :: "header \<Rightarrow> body option \<Rightarrow> bool" where
  "announces h bo \<longleftrightarrow>
     (case bo of
        None \<Rightarrow> get_head_int (B ''Content-Length'') h = None \<and> get_head_int (B ''content-length'') h = None \<and>
          get_head (B ''Transfer-Encoding'') h = None \<and> get_head (B ''transfer-encoding'') h = None
      | Some bd \<Rightarrow> \<not> bd_chunked bd \<and> bd_data bd \<noteq> [] \<and>
          get_head_int (B ''Content-Length'') h = Some (int (length (bd_data bd))))"

definition body_text :: "body option \<Rightarrow> byte list" where
  "body_text bo = (case bo of None \<Rightarrow> [] | Some bd \<Rightarrow> bd_data bd)"

definition received :: "body \<Rightarrow> body" where
  "received bd = body_new\<lparr>bd_data := bd_data bd, bd_expected := int (length (bd_data bd)), bd_finished := True\<rparr>"

lemma announced_length: "announces h (Some bd) \<Longrightarrow> int (length (bd_data bd)) < 2 ^ 31"
  using get_head_int_range by (fastforce simp: announces_def)

lemma body_received:
  assumes "announces h (Some bd)"
  shows "body_parse (bd_data bd @ rest) (set_expected_size (int (length (bd_data bd))) body_new) =
    Done (int (length (bd_data bd)), received bd)"
proof -
  have "int (length (bd_data bd)) < 2 ^ 31" by (rule announced_length [OF assms])
  then show ?thesis
    using body_parse_length [of "set_expected_size (int (length (bd_data bd))) body_new" "bd_data bd @ rest"]
    by (simp add: set_expected_size_def body_new_def received_def)
qed

lemma parse_phases_sent:
  assumes m: "om_wf m" "list_all good_line m" and a: "announces \<lparr>hd_parsed = True, hd_map = m\<rparr> bo"
    and p: "pk_header p = header_new" "pk_body p = None" "pk_status p = ParseHeader"
    and hook: "\<And>q. pk_header (hook q) = pk_header q \<and> pk_body (hook q) = pk_body q"
  shows "parse_header_phase hook off (header_text m @ body_text bo @ rest) p =
    Done (off + int (length (header_text m @ body_text bo)),
      (hook (p\<lparr>pk_header := \<lparr>hd_parsed = True, hd_map = m\<rparr>\<rparr>))
        \<lparr>pk_body := map_option received bo, pk_status := ParseFinished\<rparr>)"
proof -
  let ?h = "\<lparr>hd_parsed = True, hd_map = m\<rparr>"
  let ?q = "hook (p\<lparr>pk_header := ?h\<rparr>)"
  have ph: "parse_header (header_text m @ body_text bo @ rest) header_new = Done (int (length (header_text m)), ?h)"
    by (rule parse_header_text [OF m])
  have pos: "0 < length (header_text m)" by (simp add: header_text_def http_crlf_def)
  have q: "pk_header ?q = ?h" "pk_body ?q = None" using hook p(2) by simp_all
  show ?thesis
  proof (cases bo)
    case None
    have b: "begin_body ?q = ?q" using a None q(1) by (simp add: begin_body_def announces_def)
    have "parse_header_phase hook off (header_text m @ body_text bo @ rest) p =
        Done (off + int (length (header_text m)), ?q\<lparr>pk_status := ParseFinished\<rparr>)"
      using ph pos b q(2) p by (simp add: parse_header_phase_def parse_body_phase_def)
    moreover have "?q\<lparr>pk_body := None, pk_status := ParseFinished\<rparr> = ?q\<lparr>pk_status := ParseFinished\<rparr>"
      using q(2) by (cases "?q") simp
    ultimately show ?thesis using None by (simp add: body_text_def)
  next
    case (Some bd)
    let ?n = "int (length (bd_data bd))"
    have b: "begin_body ?q = ?q\<lparr>pk_body := Some (set_expected_size ?n body_new)\<rparr>"
      using a Some q(1) by (simp add: begin_body_def announces_def)
    have "body_parse (bd_data bd @ rest) (set_expected_size ?n body_new) = Done (?n, received bd)"
      using body_received a Some by blast
    moreover have "bd_finished (received bd)" by (simp add: received_def)
    moreover have "x\<lparr>pk_body := b1, pk_status := s1, pk_body := b2, pk_status := s2\<rparr> = x\<lparr>pk_body := b2, pk_status := s2\<rparr>"
      for x :: "'a packet_scheme" and b1 b2 s1 s2 by (cases x) simp
    ultimately show ?thesis using Some ph pos b p
      by (simp add: parse_header_phase_def parse_body_phase_def body_text_def)
  qed
qed

lemma packet_serialize_text:
  assumes "list_all good_line m" and "announces \<lparr>hd_parsed = True, hd_map = m\<rparr> (pk_body p)"
    and "hd_map (pk_header p) = m" and "start buffer = (int n, buf1)"
  shows "packet_serialize start p buffer =
    (int n + int (length (header_text m @ body_text (pk_body p))), buf1 @ header_text m @ body_text (pk_body p))"
proof -
  have h: "serialize_header (pk_header p) buf = (int (length (header_text m)), buf @ header_text m)" for buf
    using serialize_text [OF assms(1), of "hd_parsed (pk_header p)" buf] assms(3)
    by (cases "pk_header p") simp
  show ?thesis
  proof (cases "pk_body p")
    case (Some bd)
    then have "int (length (bd_data bd)) < 2 ^ 31" "\<not> bd_chunked bd" "bd_data bd \<noteq> []"
      using announced_length [of _ bd] assms(2) by (auto simp: announces_def)
    then show ?thesis using Some h assms(4)
      by (simp add: packet_serialize_def body_text_def body_serialize_def to_i32_in_range)
  qed (use h assms(4) in \<open>simp add: packet_serialize_def body_text_def\<close>)
qed

lemma version_string:
  "v \<noteq> VersionUnknown \<Longrightarrow> version_of (get_http_version_string v) = Some v \<and> length (get_http_version_string v) = 8 \<and>
     13 \<notin> set (get_http_version_string v) \<and> 0 \<notin> set (get_http_version_string v)"
  by (cases v) (simp_all add: get_http_version_string_def version_of_def B_def)

definition good_path :: "byte list \<Rightarrow> bool" where
  "good_path p \<longleftrightarrow> p \<noteq> [] \<and> set p \<inter> {0, 13, 32, 63} = {}"

lemma method_string:
  assumes "m \<noteq> MethodUnknown" and "t \<noteq> []"
  shows "parse_method (request_method_strings m @ 32 # t) = Some (m, length (request_method_strings m) + 1)"
  using assms
  by (cases m; cases t) (simp_all add: request_method_strings_def parse_method_def starts_def B_def)

lemma method_chars: "13 \<notin> set (request_method_strings m)"
  by (cases m) (simp_all add: request_method_strings_def B_def)

lemma find_line_here:
  assumes "13 \<notin> set l" and "length l < 2047"
  shows "find_http_line_end (l @ [13, 10] @ r) (int (length (l @ [13, 10] @ r))) = Done (Some (length l + 2))"
proof -
  have "2048 - length l = Suc (Suc (2046 - length l))" using assms(2) by linarith
  then have "take 2048 (l @ [13, 10] @ r) = l @ 13 # 10 # take (2046 - length l) r" using assms(2) by simp
  then show ?thesis unfolding find_line_end_whole using line_length_line [OF assms(1)] by simp
qed

lemma request_host_fields:
  "pk_header (request_host q) = pk_header q" "pk_body (request_host q) = pk_body q" "pk_status (request_host q) = pk_status q"
  "pk_version (request_host q) = pk_version q" "rq_method (request_host q) = rq_method q"
  "ur_path (rq_uri (request_host q)) = ur_path (rq_uri q)"
  by (simp_all add: request_host_def set_host_def split: option.split)

lemma request_new_status: "pk_status request_new = ParseNone"
  by (simp add: request_new_def)

lemma response_new_status: "pk_status response_new = ParseNone"
  by (simp add: response_new_def)

lemma take_length_append: "take (length xs) (xs @ ys) = xs"
  by simp

definition request_line :: "http_method \<Rightarrow> byte list \<Rightarrow> http_version \<Rightarrow> byte list" where
  "request_line m path v = request_method_strings m @ 32 # path @ 32 # get_http_version_string v"

lemma parse_request_line_sent:
  assumes "m \<noteq> MethodUnknown" and "v \<noteq> VersionUnknown" and "good_path path" and "length (request_line m path v) < 2047"
  shows "parse_request_line (request_line m path v @ [13, 10] @ r) rq =
    Done (int (length (request_line m path v) + 2), rq\<lparr>rq_method := m, rq_uri := set_path path (rq_uri rq), pk_version := v\<rparr>)"
proof -
  let ?m = "request_method_strings m" and ?v = "get_http_version_string v"
  let ?l = "request_line m path v"
  let ?b = "?l @ [13, 10] @ r"
  let ?t = "path @ 32 # ?v @ [13, 10]"
  let ?rq = "rq\<lparr>rq_method := m, rq_uri := set_path path (rq_uri rq)\<rparr>"
  note vs = version_string [OF assms(2)]
  have "13 \<notin> set ?l" using method_chars vs assms(3) by (auto simp: good_path_def request_line_def)
  then have f: "find_http_line_end ?b (int (length ?b)) = Done (Some (length ?l + 2))"
    using assms(4) by (rule find_line_here)
  have "take (length ?l + 2) ?b = take (length (?l @ [13, 10])) ((?l @ [13, 10]) @ r)" by simp
  then have t: "take (length ?l + 2) ?b = ?m @ 32 # ?t"
    unfolding take_length_append by (simp add: request_line_def)
  have pm: "parse_method (?m @ 32 # ?t) = Some (m, length ?m + 1)"
    using method_string [OF assms(1)] by simp
  have d: "drop (length ?m + 1) (?m @ 32 # ?t) = ?t" by simp
  have "takeWhile (\<lambda>c. c \<noteq> 32 \<and> c \<noteq> 63) (path @ 32 # x) = path \<and> dropWhile (\<lambda>c. c \<noteq> 32 \<and> c \<noteq> 63) (path @ 32 # x) = 32 # x" for x
    by (rule takeWhile_run) (use assms(3) in \<open>auto simp: good_path_def list_all_iff\<close>)
  then have tg: "parse_request_target ?t (rq\<lparr>rq_method := m\<rparr>) = (Some (32 # ?v @ [13, 10]), ?rq)"
    using assms(3) by (simp add: parse_request_target_def good_path_def)
  have b: "?b = (?m @ 32 # path @ [32]) @ ?v @ [13, 10] @ r" by (simp add: request_line_def)
  have pos: "length ?l + 2 - length (32 # ?v @ [13, 10]) + 1 = length (?m @ 32 # path @ [32])" by (simp add: request_line_def)
  have mem: "mem_read ?b (length ?l + 2 - length (32 # ?v @ [13, 10]) + 1) 8 = Done ?v"
    unfolding pos unfolding b using vs by (simp add: mem_read_def)
  show ?thesis
    unfolding parse_request_line_def f run_bind_simps option.case t pm prod.case d tg mem
    using vs by simp
qed

text \<open>
  A request comes back from the wire: parsing what serializing has written uses up
  exactly that and gives the method, the version, the path, the headers and the body, for
  every method and version, every path without spaces and question marks and every set of
  headers that names the body.
\<close>

theorem request_roundtrip:
  assumes "rq_method rq \<noteq> MethodUnknown" and "pk_version rq \<noteq> VersionUnknown" and "good_path (ur_path (rq_uri rq))"
    and "length (ur_path (rq_uri rq)) < 230"
    and "om_wf (hd_map (pk_header rq))" and "list_all good_line (hd_map (pk_header rq))"
    and "announces \<lparr>hd_parsed = True, hd_map = hd_map (pk_header rq)\<rparr> (pk_body rq)"
    and "request_serialize rq [] = (sz, msg)"
  shows "sz = int (length msg) \<and> (\<exists>rq'. request_parse (msg @ rest) request_new = Done (sz, rq') \<and>
    packet_is_parse_finished rq' \<and> rq_method rq' = rq_method rq \<and> pk_version rq' = pk_version rq \<and>
    ur_path (rq_uri rq') = ur_path (rq_uri rq) \<and> hd_map (pk_header rq') = hd_map (pk_header rq) \<and>
    map_option bd_data (pk_body rq') = map_option bd_data (pk_body rq))"
proof -
  let ?l = "request_line (rq_method rq) (ur_path (rq_uri rq)) (pk_version rq)"
  let ?m = "hd_map (pk_header rq)"
  let ?h = "\<lparr>hd_parsed = True, hd_map = ?m\<rparr>"
  have "length (request_method_strings (rq_method rq)) \<le> 7"
    by (cases "rq_method rq") (simp_all add: request_method_strings_def)
  then have len: "length ?l < 2047 \<and> length ?l + 2 < 255"
    using assms(4) version_string [OF assms(2)] by (simp add: request_line_def)
  have "c_str (ur_path (rq_uri rq)) = ur_path (rq_uri rq)"
    using assms(3) by (intro c_str_free) (auto simp: good_path_def)
  then have start: "serialize_request_line rq [] = (int (length ?l + 2), ?l @ [13, 10])"
    using len by (simp add: serialize_request_line_def c_snprintf_def request_line_def http_crlf_def; linarith)
  from packet_serialize_text [where p = rq and start = "serialize_request_line rq", OF assms(6,7) refl start]
  have sz: "sz = int (length ?l + 2) + int (length (header_text ?m @ body_text (pk_body rq)))"
    and msg: "msg = ?l @ [13, 10] @ header_text ?m @ body_text (pk_body rq)"
    using assms(8) by (simp_all add: request_serialize_def)
  let ?rq0 = "request_new\<lparr>pk_status := ParseLine\<rparr>"
  let ?rq1 = "?rq0\<lparr>rq_method := rq_method rq, rq_uri := set_path (ur_path (rq_uri rq)) (rq_uri ?rq0), pk_version := pk_version rq\<rparr>"
  let ?p = "?rq1\<lparr>pk_status := ParseHeader\<rparr>"
  let ?rq' = "(request_host (?p\<lparr>pk_header := ?h\<rparr>))\<lparr>pk_body := map_option received (pk_body rq), pk_status := ParseFinished\<rparr>"
  have line: "parse_request_line (msg @ rest) ?rq0 = Done (int (length ?l + 2), ?rq1)"
    unfolding msg using parse_request_line_sent [OF assms(1,2,3), of "header_text ?m @ body_text (pk_body rq) @ rest" ?rq0] len
    by simp
  have rest: "drop (nat (int (length ?l + 2))) (msg @ rest) = header_text ?m @ body_text (pk_body rq) @ rest"
    by (simp only: nat_int) (simp add: msg)
  have "parse_header_phase request_host (int (length ?l + 2)) (header_text ?m @ body_text (pk_body rq) @ rest) ?p =
      Done (int (length ?l + 2) + int (length (header_text ?m @ body_text (pk_body rq))), ?rq')"
    by (rule parse_phases_sent [OF assms(5,6,7)]) (simp_all add: request_new_def request_host_fields)
  then have "request_parse (msg @ rest) request_new = Done (sz, ?rq')"
    using line rest sz by (simp add: request_parse_def request_new_status)
  moreover have "map_option bd_data (map_option received bo) = map_option bd_data bo" for bo
    by (cases bo) (simp_all add: received_def)
  ultimately show ?thesis using sz msg
    by (intro conjI exI [of _ ?rq']) (simp_all add: packet_is_parse_finished_def request_host_fields set_path_def)
qed

definition example_request :: request where
  "example_request = request_new\<lparr>rq_method := MethodPost, pk_version := Version11,
     rq_uri := set_path (B ''/form'') uri_new, pk_header := set_head (B ''Host'') (B ''h'') (set_unique_head_int (B ''Content-Length'') 4 header_new),
     pk_body := Some (body_append (B ''data'') body_new)\<rparr>"

theorem request_roundtrip_witness:
  "\<exists>rq'. request_parse (B ''POST /form HTTP/1.1'' @ [13, 10] @ B ''Content-Length: 4'' @ [13, 10] @ B ''Host: h'' @
      [13, 10, 13, 10] @ B ''dataNEXT'') request_new = Done (55, rq') \<and> packet_is_parse_finished rq' \<and>
    map_option bd_data (pk_body rq') = Some (B ''data'')"
proof -
  have ser: "request_serialize example_request [] = (55, B ''POST /form HTTP/1.1'' @ [13, 10] @ B ''Content-Length: 4'' @
      [13, 10] @ B ''Host: h'' @ [13, 10, 13, 10] @ B ''data'')"
    by code_simp
  have facts: "rq_method example_request \<noteq> MethodUnknown" "pk_version example_request \<noteq> VersionUnknown"
    "good_path (ur_path (rq_uri example_request))" "length (ur_path (rq_uri example_request)) < 230"
    "om_wf (hd_map (pk_header example_request))" "list_all good_line (hd_map (pk_header example_request))"
    "announces \<lparr>hd_parsed = True, hd_map = hd_map (pk_header example_request)\<rparr> (pk_body example_request)"
    "map_option bd_data (pk_body example_request) = Some (B ''data'')"
    by code_simp+
  from request_roundtrip [OF facts(1-7) ser, of "B ''NEXT''"] facts(8) show ?thesis by (auto simp: B_def)
qed

text \<open>
  Nothing keeps the comparison of the version inside of the text: for a request line
  that ends behind the path the parser reads behind the end.
\<close>

theorem request_line_overrun:
  assumes "good_path path" and "length path < 2000"
  shows "request_parse (B ''GET '' @ path @ [32, 13, 10]) request_new = Fault"
proof -
  let ?l = "B ''GET '' @ path @ [32]"
  let ?b = "?l @ [13, 10] @ []"
  have "13 \<notin> set ?l" using assms(1) by (auto simp: good_path_def B_def)
  then have f: "find_http_line_end ?b (int (length ?b)) = Done (Some (length ?l + 2))"
    by (rule find_line_here) (use assms(2) in simp)
  have t: "take (length ?l + 2) ?b = B ''GET '' @ path @ [32, 13, 10]" by simp
  have pm: "parse_method (B ''GET '' @ path @ [32, 13, 10]) = Some (MethodGet, 4)"
    by (simp add: parse_method_def starts_def)
  have d: "drop 4 (B ''GET '' @ path @ [32, 13, 10]) = path @ 32 # [13, 10]" by (simp add: B_def)
  have "takeWhile (\<lambda>c. c \<noteq> 32 \<and> c \<noteq> 63) (path @ 32 # x) = path \<and> dropWhile (\<lambda>c. c \<noteq> 32 \<and> c \<noteq> 63) (path @ 32 # x) = 32 # x" for x
    by (rule takeWhile_run) (use assms(1) in \<open>auto simp: good_path_def list_all_iff\<close>)
  then have tg: "parse_request_target (path @ 32 # [13, 10]) rq = (Some [32, 13, 10], rq\<lparr>rq_uri := set_path path (rq_uri rq)\<rparr>)" for rq
    using assms(1) by (simp add: parse_request_target_def good_path_def)
  have mem: "mem_read ?b (length ?l + 2 - length [32, 13, 10 :: byte] + 1) 8 = Fault" by (simp add: mem_read_def)
  have "parse_request_line ?b rq = Fault" for rq
    unfolding parse_request_line_def f run_bind_simps option.case t pm prod.case d tg mem ..
  then show ?thesis by (simp add: request_parse_def request_new_status)
qed

theorem request_line_overrun_witness: "request_parse (B ''GET / '' @ [13, 10]) request_new = Fault"
  using request_line_overrun [of "B ''/''"] by (simp add: B_def good_path_def)

lemma parse_code_digits:
  assumes "\<forall>d\<in>set ds. d < 10" and "0 \<le> a" and "foldl (\<lambda>a d. a * 10 + d) (nat a) ds < 2 ^ 31"
  shows "parse_code a (map (\<lambda>d. 48 + of_nat d) ds @ 32 # r) = (int (foldl (\<lambda>a d. a * 10 + d) (nat a) ds), 32 # r)"
  using assms
proof (induction ds arbitrary: a)
  case (Cons d ds)
  have ge: "x \<le> foldl (\<lambda>a d. a * 10 + d) x ds" for x :: nat
  proof (induction ds arbitrary: x)
    case (Cons e es)
    have "x \<le> x * 10 + e" by simp
    also have "\<dots> \<le> foldl (\<lambda>a d. a * 10 + d) (x * 10 + e) es" by (rule Cons)
    finally show ?case by simp
  qed simp
  have d: "d < 10" using Cons.prems(1) by simp
  have ch: "(48 + of_nat d :: byte) \<noteq> 32 \<and> sint (48 + of_nat d :: byte) - 48 = int d"
    using d by (rule nat_below) (simp add: upt_conv_Cons)
  have "nat a * 10 + d < 2 ^ 31" using ge [of "nat a * 10 + d"] Cons.prems(3) by simp
  then have i: "to_i32 (a * 10 + int d) = a * 10 + int d" using Cons.prems(2) by (intro to_i32_in_range) auto
  have n: "nat (a * 10 + int d) = nat a * 10 + d" using Cons.prems(2) by (simp add: nat_add_distrib nat_mult_distrib)
  have "parse_code (a * 10 + int d) (map (\<lambda>d. 48 + of_nat d) ds @ 32 # r) =
      (int (foldl (\<lambda>a d. a * 10 + d) (nat (a * 10 + int d)) ds), 32 # r)"
    by (rule Cons.IH) (use Cons.prems n in simp_all)
  then show ?case using ch i n by simp
qed simp

lemma code_desc: "length (get_http_code_desc c) < 40 \<and> set (get_http_code_desc c) \<inter> {0, 13} = {}"
proof -
  have "list_all (\<lambda>(k, d). length d < 40 \<and> 13 \<notin> set d \<and> 0 \<notin> set d) http_code_desc_map"
    by (simp add: http_code_desc_map_def B_def)
  then show ?thesis
    by (auto simp: get_http_code_desc_def list_all_iff dest: map_of_SomeD split: option.split)
qed

definition response_line :: "http_version \<Rightarrow> int \<Rightarrow> byte list" where
  "response_line v code = get_http_version_string v @ 32 # print_d code @ 32 # get_http_code_desc code"

lemma parse_response_line_sent:
  assumes "v \<noteq> VersionUnknown" and "0 \<le> code" and "code < 2 ^ 31" and "rs_status_code rs = 0"
  shows "parse_response_line (response_line v code @ [13, 10] @ r) rs =
    Done (int (length (response_line v code) + 2), rs\<lparr>pk_version := v, rs_status_code := code\<rparr>)"
proof -
  let ?v = "get_http_version_string v" and ?l = "response_line v code"
  let ?b = "?l @ [13, 10] @ r"
  let ?ds = "digits 10 (nat code)"
  let ?t = "32 # get_http_code_desc code @ [13, 10]"
  note vs = version_string [OF assms(1)]
  have ds: "print_d code = map (\<lambda>d. 48 + of_nat d) ?ds" using assms(2) by (simp add: print_d_def)
  have "13 \<notin> set (print_d code)" using print_d_set [of 13 code] by (auto simp: is_digit_def)
  then have "13 \<notin> set ?l" using vs code_desc [of code] by (auto simp: response_line_def)
  moreover have "length ?l < 2047"
    using print_d_length [OF _ assms(3)] assms(2) vs code_desc [of code] by (simp add: response_line_def)
  ultimately have f: "find_http_line_end ?b (int (length ?b)) = Done (Some (length ?l + 2))"
    by (rule find_line_here)
  have "take (length ?l + 2) ?b = take (length (?l @ [13, 10])) ((?l @ [13, 10]) @ r)" by simp
  then have t: "take (length ?l + 2) ?b = ?v @ 32 # print_d code @ ?t"
    unfolding take_length_append by (simp add: response_line_def)
  have v: "version_of (take 8 ?b) = Some v" using vs by (simp add: response_line_def)
  obtain d ds' where d: "?ds = d # ds'" "d < 10" using digits_less [of 10 _ "nat code"] by (cases ?ds) auto
  have "dropWhile (\<lambda>c. c = 32) (drop 8 (?v @ 32 # print_d code @ ?t)) = print_d code @ ?t"
    using vs dec_digit [OF d(2)] by (simp add: ds d(1))
  moreover have "parse_code 0 (print_d code @ ?t) = (code, ?t)"
    using parse_code_digits [of ?ds 0 "get_http_code_desc code @ [13, 10]"] digits_less [of 10 _ "nat code"]
      digits_value [of 10 "nat code"] assms(2,3) by (simp add: ds nat_less_iff)
  ultimately show ?thesis
    unfolding parse_response_line_def f run_bind_simps option.case v t using assms(4) by simp
qed

text \<open>
  A response comes back from the wire: parsing what serializing has written uses up
  exactly that and gives the version, the code, the headers and the body.
\<close>

theorem response_roundtrip:
  assumes "pk_version rs \<noteq> VersionUnknown" and "0 \<le> rs_status_code rs" and "rs_status_code rs < 2 ^ 31"
    and "om_wf (hd_map (pk_header rs))" and "list_all good_line (hd_map (pk_header rs))"
    and "announces \<lparr>hd_parsed = True, hd_map = hd_map (pk_header rs)\<rparr> (pk_body rs)"
    and "response_serialize rs [] = (sz, msg)"
  shows "sz = int (length msg) \<and> (\<exists>rs'. response_parse (msg @ rest) response_new = Done (sz, rs') \<and>
    packet_is_parse_finished rs' \<and> rs_status_code rs' = rs_status_code rs \<and> pk_version rs' = pk_version rs \<and>
    hd_map (pk_header rs') = hd_map (pk_header rs) \<and>
    map_option bd_data (pk_body rs') = map_option bd_data (pk_body rs))"
proof -
  let ?l = "response_line (pk_version rs) (rs_status_code rs)"
  let ?m = "hd_map (pk_header rs)"
  let ?h = "\<lparr>hd_parsed = True, hd_map = ?m\<rparr>"
  have "length ?l + 2 < 127"
    using print_d_length [OF _ assms(3)] assms(2) version_string [OF assms(1)] code_desc [of "rs_status_code rs"]
    by (simp add: response_line_def)
  then have start: "serialize_response_line rs [] = (int (length ?l + 2), ?l @ [13, 10])"
    by (simp add: serialize_response_line_def c_snprintf_def response_line_def http_crlf_def; linarith)
  from packet_serialize_text [where p = rs and start = "serialize_response_line rs", OF assms(5,6) refl start]
  have sz: "sz = int (length ?l + 2) + int (length (header_text ?m @ body_text (pk_body rs)))"
    and msg: "msg = ?l @ [13, 10] @ header_text ?m @ body_text (pk_body rs)"
    using assms(7) by (simp_all add: response_serialize_def)
  let ?rs0 = "response_new\<lparr>pk_status := ParseLine\<rparr>"
  let ?rs1 = "?rs0\<lparr>pk_version := pk_version rs, rs_status_code := rs_status_code rs\<rparr>"
  let ?p = "?rs1\<lparr>pk_status := ParseHeader\<rparr>"
  let ?rs' = "(id (?p\<lparr>pk_header := ?h\<rparr>))\<lparr>pk_body := map_option received (pk_body rs), pk_status := ParseFinished\<rparr>"
  have line: "parse_response_line (msg @ rest) ?rs0 = Done (int (length ?l + 2), ?rs1)"
    unfolding msg using parse_response_line_sent [OF assms(1-3), of ?rs0 "header_text ?m @ body_text (pk_body rs) @ rest"]
    by (simp add: response_new_def)
  have rest: "drop (nat (int (length ?l + 2))) (msg @ rest) = header_text ?m @ body_text (pk_body rs) @ rest"
    by (simp only: nat_int) (simp add: msg)
  have "parse_header_phase id (int (length ?l + 2)) (header_text ?m @ body_text (pk_body rs) @ rest) ?p =
      Done (int (length ?l + 2) + int (length (header_text ?m @ body_text (pk_body rs))), ?rs')"
    by (rule parse_phases_sent [OF assms(4-6)]) (simp_all add: response_new_def)
  then have "response_parse (msg @ rest) response_new = Done (sz, ?rs')"
    using line rest sz by (simp add: response_parse_def response_new_status)
  moreover have "map_option bd_data (map_option received bo) = map_option bd_data bo" for bo
    by (cases bo) (simp_all add: received_def)
  ultimately show ?thesis using sz msg
    by (intro conjI exI [of _ ?rs']) (simp_all add: packet_is_parse_finished_def)
qed

definition example_response :: response where
  "example_response = response_new\<lparr>pk_version := Version10, rs_status_code := 404\<rparr>"

theorem response_roundtrip_witness:
  "\<exists>rs'. response_parse (B ''HTTP/1.0 404 Not Found'' @ [13, 10, 13, 10] @ B ''NEXT'') response_new = Done (26, rs') \<and>
    packet_is_parse_finished rs' \<and> rs_status_code rs' = 404"
proof -
  have ser: "response_serialize example_response [] = (26, B ''HTTP/1.0 404 Not Found'' @ [13, 10, 13, 10])"
    by code_simp
  have facts: "pk_version example_response \<noteq> VersionUnknown" "0 \<le> rs_status_code example_response"
    "rs_status_code example_response < 2 ^ 31" "om_wf (hd_map (pk_header example_response))"
    "list_all good_line (hd_map (pk_header example_response))"
    "announces \<lparr>hd_parsed = True, hd_map = hd_map (pk_header example_response)\<rparr> (pk_body example_response)"
    "rs_status_code example_response = 404"
    by code_simp+
  from response_roundtrip [OF facts(1-6) ser, of "B ''NEXT''"] facts(7) show ?thesis by (auto simp: B_def)
qed

end
