(* ===== verification/Http_Stream.thy ===== *)
theory Http_Stream
  imports Http_Packet
begin

text \<open>
  Messages that arrive in pieces. A connection hands what has arrived to the parser of its
  message, drops what the parser used and calls it again with the rest and the next piece.
  The locale \<open>stream_parser\<close> states what a parser has to promise for this to work; requests
  and responses keep it for the texts that serializing writes (headers that survive the way
  over the wire, a body with a known length or none).
\<close>

section \<open>The interface\<close>

text \<open>
  Pieces fed to a parser: what is left of them, and the message. It stops at the message that
  is finished.
\<close>

fun feeds ::
  "(byte list \<Rightarrow> 'm \<Rightarrow> (int \<times> 'm) run) \<Rightarrow> ('m \<Rightarrow> bool) \<Rightarrow> byte list list \<Rightarrow> byte list \<Rightarrow> 'm \<Rightarrow> (byte list \<times> 'm) run" where
  "feeds parse fin [] buf m = Done (buf, m)"
| "feeds parse fin (b # bs) buf m =
     (if fin m then Done (buf @ concat (b # bs), m)
      else run_bind (parse (buf @ b) m) (\<lambda>(n, m1). feeds parse fin bs (drop (nat n) (buf @ b)) m1))"

text \<open>
  \<open>waits m msg m'\<close>: the message \<open>m\<close> waits for \<open>msg\<close> and is then \<open>m'\<close>. The whole text finishes
  it and nothing behind the text is used; a proper prefix does not, and the message then waits
  for the rest.
\<close>

locale stream_parser =
  fixes parse :: "byte list \<Rightarrow> 'm \<Rightarrow> (int \<times> 'm) run"
    and fin :: "'m \<Rightarrow> bool"
    and waits :: "'m \<Rightarrow> byte list \<Rightarrow> 'm \<Rightarrow> bool"
  assumes whole: "waits m msg m' \<Longrightarrow> parse (msg @ rest) m = Done (int (length msg), m') \<and> fin m'"
    and cut: "waits m (p @ q) m' \<Longrightarrow> q \<noteq> [] \<Longrightarrow>
      \<exists>k m1. parse p m = Done (int k, m1) \<and> k \<le> length p \<and> waits m1 (drop k p @ q) m'"
    and unfinished: "waits m msg m' \<Longrightarrow> \<not> fin m"
begin

lemma cut_before_end:
  assumes "waits m msg m'" and "p @ q = msg @ rest" and "length p < length msg"
  shows "\<exists>k m1 r. parse p m = Done (int k, m1) \<and> k \<le> length p \<and> waits m1 r m' \<and> drop k p @ q = r @ rest"
proof -
  obtain us where us: "msg = p @ us" "q = us @ rest" using assms(2,3) by (auto simp: append_eq_append_conv2)
  then have "us \<noteq> []" using assms(3) by auto
  then obtain k m1 where k: "parse p m = Done (int k, m1)" "k \<le> length p" "waits m1 (drop k p @ us) m'"
    using cut [of m p us m'] assms(1) us(1) by auto
  then show ?thesis using us(2) by (intro exI [of _ k] exI [of _ m1] exI [of _ "drop k p @ us"]) simp
qed

lemma whole_at_end:
  assumes "waits m msg m'" and "p @ q = msg @ rest" and "\<not> length p < length msg"
  shows "\<exists>r. parse p m = Done (int (length msg), m') \<and> fin m' \<and> p = msg @ r \<and> rest = r @ q"
proof -
  obtain us where us: "p = msg @ us" "us @ q = rest" using assms(2,3) by (auto simp: append_eq_append_conv2)
  then show ?thesis using whole [OF assms(1), of us] by auto
qed

text \<open>The message is finished by its pieces, however it was cut, and what lies behind it is left.\<close>

lemma feeds_message:
  assumes "waits m msg m'" and "buf @ concat bs = msg @ rest" and "bs \<noteq> []"
  shows "feeds parse fin bs buf m = Done (rest, m') \<and> fin m'"
  using assms
proof (induction bs arbitrary: buf m msg)
  case (Cons b bs)
  have e: "(buf @ b) @ concat bs = msg @ rest" using Cons.prems(2) by simp
  note un = unfinished [OF Cons.prems(1)]
  show ?case
  proof (cases "length (buf @ b) < length msg")
    case True
    from cut_before_end [OF Cons.prems(1) e this] obtain k m1 r where
      c: "parse (buf @ b) m = Done (int k, m1)" "waits m1 r m'" "drop k (buf @ b) @ concat bs = r @ rest" by auto
    have "bs \<noteq> []" using arg_cong [OF Cons.prems(2), of length] True by auto
    then show ?thesis using Cons.IH [OF c(2,3)] c(1) un by simp
  next
    case False
    from whole_at_end [OF Cons.prems(1) e this] obtain r where
      "parse (buf @ b) m = Done (int (length msg), m')" "fin m'" "buf @ b = msg @ r" "rest = r @ concat bs" by auto
    then show ?thesis using un by (cases bs) auto
  qed
qed simp

end

section \<open>Headers and body\<close>

lemma append_cut:
  assumes "s @ q = a @ b" and "\<not> length s < length a"
  shows "\<exists>s'. s = a @ s' \<and> b = s' @ q"
proof -
  obtain us where "s = a @ us \<and> us @ q = b \<or> s @ us = a \<and> q = us @ b"
    using assms(1) unfolding append_eq_append_conv2 by blast
  moreover have "us = []" if "s @ us = a" using assms(2) arg_cong [OF that, of length] by (simp flip: length_0_conv)
  ultimately show ?thesis by auto
qed

text \<open>A message that waits for the rest of a body of known length, or for the rest of its headers.\<close>

definition body_waits :: "'a packet_scheme \<Rightarrow> byte list \<Rightarrow> 'a packet_scheme \<Rightarrow> bool" where
  "body_waits p msg p' \<longleftrightarrow>
     (\<exists>bd. pk_status p = ParseBody \<and> pk_body p = Some bd \<and> \<not> bd_chunked bd \<and> \<not> bd_finished bd \<and> msg \<noteq> [] \<and>
       bd_expected bd = int (length (bd_data bd @ msg)) \<and> bd_expected bd < 2 ^ 31 \<and>
       p' = p\<lparr>pk_body := Some (bd\<lparr>bd_data := bd_data bd @ msg, bd_finished := True\<rparr>), pk_status := ParseFinished\<rparr>)"

definition header_waits :: "('a packet_scheme \<Rightarrow> 'a packet_scheme) \<Rightarrow> 'a packet_scheme \<Rightarrow> byte list \<Rightarrow> 'a packet_scheme \<Rightarrow> bool" where
  "header_waits hook p msg p' \<longleftrightarrow>
     (\<exists>m bo. pk_status p = ParseHeader \<and> pk_body p = None \<and> \<not> hd_parsed (pk_header p) \<and> heads_left m (pk_header p) \<and>
       announces (put_heads m (pk_header p)) bo \<and> msg = header_text m @ body_text bo \<and>
       p' = (hook (p\<lparr>pk_header := put_heads m (pk_header p)\<rparr>))\<lparr>pk_body := map_option received bo, pk_status := ParseFinished\<rparr>)"

definition phase_waits :: "('a packet_scheme \<Rightarrow> 'a packet_scheme) \<Rightarrow> 'a packet_scheme \<Rightarrow> byte list \<Rightarrow> 'a packet_scheme \<Rightarrow> bool" where
  "phase_waits hook p msg p' \<longleftrightarrow> header_waits hook p msg p' \<or> body_waits p msg p'"

lemma body_phase_piece:
  assumes "body_waits p (s @ q) p'" and "q \<noteq> []"
  shows "\<exists>p1. parse_body_phase off s p = Done (off + int (length s), p1) \<and> body_waits p1 q p'"
proof -
  obtain bd where bd: "pk_status p = ParseBody" "pk_body p = Some bd" "\<not> bd_chunked bd" "\<not> bd_finished bd"
    "bd_expected bd = int (length (bd_data bd @ s @ q))" "bd_expected bd < 2 ^ 31"
    "p' = p\<lparr>pk_body := Some (bd\<lparr>bd_data := bd_data bd @ s @ q, bd_finished := True\<rparr>), pk_status := ParseFinished\<rparr>"
    using assms(1) by (auto simp: body_waits_def)
  have n: "nat (bd_expected bd) = length (bd_data bd) + length s + length q" using bd(5) by simp
  have "0 < length q" using assms(2) by simp
  then have b: "body_parse s bd = Done (int (length s), bd\<lparr>bd_data := bd_data bd @ s, bd_finished := False\<rparr>)"
    using body_parse_length [OF bd(3) _ bd(6), of s] bd(4,5) n by simp
  let ?p1 = "p\<lparr>pk_body := Some (bd\<lparr>bd_data := bd_data bd @ s, bd_finished := False\<rparr>)\<rparr>"
  have "parse_body_phase off s p = Done (off + int (length s), ?p1)" using b bd(1,2) by (simp add: parse_body_phase_def)
  moreover have "body_waits ?p1 q p'" using bd assms(2) by (simp add: body_waits_def)
  ultimately show ?thesis by blast
qed

lemma body_phase_all:
  assumes "body_waits p msg p'"
  shows "parse_body_phase off (msg @ rest) p = Done (off + int (length msg), p')"
proof -
  obtain bd where bd: "pk_status p = ParseBody" "pk_body p = Some bd" "\<not> bd_chunked bd" "\<not> bd_finished bd"
    "bd_expected bd = int (length (bd_data bd @ msg))" "bd_expected bd < 2 ^ 31"
    "p' = p\<lparr>pk_body := Some (bd\<lparr>bd_data := bd_data bd @ msg, bd_finished := True\<rparr>), pk_status := ParseFinished\<rparr>"
    using assms by (auto simp: body_waits_def)
  have n: "nat (bd_expected bd) = length (bd_data bd) + length msg" using bd(5) by simp
  have "body_parse (msg @ rest) bd = Done (int (length msg), bd\<lparr>bd_data := bd_data bd @ msg, bd_finished := True\<rparr>)"
    using body_parse_length [OF bd(3) _ bd(6), of "msg @ rest"] bd(5) n by simp
  then show ?thesis using bd(1,2,7) by (simp add: parse_body_phase_def)
qed

definition keeps_parts :: "('a packet_scheme \<Rightarrow> 'a packet_scheme) \<Rightarrow> bool" where
  "keeps_parts hook \<longleftrightarrow> (\<forall>q. pk_header (hook q) = pk_header q \<and> pk_body (hook q) = pk_body q)"

text \<open>The complete headers, with a piece of the body behind them.\<close>

lemma header_phase_body:
  assumes "pk_status p = ParseHeader" and "pk_body p = None" and "\<not> hd_parsed (pk_header p)" and "heads_left m (pk_header p)"
    and "keeps_parts hook" and "announces (put_heads m (pk_header p)) (Some bd)"
  defines "p1 \<equiv> (hook (p\<lparr>pk_header := put_heads m (pk_header p)\<rparr>))
    \<lparr>pk_body := Some (set_expected_size (int (length (bd_data bd))) body_new), pk_status := ParseBody\<rparr>"
  shows "parse_header_phase hook off (header_text m @ s) p = parse_body_phase (off + int (length (header_text m))) s p1"
    and "body_waits p1 (bd_data bd) ((hook (p\<lparr>pk_header := put_heads m (pk_header p)\<rparr>))
      \<lparr>pk_body := Some (received bd), pk_status := ParseFinished\<rparr>)"
proof -
  let ?h = "put_heads m (pk_header p)"
  let ?q = "hook (p\<lparr>pk_header := ?h\<rparr>)"
  have ph: "parse_header (header_text m @ s) (pk_header p) = Done (int (length (header_text m)), ?h)"
    using header_loop_left [OF assms(4), of "[]" s] assms(3) by (simp add: parse_header_def)
  have h: "hd_parsed ?h" "0 < length (header_text m)" by (simp_all add: put_heads_def header_text_def http_crlf_def)
  have q: "pk_header ?q = ?h" using assms(5) by (simp add: keeps_parts_def)
  have "begin_body ?q = ?q\<lparr>pk_body := Some (set_expected_size (int (length (bd_data bd))) body_new)\<rparr>"
    using assms(6) q by (simp add: begin_body_def announces_def)
  then show "parse_header_phase hook off (header_text m @ s) p = parse_body_phase (off + int (length (header_text m))) s p1"
    using ph h assms(1) by (simp add: parse_header_phase_def p1_def)
  show "body_waits p1 (bd_data bd) (?q\<lparr>pk_body := Some (received bd), pk_status := ParseFinished\<rparr>)"
    using assms(6) announced_length [OF assms(6)]
    by (simp add: body_waits_def p1_def set_expected_size_def body_new_def received_def announces_def)
qed

lemma header_phase_none:
  assumes "pk_status p = ParseHeader" and "pk_body p = None" and "\<not> hd_parsed (pk_header p)" and "heads_left m (pk_header p)"
    and "keeps_parts hook" and "announces (put_heads m (pk_header p)) None"
  shows "parse_header_phase hook off (header_text m @ s) p = Done (off + int (length (header_text m)),
    (hook (p\<lparr>pk_header := put_heads m (pk_header p)\<rparr>))\<lparr>pk_body := None, pk_status := ParseFinished\<rparr>)"
proof -
  let ?h = "put_heads m (pk_header p)"
  let ?q = "hook (p\<lparr>pk_header := ?h\<rparr>)"
  have ph: "parse_header (header_text m @ s) (pk_header p) = Done (int (length (header_text m)), ?h)"
    using header_loop_left [OF assms(4), of "[]" s] assms(3) by (simp add: parse_header_def)
  have h: "hd_parsed ?h" "0 < length (header_text m)" by (simp_all add: put_heads_def header_text_def http_crlf_def)
  have q: "pk_header ?q = ?h" "pk_body ?q = None" using assms(2,5) by (simp_all add: keeps_parts_def)
  have "begin_body ?q = ?q" using assms(6) q by (simp add: begin_body_def announces_def)
  moreover have "?q\<lparr>pk_body := None, pk_status := ParseFinished\<rparr> = ?q\<lparr>pk_status := ParseFinished\<rparr>"
    using q(2) by (cases ?q) simp
  ultimately show ?thesis using ph h q assms(1) by (simp add: parse_header_phase_def parse_body_phase_def)
qed

lemma header_phase_piece:
  assumes "pk_status p = ParseHeader" and "\<not> hd_parsed (pk_header p)" and "heads_left m (pk_header p)"
    and "s @ q = header_text m @ r" and "length s < length (header_text m)"
  shows "\<exists>k h1 m1. parse_header_phase hook off s p = Done (off + int k, p\<lparr>pk_header := h1\<rparr>) \<and> k \<le> length s \<and>
    \<not> hd_parsed h1 \<and> heads_left m1 h1 \<and> drop k s @ q = header_text m1 @ r \<and> put_heads m1 h1 = put_heads m (pk_header p)"
proof -
  obtain k h1 m1 where c: "header_loop [] (pk_header p) s = Done (Some (drop k s), h1)" "k \<le> length s" "\<not> hd_parsed h1"
    "drop k s @ q = header_text m1 @ r" "heads_left m1 h1" "put_heads m1 h1 = put_heads m (pk_header p)"
    using header_loop_cut [OF assms(3-5), of "[]"] assms(2) by auto
  have "parse_header s (pk_header p) = Done (int k, h1)" using c(1,2) assms(2) by (simp add: parse_header_def of_nat_diff)
  then have "parse_header_phase hook off s p = Done (off + int k, p\<lparr>pk_header := h1\<rparr>)"
    using assms(1) c(3) by (simp add: parse_header_phase_def Let_def)
  with c show ?thesis by blast
qed

lemma phase_whole:
  assumes "phase_waits hook p msg p'" and "keeps_parts hook"
  shows "parse_header_phase hook off (msg @ rest) p = Done (off + int (length msg), p') \<and> packet_is_parse_finished p'"
proof (cases "header_waits hook p msg p'")
  case True
  then obtain m bo where h: "pk_status p = ParseHeader" "pk_body p = None" "\<not> hd_parsed (pk_header p)" "heads_left m (pk_header p)"
    and a: "announces (put_heads m (pk_header p)) bo" and t: "msg = header_text m @ body_text bo"
    and e: "p' = (hook (p\<lparr>pk_header := put_heads m (pk_header p)\<rparr>))\<lparr>pk_body := map_option received bo, pk_status := ParseFinished\<rparr>"
    unfolding header_waits_def by blast
  have f: "packet_is_parse_finished p'" by (simp add: e packet_is_parse_finished_def)
  show ?thesis
  proof (cases bo)
    case None
    then show ?thesis using header_phase_none [OF h assms(2), of off rest] a f by (simp add: t e body_text_def)
  next
    case (Some bd)
    note b = header_phase_body [OF h assms(2) a [unfolded Some]]
    show ?thesis using b(1) [of off "bd_data bd @ rest"] body_phase_all [OF b(2), of "off + int (length (header_text m))" rest] f
      by (simp add: t e Some body_text_def)
  qed
next
  case False
  then have b: "body_waits p msg p'" using assms(1) by (simp add: phase_waits_def)
  then have "pk_status p = ParseBody" "pk_status p' = ParseFinished" by (auto simp: body_waits_def)
  then show ?thesis using body_phase_all [OF b, of off rest] by (simp add: parse_header_phase_def packet_is_parse_finished_def)
qed

lemma phase_cut:
  assumes "phase_waits hook p (s @ q) p'" and "keeps_parts hook" and "q \<noteq> []"
  shows "\<exists>k p1. parse_header_phase hook off s p = Done (off + int k, p1) \<and> k \<le> length s \<and> phase_waits hook p1 (drop k s @ q) p'"
proof (cases "header_waits hook p (s @ q) p'")
  case True
  then obtain m bo where h: "pk_status p = ParseHeader" "pk_body p = None" "\<not> hd_parsed (pk_header p)" "heads_left m (pk_header p)"
    and a: "announces (put_heads m (pk_header p)) bo" and t: "s @ q = header_text m @ body_text bo"
    and e: "p' = (hook (p\<lparr>pk_header := put_heads m (pk_header p)\<rparr>))\<lparr>pk_body := map_option received bo, pk_status := ParseFinished\<rparr>"
    unfolding header_waits_def by blast
  show ?thesis
  proof (cases "length s < length (header_text m)")
    case True
    from header_phase_piece [OF h(1,3,4) t True, of hook off] obtain k h1 m1 where
      k: "parse_header_phase hook off s p = Done (off + int k, p\<lparr>pk_header := h1\<rparr>)" "k \<le> length s" "\<not> hd_parsed h1"
      "heads_left m1 h1" "drop k s @ q = header_text m1 @ body_text bo" "put_heads m1 h1 = put_heads m (pk_header p)" by blast
    have "header_waits hook (p\<lparr>pk_header := h1\<rparr>) (drop k s @ q) p'"
      unfolding header_waits_def using k h a e by (intro exI [of _ m1] exI [of _ bo]) simp
    then show ?thesis using k(1,2) by (auto simp: phase_waits_def)
  next
    case False
    then obtain s' where s': "s = header_text m @ s'" "s' @ q = body_text bo" using append_cut [OF t False] by auto
    then obtain bd where bd: "bo = Some bd" "bd_data bd = s' @ q" using assms(3) by (cases bo) (auto simp: body_text_def)
    note b = header_phase_body [OF h assms(2) a [unfolded bd(1)]]
    from body_phase_piece [OF b(2) [unfolded bd(2)] assms(3), of "off + int (length (header_text m))"] b(1) [of off s'] bd(2)
    obtain p1 where "parse_header_phase hook off s p = Done (off + int (length s), p1)"
      "body_waits p1 q p'" by (auto simp: s'(1) e bd)
    then show ?thesis by (intro exI [of _ "length s"] exI [of _ p1]) (simp add: phase_waits_def)
  qed
next
  case False
  then have b: "body_waits p (s @ q) p'" using assms(1) by (simp add: phase_waits_def)
  then have "pk_status p = ParseBody" by (auto simp: body_waits_def)
  then show ?thesis using body_phase_piece [OF b assms(3), of off]
    by (force simp: parse_header_phase_def phase_waits_def intro: exI [of _ "length s"])
qed

section \<open>Responses and requests\<close>

lemma find_line_waits:
  assumes "13 \<notin> set l" and "p @ q = l @ 13 # 10 # r" and "length p < length l + 2"
  shows "find_http_line_end p (int (length p)) = Done None"
proof -
  have "take 2048 p @ drop 2048 p @ q = l @ 13 # 10 # r" using assms(2) by (metis append_assoc append_take_drop_id)
  then have "line_length (take 2048 p) = None" using assms by (intro line_length_prefix [of l _ "drop 2048 p @ q"]) auto
  then show ?thesis by (simp add: find_line_end_whole)
qed

definition response_waits :: "response \<Rightarrow> byte list \<Rightarrow> response \<Rightarrow> bool" where
  "response_waits rs msg rs' \<longleftrightarrow>
     phase_waits id rs msg rs' \<or>
     (\<exists>v code r. (pk_status rs = ParseNone \<or> pk_status rs = ParseLine) \<and> rs_status_code rs = 0 \<and>
        v \<noteq> VersionUnknown \<and> 0 \<le> code \<and> code < 2 ^ 31 \<and> msg = response_line v code @ [13, 10] @ r \<and>
        phase_waits id (rs\<lparr>pk_version := v, rs_status_code := code, pk_status := ParseHeader\<rparr>) r rs')"

definition request_waits :: "request \<Rightarrow> byte list \<Rightarrow> request \<Rightarrow> bool" where
  "request_waits rq msg rq' \<longleftrightarrow>
     phase_waits request_host rq msg rq' \<or>
     (\<exists>m path v r. (pk_status rq = ParseNone \<or> pk_status rq = ParseLine) \<and>
        m \<noteq> MethodUnknown \<and> v \<noteq> VersionUnknown \<and> good_path path \<and> length (request_line m path v) < 2047 \<and>
        msg = request_line m path v @ [13, 10] @ r \<and>
        phase_waits request_host (rq\<lparr>rq_method := m, rq_uri := set_path path (rq_uri rq), pk_version := v, pk_status := ParseHeader\<rparr>) r rq')"

lemma keeps_hooks: "keeps_parts id" "keeps_parts request_host"
  by (simp_all add: keeps_parts_def request_host_fields)

lemma phase_waits_status: "phase_waits hook p msg p' \<Longrightarrow> pk_status p = ParseHeader \<or> pk_status p = ParseBody"
  by (auto simp: phase_waits_def header_waits_def body_waits_def)

lemma no_cr:
  "v \<noteq> VersionUnknown \<Longrightarrow> 13 \<notin> set (response_line v code)"
  "v \<noteq> VersionUnknown \<Longrightarrow> good_path path \<Longrightarrow> 13 \<notin> set (request_line m path v)"
proof -
  assume v: "v \<noteq> VersionUnknown"
  note vs = version_string [OF v]
  have "13 \<notin> set (print_d code)" using print_d_set [of 13 code] by (auto simp: is_digit_def)
  then show "13 \<notin> set (response_line v code)" using vs code_desc [of code] by (auto simp: response_line_def)
  show "13 \<notin> set (request_line m path v)" if "good_path path"
    using method_chars vs that by (auto simp: good_path_def request_line_def)
qed

lemma split_line:
  assumes "p @ q = l @ [13, 10] @ r" and "\<not> length p < length l + 2"
  obtains p' where "p = l @ [13, 10] @ p'" "r = p' @ q"
proof -
  have "p @ q = (l @ [13, 10]) @ r" using assms(1) by simp
  moreover have "\<not> length p < length (l @ [13, 10])" using assms(2) by simp
  ultimately obtain us where "p = (l @ [13, 10]) @ us" "r = us @ q" using append_cut by blast
  then show thesis using that by simp
qed

text \<open>A start line that has not arrived whole is left where it is.\<close>

lemma response_line_waits:
  assumes "v \<noteq> VersionUnknown" and "p @ q = response_line v code @ [13, 10] @ r" and "length p < length (response_line v code) + 2"
  shows "parse_response_line p rs = Done (0, rs)"
  using find_line_waits [OF no_cr(1) [OF assms(1)], of p q code r] assms(2,3) by (simp add: parse_response_line_def)

lemma request_line_waits:
  assumes "v \<noteq> VersionUnknown" and "good_path path" and "p @ q = request_line m path v @ [13, 10] @ r"
    and "length p < length (request_line m path v) + 2"
  shows "parse_request_line p rq = Done (0, rq)"
  using find_line_waits [OF no_cr(2) [OF assms(1,2)], of p q m r] assms(3,4) by (simp add: parse_request_line_def)

interpretation responses: stream_parser response_parse packet_is_parse_finished response_waits
proof unfold_locales
  fix rs rs' :: response and msg rest :: "byte list"
  assume w: "response_waits rs msg rs'"
  show "response_parse (msg @ rest) rs = Done (int (length msg), rs') \<and> packet_is_parse_finished rs'"
  proof (cases "phase_waits id rs msg rs'")
    case True
    then show ?thesis using phase_whole [OF True keeps_hooks(1), of 0 rest] phase_waits_status [OF True]
      by (auto simp: response_parse_def)
  next
    case False
    then obtain v code r where st: "pk_status rs = ParseNone \<or> pk_status rs = ParseLine" "rs_status_code rs = 0"
      and l: "v \<noteq> VersionUnknown" "0 \<le> code" "code < 2 ^ 31" and t: "msg = response_line v code @ [13, 10] @ r"
      and ph: "phase_waits id (rs\<lparr>pk_version := v, rs_status_code := code, pk_status := ParseHeader\<rparr>) r rs'"
      using w by (auto simp: response_waits_def)
    note line = parse_response_line_sent [OF l, of _ "r @ rest"]
    show ?thesis using st line [of rs] line [of "rs\<lparr>pk_status := ParseLine\<rparr>"] phase_whole [OF ph keeps_hooks(1), of _ rest]
      by (auto simp: response_parse_def t nat_add_distrib)
  qed
next
  fix rs rs' :: response and p q :: "byte list"
  assume w: "response_waits rs (p @ q) rs'" and q: "q \<noteq> []"
  show "\<exists>k m1. response_parse p rs = Done (int k, m1) \<and> k \<le> length p \<and> response_waits m1 (drop k p @ q) rs'"
  proof (cases "phase_waits id rs (p @ q) rs'")
    case True
    then show ?thesis using phase_cut [OF True keeps_hooks(1) q, of 0] phase_waits_status [OF True]
      by (force simp: response_parse_def response_waits_def)
  next
    case False
    then obtain v code r where st: "pk_status rs = ParseNone \<or> pk_status rs = ParseLine" "rs_status_code rs = 0"
      and l: "v \<noteq> VersionUnknown" "0 \<le> code" "code < 2 ^ 31" and t: "p @ q = response_line v code @ [13, 10] @ r"
      and ph: "phase_waits id (rs\<lparr>pk_version := v, rs_status_code := code, pk_status := ParseHeader\<rparr>) r rs'"
      using w by (auto simp: response_waits_def)
    show ?thesis
    proof (cases "length p < length (response_line v code) + 2")
      case True
      then have "response_parse p rs = Done (int 0, rs\<lparr>pk_status := ParseLine\<rparr>)"
        using response_line_waits [OF l(1) t True] st(1) by (auto simp: response_parse_def)
      moreover have "response_waits (rs\<lparr>pk_status := ParseLine\<rparr>) (drop 0 p @ q) rs'"
        unfolding response_waits_def using st(2) l t ph by (intro disjI2 exI [of _ v] exI [of _ code] exI [of _ r]) simp
      ultimately show ?thesis by blast
    next
      case False
      obtain p' where p: "p = response_line v code @ [13, 10] @ p'" "r = p' @ q" using split_line [OF t False] .
      let ?n = "length (response_line v code) + 2"
      from phase_cut [OF ph [unfolded p(2)] keeps_hooks(1) q, of "int ?n"] obtain k p1 where
        k: "parse_header_phase id (int ?n) p' (rs\<lparr>pk_version := v, rs_status_code := code, pk_status := ParseHeader\<rparr>) =
          Done (int ?n + int k, p1)" "k \<le> length p'" "phase_waits id p1 (drop k p' @ q) rs'" by blast
      note line = parse_response_line_sent [OF l, of _ p']
      have "response_parse p rs = Done (int (?n + k), p1)"
        using st line [of rs] line [of "rs\<lparr>pk_status := ParseLine\<rparr>"] k(1) by (auto simp: response_parse_def p(1) nat_add_distrib)
      moreover have "response_waits p1 (drop (?n + k) p @ q) rs'" using k(3) by (simp add: p(1) response_waits_def)
      moreover have "?n + k \<le> length p" using k(2) p(1) by simp
      ultimately show ?thesis by blast
    qed
  qed
next
  fix rs rs' :: response and msg :: "byte list"
  assume "response_waits rs msg rs'"
  then show "\<not> packet_is_parse_finished rs"
    using phase_waits_status [of id rs msg rs'] by (auto simp: response_waits_def packet_is_parse_finished_def)
qed

interpretation requests: stream_parser request_parse packet_is_parse_finished request_waits
proof unfold_locales
  fix rq rq' :: request and msg rest :: "byte list"
  assume w: "request_waits rq msg rq'"
  show "request_parse (msg @ rest) rq = Done (int (length msg), rq') \<and> packet_is_parse_finished rq'"
  proof (cases "phase_waits request_host rq msg rq'")
    case True
    then show ?thesis using phase_whole [OF True keeps_hooks(2), of 0 rest] phase_waits_status [OF True]
      by (auto simp: request_parse_def)
  next
    case False
    then obtain m path v r where st: "pk_status rq = ParseNone \<or> pk_status rq = ParseLine"
      and l: "m \<noteq> MethodUnknown" "v \<noteq> VersionUnknown" "good_path path" "length (request_line m path v) < 2047"
      and t: "msg = request_line m path v @ [13, 10] @ r"
      and ph: "phase_waits request_host (rq\<lparr>rq_method := m, rq_uri := set_path path (rq_uri rq), pk_version := v, pk_status := ParseHeader\<rparr>) r rq'"
      using w by (auto simp: request_waits_def)
    note line = parse_request_line_sent [OF l, of "r @ rest"]
    show ?thesis using st line [of rq] line [of "rq\<lparr>pk_status := ParseLine\<rparr>"] phase_whole [OF ph keeps_hooks(2), of _ rest]
      by (auto simp: request_parse_def t nat_add_distrib)
  qed
next
  fix rq rq' :: request and p q :: "byte list"
  assume w: "request_waits rq (p @ q) rq'" and q: "q \<noteq> []"
  show "\<exists>k m1. request_parse p rq = Done (int k, m1) \<and> k \<le> length p \<and> request_waits m1 (drop k p @ q) rq'"
  proof (cases "phase_waits request_host rq (p @ q) rq'")
    case True
    then show ?thesis using phase_cut [OF True keeps_hooks(2) q, of 0] phase_waits_status [OF True]
      by (force simp: request_parse_def request_waits_def)
  next
    case False
    then obtain m path v r where st: "pk_status rq = ParseNone \<or> pk_status rq = ParseLine"
      and l: "m \<noteq> MethodUnknown" "v \<noteq> VersionUnknown" "good_path path" "length (request_line m path v) < 2047"
      and t: "p @ q = request_line m path v @ [13, 10] @ r"
      and ph: "phase_waits request_host (rq\<lparr>rq_method := m, rq_uri := set_path path (rq_uri rq), pk_version := v, pk_status := ParseHeader\<rparr>) r rq'"
      using w by (auto simp: request_waits_def)
    show ?thesis
    proof (cases "length p < length (request_line m path v) + 2")
      case True
      then have "request_parse p rq = Done (int 0, rq\<lparr>pk_status := ParseLine\<rparr>)"
        using request_line_waits [OF l(2,3) t True] st by (auto simp: request_parse_def)
      moreover have "request_waits (rq\<lparr>pk_status := ParseLine\<rparr>) (drop 0 p @ q) rq'"
        unfolding request_waits_def using l t ph
        by (intro disjI2 exI [of _ m] exI [of _ path] exI [of _ v] exI [of _ r]) simp
      ultimately show ?thesis by blast
    next
      case False
      obtain p' where p: "p = request_line m path v @ [13, 10] @ p'" "r = p' @ q" using split_line [OF t False] .
      let ?n = "length (request_line m path v) + 2"
      from phase_cut [OF ph [unfolded p(2)] keeps_hooks(2) q, of "int ?n"] obtain k p1 where
        k: "parse_header_phase request_host (int ?n) p'
            (rq\<lparr>rq_method := m, rq_uri := set_path path (rq_uri rq), pk_version := v, pk_status := ParseHeader\<rparr>) =
          Done (int ?n + int k, p1)" "k \<le> length p'" "phase_waits request_host p1 (drop k p' @ q) rq'" by blast
      note line = parse_request_line_sent [OF l, of p']
      have "request_parse p rq = Done (int (?n + k), p1)"
        using st line [of rq] line [of "rq\<lparr>pk_status := ParseLine\<rparr>"] k(1) by (auto simp: request_parse_def p(1) nat_add_distrib)
      moreover have "request_waits p1 (drop (?n + k) p @ q) rq'" using k(3) by (simp add: p(1) request_waits_def)
      moreover have "?n + k \<le> length p" using k(2) p(1) by simp
      ultimately show ?thesis by blast
    qed
  qed
next
  fix rq rq' :: request and msg :: "byte list"
  assume "request_waits rq msg rq'"
  then show "\<not> packet_is_parse_finished rq"
    using phase_waits_status [of request_host rq msg rq'] by (auto simp: request_waits_def packet_is_parse_finished_def)
qed

lemma phase_sent:
  assumes "om_wf m" and "list_all good_line m" and "announces \<lparr>hd_parsed = True, hd_map = m\<rparr> bo"
    and "pk_header p = header_new" and "pk_body p = None" and "pk_status p = ParseHeader"
  shows "phase_waits hook p (header_text m @ body_text bo)
    ((hook (p\<lparr>pk_header := \<lparr>hd_parsed = True, hd_map = m\<rparr>\<rparr>))\<lparr>pk_body := map_option received bo, pk_status := ParseFinished\<rparr>)"
proof -
  have "put_heads m (pk_header p) = \<lparr>hd_parsed = True, hd_map = m\<rparr>" using put_heads_new [OF assms(1)] assms(4) by simp
  then show ?thesis using assms heads_left_all [OF assms(1,2)]
    unfolding phase_waits_def header_waits_def by (intro disjI1 exI [of _ m] exI [of _ bo]) simp
qed

lemma received_data: "map_option bd_data (map_option received bo) = map_option bd_data bo"
  by (cases bo) (simp_all add: received_def)

lemma response_sent_waits:
  assumes "pk_version rs \<noteq> VersionUnknown" and "0 \<le> rs_status_code rs" and "rs_status_code rs < 2 ^ 31"
    and "om_wf (hd_map (pk_header rs))" and "list_all good_line (hd_map (pk_header rs))"
    and "announces \<lparr>hd_parsed = True, hd_map = hd_map (pk_header rs)\<rparr> (pk_body rs)"
    and "response_serialize rs [] = (sz, msg)"
  shows "\<exists>rs'. response_waits response_new msg rs' \<and> rs_status_code rs' = rs_status_code rs \<and> pk_version rs' = pk_version rs \<and>
    hd_map (pk_header rs') = hd_map (pk_header rs) \<and> map_option bd_data (pk_body rs') = map_option bd_data (pk_body rs)"
proof -
  let ?l = "response_line (pk_version rs) (rs_status_code rs)"
  let ?m = "hd_map (pk_header rs)"
  have "length ?l + 2 < 127"
    using print_d_length [OF _ assms(3)] assms(2) version_string [OF assms(1)] code_desc [of "rs_status_code rs"]
    by (simp add: response_line_def)
  then have start: "serialize_response_line rs [] = (int (length ?l + 2), ?l @ [13, 10])"
    by (simp add: serialize_response_line_def c_snprintf_def response_line_def http_crlf_def; linarith)
  from packet_serialize_text [where p = rs and start = "serialize_response_line rs", OF assms(5,6) refl start]
  have msg: "msg = ?l @ [13, 10] @ header_text ?m @ body_text (pk_body rs)"
    using assms(7) by (simp add: response_serialize_def)
  let ?p = "response_new\<lparr>pk_version := pk_version rs, rs_status_code := rs_status_code rs, pk_status := ParseHeader\<rparr>"
  let ?rs' = "(id (?p\<lparr>pk_header := \<lparr>hd_parsed = True, hd_map = ?m\<rparr>\<rparr>))\<lparr>pk_body := map_option received (pk_body rs), pk_status := ParseFinished\<rparr>"
  have "phase_waits id ?p (header_text ?m @ body_text (pk_body rs)) ?rs'"
    by (rule phase_sent [OF assms(4-6)]) (simp_all add: response_new_def)
  then have "response_waits response_new msg ?rs'"
    unfolding response_waits_def using assms(1-3) msg
    by (intro disjI2 exI [of _ "pk_version rs"] exI [of _ "rs_status_code rs"] exI [of _ "header_text ?m @ body_text (pk_body rs)"])
      (simp add: response_new_def)
  then show ?thesis using received_data by (intro exI [of _ ?rs']) simp
qed

lemma request_sent_waits:
  assumes "rq_method rq \<noteq> MethodUnknown" and "pk_version rq \<noteq> VersionUnknown" and "good_path (ur_path (rq_uri rq))"
    and "length (ur_path (rq_uri rq)) < 230"
    and "om_wf (hd_map (pk_header rq))" and "list_all good_line (hd_map (pk_header rq))"
    and "announces \<lparr>hd_parsed = True, hd_map = hd_map (pk_header rq)\<rparr> (pk_body rq)"
    and "request_serialize rq [] = (sz, msg)"
  shows "\<exists>rq'. request_waits request_new msg rq' \<and> rq_method rq' = rq_method rq \<and> pk_version rq' = pk_version rq \<and>
    ur_path (rq_uri rq') = ur_path (rq_uri rq) \<and> hd_map (pk_header rq') = hd_map (pk_header rq) \<and>
    map_option bd_data (pk_body rq') = map_option bd_data (pk_body rq)"
proof -
  let ?l = "request_line (rq_method rq) (ur_path (rq_uri rq)) (pk_version rq)"
  let ?m = "hd_map (pk_header rq)"
  have "length (request_method_strings (rq_method rq)) \<le> 7"
    by (cases "rq_method rq") (simp_all add: request_method_strings_def)
  then have len: "length ?l < 2047 \<and> length ?l + 2 < 255"
    using assms(4) version_string [OF assms(2)] by (simp add: request_line_def)
  have "c_str (ur_path (rq_uri rq)) = ur_path (rq_uri rq)"
    using assms(3) by (intro c_str_free) (auto simp: good_path_def)
  then have start: "serialize_request_line rq [] = (int (length ?l + 2), ?l @ [13, 10])"
    using len by (simp add: serialize_request_line_def c_snprintf_def request_line_def http_crlf_def; linarith)
  from packet_serialize_text [where p = rq and start = "serialize_request_line rq", OF assms(6,7) refl start]
  have msg: "msg = ?l @ [13, 10] @ header_text ?m @ body_text (pk_body rq)"
    using assms(8) by (simp add: request_serialize_def)
  let ?p = "request_new\<lparr>rq_method := rq_method rq, rq_uri := set_path (ur_path (rq_uri rq)) (rq_uri request_new),
    pk_version := pk_version rq, pk_status := ParseHeader\<rparr>"
  let ?rq' = "(request_host (?p\<lparr>pk_header := \<lparr>hd_parsed = True, hd_map = ?m\<rparr>\<rparr>))
    \<lparr>pk_body := map_option received (pk_body rq), pk_status := ParseFinished\<rparr>"
  have "phase_waits request_host ?p (header_text ?m @ body_text (pk_body rq)) ?rq'"
    by (rule phase_sent [OF assms(5-7)]) (simp_all add: request_new_def)
  then have "request_waits request_new msg ?rq'"
    unfolding request_waits_def using assms(1-3) len msg
    by (intro disjI2 exI [of _ "rq_method rq"] exI [of _ "ur_path (rq_uri rq)"] exI [of _ "pk_version rq"]
        exI [of _ "header_text ?m @ body_text (pk_body rq)"])
      (simp add: request_new_def)
  then show ?thesis using received_data by (intro exI [of _ ?rq']) (simp add: request_host_fields set_path_def)
qed

section \<open>Messages in pieces\<close>

text \<open>
  C8. A response survives the way over a stream however it is cut: fed to the parser piece by
  piece, each time with what was left before, what serializing has written gives the version,
  the code, the headers and the body, and what lies behind it stays untouched.
\<close>

theorem response_in_pieces:
  assumes "pk_version rs \<noteq> VersionUnknown" and "0 \<le> rs_status_code rs" and "rs_status_code rs < 2 ^ 31"
    and "om_wf (hd_map (pk_header rs))" and "list_all good_line (hd_map (pk_header rs))"
    and "announces \<lparr>hd_parsed = True, hd_map = hd_map (pk_header rs)\<rparr> (pk_body rs)"
    and "response_serialize rs [] = (sz, msg)" and "concat pieces = msg @ rest" and "pieces \<noteq> []"
  shows "\<exists>rs'. feeds response_parse packet_is_parse_finished pieces [] response_new = Done (rest, rs') \<and>
    packet_is_parse_finished rs' \<and> rs_status_code rs' = rs_status_code rs \<and> pk_version rs' = pk_version rs \<and>
    hd_map (pk_header rs') = hd_map (pk_header rs) \<and> map_option bd_data (pk_body rs') = map_option bd_data (pk_body rs)"
proof -
  obtain rs' where w: "response_waits response_new msg rs'" and f: "rs_status_code rs' = rs_status_code rs"
    "pk_version rs' = pk_version rs" "hd_map (pk_header rs') = hd_map (pk_header rs)"
    "map_option bd_data (pk_body rs') = map_option bd_data (pk_body rs)"
    using response_sent_waits [OF assms(1-7)] by blast
  from responses.feeds_message [OF w, of "[]" pieces rest] assms(8,9) f show ?thesis by auto
qed

theorem response_in_pieces_witness:
  "\<exists>rs'. feeds response_parse packet_is_parse_finished
      [B ''HTT'', B ''P/1.0 404 Not Found'' @ [13], [10, 13], [10] @ B ''NEXT''] [] response_new = Done (B ''NEXT'', rs') \<and>
    packet_is_parse_finished rs' \<and> rs_status_code rs' = 404"
proof -
  have ser: "response_serialize example_response [] = (26, B ''HTTP/1.0 404 Not Found'' @ [13, 10, 13, 10])"
    by code_simp
  have facts: "pk_version example_response \<noteq> VersionUnknown" "0 \<le> rs_status_code example_response"
    "rs_status_code example_response < 2 ^ 31" "om_wf (hd_map (pk_header example_response))"
    "list_all good_line (hd_map (pk_header example_response))"
    "announces \<lparr>hd_parsed = True, hd_map = hd_map (pk_header example_response)\<rparr> (pk_body example_response)"
    "rs_status_code example_response = 404"
    by code_simp+
  from response_in_pieces [OF facts(1-6) ser, of "[B ''HTT'', B ''P/1.0 404 Not Found'' @ [13], [10, 13], [10] @ B ''NEXT'']" "B ''NEXT''"]
    facts(7) show ?thesis by (auto simp: B_def)
qed

text \<open>
  C9. A request survives the way over a stream however it is cut: method, version, path,
  headers and body come back, and what lies behind it stays untouched.
\<close>

theorem request_in_pieces:
  assumes "rq_method rq \<noteq> MethodUnknown" and "pk_version rq \<noteq> VersionUnknown" and "good_path (ur_path (rq_uri rq))"
    and "length (ur_path (rq_uri rq)) < 230"
    and "om_wf (hd_map (pk_header rq))" and "list_all good_line (hd_map (pk_header rq))"
    and "announces \<lparr>hd_parsed = True, hd_map = hd_map (pk_header rq)\<rparr> (pk_body rq)"
    and "request_serialize rq [] = (sz, msg)" and "concat pieces = msg @ rest" and "pieces \<noteq> []"
  shows "\<exists>rq'. feeds request_parse packet_is_parse_finished pieces [] request_new = Done (rest, rq') \<and>
    packet_is_parse_finished rq' \<and> rq_method rq' = rq_method rq \<and> pk_version rq' = pk_version rq \<and>
    ur_path (rq_uri rq') = ur_path (rq_uri rq) \<and> hd_map (pk_header rq') = hd_map (pk_header rq) \<and>
    map_option bd_data (pk_body rq') = map_option bd_data (pk_body rq)"
proof -
  obtain rq' where w: "request_waits request_new msg rq'" and f: "rq_method rq' = rq_method rq" "pk_version rq' = pk_version rq"
    "ur_path (rq_uri rq') = ur_path (rq_uri rq)" "hd_map (pk_header rq') = hd_map (pk_header rq)"
    "map_option bd_data (pk_body rq') = map_option bd_data (pk_body rq)"
    using request_sent_waits [OF assms(1-8)] by blast
  from requests.feeds_message [OF w, of "[]" pieces rest] assms(9,10) f show ?thesis by auto
qed

theorem request_in_pieces_witness:
  "\<exists>rq'. feeds request_parse packet_is_parse_finished
      [B ''POST /form HTTP/1.'', B ''1'' @ [13, 10] @ B ''Content-Length: 4'' @ [13, 10] @ B ''Ho'',
       B ''st: h'' @ [13, 10, 13, 10] @ B ''d'', B ''ataNEXT''] [] request_new = Done (B ''NEXT'', rq') \<and>
    packet_is_parse_finished rq' \<and> map_option bd_data (pk_body rq') = Some (B ''data'')"
proof -
  have ser: "request_serialize example_request [] = (55, B ''POST /form HTTP/1.1'' @ [13, 10] @ B ''Content-Length: 4'' @
      [13, 10] @ B ''Host: h'' @ [13, 10, 13, 10] @ B ''data'')"
    by code_simp
  have facts: "rq_method example_request \<noteq> MethodUnknown" "pk_version example_request \<noteq> VersionUnknown"
    "good_path (ur_path (rq_uri example_request))" "length (ur_path (rq_uri example_request)) < 230"
    "om_wf (hd_map (pk_header example_request))" "list_all good_line (hd_map (pk_header example_request))"
    "announces \<lparr>hd_parsed = True, hd_map = hd_map (pk_header example_request)\<rparr> (pk_body example_request)"
    "map_option bd_data (pk_body example_request) = Some (B ''data'')"
    by code_simp+
  from request_in_pieces [OF facts(1-7) ser, of "[B ''POST /form HTTP/1.'', B ''1'' @ [13, 10] @ B ''Content-Length: 4'' @ [13, 10] @ B ''Ho'',
       B ''st: h'' @ [13, 10, 13, 10] @ B ''d'', B ''ataNEXT'']" "B ''NEXT''"] facts(8)
  show ?thesis by (auto simp: B_def)
qed

end
