(* ===== verification/Connection.thy ===== *)
theory Connection
  imports Http_Stream Frame Tls
begin

text \<open>
  HTTP and websocket connections (include/pump/proto/http/connection.h and
  src/proto/http/connection.cpp) on a TCP or TLS transport.

  The connection holds its transport; the calls of the virtual functions of \<open>base_transport\<close>
  go to the model of the transport there is. What the operating system, the TLS library and
  the allocator answer to these calls is a record \<open>answers\<close>. A callback of the owner may call
  the connection again: the calls it makes are an argument, a list of \<open>cn_call\<close>.

  \<open>cn_trace\<close> has the callbacks made. A callback of the transport is run at the end of the
  event that makes it, where it stands in the code.
\<close>

section \<open>base_transport\<close>

record answers =
  an_alloc :: allocator
  an_taken :: int
  an_send :: bool
  an_read :: bool
  an_unread :: bool

definition transport_start ::
  "bool \<Rightarrow> read_mode \<Rightarrow> transport_callbacks \<Rightarrow> bool \<Rightarrow> bool \<Rightarrow> transport \<Rightarrow> error_code \<times> transport" where
  "transport_start sv mode cbs ok_r ok_s t =
     (if tp_type t = TransportTls then tls_start sv mode cbs ok_r ok_s t else tcp_start sv mode cbs ok_r ok_s t)"

definition transport_stop :: "transport \<Rightarrow> transport" where
  "transport_stop t = (if tp_type t = TransportTls then tls_stop t else tcp_stop t)"

definition transport_force_stop :: "transport \<Rightarrow> transport" where
  "transport_force_stop t = (if tp_type t = TransportTls then tls_force_stop t else tcp_force_stop t)"

definition transport_async_read :: "answers \<Rightarrow> transport \<Rightarrow> (error_code \<times> transport) run" where
  "transport_async_read an t =
     (if tp_type t = TransportTls then tls_async_read (an_unread an) (an_read an) t else tcp_async_read (an_read an) t)"

definition transport_send :: "answers \<Rightarrow> byte list option \<Rightarrow> int \<Rightarrow> transport \<Rightarrow> (error_code \<times> transport) run" where
  "transport_send an b sz t =
     (if tp_type t = TransportTls then tls_send (an_alloc an) b sz (an_taken an) (an_send an) t
      else tcp_send (an_alloc an) b sz (an_taken an) (an_send an) t)"

definition transport_send_iob :: "answers \<Rightarrow> io_buffer option \<Rightarrow> transport \<Rightarrow> (error_code \<times> transport) run" where
  "transport_send_iob an b t =
     (if tp_type t = TransportTls then tls_send_iob b (an_taken an) (an_send an) t
      else tcp_send_iob b (an_taken an) (an_send an) t)"

section \<open>Messages\<close>

datatype message = MsgRequest request | MsgResponse response

definition message_new :: "bool \<Rightarrow> message" where
  "message_new server = (if server then MsgRequest request_new else MsgResponse response_new)"

definition message_parse :: "byte list \<Rightarrow> message \<Rightarrow> (int \<times> message) run" where
  "message_parse b m =
     (case m of
        MsgRequest q \<Rightarrow> run_map (\<lambda>(n, q'). (n, MsgRequest q')) (request_parse b q)
      | MsgResponse s \<Rightarrow> run_map (\<lambda>(n, s'). (n, MsgResponse s')) (response_parse b s))"

definition message_finished :: "message \<Rightarrow> bool" where
  "message_finished m =
     (case m of MsgRequest q \<Rightarrow> packet_is_parse_finished q | MsgResponse s \<Rightarrow> packet_is_parse_finished s)"

definition message_serialize :: "message \<Rightarrow> byte list" where
  "message_serialize m =
     (case m of MsgRequest q \<Rightarrow> snd (request_serialize q []) | MsgResponse s \<Rightarrow> snd (response_serialize s []))"

section \<open>connection\<close>

datatype cn_state = CnNone | CnStarted | CnUpgraded | CnError

datatype cn_out = CnPacketCb message | CnHttpErrorCb string | CnFrameCb "byte list" bool | CnWsErrorCb string

record connection =
  cn_server :: bool
  cn_state :: cn_state
  cn_cache :: "io_buffer option"
  cn_pending :: "message option"
  cn_frame :: frame_header
  cn_key :: "byte list"
  cn_closed :: bool
  cn_ws_cbs :: bool
  cn_transp :: "transport option"
  cn_trace :: "cn_out list"

text \<open>\<open>flag\<close>: what the flag \<open>ws_closed_\<close>, which is not initialised, happens to hold.\<close>

definition cn_new :: "bool \<Rightarrow> bool \<Rightarrow> transport option \<Rightarrow> connection" where
  "cn_new server flag tp =
     \<lparr>cn_server = server, cn_state = CnNone, cn_cache = None, cn_pending = None, cn_frame = frame_new True wscode_end 0 [],
      cn_key = [], cn_closed = flag, cn_ws_cbs = False, cn_transp = tp, cn_trace = []\<rparr>"

definition cn_emit :: "cn_out \<Rightarrow> connection \<Rightarrow> connection" where
  "cn_emit out c = c\<lparr>cn_trace := cn_trace c @ [out]\<rparr>"

definition cn_set_state :: "cn_state \<Rightarrow> cn_state \<Rightarrow> connection \<Rightarrow> bool \<times> connection" where
  "cn_set_state expected desired c =
     (if cn_state c = expected then (True, c\<lparr>cn_state := desired\<rparr>) else (False, c))"

definition cn_is_valid :: "connection \<Rightarrow> bool" where
  "cn_is_valid c = (case cn_transp c of None \<Rightarrow> False | Some t \<Rightarrow> is_started t)"

definition cn_stop :: "connection \<Rightarrow> connection" where
  "cn_stop c = c\<lparr>cn_transp := map_option transport_stop (cn_transp c)\<rparr>"

definition cn_destroy :: "connection \<Rightarrow> connection" where
  "cn_destroy c = c\<lparr>cn_transp := map_option transport_force_stop (cn_transp c), cn_cache := None\<rparr>"

definition connection_callbacks :: transport_callbacks where
  "connection_callbacks =
     \<lparr>read_cb = True, read_from_cb = False, sent_cb = False, disconnected_cb = True, stopped_cb = True\<rparr>"

definition cn_start_http :: "bool \<Rightarrow> bool \<Rightarrow> bool \<Rightarrow> bool \<Rightarrow> connection \<Rightarrow> bool \<times> connection" where
  "cn_start_http sv cbs ok_r ok_s c =
     (if \<not> sv then (False, c)
      else if \<not> cbs then (False, c)
      else
        case cn_transp c of
          None \<Rightarrow> (False, c)
        | Some t \<Rightarrow>
            let (ok, c1) = cn_set_state CnNone CnStarted c in
            if \<not> ok then (False, c1)
            else
              let (ec, t1) = transport_start sv ReadModeOnce connection_callbacks ok_r ok_s t;
                  c2 = c1\<lparr>cn_transp := Some t1\<rparr>
              in if ec \<noteq> ErrNone then (False, c2\<lparr>cn_state := CnError\<rparr>) else (True, c2))"

definition cn_send_packet :: "message \<Rightarrow> answers \<Rightarrow> connection \<Rightarrow> (bool \<times> connection) run" where
  "cn_send_packet m an c =
     (case cn_transp c of
        None \<Rightarrow> Done (False, c)
      | Some t \<Rightarrow>
          if \<not> is_started t then Done (False, c)
          else
            let data = message_serialize m in
            run_map (\<lambda>(ec, t1). (ec = ErrNone, c\<lparr>cn_transp := Some t1\<rparr>))
              (transport_send an (Some data) (to_i32 (int (length data))) t))"

definition cn_async_read :: "answers \<Rightarrow> connection \<Rightarrow> (bool \<times> connection) run" where
  "cn_async_read an c =
     (case cn_transp c of
        None \<Rightarrow> Done (False, c)
      | Some t \<Rightarrow> run_map (\<lambda>(ec, t1). (ec = ErrNone, c\<lparr>cn_transp := Some t1\<rparr>)) (transport_async_read an t))"

definition cn_start_websocket :: "bool \<Rightarrow> answers \<Rightarrow> connection \<Rightarrow> (bool \<times> connection) run" where
  "cn_start_websocket cbs an c =
     (let (ok, c1) = cn_set_state CnStarted CnUpgraded c in
      if \<not> ok then Done (False, c1)
      else if \<not> cbs then Done (False, c1)
      else cn_async_read an (c1\<lparr>cn_ws_cbs := True\<rparr>))"

text \<open>
  \<open>mask_payload\<close> on the bytes from \<open>off\<close> on of a block; an offset in front of the block is an
  access outside of it as soon as one byte is masked.
\<close>

definition mask_at :: "frame_header \<Rightarrow> int \<Rightarrow> byte list \<Rightarrow> byte list run" where
  "mask_at h off raw =
     (if length (fh_key h) \<noteq> 4 \<or> fh_len h = 0 then Done raw
      else if off < 0 then Fault
      else run_map (\<lambda>bs. take (nat off) raw @ bs) (mask_payload h (drop (nat off) raw)))"

text \<open>The payload is masked from \<open>data() - size\<close> on.\<close>

definition cn_ws_send :: "byte list \<Rightarrow> int \<Rightarrow> bool \<Rightarrow> answers \<Rightarrow> connection \<Rightarrow> (bool \<times> connection) run" where
  "cn_ws_send b sz is_text an c =
     (case cn_transp c of
        None \<Rightarrow> Done (False, c)
      | Some t \<Rightarrow>
          if \<not> is_started t then Done (False, c)
          else
            run_bind (iob_create (an_alloc an) (word_of_int (16 + sz))) (\<lambda>r.
              case r of
                None \<Rightarrow> Done (False, c)
              | Some iob \<Rightarrow>
                  let wf = frame_new True (if is_text then 1 else 2) (word_of_int sz) (cn_key c) in
                  run_bind (pack_header (an_alloc an) wf iob) (\<lambda>(ok1, iob1).
                    if \<not> ok1 then Done (False, c)
                    else
                      run_bind (iob_write (an_alloc an) (Some b) (word_of_int sz) iob1) (\<lambda>(ok2, iob2).
                        if \<not> ok2 then Done (False, c)
                        else
                          run_bind (mask_at wf (int (unat (iob_rpos iob2)) - sz) (raw_bytes iob2)) (\<lambda>raw.
                            run_map (\<lambda>(ec, t1). (ec = ErrNone, c\<lparr>cn_transp := Some t1\<rparr>))
                              (transport_send_iob an (Some (iob2\<lparr>iob_raw := Some raw\<rparr>)) t))))))"

definition cn_read_packet :: "answers \<Rightarrow> connection \<Rightarrow> (bool \<times> connection) run" where
  "cn_read_packet an c =
     (if cn_state c \<noteq> CnStarted then Done (False, c)
      else if (case cn_pending c of None \<Rightarrow> False | Some m \<Rightarrow> \<not> message_finished m) then Done (False, c)
      else cn_async_read an (c\<lparr>cn_pending := Some (message_new (cn_server c))\<rparr>))"

definition cn_init_key :: "byte list \<Rightarrow> connection \<Rightarrow> connection" where
  "cn_init_key key c = c\<lparr>cn_key := key\<rparr>"

text \<open>The control frames: ping, pong and close.\<close>

definition cn_send_frame :: "byte \<Rightarrow> answers \<Rightarrow> connection \<Rightarrow> connection run" where
  "cn_send_frame code an c =
     run_bind (iob_create (an_alloc an) 16) (\<lambda>r.
       case r of
         None \<Rightarrow> Fault
       | Some iob \<Rightarrow>
           run_bind (pack_header (an_alloc an) (frame_new True code 0 []) iob) (\<lambda>(ok, iob1).
             if \<not> ok then Done c
             else
               case cn_transp c of
                 None \<Rightarrow> Fault
               | Some t \<Rightarrow> run_map (\<lambda>(ec, t1). c\<lparr>cn_transp := Some t1\<rparr>) (transport_send_iob an (Some iob1) t)))"

section \<open>Calls of the owner\<close>

datatype cn_call =
    CallReadPacket answers
  | CallSend message answers
  | CallUpgrade bool answers
  | CallWsSend "byte list" int bool answers
  | CallInitKey "byte list"
  | CallStop

fun cn_do :: "cn_call \<Rightarrow> connection \<Rightarrow> connection run" where
  "cn_do (CallReadPacket an) c = run_map snd (cn_read_packet an c)"
| "cn_do (CallSend m an) c = run_map snd (cn_send_packet m an c)"
| "cn_do (CallUpgrade cbs an) c = run_map snd (cn_start_websocket cbs an c)"
| "cn_do (CallWsSend b sz is_text an) c = run_map snd (cn_ws_send b sz is_text an c)"
| "cn_do (CallInitKey key) c = Done (cn_init_key key c)"
| "cn_do CallStop c = Done (cn_stop c)"

fun cn_calls :: "cn_call list \<Rightarrow> connection \<Rightarrow> connection run" where
  "cn_calls [] c = Done c"
| "cn_calls (call # calls) c = run_bind (cn_do call c) (cn_calls calls)"

section \<open>Reading\<close>

definition cn_handle_http :: "answers \<Rightarrow> cn_call list \<Rightarrow> byte list \<Rightarrow> connection \<Rightarrow> (int \<times> connection) run" where
  "cn_handle_http an calls b c =
     (case cn_pending c of
        None \<Rightarrow> Done (- 1, c)
      | Some m \<Rightarrow>
          run_bind (message_parse b m) (\<lambda>(n, m1).
            let c1 = c\<lparr>cn_pending := Some m1\<rparr> in
            if message_finished m1 then run_map (\<lambda>c2. (n, c2)) (cn_calls calls (cn_emit (CnPacketCb m1) c1))
            else run_map (\<lambda>(ok, c2). (if ok then n else - 1, c2)) (cn_async_read an c1)))"

text \<open>
  A complete frame in \<open>iob\<close> behind its header: the second component is false for an unknown
  code. The payload is unmasked in place.
\<close>

definition cn_frame_event :: "answers \<Rightarrow> cn_call list \<Rightarrow> frame_header \<Rightarrow> byte list \<Rightarrow> connection \<Rightarrow> (bool \<times> connection) run" where
  "cn_frame_event an calls h payload c =
     (if fh_code h = 0 \<or> fh_code h = 1 \<or> fh_code h = 2 then
        (if \<not> cn_ws_cbs c then Abort
         else run_map (\<lambda>c1. (True, c1)) (cn_calls calls (cn_emit (CnFrameCb payload (fh_fin h)) c)))
      else if fh_code h = 8 then
        (if cn_closed c then Done (True, c)
         else run_map (\<lambda>c1. (True, cn_stop c1)) (cn_send_frame 8 an (c\<lparr>cn_closed := True\<rparr>)))
      else if fh_code h = 9 then run_map (\<lambda>c1. (True, c1)) (cn_send_frame 10 an c)
      else if fh_code h = 10 then Done (True, c)
      else Done (False, c))"

definition cn_end_frame :: "frame_header \<Rightarrow> io_buffer \<Rightarrow> bool \<times> connection \<Rightarrow> bool \<times> io_buffer \<times> connection" where
  "cn_end_frame h iob r =
     (if \<not> fst r then (False, iob, snd r)
      else (True, snd (iob_shift (sint (ucast (fh_len h) :: u32)) iob),
        (snd r)\<lparr>cn_frame := frame_reset (cn_frame (snd r))\<rparr>))"

definition cn_take_frame ::
  "answers \<Rightarrow> cn_call list \<Rightarrow> io_buffer \<Rightarrow> connection \<Rightarrow> (bool \<times> io_buffer \<times> connection) run" where
  "cn_take_frame an calls iob c =
     run_bind (if fh_unpacked (cn_frame c) then Done (cn_frame c, iob)
               else run_map (\<lambda>(ok, h, iob1). (h, iob1)) (unpack_header (cn_frame c) iob)) (\<lambda>(h, iob1).
       let c1 = c\<lparr>cn_frame := h\<rparr> in
       if \<not> fh_unpacked h then Done (True, iob1, c1)
       else if fh_len h > ucast (iob_size iob1) then Done (True, iob1, c1)
       else
         run_bind (mask_at h (int (unat (iob_rpos iob1))) (raw_bytes iob1)) (\<lambda>raw.
         run_bind (mem_read raw (unat (iob_rpos iob1)) (unat (fh_len h))) (\<lambda>payload.
           let iob2 = (if iob_raw iob1 = None then iob1 else iob1\<lparr>iob_raw := Some raw\<rparr>) in
           run_map (cn_end_frame h iob2) (cn_frame_event an calls h payload c1))))"

text \<open>
  The buffer object is destroyed before its size is read for the result: \<open>stale\<close> is what the
  freed memory holds by then.
\<close>

definition cn_handle_frame ::
  "u32 \<Rightarrow> answers \<Rightarrow> cn_call list \<Rightarrow> byte list \<Rightarrow> connection \<Rightarrow> (int \<times> byte list \<times> connection) run" where
  "cn_handle_frame stale an calls b c =
     run_bind (iob_create_by_reference (Some b) (of_nat (length b))) (\<lambda>r.
       case r of
         None \<Rightarrow> Fault
       | Some iob \<Rightarrow>
           run_bind (cn_take_frame an calls iob c) (\<lambda>(known, iob1, c1).
             let b1 = raw_bytes iob1 in
             if \<not> known then Done (- 1, b1, c1)
             else
               run_map (\<lambda>(ok, c2). (if ok then to_i32 (int (length b) - int (unat stale)) else - 1, b1, c2))
                 (cn_async_read an c1)))"

definition cn_open_cache :: "answers \<Rightarrow> connection \<Rightarrow> io_buffer option run" where
  "cn_open_cache an c = (case cn_cache c of None \<Rightarrow> iob_create (an_alloc an) 0 | Some iob \<Rightarrow> Done (Some iob))"

text \<open>What the handlers leave of the text that they were given: it is dropped from the cache, or put there.\<close>

definition cn_keep_rest :: "answers \<Rightarrow> bool \<Rightarrow> int \<Rightarrow> byte list \<Rightarrow> connection \<Rightarrow> connection run" where
  "cn_keep_rest an cached n text1 c =
     (case cn_cache c of
        None \<Rightarrow> Fault
      | Some cache \<Rightarrow>
          if cached then
            run_map (\<lambda>raw. c\<lparr>cn_cache := Some (snd (iob_shift n (cache\<lparr>iob_raw := Some raw\<rparr>)))\<rparr>)
              (mem_write (raw_bytes cache) (unat (iob_rpos cache)) text1)
          else if n < int (length text1) then
            (if n < 0 then Fault
             else
               run_map (\<lambda>(ok, cache1). c\<lparr>cn_cache := Some cache1\<rparr>)
                 (iob_write (an_alloc an) (Some (drop (nat n) text1)) (of_nat (length text1 - nat n)) cache))
          else Done c)"

definition cn_dispatch ::
  "u32 \<Rightarrow> answers \<Rightarrow> cn_call list \<Rightarrow> byte list \<Rightarrow> connection \<Rightarrow> (int \<times> byte list \<times> connection) run" where
  "cn_dispatch stale an calls b c =
     (case cn_state c of
        CnStarted \<Rightarrow> run_map (\<lambda>(n, c1). (n, b, c1)) (cn_handle_http an calls b c)
      | CnUpgraded \<Rightarrow> cn_handle_frame stale an calls b c
      | _ \<Rightarrow> Done (- 1, b, c))"

definition cn_on_read :: "u32 \<Rightarrow> answers \<Rightarrow> cn_call list \<Rightarrow> byte list \<Rightarrow> connection \<Rightarrow> connection run" where
  "cn_on_read stale an calls b c =
     run_bind (cn_open_cache an c) (\<lambda>r.
       case r of
         None \<Rightarrow> Done (cn_stop c)
       | Some cache \<Rightarrow>
           let cached = 0 < iob_size cache in
           run_bind (if cached then iob_write (an_alloc an) (Some b) (of_nat (length b)) cache else Done (True, cache))
             (\<lambda>(ok, cache1).
               let c1 = c\<lparr>cn_cache := Some cache1\<rparr>; txt1 = (if cached then iob_contents cache1 else b) in
               if \<not> ok then Done (cn_stop c1)
               else
                 run_bind (cn_dispatch stale an calls txt1 c1) (\<lambda>(n, txt2, c2).
                   if n = - 1 then Done (cn_stop c2) else cn_keep_rest an cached n txt2 c2)))"

section \<open>The end of the transport\<close>

definition cn_on_end :: "string \<Rightarrow> cn_call list \<Rightarrow> connection \<Rightarrow> connection run" where
  "cn_on_end reason calls c =
     (case cn_state c of
        CnStarted \<Rightarrow> cn_calls calls (cn_emit (CnHttpErrorCb reason) (c\<lparr>cn_state := CnError\<rparr>))
      | CnUpgraded \<Rightarrow>
          if \<not> cn_ws_cbs c then Abort
          else
            cn_calls calls (cn_emit (CnWsErrorCb (if cn_closed c then ''closed'' else reason))
              (c\<lparr>cn_state := CnError, cn_closed := True\<rparr>))
      | _ \<Rightarrow> Done c)"

definition cn_on_disconnected :: "cn_call list \<Rightarrow> connection \<Rightarrow> connection run" where
  "cn_on_disconnected calls c = cn_on_end ''disconnected'' calls c"

definition cn_on_stopped :: "cn_call list \<Rightarrow> connection \<Rightarrow> connection run" where
  "cn_on_stopped calls c = cn_on_end ''stopped'' calls c"

section \<open>Steps\<close>

fun cn_callbacks :: "u32 \<Rightarrow> answers \<Rightarrow> cn_call list \<Rightarrow> tp_out list \<Rightarrow> connection \<Rightarrow> connection run" where
  "cn_callbacks stale an calls [] c = Done c"
| "cn_callbacks stale an calls (out # outs) c =
     run_bind
       (case out of
          OutRead b \<Rightarrow> cn_on_read stale an calls b c
        | OutDisconnected \<Rightarrow> cn_on_disconnected calls c
        | OutStopped \<Rightarrow> cn_on_stopped calls c
        | _ \<Rightarrow> Done c)
       (cn_callbacks stale an calls outs)"

datatype cn_op =
    CnStartHttp bool bool bool bool
  | CnCall cn_call
  | CnTcp tcp_op u32 answers "cn_call list"
  | CnTls tls_op u32 answers "cn_call list"

text \<open>An event of the transport, then the callbacks it makes.\<close>

definition cn_event ::
  "(transport \<Rightarrow> transport run) \<Rightarrow> u32 \<Rightarrow> answers \<Rightarrow> cn_call list \<Rightarrow> connection \<Rightarrow> connection run" where
  "cn_event event stale an calls c =
     (case cn_transp c of
        None \<Rightarrow> Fault
      | Some t \<Rightarrow>
          run_bind (event t) (\<lambda>t1.
            cn_callbacks stale an calls (drop (length (tp_trace t)) (tp_trace t1)) (c\<lparr>cn_transp := Some t1\<rparr>)))"

fun cn_exec :: "cn_op \<Rightarrow> connection \<Rightarrow> connection run" where
  "cn_exec (CnStartHttp sv cbs ok_r ok_s) c = Done (snd (cn_start_http sv cbs ok_r ok_s c))"
| "cn_exec (CnCall call) c = cn_do call c"
| "cn_exec (CnTcp op stale an calls) c = cn_event (tcp_exec op) stale an calls c"
| "cn_exec (CnTls op stale an calls) c = cn_event (tls_exec op) stale an calls c"

text \<open>The events of a transport that can happen; all else a transport does is called by its connection.\<close>

fun tcp_event :: "tcp_op \<Rightarrow> transport \<Rightarrow> bool" where
  "tcp_event (OpReadEvent data ok) t \<longleftrightarrow> is_tracked (tp_r_tracker t)"
| "tcp_event (OpSendEvent n1 n2 ok) t \<longleftrightarrow> is_tracked (tp_s_tracker t)"
| "tcp_event OpDeliver t \<longleftrightarrow> tp_posted t \<noteq> []"
| "tcp_event _ t \<longleftrightarrow> False"

fun tls_event :: "tls_op \<Rightarrow> transport \<Rightarrow> bool" where
  "tls_event (TlsReadEvent inp ok) t \<longleftrightarrow> is_tracked (tp_r_tracker t)"
| "tls_event (TlsSendEvent n1 n2 ok) t \<longleftrightarrow> is_tracked (tp_s_tracker t)"
| "tls_event (TlsDeliver inp ok) t \<longleftrightarrow> tp_posted t \<noteq> []"
| "tls_event _ t \<longleftrightarrow> False"

fun cn_legal :: "cn_op \<Rightarrow> connection \<Rightarrow> bool" where
  "cn_legal (CnTcp op stale an calls) c \<longleftrightarrow>
     (case cn_transp c of None \<Rightarrow> False | Some t \<Rightarrow> tp_type t = TransportTcp \<and> tcp_event op t)"
| "cn_legal (CnTls op stale an calls) c \<longleftrightarrow>
     (case cn_transp c of None \<Rightarrow> False | Some t \<Rightarrow> tp_type t = TransportTls \<and> tls_event op t)"
| "cn_legal _ c \<longleftrightarrow> True"

inductive cn_reachable :: "connection \<Rightarrow> bool" where
  start: "cn_reachable (cn_new server flag tp)"
| step: "cn_reachable c \<Longrightarrow> cn_legal op c \<Longrightarrow> cn_exec op c = Done c' \<Longrightarrow> cn_reachable c'"


section \<open>The end is reported once\<close>

fun is_error :: "cn_out \<Rightarrow> bool" where
  "is_error (CnHttpErrorCb reason) = True"
| "is_error (CnWsErrorCb reason) = True"
| "is_error _ = False"

definition going :: "connection \<Rightarrow> bool" where
  "going c \<longleftrightarrow> cn_state c = CnStarted \<or> cn_state c = CnUpgraded"

text \<open>What a step other than the end of the transport does to the state and the callbacks.\<close>

definition goes_on :: "connection \<Rightarrow> connection \<Rightarrow> bool" where
  "goes_on c c' \<longleftrightarrow>
     (going c' \<longleftrightarrow> going c) \<and> (\<not> going c \<longrightarrow> cn_state c' = cn_state c \<and> cn_trace c' = cn_trace c) \<and>
     (\<exists>outs. cn_trace c' = cn_trace c @ outs \<and> list_all (\<lambda>out. \<not> is_error out) outs)"

lemma goes_on_refl [simp]: "goes_on c c"
  by (simp add: goes_on_def)

lemma goes_on_trans: "goes_on a b \<Longrightarrow> goes_on b c \<Longrightarrow> goes_on a c"
  unfolding goes_on_def by (elim conjE exE) (simp add: list_all_append)

lemma goes_on_same: "cn_state c' = cn_state c \<Longrightarrow> cn_trace c' = cn_trace c \<Longrightarrow> goes_on c c'"
  by (simp add: goes_on_def going_def)

lemma goes_on_from: "goes_on c1 c' \<Longrightarrow> cn_state c1 = cn_state c \<Longrightarrow> cn_trace c1 = cn_trace c \<Longrightarrow> goes_on c c'"
  by (simp add: goes_on_def going_def)

lemma goes_on_emit: "going c \<Longrightarrow> \<not> is_error out \<Longrightarrow> goes_on c (cn_emit out c)"
  by (simp add: goes_on_def going_def cn_emit_def)

lemma async_read_goes_on: "cn_async_read an c = Done (r, c') \<Longrightarrow> goes_on c c'"
  by (auto simp: cn_async_read_def run_map_eq_Done intro!: goes_on_same split: option.splits)

lemma stop_goes_on: "goes_on c (cn_stop c)"
  by (auto simp: cn_stop_def intro!: goes_on_same)

lemma send_frame_goes_on: "cn_send_frame code an c = Done c' \<Longrightarrow> goes_on c c'"
  by (auto simp: cn_send_frame_def run_bind_eq_Done run_map_eq_Done intro!: goes_on_same split: option.splits if_splits)

lemma send_packet_goes_on: "cn_send_packet m an c = Done (r, c') \<Longrightarrow> goes_on c c'"
  by (auto simp: cn_send_packet_def run_map_eq_Done Let_def intro!: goes_on_same split: option.splits if_splits)

lemma ws_send_goes_on: "cn_ws_send b sz is_text an c = Done (r, c') \<Longrightarrow> goes_on c c'"
  by (auto simp: cn_ws_send_def run_bind_eq_Done run_map_eq_Done Let_def intro!: goes_on_same split: option.splits if_splits)

lemma read_packet_goes_on: "cn_read_packet an c = Done (r, c') \<Longrightarrow> goes_on c c'"
  by (auto simp: cn_read_packet_def split: if_splits dest!: async_read_goes_on intro: goes_on_from)

lemma start_websocket_goes_on:
  assumes "cn_start_websocket cbs an c = Done (r, c')"
  shows "goes_on c c'"
proof (cases "cn_state c = CnStarted")
  case False
  then show ?thesis using assms by (simp add: cn_start_websocket_def cn_set_state_def)
next
  case True
  let ?c = "c\<lparr>cn_state := CnUpgraded\<rparr>"
  have up: "goes_on c ?c" "goes_on c (?c\<lparr>cn_ws_cbs := True\<rparr>)" using True by (simp_all add: goes_on_def going_def)
  show ?thesis using assms True up goes_on_trans [OF up(2) async_read_goes_on]
    by (auto simp: cn_start_websocket_def cn_set_state_def split: if_splits)
qed

lemma do_goes_on: "cn_do call c = Done c' \<Longrightarrow> goes_on c c'"
  by (cases call)
    (auto simp: run_map_eq_Done cn_init_key_def intro: stop_goes_on goes_on_same
      dest: read_packet_goes_on send_packet_goes_on start_websocket_goes_on ws_send_goes_on)

lemma calls_goes_on: "cn_calls calls c = Done c' \<Longrightarrow> goes_on c c'"
  by (induction calls c rule: cn_calls.induct) (auto simp: run_bind_eq_Done intro: goes_on_trans [OF do_goes_on])

lemma handle_http_goes_on:
  assumes "cn_handle_http an calls b c = Done (n, c')" and "going c"
  shows "goes_on c c'"
proof (cases "cn_pending c")
  case None
  then show ?thesis using assms by (simp add: cn_handle_http_def)
next
  case (Some m)
  then obtain k m1 where p: "message_parse b m = Done (k, m1)"
    using assms(1) by (auto simp: cn_handle_http_def run_bind_eq_Done)
  let ?c = "c\<lparr>cn_pending := Some m1\<rparr>"
  have e: "goes_on c ?c" by (rule goes_on_same) simp_all
  show ?thesis
  proof (cases "message_finished m1")
    case True
    then have "cn_calls calls (cn_emit (CnPacketCb m1) ?c) = Done c'"
      using assms(1) Some p by (auto simp: cn_handle_http_def run_map_eq_Done)
    moreover have "goes_on ?c (cn_emit (CnPacketCb m1) ?c)" using assms(2) by (intro goes_on_emit) (simp_all add: going_def)
    ultimately show ?thesis using e goes_on_trans calls_goes_on by blast
  next
    case False
    then obtain r where "cn_async_read an ?c = Done (r, c')" using assms(1) Some p by (auto simp: cn_handle_http_def run_map_eq_Done)
    then show ?thesis using e goes_on_trans async_read_goes_on by blast
  qed
qed

lemma frame_event_goes_on:
  assumes "cn_frame_event an calls h payload c = Done (known, c')" and "going c"
  shows "goes_on c c'"
proof -
  have data: "goes_on c (cn_emit (CnFrameCb payload (fh_fin h)) c)" using assms(2) by (rule goes_on_emit) simp
  have close: "goes_on c (c\<lparr>cn_closed := True\<rparr>)" by (rule goes_on_same) simp_all
  consider "cn_calls calls (cn_emit (CnFrameCb payload (fh_fin h)) c) = Done c'"
    | c1 where "cn_send_frame 8 an (c\<lparr>cn_closed := True\<rparr>) = Done c1" "c' = cn_stop c1"
    | "cn_send_frame 10 an c = Done c'" | "c' = c"
    using assms(1) by (auto simp: cn_frame_event_def run_map_eq_Done split: if_splits)
  then show ?thesis
  proof cases
    case 1
    then show ?thesis using data goes_on_trans calls_goes_on by blast
  next
    case 2
    then show ?thesis using close goes_on_trans send_frame_goes_on stop_goes_on by blast
  next
    case 3
    then show ?thesis by (rule send_frame_goes_on)
  qed simp
qed

lemma take_frame_goes_on:
  assumes "cn_take_frame an calls iob c = Done (known, iob', c')" and "going c"
  shows "goes_on c c'"
proof -
  obtain h iob1 where u: "(if fh_unpacked (cn_frame c) then Done (cn_frame c, iob)
      else run_map (\<lambda>(ok, h, iob1). (h, iob1)) (unpack_header (cn_frame c) iob)) = Done (h, iob1)"
    using assms(1) unfolding cn_take_frame_def run_bind_eq_Done by auto
  note t = assms(1) [unfolded cn_take_frame_def u run_bind_simps prod.case Let_def]
  have h: "goes_on c (c\<lparr>cn_frame := h\<rparr>)" "going (c\<lparr>cn_frame := h\<rparr>)"
    using assms(2) by (simp_all add: going_def goes_on_same)
  have r: "c' = c\<lparr>cn_frame := h\<rparr> \<or> (\<exists>payload k c2. cn_frame_event an calls h payload (c\<lparr>cn_frame := h\<rparr>) = Done (k, c2) \<and>
      (c' = c2 \<or> c' = c2\<lparr>cn_frame := frame_reset (cn_frame c2)\<rparr>))"
  proof (cases "\<not> fh_unpacked h \<or> fh_len h > ucast (iob_size iob1)")
    case True
    then show ?thesis using t by (auto split: if_splits)
  next
    case False
    then have f: "\<not> \<not> fh_unpacked h" "\<not> fh_len h > ucast (iob_size iob1)" by auto
    note t = t [unfolded if_not_P [OF f(1)] if_not_P [OF f(2)]]
    obtain iob2 payload r where r: "cn_frame_event an calls h payload (c\<lparr>cn_frame := h\<rparr>) = Done r"
      "(known, iob', c') = cn_end_frame h iob2 r"
      using t unfolding run_bind_eq_Done run_map_eq_Done by blast
    then show ?thesis by (cases r) (auto simp: cn_end_frame_def split: if_splits)
  qed
  show ?thesis using r
  proof (elim disjE exE conjE)
    fix payload k c2 assume e: "cn_frame_event an calls h payload (c\<lparr>cn_frame := h\<rparr>) = Done (k, c2)"
    have g: "goes_on c c2" by (rule goes_on_trans [OF h(1) frame_event_goes_on [OF e h(2)]])
    show "goes_on c c'" if "c' = c2" using g that by simp
    show "goes_on c c'" if "c' = c2\<lparr>cn_frame := frame_reset (cn_frame c2)\<rparr>"
      unfolding that by (rule goes_on_trans [OF g goes_on_same]) simp_all
  qed (use h(1) in simp)
qed

lemma dispatch_goes_on:
  assumes "cn_dispatch stale an calls b c = Done (n, b', c')"
  shows "goes_on c c'"
proof (cases "cn_state c")
  case CnStarted
  then show ?thesis using assms handle_http_goes_on [of an calls b c n c']
    by (auto simp: cn_dispatch_def run_map_eq_Done going_def)
next
  case CnUpgraded
  then have "cn_handle_frame stale an calls b c = Done (n, b', c')" using assms by (simp add: cn_dispatch_def)
  then obtain iob known iob1 c1 where t: "cn_take_frame an calls iob c = Done (known, iob1, c1)"
    and r: "c' = c1 \<or> (\<exists>ok. cn_async_read an c1 = Done (ok, c'))"
    by (auto simp: cn_handle_frame_def run_bind_eq_Done run_map_eq_Done Let_def split: option.splits if_splits) blast+
  have "goes_on c c1" by (rule take_frame_goes_on [OF t]) (simp add: going_def CnUpgraded)
  then show ?thesis using r goes_on_trans async_read_goes_on by blast
qed (use assms in \<open>simp_all add: cn_dispatch_def\<close>)

lemma keep_rest_goes_on: "cn_keep_rest an cached n b c = Done c' \<Longrightarrow> goes_on c c'"
  by (auto simp: cn_keep_rest_def run_map_eq_Done intro!: goes_on_same split: option.splits if_splits)

lemma on_read_goes_on:
  assumes "cn_on_read stale an calls b c = Done c'"
  shows "goes_on c c'"
proof -
  obtain r where r: "cn_open_cache an c = Done r" using assms by (auto simp: cn_on_read_def run_bind_eq_Done)
  show ?thesis
  proof (cases r)
    case None
    then show ?thesis using assms r by (auto simp: cn_on_read_def intro: stop_goes_on)
  next
    case (Some cache)
    obtain ok cache1 where w: "(if 0 < iob_size cache then iob_write (an_alloc an) (Some b) (of_nat (length b)) cache
        else Done (True, cache)) = Done (ok, cache1)"
      using assms r Some by (auto simp: cn_on_read_def run_bind_eq_Done Let_def)
    define c1 where "c1 = c\<lparr>cn_cache := Some cache1\<rparr>"
    have e: "goes_on c c1" by (rule goes_on_same) (simp_all add: c1_def)
    show ?thesis
    proof (cases ok)
      case False
      then have "c' = cn_stop c1" using assms r Some w by (simp add: cn_on_read_def Let_def c1_def)
      then show ?thesis using e goes_on_trans stop_goes_on by blast
    next
      case True
      define b1 where "b1 = (if 0 < iob_size cache then iob_contents cache1 else b)"
      obtain n b2 c2 where d: "cn_dispatch stale an calls b1 c1 = Done (n, b2, c2)"
        and k: "c' = cn_stop c2 \<or> cn_keep_rest an (0 < iob_size cache) n b2 c2 = Done c'"
        using assms r Some w True by (auto simp: cn_on_read_def Let_def c1_def b1_def run_bind_eq_Done split: if_splits)
      have "goes_on c c2" by (rule goes_on_trans [OF e dispatch_goes_on [OF d]])
      then show ?thesis using k goes_on_trans stop_goes_on keep_rest_goes_on by blast
    qed
  qed
qed


text \<open>What the callbacks have been: an error is reported as the last of them.\<close>

definition errors :: "connection \<Rightarrow> cn_out list" where
  "errors c = filter is_error (cn_trace c)"

definition cn_ended :: "connection \<Rightarrow> bool" where
  "cn_ended c \<longleftrightarrow> cn_state c = CnError \<and> length (errors c) = 1 \<and> is_error (last (cn_trace c))"

definition cn_inv :: "connection \<Rightarrow> bool" where
  "cn_inv c \<longleftrightarrow> (if cn_state c = CnError then cn_ended c \<or> errors c = [] else errors c = [])"

lemma errors_none: "list_all (\<lambda>out. \<not> is_error out) outs \<Longrightarrow> filter is_error outs = []"
  by (simp add: list_all_iff filter_empty_conv)

lemma goes_on_errors: "goes_on c c' \<Longrightarrow> errors c' = errors c"
  unfolding goes_on_def errors_def by (elim conjE exE) (simp add: errors_none)

lemma goes_on_keeps:
  assumes "goes_on c c'"
  shows "(cn_ended c \<longrightarrow> cn_ended c') \<and> (cn_inv c \<longrightarrow> cn_inv c')"
proof (cases "going c")
  case True
  then have "cn_state c \<noteq> CnError" "cn_state c' \<noteq> CnError" using assms by (auto simp: goes_on_def going_def)
  then show ?thesis using goes_on_errors [OF assms] by (simp add: cn_inv_def cn_ended_def)
next
  case False
  then have "cn_state c' = cn_state c" "cn_trace c' = cn_trace c" using assms by (simp_all add: goes_on_def)
  then show ?thesis by (simp add: cn_inv_def cn_ended_def errors_def)
qed

lemma on_end_reports:
  assumes "cn_on_end reason calls c = Done c'" and "cn_inv c" and "going c"
  shows "cn_ended c'"
proof -
  obtain out c1 where "is_error out" "cn_calls calls (cn_emit out c1) = Done c'" "cn_state c1 = CnError" "cn_trace c1 = cn_trace c"
  proof (cases "cn_state c = CnStarted")
    case True
    then show thesis using assms(1) that [of "CnHttpErrorCb reason" "c\<lparr>cn_state := CnError\<rparr>"] by (simp add: cn_on_end_def)
  next
    case False
    then show thesis using assms(1,3)
        that [of "CnWsErrorCb (if cn_closed c then ''closed'' else reason)" "c\<lparr>cn_state := CnError, cn_closed := True\<rparr>"]
      by (simp add: cn_on_end_def going_def split: if_splits)
  qed
  moreover have "errors c = []" using assms(2,3) by (auto simp: cn_inv_def going_def)
  ultimately have "cn_ended (cn_emit out c1)" by (simp add: cn_ended_def cn_emit_def errors_def)
  then show ?thesis using goes_on_keeps [OF calls_goes_on] \<open>cn_calls calls (cn_emit out c1) = Done c'\<close> by blast
qed

lemma on_end_keeps:
  assumes "cn_on_end reason calls c = Done c'" and "cn_inv c"
  shows "cn_inv c' \<and> (cn_ended c \<longrightarrow> cn_ended c') \<and> (going c \<longrightarrow> cn_ended c')"
proof (cases "going c")
  case True
  then show ?thesis using on_end_reports [OF assms] by (simp add: cn_inv_def cn_ended_def)
next
  case False
  then have "c' = c" using assms(1) by (auto simp: cn_on_end_def going_def split: cn_state.splits)
  then show ?thesis using assms(2) False by simp
qed

definition ends :: "tp_out \<Rightarrow> bool" where
  "ends out \<longleftrightarrow> out = OutStopped \<or> out = OutDisconnected"

lemma callbacks_keep:
  "cn_callbacks stale an calls outs c = Done c' \<Longrightarrow> cn_inv c \<Longrightarrow>
    cn_inv c' \<and> (cn_ended c \<longrightarrow> cn_ended c') \<and> (going c \<and> list_ex ends outs \<longrightarrow> cn_ended c')"
proof (induction outs arbitrary: c)
  case (Cons out outs)
  obtain c1 where c1: "(case out of OutRead b \<Rightarrow> cn_on_read stale an calls b c | OutDisconnected \<Rightarrow> cn_on_disconnected calls c
      | OutStopped \<Rightarrow> cn_on_stopped calls c | _ \<Rightarrow> Done c) = Done c1" "cn_callbacks stale an calls outs c1 = Done c'"
    using Cons.prems(1) by (auto simp: run_bind_eq_Done)
  have one: "cn_inv c1 \<and> (cn_ended c \<longrightarrow> cn_ended c1) \<and> (going c \<longrightarrow> (if ends out then cn_ended c1 else going c1))"
  proof (cases "ends out")
    case True
    then show ?thesis using c1(1) on_end_keeps [OF _ Cons.prems(2)]
      by (auto simp: ends_def cn_on_disconnected_def cn_on_stopped_def)
  next
    case False
    then have "goes_on c c1" using c1(1) on_read_goes_on by (cases out) (auto simp: ends_def)
    then show ?thesis using False goes_on_keeps Cons.prems(2) by (auto simp: goes_on_def)
  qed
  then have "cn_inv c1" by simp
  from Cons.IH [OF c1(2) this] one show ?case by (auto split: if_splits)
qed simp

lemma cn_inv_transp [simp]: "cn_inv (c\<lparr>cn_transp := tp\<rparr>) = cn_inv c"
  by (cases "cn_state c") (simp_all add: cn_inv_def cn_ended_def errors_def)

lemma start_http_inv: "cn_inv c \<Longrightarrow> cn_inv (snd (cn_start_http sv cbs ok_r ok_s c))"
  by (auto simp: cn_start_http_def cn_set_state_def cn_inv_def cn_ended_def errors_def Let_def split: option.splits prod.splits)

lemma cn_event_keeps:
  assumes "cn_event event stale an calls c = Done c'" and "cn_inv c"
  shows "cn_inv c'"
proof -
  obtain t t1 :: transport where t: "cn_callbacks stale an calls (drop (length (tp_trace t)) (tp_trace t1)) (c\<lparr>cn_transp := Some t1\<rparr>) = Done c'"
    using assms(1) by (auto simp: cn_event_def run_bind_eq_Done split: option.splits)
  then show ?thesis using callbacks_keep [OF t] assms(2) by simp
qed

lemma cn_reachable_inv: "cn_reachable c \<Longrightarrow> cn_inv c"
proof (induction rule: cn_reachable.induct)
  case (start server flag tp)
  then show ?case by (simp add: cn_new_def cn_inv_def errors_def)
next
  case (step c op c')
  then show ?case
    using goes_on_keeps [OF do_goes_on] by (cases op) (auto intro: start_http_inv dest: cn_event_keeps)
qed


text \<open>
  C4. A connection tells its owner about its end once: no error is reported while it is
  started or upgraded, at most one ever, and then nothing else is called back, whatever the
  owner calls from its callbacks.
\<close>

theorem connection_reports_end_once:
  assumes "cn_reachable c"
  shows "(cn_state c \<noteq> CnError \<longrightarrow> errors c = []) \<and> length (errors c) \<le> 1 \<and>
    (errors c \<noteq> [] \<longrightarrow> is_error (last (cn_trace c)))"
  using cn_reachable_inv [OF assms] by (cases "cn_state c") (auto simp: cn_inv_def cn_ended_def)

text \<open>
  When the TCP transport of a running connection calls back that it has stopped or was
  disconnected, the connection is in its error state at the end of that event and has reported
  exactly one error.
\<close>

theorem connection_hears_the_end:
  assumes "cn_reachable c" and "cn_state c = CnStarted \<or> cn_state c = CnUpgraded" and "cn_transp c = Some t"
    and "tcp_exec op t = Done t1" and "\<exists>out\<in>set (drop (length (tp_trace t)) (tp_trace t1)). out = OutStopped \<or> out = OutDisconnected"
    and "cn_exec (CnTcp op stale an calls) c = Done c'"
  shows "cn_state c' = CnError \<and> length (errors c') = 1"
proof -
  have c: "cn_callbacks stale an calls (drop (length (tp_trace t)) (tp_trace t1)) (c\<lparr>cn_transp := Some t1\<rparr>) = Done c'"
    using assms(3,4,6) by (simp add: cn_event_def)
  have g: "cn_inv (c\<lparr>cn_transp := Some t1\<rparr>)" "going (c\<lparr>cn_transp := Some t1\<rparr>)"
    using cn_reachable_inv [OF assms(1)] assms(2) by (auto simp: going_def)
  have "list_ex ends (drop (length (tp_trace t)) (tp_trace t1))" using assms(5) by (simp add: list_ex_iff ends_def)
  then have "cn_ended c'" using callbacks_keep [OF c g(1)] g(2) by blast
  then show ?thesis by (simp add: cn_ended_def)
qed

text \<open>An HTTP client connection on a TCP transport that has been started and waits for its response.\<close>

definition any_answers :: answers where
  "any_answers = \<lparr>an_alloc = zero_alloc, an_taken = 0, an_send = True, an_read = True, an_unread = False\<rparr>"

definition cn_fresh :: connection where
  "cn_fresh = cn_new False False (Some (tcp_init 5 tcp_new))"

fun cn_run :: "cn_op list \<Rightarrow> connection \<Rightarrow> connection option" where
  "cn_run [] c = Some c"
| "cn_run (op # ops) c = (if cn_legal op c then (case cn_exec op c of Done c' \<Rightarrow> cn_run ops c' | _ \<Rightarrow> None) else None)"

lemma cn_run_reachable: "cn_run ops c = Some c' \<Longrightarrow> cn_reachable c \<Longrightarrow> cn_reachable c'"
  by (induction ops c rule: cn_run.induct) (auto split: if_splits run.splits intro: cn_reachable.step)

definition ex_reading :: "cn_op list" where
  "ex_reading = [CnStartHttp True True True True, CnCall (CallReadPacket any_answers)]"

theorem connection_reports_end_once_witness:
  "\<exists>c. cn_run (ex_reading @ [CnTcp (OpReadEvent None True) 0 any_answers [CallStop]]) cn_fresh = Some c \<and>
    errors c = [CnHttpErrorCb ''disconnected''] \<and> is_error (last (cn_trace c))"
proof -
  have "(case cn_run (ex_reading @ [CnTcp (OpReadEvent None True) 0 any_answers [CallStop]]) cn_fresh of
      Some c \<Rightarrow> errors c = [CnHttpErrorCb ''disconnected''] | None \<Rightarrow> False)" by code_simp
  then obtain c where c: "cn_run (ex_reading @ [CnTcp (OpReadEvent None True) 0 any_answers [CallStop]]) cn_fresh = Some c"
    "errors c = [CnHttpErrorCb ''disconnected'']" by (auto split: option.splits)
  have "cn_reachable c" by (rule cn_run_reachable [OF c(1)]) (simp add: cn_fresh_def cn_reachable.start)
  from connection_reports_end_once [OF this] c show ?thesis by auto
qed

theorem connection_hears_the_end_witness:
  "\<exists>c c'. cn_run ex_reading cn_fresh = Some c \<and> cn_exec (CnTcp (OpReadEvent None True) 0 any_answers [CallStop]) c = Done c' \<and>
    cn_state c' = CnError \<and> length (errors c') = 1"
proof -
  let ?op = "OpReadEvent None True"
  have "(case cn_run ex_reading cn_fresh of None \<Rightarrow> False | Some c \<Rightarrow> cn_state c = CnStarted \<and>
      (case cn_transp c of None \<Rightarrow> False | Some t \<Rightarrow>
        (case tcp_exec ?op t of Done t1 \<Rightarrow> list_ex ends (drop (length (tp_trace t)) (tp_trace t1)) | _ \<Rightarrow> False)) \<and>
      (case cn_exec (CnTcp ?op 0 any_answers [CallStop]) c of Done c' \<Rightarrow> True | _ \<Rightarrow> False))" by code_simp
  then obtain c t t1 c' where f: "cn_run ex_reading cn_fresh = Some c" "cn_state c = CnStarted" "cn_transp c = Some t"
    "tcp_exec ?op t = Done t1" "list_ex ends (drop (length (tp_trace t)) (tp_trace t1))"
    "cn_exec (CnTcp ?op 0 any_answers [CallStop]) c = Done c'"
    by (auto split: option.splits run.splits simp del: cn_exec.simps tcp_exec.simps)
  have "cn_reachable c" by (rule cn_run_reachable [OF f(1)]) (simp add: cn_fresh_def cn_reachable.start)
  moreover have "\<exists>out\<in>set (drop (length (tp_trace t)) (tp_trace t1)). out = OutStopped \<or> out = OutDisconnected"
    using f(5) by (auto simp: list_ex_iff ends_def)
  ultimately show ?thesis using connection_hears_the_end [of c t ?op t1 0 any_answers "[CallStop]" c'] f by auto
qed

end
