(* ===== verification/Connection_Http.thy ===== *)
theory Connection_Http
  imports Connection
begin

text \<open>
  Messages through a connection: whatever the pieces are in which the bytes of a message
  arrive, the owner is called once, with the message, and the bytes behind it stay in the
  cache for the next one.
\<close>

section \<open>Messages through a connection\<close>

definition message_waits :: "message \<Rightarrow> byte list \<Rightarrow> message \<Rightarrow> bool" where
  "message_waits m msg m' \<longleftrightarrow>
     (\<exists>q q'. m = MsgRequest q \<and> m' = MsgRequest q' \<and> request_waits q msg q') \<or>
     (\<exists>s s'. m = MsgResponse s \<and> m' = MsgResponse s' \<and> response_waits s msg s')"

interpretation messages: stream_parser message_parse message_finished message_waits
proof unfold_locales
  fix m m' and msg rest :: "byte list"
  assume "message_waits m msg m'"
  then show "message_parse (msg @ rest) m = Done (int (length msg), m') \<and> message_finished m'"
    using requests.whole [of _ msg _ rest] responses.whole [of _ msg _ rest]
    by (fastforce simp: message_waits_def message_parse_def message_finished_def)
next
  fix m m' and p q :: "byte list"
  assume "message_waits m (p @ q) m'" and q: "q \<noteq> []"
  then consider (rq) r r' where "m = MsgRequest r" "m' = MsgRequest r'" "request_waits r (p @ q) r'"
    | (rs) r r' where "m = MsgResponse r" "m' = MsgResponse r'" "response_waits r (p @ q) r'"
    by (auto simp: message_waits_def)
  then show "\<exists>k m1. message_parse p m = Done (int k, m1) \<and> k \<le> length p \<and> message_waits m1 (drop k p @ q) m'"
  proof cases
    case rq
    then show ?thesis using requests.cut [OF rq(3) q] by (fastforce simp: message_parse_def message_waits_def)
  next
    case rs
    then show ?thesis using responses.cut [OF rs(3) q] by (fastforce simp: message_parse_def message_waits_def)
  qed
next
  fix m m' and msg :: "byte list"
  assume "message_waits m msg m'"
  then show "\<not> message_finished m"
    using requests.unfinished responses.unfinished by (auto simp: message_waits_def message_finished_def)
qed

section \<open>The cache\<close>

definition cache_ok :: "io_buffer \<Rightarrow> bool" where
  "cache_ok iob \<longleftrightarrow> iob_wf iob \<and> iob_alloced iob \<and> unat (iob_raw_size iob) \<le> 3 * 2 ^ 28"

lemma grow_bound: "(r::nat) \<le> n + s \<Longrightarrow> (r + n) div 2 * 3 \<le> 3 * (n + s)"
proof -
  assume "r \<le> n + s"
  then have "(r + n) div 2 \<le> n + s" by (intro div_le_mono [of "r + n" "(n + s) * 2" 2, simplified]) simp
  then show ?thesis by simp
qed

lemma reserve_bound:
  assumes "iob_reserve al n iob = Done (ok, iob')" and "iob_wf iob" and "grow_fits n iob"
  shows "unat (iob_raw_size iob') \<le> max (unat (iob_raw_size iob)) (3 * (unat n + unat (iob_size iob)))"
proof (cases "n > iob_raw_size iob - iob_rpos iob - iob_size iob \<and> \<not> n + iob_size iob < iob_raw_size iob")
  case False
  then have "iob_raw_size iob' = iob_raw_size iob"
  proof (cases "n > iob_raw_size iob - iob_rpos iob - iob_size iob")
    case True
    then have "n + iob_size iob < iob_raw_size iob" using False by simp
    then show ?thesis using assms(1) True by (auto simp: iob_reserve_def run_bind_eq_Done)
  qed (use assms(1) in \<open>simp add: iob_reserve_def\<close>)
  then show ?thesis by simp
next
  case True
  have "unat (n + iob_size iob) = unat n + unat (iob_size iob)"
    using grow_fitsD(1) [OF assms(3)] assms(2) by (intro unat_add_small) (simp add: iob_wf_def)
  then have "unat (iob_raw_size iob) \<le> unat n + unat (iob_size iob)" using conjunct2 [OF True] by (simp only: word_less_nat_alt not_less)
  note g = grow_bound [OF this]
  let ?new = "(iob_raw_size iob + n) div 2 * 3"
  have "iob_raw_size iob' = iob_raw_size iob \<or> iob_raw_size iob' = ?new"
  proof (cases "pump_realloc al (iob_raw iob) ?new")
    case None
    then show ?thesis using assms(1) True by (simp add: iob_reserve_def Let_def)
  next
    case (Some r)
    then show ?thesis using assms(1) True by (auto simp: iob_reserve_def Let_def)
  qed
  then show ?thesis
  proof
    assume e: "iob_raw_size iob' = ?new"
    show ?thesis unfolding e grow_fitsD(2) [OF assms(3)] using g by (rule max.coboundedI2)
  qed simp
qed

lemma write_bound:
  assumes "iob_write al (Some bs) n iob = Done (ok, iob')" and "iob_wf iob" and "grow_fits n iob" and "alloc_ok al"
    and "iob_raw iob = None \<Longrightarrow> al n \<noteq> None"
  shows "unat (iob_raw_size iob') \<le> max (unat (iob_raw_size iob)) (3 * (unat n + unat (iob_size iob)))"
proof (cases "iob_alloced iob \<and> n \<noteq> 0")
  case False
  then show ?thesis using assms(1) by (cases "iob_alloced iob") (simp_all add: iob_write_def)
next
  case True
  show ?thesis
  proof (cases "iob_raw iob")
    case None
    then obtain blk where blk: "al n = Some blk" using assms(5) by auto
    have "iob_size iob = 0" "iob_rpos iob = 0"
      using None assms(2) by (auto simp: iob_wf_def raw_bytes_def unat_eq_0)
    then show ?thesis using assms(1) True None blk
      by (auto simp: iob_write_def init_by_alloc_def iob_reserve_def iob_append_raw_def run_bind_eq_Done Let_def)
  next
    case (Some raw)
    define iob2 where "iob2 = (if iob_rpos iob = iob_raw_size iob then iob_clear iob else iob)"
    note c = iob_clear_if_full [OF assms(2), folded iob2_def]
    have "grow_fits n iob2" using assms(3) c(6) by (simp add: grow_fits_def)
    moreover obtain ok3 iob3 where r: "iob_reserve al n iob2 = Done (ok3, iob3)" "iob_raw_size iob' = iob_raw_size iob3"
      using assms(1) True Some
      by (auto simp: iob_write_def iob_append_raw_def run_bind_eq_Done Let_def iob2_def split: if_splits)
    ultimately show ?thesis using reserve_bound [OF r(1) c(1)] r(2) c(6)
      by (auto simp: iob2_def iob_clear_def split: if_splits)
  qed
qed

lemma cache_write:
  assumes "cache_ok iob" and "alloc_ok al" and "\<forall>m. al m \<noteq> None" and "bs \<noteq> []"
    and "length bs + unat (iob_size iob) \<le> 2 ^ 28"
  shows "\<exists>iob'. iob_write al (Some bs) (of_nat (length bs)) iob = Done (True, iob') \<and> cache_ok iob' \<and>
    iob_contents iob' = iob_contents iob @ bs"
proof -
  let ?n = "of_nat (length bs) :: u32"
  have n: "unat ?n = length bs" using assms(5) by (intro unat_of_nat_u32) simp
  then have "0 < unat ?n" using assms(4) by simp
  then have pos: "0 < ?n" by (simp add: word_less_nat_alt)
  have w: "iob_wf iob" "iob_alloced iob" "unat (iob_raw_size iob) \<le> 3 * 2 ^ 28" using assms(1) by (simp_all add: cache_ok_def)
  have fits: "grow_fits ?n iob" unfolding grow_fits_def n using w(3) assms(5) by simp
  have twice: "(unat ?n + unat ?n) div 2 * 3 < 2 ^ 32" unfolding n using assms(5) by simp
  obtain ok iob' where i: "iob_write al (Some bs) ?n iob = Done (ok, iob')" "iob_wf iob'"
    "iob_contents iob' = iob_contents iob @ (if ok then bs else [])" "iob_alloced iob'" "(\<forall>m. al m \<noteq> None) \<longrightarrow> ok"
    using iob_write_spec [OF w(1,2) assms(2) n [symmetric] pos fits] assms(3) twice by metis
  have "unat (iob_raw_size iob') \<le> max (unat (iob_raw_size iob)) (3 * (unat ?n + unat (iob_size iob)))"
    by (rule write_bound [OF i(1) w(1) fits assms(2)]) (use assms(3) in simp)
  then have "unat (iob_raw_size iob') \<le> 3 * 2 ^ 28" unfolding n using w(3) assms(5) by simp
  then show ?thesis using i assms(3) by (simp add: cache_ok_def)
qed

lemma cache_shift:
  assumes "cache_ok iob" and "k \<le> unat (iob_size iob)"
  shows "cache_ok (snd (iob_shift (int k) iob)) \<and> iob_contents (snd (iob_shift (int k) iob)) = drop k (iob_contents iob)"
proof -
  have k: "unat (of_nat k :: u32) = k" using assms(2) unat_u32 [of "iob_size iob"] by (intro unat_of_nat_u32) simp
  have w: "iob_wf iob" "unat (iob_raw_size iob) < 2 ^ 31" using assms(1) by (simp_all add: cache_ok_def)
  have d: "unat (of_nat k :: u32) \<le> unat (iob_size iob)" using assms(2) k by simp
  show ?thesis using iob_shift_right [OF w(1) d w(2)] iob_advance_wf [OF w(1) d] assms(1) unfolding k
    by (simp add: cache_ok_def)
qed

lemma cache_same_contents:
  assumes "iob_wf iob" and "0 < iob_size iob"
  shows "run_map (\<lambda>raw. iob\<lparr>iob_raw := Some raw\<rparr>) (mem_write (raw_bytes iob) (unat (iob_rpos iob)) (iob_contents iob)) = Done iob"
proof -
  have s: "0 < unat (iob_size iob)" using assms(2) by (simp add: unat_gt_0)
  obtain raw where raw: "iob_raw iob = Some raw" using assms(1) s by (cases "iob_raw iob") (auto simp: iob_wf_def raw_bytes_def)
  have b: "unat (iob_rpos iob) + unat (iob_size iob) \<le> length raw" using assms(1) raw by (simp add: iob_wf_def raw_bytes_def)
  have "take (unat (iob_rpos iob)) raw @ iob_contents iob @ drop (unat (iob_rpos iob) + unat (iob_size iob)) raw = raw"
    using append_take_drop_id [of "unat (iob_size iob)" "drop (unat (iob_rpos iob)) raw"] raw
    by (simp add: iob_contents_def raw_bytes_def add.commute)
  then have "mem_write (raw_bytes iob) (unat (iob_rpos iob)) (iob_contents iob) = Done raw"
    using raw b length_iob_contents [OF assms(1)] by (simp add: mem_write_def raw_bytes_def)
  then show ?thesis using raw by simp
qed

section \<open>One piece\<close>

text \<open>A transport in the once mode whose read is pending, or is not.\<close>

definition readable :: "read_state \<Rightarrow> transport \<Rightarrow> bool" where
  "readable rs t \<longleftrightarrow> tp_type t = TransportTcp \<and> tp_state t = StStarted \<and> tp_flow t \<noteq> None \<and> tp_rmode t = ReadModeOnce \<and>
     tp_rstate t = rs \<and> has_poller (tp_r_tracker t) \<and> (is_tracked (tp_r_tracker t) \<longleftrightarrow> rs = ReadPending)"

lemma read_event_readable:
  assumes "readable ReadPending t"
  shows "\<exists>t1. tcp_exec (OpReadEvent (Some b) ok) t = Done t1 \<and> readable ReadNone t1 \<and> tp_trace t1 = tp_trace t @ [OutRead b]"
  using assms by (auto simp: readable_def tcp_on_read_event_def change_read_state_def emit_def)

lemma async_read_readable:
  assumes "readable ReadNone t" and "an_read an"
  shows "\<exists>t1. transport_async_read an t = Done (ErrNone, t1) \<and> readable ReadPending t1"
proof -
  obtain k where k: "tp_r_tracker t = Some k" "trk_poller k" using assms(1) by (cases "tp_r_tracker t") (auto simp: readable_def has_poller_def)
  then show ?thesis using assms
    by (auto simp: readable_def transport_async_read_def tcp_async_read_def is_started_def is_state_def change_read_state_def
        start_read_tracker_def start_tracker_def has_poller_def is_tracked_def)
qed

definition good_answers :: "answers \<Rightarrow> bool" where
  "good_answers an \<longleftrightarrow> alloc_ok (an_alloc an) \<and> (\<forall>n. an_alloc an n \<noteq> None) \<and> an_read an"

definition buffered :: "connection \<Rightarrow> byte list" where
  "buffered c = (case cn_cache c of None \<Rightarrow> [] | Some iob \<Rightarrow> iob_contents iob)"

definition cn_reads :: "read_state \<Rightarrow> connection \<Rightarrow> bool" where
  "cn_reads rs c \<longleftrightarrow> cn_state c = CnStarted \<and> (\<exists>t. cn_transp c = Some t \<and> readable rs t) \<and>
     (case cn_cache c of None \<Rightarrow> True | Some iob \<Rightarrow> cache_ok iob)"

definition cn_waiting :: "connection \<Rightarrow> message \<Rightarrow> bool" where
  "cn_waiting c m \<longleftrightarrow> cn_reads ReadPending c \<and> cn_pending c = Some m"

lemma open_cache:
  assumes "case cn_cache c of None \<Rightarrow> True | Some iob \<Rightarrow> cache_ok iob"
  shows "\<exists>cache. cn_open_cache an c = Done (Some cache) \<and> cache_ok cache \<and> iob_contents cache = buffered c"
proof (cases "cn_cache c")
  case None
  have "cache_ok (iob_new True)" using iob_new_wf [of True] by (simp add: cache_ok_def)
  then show ?thesis using None by (simp add: cn_open_cache_def iob_create_def buffered_def iob_new_wf)
next
  case (Some iob)
  then show ?thesis using assms by (simp add: cn_open_cache_def buffered_def)
qed

text \<open>What has been kept and what arrives is handed to the handler; what it leaves is kept.\<close>

lemma on_read_keeps:
  assumes "case cn_cache c of None \<Rightarrow> True | Some iob \<Rightarrow> cache_ok iob" and "cn_state c = CnStarted" and "good_answers an"
    and "b \<noteq> []" and "length (buffered c @ b) \<le> 2 ^ 28"
  shows "\<exists>cache1. cache_ok cache1 \<and> (\<forall>k c2. cn_handle_http an calls (buffered c @ b) (c\<lparr>cn_cache := Some cache1\<rparr>) = Done (int k, c2) \<longrightarrow>
    k \<le> length (buffered c @ b) \<longrightarrow> cn_cache c2 = Some cache1 \<longrightarrow>
    (\<exists>cache2. cn_on_read stale an calls b c = Done (c2\<lparr>cn_cache := Some cache2\<rparr>) \<and> cache_ok cache2 \<and>
      iob_contents cache2 = drop k (buffered c @ b)))"
proof -
  obtain cache where o: "cn_open_cache an c = Done (Some cache)" "cache_ok cache" "iob_contents cache = buffered c"
    using open_cache [OF assms(1)] by blast
  have al: "alloc_ok (an_alloc an)" "\<forall>m. an_alloc an m \<noteq> None" using assms(3) by (simp_all add: good_answers_def)
  have len: "length (buffered c) = unat (iob_size cache)"
    using length_iob_contents [of cache] o(2,3) by (simp add: cache_ok_def)
  show ?thesis
  proof (cases "0 < iob_size cache")
    case True
    have "length b + unat (iob_size cache) \<le> 2 ^ 28" using assms(5) len by simp
    from cache_write [OF o(2) al assms(4) this] obtain cache1 where w:
      "iob_write (an_alloc an) (Some b) (of_nat (length b)) cache = Done (True, cache1)" "cache_ok cache1"
      "iob_contents cache1 = buffered c @ b" using o(3) by auto
    have l1: "unat (iob_size cache1) = length (buffered c @ b)"
      using length_iob_contents [of cache1] w(2,3) by (simp add: cache_ok_def)
    then have "0 < iob_size cache1" using assms(4) by (simp add: word_less_nat_alt)
    note same = cache_same_contents [OF _ this]
    show ?thesis
    proof (rule exI [of _ cache1], intro conjI allI impI)
      fix k c2
      assume h: "cn_handle_http an calls (buffered c @ b) (c\<lparr>cn_cache := Some cache1\<rparr>) = Done (int k, c2)"
        "k \<le> length (buffered c @ b)" "cn_cache c2 = Some cache1"
      let ?cache2 = "snd (iob_shift (int k) cache1)"
      obtain raw where raw: "mem_write (raw_bytes cache1) (unat (iob_rpos cache1)) (buffered c @ b) = Done raw"
        "cache1\<lparr>iob_raw := Some raw\<rparr> = cache1"
        using same w(2,3) by (auto simp: cache_ok_def run_map_eq_Done)
      have "cn_keep_rest an True (int k) (buffered c @ b) c2 = Done (c2\<lparr>cn_cache := Some ?cache2\<rparr>)"
        using h(3) raw by (simp add: cn_keep_rest_def)
      then have "cn_on_read stale an calls b c = Done (c2\<lparr>cn_cache := Some ?cache2\<rparr>)"
        using o(1) True w(1,3) h(1) assms(2) by (simp add: cn_on_read_def cn_dispatch_def Let_def)
      then show "\<exists>cache2. cn_on_read stale an calls b c = Done (c2\<lparr>cn_cache := Some cache2\<rparr>) \<and> cache_ok cache2 \<and>
          iob_contents cache2 = drop k (buffered c @ b)"
        using cache_shift [OF w(2), of k] h(2) l1 w(3) by (intro exI [of _ ?cache2]) simp
    qed (rule w(2))
  next
    case False
    then have z: "buffered c = []" "iob_contents cache = []" using len o(3) by (simp_all add: word_less_nat_alt)
    show ?thesis
    proof (rule exI [of _ cache], intro conjI allI impI)
      fix k c2
      assume h: "cn_handle_http an calls (buffered c @ b) (c\<lparr>cn_cache := Some cache\<rparr>) = Done (int k, c2)"
        "k \<le> length (buffered c @ b)" "cn_cache c2 = Some cache"
      have "\<exists>cache2. cn_keep_rest an False (int k) b c2 = Done (c2\<lparr>cn_cache := Some cache2\<rparr>) \<and> cache_ok cache2 \<and>
          iob_contents cache2 = drop k b"
      proof (cases "k < length b")
        case True
        have "unat (iob_size cache) = 0" using len z by simp
        then have "length (drop k b) + unat (iob_size cache) \<le> 2 ^ 28" using assms(5) z(1) by simp
        from cache_write [OF o(2) al _ this] show ?thesis using True h(3) z(2) by (auto simp: cn_keep_rest_def)
      next
        case False
        then have "cn_keep_rest an False (int k) b c2 = Done c2" using h(3) by (simp add: cn_keep_rest_def)
        moreover have "c2 = c2\<lparr>cn_cache := Some cache\<rparr>" using h(3) by simp
        ultimately show ?thesis using o(2) z(2) False by (intro exI [of _ cache]) simp
      qed
      then show "\<exists>cache2. cn_on_read stale an calls b c = Done (c2\<lparr>cn_cache := Some cache2\<rparr>) \<and> cache_ok cache2 \<and>
          iob_contents cache2 = drop k (buffered c @ b)"
        using o(1) False h(1) assms(2) z(1) by (simp add: cn_on_read_def cn_dispatch_def Let_def)
    qed (rule o(2))
  qed
qed

lemma cn_async_read_reads:
  assumes "cn_reads ReadNone c" and "good_answers an"
  shows "\<exists>t. cn_async_read an c = Done (True, c\<lparr>cn_transp := Some t\<rparr>) \<and> readable ReadPending t"
proof -
  obtain t where t: "cn_transp c = Some t" "readable ReadNone t" using assms(1) by (auto simp: cn_reads_def)
  then show ?thesis using async_read_readable [OF t(2), of an] assms(2)
    by (auto simp: cn_async_read_def good_answers_def)
qed

text \<open>The read event of the transport with the callback it makes; \<open>calls\<close>: what the owner does in its callback.\<close>

definition read_op :: "answers \<Rightarrow> cn_call list \<Rightarrow> byte list \<Rightarrow> cn_op" where
  "read_op an calls b = CnTcp (OpReadEvent (Some b) True) 0 an calls"

lemma read_op_exec:
  assumes "cn_reads ReadPending c"
  shows "cn_legal (read_op an calls b) c \<and> (\<exists>t. cn_reads ReadNone (c\<lparr>cn_transp := Some t\<rparr>) \<and>
    cn_exec (read_op an calls b) c = cn_on_read 0 an calls b (c\<lparr>cn_transp := Some t\<rparr>))"
proof -
  obtain t where t: "cn_transp c = Some t" "readable ReadPending t" using assms by (auto simp: cn_reads_def)
  obtain t1 where t1: "tcp_exec (OpReadEvent (Some b) True) t = Done t1" "readable ReadNone t1"
    "tp_trace t1 = tp_trace t @ [OutRead b]" using read_event_readable [OF t(2)] by blast
  have "cn_exec (read_op an calls b) c = cn_on_read 0 an calls b (c\<lparr>cn_transp := Some t1\<rparr>)"
    using t(1) t1 by (simp add: read_op_def cn_event_def del: tcp_exec.simps)
      (cases "cn_on_read 0 an calls b (c\<lparr>cn_transp := Some t1\<rparr>)"; simp)
  moreover have "cn_legal (read_op an calls b) c" using t by (simp add: read_op_def readable_def)
  ultimately show ?thesis using assms t1(2) by (auto simp: cn_reads_def)
qed

text \<open>A piece that does not end the message.\<close>

lemma piece_waits:
  assumes "cn_waiting c m" and "message_waits m msg m'" and "good_answers an" and "b \<noteq> []"
    and "(buffered c @ b) @ q = msg @ rest" and "length (buffered c @ b) < length msg" and "length (buffered c @ b) \<le> 2 ^ 28"
  shows "\<exists>c1 m1 r. cn_run [read_op an calls b] c = Some c1 \<and> cn_waiting c1 m1 \<and> message_waits m1 r m' \<and>
    buffered c1 @ q = r @ rest \<and> length (buffered c1) \<le> length (buffered c @ b) \<and>
    cn_trace c1 = cn_trace c \<and> cn_server c1 = cn_server c"
proof -
  obtain k m1 r where p: "message_parse (buffered c @ b) m = Done (int k, m1)" "k \<le> length (buffered c @ b)"
    "message_waits m1 r m'" "drop k (buffered c @ b) @ q = r @ rest"
    using messages.cut_before_end [OF assms(2,5,6)] by blast
  obtain t where t: "cn_reads ReadNone (c\<lparr>cn_transp := Some t\<rparr>)" "cn_legal (read_op an calls b) c"
    "cn_exec (read_op an calls b) c = cn_on_read 0 an calls b (c\<lparr>cn_transp := Some t\<rparr>)"
    using read_op_exec [of c an calls b] assms(1) by (auto simp: cn_waiting_def)
  let ?c = "c\<lparr>cn_transp := Some t\<rparr>"
  have bf: "buffered ?c = buffered c" by (simp add: buffered_def)
  obtain cache1 where k: "cache_ok cache1"
    "\<And>k c2. cn_handle_http an calls (buffered c @ b) (?c\<lparr>cn_cache := Some cache1\<rparr>) = Done (int k, c2) \<Longrightarrow>
      k \<le> length (buffered c @ b) \<Longrightarrow> cn_cache c2 = Some cache1 \<Longrightarrow>
      (\<exists>cache2. cn_on_read 0 an calls b ?c = Done (c2\<lparr>cn_cache := Some cache2\<rparr>) \<and> cache_ok cache2 \<and>
        iob_contents cache2 = drop k (buffered c @ b))"
    using on_read_keeps [of ?c an b "calls" 0] t(1) assms(3,4,7) unfolding bf by (auto simp: cn_reads_def)
  let ?c1 = "?c\<lparr>cn_cache := Some cache1\<rparr>"
  have rd: "cn_reads ReadNone (?c1\<lparr>cn_pending := Some m1\<rparr>)" using t(1) k(1) by (simp add: cn_reads_def)
  obtain t2 where a: "cn_async_read an (?c1\<lparr>cn_pending := Some m1\<rparr>) = Done (True, ?c1\<lparr>cn_pending := Some m1, cn_transp := Some t2\<rparr>)"
    "readable ReadPending t2" using cn_async_read_reads [OF rd assms(3)] by blast
  have "cn_handle_http an calls (buffered c @ b) ?c1 = Done (int k, ?c1\<lparr>cn_pending := Some m1, cn_transp := Some t2\<rparr>)"
    using assms(1) p(1) messages.unfinished [OF p(3)] a(1) by (simp add: cn_handle_http_def cn_waiting_def)
  from k(2) [OF this p(2)] obtain cache2 where e: "cn_on_read 0 an calls b ?c =
      Done (?c1\<lparr>cn_pending := Some m1, cn_transp := Some t2, cn_cache := Some cache2\<rparr>)" "cache_ok cache2"
    "iob_contents cache2 = drop k (buffered c @ b)" by auto
  let ?c2 = "?c1\<lparr>cn_pending := Some m1, cn_transp := Some t2, cn_cache := Some cache2\<rparr>"
  have "cn_run [read_op an calls b] c = Some ?c2" using t(2,3) e(1) by simp
  moreover have "cn_waiting ?c2 m1" using assms(1) a(2) e(2) by (simp add: cn_waiting_def cn_reads_def)
  moreover have "buffered ?c2 @ q = r @ rest" using e(3) p(4) by (simp add: buffered_def)
  moreover have "length (buffered ?c2) \<le> length (buffered c @ b)" using e(3) by (simp add: buffered_def)
  ultimately show ?thesis using p(3) by (intro exI [of _ ?c2] exI [of _ m1] exI [of _ r]) simp
qed

text \<open>
  The piece that ends it. The owner is called with the message while the transport is not
  read; what its calls then do with the connection is \<open>P\<close>, which does not depend on the cache.
\<close>

definition called_with :: "(connection \<Rightarrow> bool) \<Rightarrow> cn_call list \<Rightarrow> message \<Rightarrow> bool \<Rightarrow> cn_out list \<Rightarrow> bool" where
  "called_with P calls m server trace \<longleftrightarrow>
     (\<forall>c. cn_reads ReadNone c \<longrightarrow> cn_pending c = Some m \<longrightarrow> cn_server c = server \<longrightarrow> cn_trace c = trace @ [CnPacketCb m] \<longrightarrow>
       (\<exists>c2. cn_calls calls c = Done c2 \<and> cn_cache c2 = cn_cache c \<and> (\<forall>cache. cache_ok cache \<longrightarrow> P (c2\<lparr>cn_cache := Some cache\<rparr>))))"

lemma piece_finishes:
  assumes "cn_waiting c m" and "message_waits m msg m'" and "good_answers an" and "b \<noteq> []"
    and "buffered c @ b = msg @ rest" and "length (buffered c @ b) \<le> 2 ^ 28"
    and owner: "called_with P calls m' (cn_server c) (cn_trace c)"
  shows "\<exists>c1. cn_run [read_op an calls b] c = Some c1 \<and> P c1 \<and> buffered c1 = rest"
proof -
  have p: "message_parse (buffered c @ b) m = Done (int (length msg), m')" "message_finished m'"
    using messages.whole [OF assms(2)] assms(5) by auto
  obtain t where t: "cn_reads ReadNone (c\<lparr>cn_transp := Some t\<rparr>)" "cn_legal (read_op an calls b) c"
    "cn_exec (read_op an calls b) c = cn_on_read 0 an calls b (c\<lparr>cn_transp := Some t\<rparr>)"
    using read_op_exec [of c an calls b] assms(1) by (auto simp: cn_waiting_def)
  let ?c = "c\<lparr>cn_transp := Some t\<rparr>"
  have bf: "buffered ?c = buffered c" by (simp add: buffered_def)
  obtain cache1 where k: "cache_ok cache1"
    "\<And>k c2. cn_handle_http an calls (buffered c @ b) (?c\<lparr>cn_cache := Some cache1\<rparr>) = Done (int k, c2) \<Longrightarrow>
      k \<le> length (buffered c @ b) \<Longrightarrow> cn_cache c2 = Some cache1 \<Longrightarrow>
      (\<exists>cache2. cn_on_read 0 an calls b ?c = Done (c2\<lparr>cn_cache := Some cache2\<rparr>) \<and> cache_ok cache2 \<and>
        iob_contents cache2 = drop k (buffered c @ b))"
    using on_read_keeps [of ?c an b calls 0] t(1) assms(3,4,6) unfolding bf by (auto simp: cn_reads_def)
  let ?c1 = "cn_emit (CnPacketCb m') (?c\<lparr>cn_cache := Some cache1, cn_pending := Some m'\<rparr>)"
  have "cn_reads ReadNone ?c1" using t(1) k(1) by (simp add: cn_reads_def cn_emit_def)
  then obtain c2 where c2: "cn_calls calls ?c1 = Done c2" "cn_cache c2 = Some cache1"
    "\<forall>cache. cache_ok cache \<longrightarrow> P (c2\<lparr>cn_cache := Some cache\<rparr>)"
    using owner unfolding called_with_def by (force simp: cn_emit_def)
  have "cn_handle_http an calls (buffered c @ b) (?c\<lparr>cn_cache := Some cache1\<rparr>) = Done (int (length msg), c2)"
    using assms(1) p c2(1) by (simp add: cn_handle_http_def cn_waiting_def)
  from k(2) [OF this _ c2(2)] obtain cache2 where e: "cn_on_read 0 an calls b ?c = Done (c2\<lparr>cn_cache := Some cache2\<rparr>)"
    "cache_ok cache2" "iob_contents cache2 = drop (length msg) (buffered c @ b)" using assms(5) by auto
  have "cn_run [read_op an calls b] c = Some (c2\<lparr>cn_cache := Some cache2\<rparr>)" using t(2,3) e(1) by simp
  moreover have "buffered (c2\<lparr>cn_cache := Some cache2\<rparr>) = rest" using e(3) unfolding assms(5) by (simp add: buffered_def)
  ultimately show ?thesis using c2(3) e(2) by blast
qed

lemma cn_run_append: "cn_run (ops @ ops') c = Option.bind (cn_run ops c) (cn_run ops')"
  by (induction ops c rule: cn_run.induct) (auto split: run.splits)

lemma pieces_finish:
  assumes "cn_waiting c m" and "message_waits m msg m'" and "good_answers an" and "list_all (\<lambda>b. b \<noteq> []) pieces"
    and "buffered c @ concat pieces = msg @ rest" and "length (msg @ rest) \<le> 2 ^ 28"
    and "pieces \<noteq> []" and "length (buffered c @ concat (butlast pieces)) < length msg"
    and "called_with P calls m' (cn_server c) (cn_trace c)"
  shows "\<exists>c1. cn_run (map (read_op an calls) pieces) c = Some c1 \<and> P c1 \<and> buffered c1 = rest"
  using assms
proof (induction pieces arbitrary: c m msg)
  case (Cons b bs)
  have e: "(buffered c @ b) @ concat bs = msg @ rest" and b: "b \<noteq> []" using Cons.prems by simp_all
  have l: "length (buffered c) + length b + length (concat bs) = length msg + length rest" using arg_cong [OF e, of length] by simp
  have small: "length (buffered c @ b) \<le> 2 ^ 28" using l Cons.prems(6) by simp
  show ?case
  proof (cases "bs = []")
    case True
    then show ?thesis using piece_finishes [OF Cons.prems(1-3) b _ small Cons.prems(9)] e by simp
  next
    case False
    then have lt: "length (buffered c @ b) + length (concat (butlast bs)) < length msg" using Cons.prems(8) by simp
    then have "length (buffered c @ b) < length msg" by simp
    from piece_waits [OF Cons.prems(1-3) b e this small] obtain c1 m1 r where
      c1: "cn_run [read_op an calls b] c = Some c1" "cn_waiting c1 m1" "message_waits m1 r m'" "buffered c1 @ concat bs = r @ rest"
        "length (buffered c1) \<le> length (buffered c @ b)" "cn_trace c1 = cn_trace c" "cn_server c1 = cn_server c" by blast
    have l1: "length (buffered c1) + length (concat bs) = length r + length rest" using arg_cong [OF c1(4), of length] by simp
    have lr: "length (r @ rest) \<le> 2 ^ 28" "length (buffered c1 @ concat (butlast bs)) < length r"
      using l l1 lt c1(5) Cons.prems(6) by simp_all
    show ?thesis using Cons.IH [OF c1(2,3) Cons.prems(3) _ c1(4) lr(1) False lr(2)] c1(1,6,7) Cons.prems(4,9)
      cn_run_append [of "[read_op an calls b]" "map (read_op an calls) bs" c] by simp
  qed
qed simp

text \<open>An owner that reads the next message, and one that does nothing.\<close>

lemma called_reads_on:
  assumes "good_answers an" and "message_finished m"
  shows "called_with (\<lambda>c1. cn_waiting c1 (message_new server) \<and> cn_trace c1 = trace @ [CnPacketCb m] \<and> cn_server c1 = server)
    [CallReadPacket an] m server trace"
  unfolding called_with_def
proof (intro allI impI)
  fix c assume c: "cn_reads ReadNone c" "cn_pending c = Some m" "cn_server c = server" "cn_trace c = trace @ [CnPacketCb m]"
  have "cn_reads ReadNone (c\<lparr>cn_pending := Some (message_new server)\<rparr>)" using c(1) by (simp add: cn_reads_def)
  from cn_async_read_reads [OF this assms(1)] obtain t where
    "cn_async_read an (c\<lparr>cn_pending := Some (message_new server)\<rparr>) = Done (True, c\<lparr>cn_pending := Some (message_new server), cn_transp := Some t\<rparr>)"
    "readable ReadPending t" by auto
  then show "\<exists>c2. cn_calls [CallReadPacket an] c = Done c2 \<and> cn_cache c2 = cn_cache c \<and>
      (\<forall>cache. cache_ok cache \<longrightarrow> cn_waiting (c2\<lparr>cn_cache := Some cache\<rparr>) (message_new server) \<and>
        cn_trace (c2\<lparr>cn_cache := Some cache\<rparr>) = trace @ [CnPacketCb m] \<and> cn_server (c2\<lparr>cn_cache := Some cache\<rparr>) = server)"
    using c assms(2) by (simp add: cn_read_packet_def cn_reads_def cn_waiting_def)
qed

lemma called_idle:
  "called_with (\<lambda>c1. cn_reads ReadNone c1 \<and> cn_trace c1 = trace @ [CnPacketCb m] \<and> cn_server c1 = server) [] m server trace"
  by (simp add: called_with_def cn_reads_def)

lemma pieces_deliver:
  assumes "cn_waiting c m" and "message_waits m msg m'" and "good_answers an" and "list_all (\<lambda>b. b \<noteq> []) pieces"
    and "buffered c @ concat pieces = msg @ rest" and "length (msg @ rest) \<le> 2 ^ 28"
    and "pieces \<noteq> []" and "length (buffered c @ concat (butlast pieces)) < length msg"
  shows "\<exists>c1. cn_run (map (read_op an [CallReadPacket an]) pieces) c = Some c1 \<and> cn_waiting c1 (message_new (cn_server c)) \<and>
    buffered c1 = rest \<and> cn_trace c1 = cn_trace c @ [CnPacketCb m'] \<and> cn_server c1 = cn_server c"
proof -
  have "message_finished m'" using messages.whole [OF assms(2), of "[]"] by simp
  from pieces_finish [OF assms called_reads_on [OF assms(3) this]] show ?thesis by auto
qed

section \<open>Delivery\<close>

text \<open>Messages whose text says all there is to say, and the fields that arrive.\<close>

definition sendable :: "message \<Rightarrow> bool" where
  "sendable m \<longleftrightarrow>
     (case m of
        MsgRequest q \<Rightarrow> rq_method q \<noteq> MethodUnknown \<and> pk_version q \<noteq> VersionUnknown \<and> good_path (ur_path (rq_uri q)) \<and>
          length (ur_path (rq_uri q)) < 230 \<and> om_wf (hd_map (pk_header q)) \<and> list_all good_line (hd_map (pk_header q)) \<and>
          announces \<lparr>hd_parsed = True, hd_map = hd_map (pk_header q)\<rparr> (pk_body q)
      | MsgResponse s \<Rightarrow> pk_version s \<noteq> VersionUnknown \<and> 0 \<le> rs_status_code s \<and> rs_status_code s < 2 ^ 31 \<and>
          om_wf (hd_map (pk_header s)) \<and> list_all good_line (hd_map (pk_header s)) \<and>
          announces \<lparr>hd_parsed = True, hd_map = hd_map (pk_header s)\<rparr> (pk_body s))"

fun same_message :: "message \<Rightarrow> message \<Rightarrow> bool" where
  "same_message (MsgRequest q) (MsgRequest q') \<longleftrightarrow>
     rq_method q' = rq_method q \<and> pk_version q' = pk_version q \<and> ur_path (rq_uri q') = ur_path (rq_uri q) \<and>
     hd_map (pk_header q') = hd_map (pk_header q) \<and> map_option bd_data (pk_body q') = map_option bd_data (pk_body q)"
| "same_message (MsgResponse s) (MsgResponse s') \<longleftrightarrow>
     rs_status_code s' = rs_status_code s \<and> pk_version s' = pk_version s \<and>
     hd_map (pk_header s') = hd_map (pk_header s) \<and> map_option bd_data (pk_body s') = map_option bd_data (pk_body s)"
| "same_message _ _ \<longleftrightarrow> False"

definition is_request :: "message \<Rightarrow> bool" where
  "is_request m = (case m of MsgRequest q \<Rightarrow> True | MsgResponse s \<Rightarrow> False)"

lemma sent_waits:
  assumes "sendable m"
  shows "\<exists>m'. message_waits (message_new (is_request m)) (message_serialize m) m' \<and> same_message m m'"
proof (cases m)
  case (MsgRequest q)
  obtain sz msg where "request_serialize q [] = (sz, msg)" by (cases "request_serialize q []")
  then show ?thesis using request_sent_waits [of q sz msg] assms MsgRequest
    by (fastforce simp: sendable_def message_waits_def message_new_def message_serialize_def is_request_def)
next
  case (MsgResponse s)
  obtain sz msg where "response_serialize s [] = (sz, msg)" by (cases "response_serialize s []")
  then show ?thesis using response_sent_waits [of s sz msg] assms MsgResponse
    by (fastforce simp: sendable_def message_waits_def message_new_def message_serialize_def is_request_def)
qed

text \<open>
  C1. A connection that waits for a message calls its owner exactly once for the text of one,
  in whatever pieces the transport brings it, with the fields that were sent; the bytes behind
  the message stay in the cache and the connection waits for the next one.
\<close>

theorem connection_delivers:
  assumes "cn_waiting c (message_new (cn_server c))" and "sendable m" and "is_request m = cn_server c" and "good_answers an"
    and "buffered c @ concat pieces = message_serialize m @ rest" and "list_all (\<lambda>b. b \<noteq> []) pieces" and "pieces \<noteq> []"
    and "length (message_serialize m @ rest) \<le> 2 ^ 28"
    and "length (buffered c @ concat (butlast pieces)) < length (message_serialize m)"
  shows "\<exists>c' m'. cn_run (map (read_op an [CallReadPacket an]) pieces) c = Some c' \<and> same_message m m' \<and>
    cn_trace c' = cn_trace c @ [CnPacketCb m'] \<and> buffered c' = rest \<and> cn_waiting c' (message_new (cn_server c'))"
proof -
  obtain m' where m': "message_waits (message_new (cn_server c)) (message_serialize m) m'" "same_message m m'"
    using sent_waits [OF assms(2)] assms(3) by auto
  from pieces_deliver [OF assms(1) m'(1) assms(4,6,5,8,7,9)] m'(2) show ?thesis by auto
qed

theorem connection_delivers_witness:
  "\<exists>c c' m'. cn_run ex_reading cn_fresh = Some c \<and>
    cn_run (map (read_op any_answers [CallReadPacket any_answers]) [B ''HTT'', B ''P/1.0 404 Not Found'' @ [13], [10, 13], [10] @ B ''NEXT'']) c = Some c' \<and>
    same_message (MsgResponse example_response) m' \<and> cn_trace c' = [CnPacketCb m'] \<and> buffered c' = B ''NEXT''"
proof -
  let ?m = "MsgResponse example_response"
  let ?p = "[B ''HTT'', B ''P/1.0 404 Not Found'' @ [13], [10, 13], [10] @ B ''NEXT'']"
  have "(case cn_run ex_reading cn_fresh of None \<Rightarrow> False | Some c \<Rightarrow> cn_state c = CnStarted \<and> \<not> cn_server c \<and> cn_trace c = [] \<and>
      cn_cache c = None \<and> cn_pending c = Some (MsgResponse response_new) \<and>
      (case cn_transp c of None \<Rightarrow> False | Some t \<Rightarrow> readable ReadPending t))" by code_simp
  then obtain c where c: "cn_run ex_reading cn_fresh = Some c" "cn_waiting c (message_new (cn_server c))" "\<not> cn_server c"
    "cn_trace c = []" "buffered c = []"
    by (auto split: option.splits simp: cn_waiting_def cn_reads_def message_new_def buffered_def)
  have "sendable ?m" by code_simp
  moreover have "message_serialize ?m = B ''HTTP/1.0 404 Not Found'' @ [13, 10, 13, 10]" by code_simp
  moreover have "good_answers any_answers" by (simp add: good_answers_def any_answers_def zero_alloc_ok) (simp add: zero_alloc_def)
  moreover have "B ''HTT'' @ B ''P/1.0 404 Not Found'' = B ''HTTP/1.0 404 Not Found''" "B ''HTT'' \<noteq> []" by code_simp+
  ultimately obtain c' m' where d: "cn_run (map (read_op any_answers [CallReadPacket any_answers]) ?p) c = Some c'" "same_message ?m m'"
    "cn_trace c' = cn_trace c @ [CnPacketCb m']" "buffered c' = B ''NEXT''"
    using connection_delivers [of c ?m any_answers ?p "B ''NEXT''"] c by (simp add: is_request_def) blast
  show ?thesis using c(1) d(1,2,4) d(3) [unfolded c(4) append_Nil] by blast
qed

end
