(* ===== verification/Connection_Ws.thy ===== *)
theory Connection_Ws
  imports Connection_Http
begin

text \<open>
  Websocket frames through an upgraded connection: what sending puts on the wire, what the
  first frame that arrives does, and what is left of the connection after it.
\<close>

section \<open>Sending\<close>

text \<open>Writing to a buffer that has not been read from leaves it so.\<close>

lemma append_rpos: "iob_append_raw bs n iob = Done iob' \<Longrightarrow> iob_rpos iob' = iob_rpos iob"
  by (auto simp: iob_append_raw_def run_bind_eq_Done)

lemma init_rpos: "init_by_alloc al n iob = Done (ok, iob') \<Longrightarrow> iob_rpos iob' = iob_rpos iob"
  by (auto simp: init_by_alloc_def split: if_splits option.splits)

lemma reserve_rpos: "iob_reserve al n iob = Done (ok, iob') \<Longrightarrow> iob_rpos iob = 0 \<Longrightarrow> iob_rpos iob' = 0"
  by (auto simp: iob_reserve_def run_bind_eq_Done Let_def split: if_splits option.splits)

lemma write_rpos:
  assumes "iob_write al b n iob = Done (ok, iob')" and "iob_rpos iob = 0"
  shows "iob_rpos iob' = 0"
proof (cases "iob_alloced iob \<and> b \<noteq> None \<and> n \<noteq> 0")
  case False
  then show ?thesis using assms by (cases b; cases "iob_alloced iob") (auto simp: iob_write_def)
next
  case True
  then obtain src where b: "b = Some src" by auto
  obtain ok1 iob1 where i: "(if iob_raw iob = None then init_by_alloc al n iob else Done (True, iob)) = Done (ok1, iob1)"
    using assms(1) True b by (auto simp: iob_write_def run_bind_eq_Done)
  have r1: "iob_rpos iob1 = 0" using i assms(2) init_rpos by (auto split: if_splits)
  let ?iob2 = "if iob_rpos iob1 = iob_raw_size iob1 then iob_clear iob1 else iob1"
  have r2: "iob_rpos ?iob2 = 0" using r1 by (simp add: iob_clear_def)
  have w: "iob_write al b n iob = (if \<not> ok1 then Done (False, iob1) else run_bind (iob_reserve al n ?iob2) (\<lambda>(ok, iob3).
      if \<not> ok then Done (False, iob3)
      else run_bind (mem_read src 0 (unat n)) (\<lambda>bs. run_bind (iob_append_raw bs n iob3) (\<lambda>iob4. Done (True, iob4)))))"
    using True b i by (simp add: iob_write_def Let_def)
  show ?thesis
  proof (cases ok1)
    case False
    then show ?thesis using assms(1) w r1 by simp
  next
    case True
    then obtain ok3 iob3 where r: "iob_reserve al n ?iob2 = Done (ok3, iob3)" using assms(1) w by (auto simp: run_bind_eq_Done)
    have r3: "iob_rpos iob3 = 0" by (rule reserve_rpos [OF r r2])
    show ?thesis using assms(1) r3 append_rpos unfolding w r using True by (auto simp: run_bind_eq_Done split: if_splits)
  qed
qed

lemma fill_rpos:
  assumes "iob_write_fill al x n iob = Done (ok, iob')" and "iob_rpos iob = 0"
  shows "iob_rpos iob' = 0"
proof (cases "iob_alloced iob \<and> n \<noteq> 0")
  case False
  then show ?thesis using assms by (cases "iob_alloced iob") (auto simp: iob_write_fill_def)
next
  case True
  let ?iob2 = "if iob_rpos iob = iob_raw_size iob then iob_clear iob else iob"
  let ?m = "if iob_raw iob = None then init_by_alloc al n iob else iob_reserve al n ?iob2"
  have w: "iob_write_fill al x n iob = run_bind ?m (\<lambda>(ok, iob3). if \<not> ok then Done (False, iob3)
      else run_bind (iob_append_raw (replicate (unat n) x) n iob3) (\<lambda>iob4. Done (True, iob4)))"
    using True by (cases "iob_raw iob") (simp_all add: iob_write_fill_def Let_def)
  obtain ok3 iob3 where r: "?m = Done (ok3, iob3)" using assms(1) unfolding w run_bind_eq_Done by auto
  have r2: "iob_rpos ?iob2 = 0" using assms(2) by (simp add: iob_clear_def)
  have r3: "iob_rpos iob3 = 0"
  proof (cases "iob_raw iob")
    case None
    then show ?thesis using r init_rpos assms(2) by fastforce
  next
    case (Some raw)
    then have "iob_reserve al n ?iob2 = Done (ok3, iob3)" using r by simp
    then show ?thesis using r2 by (rule reserve_rpos)
  qed
  show ?thesis using assms(1) r3 append_rpos unfolding w r by (auto simp: run_bind_eq_Done split: if_splits)
qed

lemma pack_rpos:
  assumes "pack_header al h iob = Done (ok, iob')" and "iob_rpos iob = 0"
  shows "iob_rpos iob' = 0"
proof -
  have len: "iob_rpos i' = 0" if "pack_length al h i = Done (k, i')" "iob_rpos i = 0" for i i' k
    using that write_rpos by (auto simp: pack_length_def split: if_splits)
  show ?thesis using assms
    by (auto simp: pack_header_def run_bind_eq_Done split: if_splits dest: fill_rpos len write_rpos)
qed

text \<open>
  A connection with no key sends the header and the payload of a frame as RFC 6455 lays
  them out. A client, which has a key, masks the bytes in front of the block that holds the
  frame instead of the payload.
\<close>

theorem websocket_send_wire:
  assumes "cn_transp c = Some t" and "is_started t" and "alloc_ok (an_alloc an)" and "\<forall>n. an_alloc an n \<noteq> None"
    and "0 < sz" and "int (length b) = sz" and "sz < 2 ^ 19"
  shows "if length (cn_key c) = 4 then cn_ws_send b sz is_text an c = Fault
    else \<exists>iob. iob_wf iob \<and>
      iob_contents iob = wire (frame_new True (if is_text then 1 else 2) (word_of_int sz) (cn_key c)) @ b \<and>
      cn_ws_send b sz is_text an c =
        run_map (\<lambda>(ec, t1). (ec = ErrNone, c\<lparr>cn_transp := Some t1\<rparr>)) (transport_send_iob an (Some iob) t)"
proof -
  let ?al = "an_alloc an" and ?n = "word_of_int sz :: u32" and ?c = "word_of_int (16 + sz) :: u32"
  let ?h = "frame_new True (if is_text then 1 else 2) (word_of_int sz) (cn_key c)"
  have nn: "?n = of_nat (length b)" "(word_of_int sz :: u64) = of_nat (length b)" using assms(6) by auto
  have un: "unat ?n = length b" unfolding nn using assms(6,7) by (intro unat_of_nat_u32) simp
  have "?c = of_nat (16 + length b)" using assms(6) by auto
  then have uc: "unat ?c = 16 + length b" using assms(6,7) unat_of_nat_u32 [of "16 + length b"] by simp
  obtain blk where blk: "?al ?c = Some blk" using assms(4) by blast
  have "0 < length b" using assms(5,6) by linarith
  then have pos: "0 < ?c" "0 < ?n" unfolding word_less_nat_alt uc un by simp_all
  have fresh: "iob_wf (iob_new True)" "iob_alloced (iob_new True)" "iob_raw (iob_new True) = None"
    using iob_new_wf [of True] by (simp_all add: iob_new_def)
  obtain iob0 where i0: "init_by_alloc ?al ?c (iob_new True) = Done (True, iob0)" "iob_wf iob0" "iob_contents iob0 = []"
    "iob_alloced iob0" "iob_raw_size iob0 = ?c" "iob_rpos iob0 = 0"
    by (rule init_by_alloc_fresh [OF fresh pos(1) blk assms(3)]) blast
  have cr: "iob_create ?al ?c = Done (Some iob0)" using i0(1) pos(1) by (simp add: iob_create_def)
  have "roomy 20 iob0" using i0(2,4,5) uc assms(6,7) by (simp add: roomy_def)
  from pack_header_roomy [OF this assms(3,4), of ?h] obtain iob1 where i1: "pack_header ?al ?h iob0 = Done (True, iob1)"
    "roomy 24 iob1" "iob_contents iob1 = wire ?h" using i0(3) by auto
  have w1: "iob_wf iob1" "iob_alloced iob1" "unat (iob_raw_size iob1) < 2 ^ 24" using i1(2) by (simp_all add: roomy_def)
  have fits: "grow_fits ?n iob1" unfolding grow_fits_def un using w1(3) assms(6,7) by simp
  have twice: "(unat ?n + unat ?n) div 2 * 3 < 2 ^ 32" unfolding un using assms(6,7) by simp
  obtain iob2 where i2: "iob_write ?al (Some b) ?n iob1 = Done (True, iob2)" "iob_wf iob2" "iob_contents iob2 = wire ?h @ b"
    using iob_write_spec [OF w1(1,2) assms(3) un [symmetric] pos(2) fits] assms(4) twice i1(3) by (metis (full_types))
  have "iob_rpos iob2 = 0" by (rule write_rpos [OF i2(1) pack_rpos [OF i1(1) i0(6)]])
  moreover have "fh_len ?h \<noteq> 0"
  proof -
    have "unat (of_nat (length b) :: u64) = length b" using assms(6,7) by (simp add: unat_of_nat take_bit_nat_eq_self)
    then show ?thesis using nn(2) assms(5,6) by (auto simp: frame_new_def simp flip: unat_eq_0)
  qed
  ultimately have m: "mask_at ?h (int (unat (iob_rpos iob2)) - sz) (raw_bytes iob2) =
      (if length (cn_key c) = 4 then Fault else Done (raw_bytes iob2))"
    using assms(5) by (simp add: mask_at_def) (simp add: frame_new_def)
  have "raw_bytes iob2 \<noteq> []" using i2(3) by (auto simp: iob_contents_def wire_def)
  then have raw: "iob2\<lparr>iob_raw := Some (raw_bytes iob2)\<rparr> = iob2" by (cases "iob_raw iob2") (simp_all add: raw_bytes_def)
  have "cn_ws_send b sz is_text an c = run_bind (mask_at ?h (int (unat (iob_rpos iob2)) - sz) (raw_bytes iob2)) (\<lambda>raw.
      run_map (\<lambda>(ec, t1). (ec = ErrNone, c\<lparr>cn_transp := Some t1\<rparr>)) (transport_send_iob an (Some (iob2\<lparr>iob_raw := Some raw\<rparr>)) t))"
    using assms(1,2) cr i1(1) i2(1) by (simp add: cn_ws_send_def Let_def)
  then show ?thesis using m raw i2(2,3) by auto
qed

section \<open>The first frame\<close>













section \<open>After a frame\<close>

text \<open>What the owner calls does not touch the frame that is read.\<close>

lemma async_read_frame: "cn_async_read an c = Done (r, c') \<Longrightarrow> cn_frame c' = cn_frame c \<and> cn_trace c' = cn_trace c \<and> cn_state c' = cn_state c"
  by (auto simp: cn_async_read_def run_map_eq_Done split: option.splits)

lemma send_frame_frame: "cn_send_frame code an c = Done c' \<Longrightarrow> cn_frame c' = cn_frame c \<and> cn_trace c' = cn_trace c \<and> cn_state c' = cn_state c"
  by (auto simp: cn_send_frame_def run_bind_eq_Done run_map_eq_Done split: option.splits if_splits)

lemma ws_send_frame: "cn_ws_send b sz is_text an c = Done (r, c') \<Longrightarrow> cn_frame c' = cn_frame c \<and> cn_state c' = cn_state c"
  by (auto simp: cn_ws_send_def run_bind_eq_Done run_map_eq_Done Let_def split: option.splits if_splits)

lemma do_frame:
  "cn_do call c = Done c' \<Longrightarrow> cn_frame c' = cn_frame c \<and> (cn_state c = CnUpgraded \<longrightarrow> cn_state c' = CnUpgraded)"
  by (cases call)
    (auto simp: run_map_eq_Done cn_init_key_def cn_stop_def cn_read_packet_def cn_send_packet_def cn_start_websocket_def
      cn_set_state_def Let_def dest!: async_read_frame ws_send_frame split: option.splits if_splits)

lemma calls_frame:
  "cn_calls calls c = Done c' \<Longrightarrow> cn_frame c' = cn_frame c \<and> (cn_state c = CnUpgraded \<longrightarrow> cn_state c' = CnUpgraded)"
  by (induction calls c rule: cn_calls.induct) (auto simp: run_bind_eq_Done dest: do_frame)

text \<open>The header that is left behind by a frame: it counts as read, with the code that no frame has.\<close>

definition stuck :: "frame_header \<Rightarrow> bool" where
  "stuck h \<longleftrightarrow> fh_unpacked h \<and> fh_code h = wscode_end \<and> fh_len h = 0"

lemma frame_event_sticks:
  assumes "cn_frame_event an calls h payload c = Done (known, c')"
  shows "cn_frame c' = cn_frame c \<and> (known \<or> c' = c) \<and> (cn_state c = CnUpgraded \<longrightarrow> cn_state c' = CnUpgraded)"
  using assms
  by (auto simp: cn_frame_event_def run_map_eq_Done cn_emit_def cn_stop_def split: if_splits dest!: calls_frame send_frame_frame)

lemma take_frame_sticks:
  assumes "cn_take_frame an calls iob c = Done (known, iob', c')" and "cn_trace c' \<noteq> cn_trace c" and "cn_state c = CnUpgraded"
  shows "stuck (cn_frame c') \<and> cn_state c' = CnUpgraded"
proof -
  obtain h iob1 where u: "(if fh_unpacked (cn_frame c) then Done (cn_frame c, iob)
      else run_map (\<lambda>(ok, h, iob1). (h, iob1)) (unpack_header (cn_frame c) iob)) = Done (h, iob1)"
    using assms(1) unfolding cn_take_frame_def run_bind_eq_Done by auto
  note t = assms(1) [unfolded cn_take_frame_def u run_bind_simps prod.case Let_def]
  have f: "\<not> \<not> fh_unpacked h" "\<not> fh_len h > ucast (iob_size iob1)" using t assms(2) by (auto split: if_splits)
  note t = t [unfolded if_not_P [OF f(1)] if_not_P [OF f(2)]]
  obtain iob2 payload r where r: "cn_frame_event an calls h payload (c\<lparr>cn_frame := h\<rparr>) = Done r"
    "(known, iob', c') = cn_end_frame h iob2 r"
    using t unfolding run_bind_eq_Done run_map_eq_Done by blast
  obtain k c2 where k: "r = (k, c2)" by (cases r)
  have e: "cn_frame c2 = h" "k \<or> c2 = c\<lparr>cn_frame := h\<rparr>" "cn_state c2 = CnUpgraded"
    using frame_event_sticks [OF r(1) [unfolded k]] assms(3) by simp_all
  have "k"
  proof (rule ccontr)
    assume "\<not> k"
    then have "c' = c2" "c2 = c\<lparr>cn_frame := h\<rparr>" using r(2) k e(2) by (simp_all add: cn_end_frame_def)
    then show False using assms(2) by simp
  qed
  then have "cn_frame c' = frame_reset h" "cn_state c' = CnUpgraded" using r(2) k e(1,3) by (simp_all add: cn_end_frame_def)
  then show ?thesis using f(1) by (simp add: stuck_def frame_reset_def)
qed

lemma on_read_sticks:
  assumes "cn_on_read stale an calls b c = Done c'" and "cn_state c = CnUpgraded" and "cn_trace c' \<noteq> cn_trace c"
  shows "stuck (cn_frame c') \<and> cn_state c' = CnUpgraded"
proof -
  obtain cache where r: "cn_open_cache an c = Done (Some cache)"
    using assms(1,3) by (auto simp: cn_on_read_def run_bind_eq_Done cn_stop_def split: option.splits)
  obtain ok cache1 where w: "(if 0 < iob_size cache then iob_write (an_alloc an) (Some b) (of_nat (length b)) cache
      else Done (True, cache)) = Done (ok, cache1)"
    using assms(1) r by (auto simp: cn_on_read_def run_bind_eq_Done Let_def)
  define c1 where "c1 = c\<lparr>cn_cache := Some cache1\<rparr>"
  define b1 where "b1 = (if 0 < iob_size cache then iob_contents cache1 else b)"
  have ok: "ok" using assms(1,3) r w by (cases ok) (auto simp: cn_on_read_def Let_def cn_stop_def)
  obtain n b2 c2 where d: "cn_dispatch stale an calls b1 c1 = Done (n, b2, c2)"
    and k: "c' = cn_stop c2 \<or> cn_keep_rest an (0 < iob_size cache) n b2 c2 = Done c'"
    using assms(1) r w ok by (auto simp: cn_on_read_def Let_def c1_def b1_def run_bind_eq_Done split: if_splits)
  have same: "cn_frame c' = cn_frame c2" "cn_trace c' = cn_trace c2" "cn_state c' = cn_state c2"
    using k by (auto simp: cn_stop_def cn_keep_rest_def run_map_eq_Done split: option.splits if_splits)
  have "cn_state c1 = CnUpgraded" "cn_trace c1 = cn_trace c" using assms(2) by (simp_all add: c1_def)
  moreover from this obtain iob known iob1 c3 where t: "cn_take_frame an calls iob c1 = Done (known, iob1, c3)"
    and e: "c2 = c3 \<or> (\<exists>r. cn_async_read an c3 = Done (r, c2))"
    using d by (auto simp: cn_dispatch_def cn_handle_frame_def run_bind_eq_Done run_map_eq_Done Let_def split: option.splits if_splits) blast+
  moreover have "cn_frame c2 = cn_frame c3" "cn_trace c2 = cn_trace c3" "cn_state c2 = cn_state c3" using e async_read_frame by auto
  ultimately show ?thesis using take_frame_sticks [OF t] assms(3) same by simp
qed

lemma stuck_refuses:
  assumes "stuck (cn_frame c)" and "cn_state c = CnUpgraded"
  shows "\<exists>b1. cn_dispatch stale an calls b c = Done (- 1, b1, c)"
proof -
  let ?h = "cn_frame c"
  obtain iob where i: "iob_create_by_reference (Some b) (of_nat (length b)) = Done (Some iob)" "iob_rpos iob = 0"
    by (cases "0 < (of_nat (length b) :: u32)")
      (simp_all add: iob_create_by_reference_def init_by_reference_def iob_new_def)
  have h: "fh_unpacked ?h" "fh_len ?h = 0" "fh_code ?h = 255" using assms(1) by (simp_all add: stuck_def wscode_end_def)
  have "cn_frame_event an calls ?h [] c = Done (False, c)" using h(3) by (simp add: cn_frame_event_def)
  then have "\<exists>iob2. cn_take_frame an calls iob c = Done (False, iob2, c)"
    using h(1,2) i(2) by (simp add: cn_take_frame_def mask_at_def mem_read_def cn_end_frame_def Let_def)
  then show ?thesis using i(1) assms(2) by (auto simp: cn_dispatch_def cn_handle_frame_def)
qed

text \<open>
  A connection reads one frame: once a frame has been handed to the owner, whatever the
  transport brings next stops the transport, and no frame is handed over any more. (Resetting
  the header leaves it marked as read.)
\<close>

theorem websocket_second_frame_stops:
  assumes "cn_state c = CnUpgraded" and "cn_on_read stale an calls b c = Done c1" and "cn_trace c1 \<noteq> cn_trace c"
    and "cn_on_read stale' an' calls' b' c1 = Done c2"
  shows "cn_trace c2 = cn_trace c1 \<and> cn_transp c2 = map_option transport_stop (cn_transp c1)"
proof -
  have s: "stuck (cn_frame c1)" "cn_state c1 = CnUpgraded" using on_read_sticks [OF assms(2,1,3)] by simp_all
  obtain r where r: "cn_open_cache an' c1 = Done r" using assms(4) by (auto simp: cn_on_read_def run_bind_eq_Done)
  show ?thesis
  proof (cases r)
    case None
    then show ?thesis using assms(4) r by (auto simp: cn_on_read_def cn_stop_def)
  next
    case (Some cache)
    obtain ok cache1 where w: "(if 0 < iob_size cache then iob_write (an_alloc an') (Some b') (of_nat (length b')) cache
        else Done (True, cache)) = Done (ok, cache1)"
      using assms(4) r Some by (auto simp: cn_on_read_def run_bind_eq_Done Let_def)
    let ?c = "c1\<lparr>cn_cache := Some cache1\<rparr>"
    define b2 where "b2 = (if 0 < iob_size cache then iob_contents cache1 else b')"
    obtain b3 where d: "cn_dispatch stale' an' calls' b2 ?c = Done (- 1, b3, ?c)"
      using stuck_refuses [of ?c stale' an' calls' b2] s by auto
    have "cn_on_read stale' an' calls' b' c1 = Done (cn_stop ?c)"
      using r Some w d by (simp add: cn_on_read_def Let_def b2_def)
    then show ?thesis using assms(4) by (auto simp: cn_stop_def)
  qed
qed

text \<open>A websocket connection whose transport has called it.\<close>

definition ex_open :: connection where
  "ex_open = (snd (cn_start_http True True True True cn_fresh))\<lparr>cn_state := CnUpgraded, cn_ws_cbs := True\<rparr>"

lemma any_good: "good_answers any_answers"
  by (simp add: good_answers_def any_answers_def zero_alloc_ok) (simp add: zero_alloc_def)

lemma ex_open_transport: "\<exists>t. cn_transp ex_open = Some t \<and> readable ReadNone t \<and> is_started t"
proof -
  have "(case cn_transp ex_open of None \<Rightarrow> False | Some t \<Rightarrow> readable ReadNone t \<and> is_started t)" by code_simp
  then show ?thesis by (auto split: option.splits)
qed

theorem websocket_send_wire_witness:
  "cn_ws_send [65] 1 True any_answers (cn_init_key [1, 2, 3, 4] ex_open) = Fault"
proof -
  obtain t where t: "cn_transp (cn_init_key [1, 2, 3, 4] ex_open) = Some t" "is_started t"
    using ex_open_transport by (auto simp: cn_init_key_def)
  show ?thesis using websocket_send_wire [OF t, of any_answers 1 "[65]" True] any_good
    by (simp add: good_answers_def cn_init_key_def)
qed


theorem websocket_second_frame_stops_witness:
  "\<exists>c1 c2. cn_on_read 0 any_answers [] [0x81, 0x81, 1, 2, 3, 4, 64] ex_open = Done c1 \<and>
    cn_on_read 0 any_answers [] [0x81, 1, 65] c1 = Done c2 \<and> cn_trace c1 = [CnFrameCb [65] True] \<and>
    cn_trace c2 = cn_trace c1 \<and> cn_transp c2 = map_option transport_stop (cn_transp c1)"
proof -
  have "(case cn_on_read 0 any_answers [] [0x81, 0x81, 1, 2, 3, 4, 64] ex_open of
      Done c1 \<Rightarrow> cn_trace c1 = [CnFrameCb [65] True] \<and>
        (case cn_on_read 0 any_answers [] [0x81, 1, 65] c1 of Done c2 \<Rightarrow> True | _ \<Rightarrow> False)
    | _ \<Rightarrow> False)" by code_simp
  then obtain c1 c2 where c: "cn_on_read 0 any_answers [] [0x81, 0x81, 1, 2, 3, 4, 64] ex_open = Done c1"
    "cn_trace c1 = [CnFrameCb [65] True]" "cn_on_read 0 any_answers [] [0x81, 1, 65] c1 = Done c2"
    by (auto split: run.splits)
  have o: "cn_state ex_open = CnUpgraded" "cn_trace ex_open = []" by code_simp+
  then have "cn_state ex_open = CnUpgraded" "cn_trace c1 \<noteq> cn_trace ex_open" using c(2) by simp_all
  then show ?thesis using websocket_second_frame_stops [OF _ c(1) _ c(3)] c by blast
qed

end
