(* ===== verification/Server.thy ===== *)
theory Server
  imports Connection_Http Acceptor
begin

text \<open>
  The HTTP server (include/pump/proto/http/server.h, src/proto/http/server.cpp): its
  acceptor, the connections it holds, and the handlers of their callbacks.

  \<open>sr_objs\<close> are the connection objects there are, by their address; \<open>sr_conns\<close> are the keys of
  \<open>conns_\<close>. A weak pointer to a connection can be locked while the object is there. An object
  is not destroyed when it is erased from \<open>conns_\<close>: the callbacks that it keeps hold it.
\<close>

section \<open>The server\<close>

datatype sr_out = SrRequest nat request | SrStopped

record server =
  sr_svc :: bool
  sr_cbs :: bool
  sr_acceptor :: "acceptor option"
  sr_objs :: "nat \<rightharpoonup> connection"
  sr_conns :: "nat set"
  sr_trace :: "sr_out list"

definition sr_new :: server where
  "sr_new = \<lparr>sr_svc = False, sr_cbs = False, sr_acceptor = None, sr_objs = Map.empty, sr_conns = {}, sr_trace = []\<rparr>"

definition sr_emit :: "sr_out \<Rightarrow> server \<Rightarrow> server" where
  "sr_emit out s = s\<lparr>sr_trace := sr_trace s @ [out]\<rparr>"

definition sr_put :: "nat \<Rightarrow> connection \<Rightarrow> server \<Rightarrow> server" where
  "sr_put i c s = s\<lparr>sr_objs := (sr_objs s)(i \<mapsto> c)\<rparr>"

definition sr_erase :: "nat \<Rightarrow> server \<Rightarrow> server" where
  "sr_erase i s = s\<lparr>sr_conns := sr_conns s - {i}\<rparr>"

text \<open>\<open>fd\<close>, \<open>open_ok\<close>, \<open>trk_ok\<close>: the listening socket, whether it can be opened and tracked.\<close>

definition sr_start_acceptor :: "int \<Rightarrow> bool \<Rightarrow> bool \<Rightarrow> acceptor \<Rightarrow> server \<Rightarrow> bool \<times> server" where
  "sr_start_acceptor fd open_ok trk_ok a s =
     (let s1 = s\<lparr>sr_svc := True, sr_cbs := True\<rparr>; (ec, a1) = acceptor_start True True fd open_ok trk_ok a in
      if ec \<noteq> ErrNone then (False, s1) else (True, s1\<lparr>sr_acceptor := Some a1\<rparr>))"

definition server_start :: "bool \<Rightarrow> bool \<Rightarrow> int \<Rightarrow> bool \<Rightarrow> bool \<Rightarrow> server \<Rightarrow> bool \<times> server" where
  "server_start sv cbs fd open_ok trk_ok s =
     (if \<not> sv then (False, s)
      else if \<not> cbs then (False, s)
      else if sr_acceptor s \<noteq> None then (False, s)
      else sr_start_acceptor fd open_ok trk_ok (ac_new False False) s)"

definition server_start_tls :: "bool \<Rightarrow> bool \<Rightarrow> bool \<Rightarrow> int \<Rightarrow> bool \<Rightarrow> bool \<Rightarrow> server \<Rightarrow> bool \<times> server" where
  "server_start_tls sv xcred cbs fd open_ok trk_ok s =
     (if \<not> sv then (False, s)
      else if \<not> cbs then (False, s)
      else if sr_acceptor s = None then (False, s)
      else sr_start_acceptor fd open_ok trk_ok (ac_new True xcred) s)"

definition server_stop :: "server \<Rightarrow> server" where
  "server_stop s =
     s\<lparr>sr_acceptor := map_option (\<lambda>a. if ac_tls a then tls_acceptor_stop a else tcp_acceptor_stop a) (sr_acceptor s)\<rparr>"

text \<open>\<open>i\<close>: the address of the new connection; \<open>flag\<close>: what its flag \<open>ws_closed_\<close> happens to hold.\<close>

definition server_on_accepted :: "nat \<Rightarrow> bool \<Rightarrow> transport \<Rightarrow> bool \<Rightarrow> bool \<Rightarrow> server \<Rightarrow> server" where
  "server_on_accepted i flag t ok_r ok_s s =
     (let s1 = s\<lparr>sr_conns := insert i (sr_conns s)\<rparr>;
          (ok, c) = cn_start_http (sr_svc s) True ok_r ok_s (cn_new True flag (Some t));
          s2 = sr_put i c s1
      in if ok then s2 else sr_erase i s2)"

definition server_on_stopped :: "server \<Rightarrow> server run" where
  "server_on_stopped s =
     (let s1 = s\<lparr>sr_objs := (\<lambda>i. if i \<in> sr_conns s then map_option cn_stop (sr_objs s i) else sr_objs s i)\<rparr> in
      if \<not> sr_cbs s then Abort else Done (sr_emit SrStopped s1))"


definition server_on_http_error :: "nat \<Rightarrow> server \<Rightarrow> server" where
  "server_on_http_error i s =
     (case sr_objs s i of None \<Rightarrow> s | Some c \<Rightarrow> sr_erase i (sr_put i (cn_stop c) s))"

section \<open>The upgrade to a websocket\<close>

definition send_simple_response :: "int \<Rightarrow> answers \<Rightarrow> connection \<Rightarrow> (bool \<times> connection) run" where
  "send_simple_response code an c =
     cn_send_packet (MsgResponse (response_new\<lparr>pk_version := Version11, rs_status_code := code\<rparr>)) an c"

definition refuse :: "int \<Rightarrow> answers \<Rightarrow> connection \<Rightarrow> (bool \<times> connection) run" where
  "refuse code an c = run_map (\<lambda>(ok, c1). (False, c1)) (send_simple_response code an c)"

text \<open>\<open>ctx\<close>: the uninitialised context of the hash.\<close>

definition upgrade_response :: "http_version \<Rightarrow> byte list \<Rightarrow> byte list list \<Rightarrow> response" where
  "upgrade_response version accept protocs =
     response_new\<lparr>rs_status_code := 101, pk_version := version,
       pk_header := fold (set_head (B ''Sec-WebSocket-proto'')) protocs
         (set_head (B ''Sec-WebSocket-Accept'') accept
           (set_head (B ''Connection'') (B ''Upgrade'') (set_head (B ''Upgrade'') (B ''websocket'') header_new)))\<rparr>"

definition upgrade_to_websocket :: "sha1_context \<Rightarrow> answers \<Rightarrow> request \<Rightarrow> connection \<Rightarrow> (bool \<times> connection) run" where
  "upgrade_to_websocket ctx an q c =
     (if rq_method q \<noteq> MethodGet then refuse 404 an c
      else if pk_version q \<noteq> Version11 then refuse 404 an c
      else if get_head (B ''Upgrade'') (pk_header q) \<noteq> Some (B ''websocket'') then refuse 400 an c
      else if (case get_head_values (B ''Connection'') (pk_header q) of None \<Rightarrow> True | Some vs \<Rightarrow> B ''Upgrade'' \<notin> set vs)
        then refuse 400 an c
      else if get_head (B ''Sec-WebSocket-Version'') (pk_header q) \<noteq> Some (B ''13'') then refuse 400 an c
      else
        case get_head (B ''Sec-WebSocket-Key'') (pk_header q) of
          None \<Rightarrow> refuse 400 an c
        | Some key \<Rightarrow>
            run_bind (compute_sec_accept_key ctx key) (\<lambda>accept.
              let protocs = (case get_head_values (B ''Sec-WebSocket-proto'') (pk_header q) of None \<Rightarrow> [] | Some vs \<Rightarrow> vs) in
              cn_send_packet (MsgResponse (upgrade_response (pk_version q) accept protocs)) an c))"

section \<open>Nothing is read before the first request\<close>

text \<open>What can happen to a connection of the server, and what the server does with it, before a request.\<close>

fun server_op :: "cn_op \<Rightarrow> bool" where
  "server_op (CnTcp op stale an calls) \<longleftrightarrow> calls = [CallStop]"
| "server_op (CnCall CallStop) \<longleftrightarrow> True"
| "server_op _ \<longleftrightarrow> False"

definition deaf_transport :: "transport \<Rightarrow> bool" where
  "deaf_transport t \<longleftrightarrow> tp_type t = TransportTcp \<and> \<not> is_tracked (tp_r_tracker t) \<and> \<not> is_tracked (tp_s_tracker t)"

definition deaf :: "connection \<Rightarrow> bool" where
  "deaf c \<longleftrightarrow> cn_pending c = None \<and> (\<forall>m. CnPacketCb m \<notin> set (cn_trace c)) \<and> (\<exists>t. cn_transp c = Some t \<and> deaf_transport t)"

lemma stop_deaf_transport: "deaf_transport t \<Longrightarrow> deaf_transport (tcp_stop t)"
  by (simp add: deaf_transport_def tcp_stop_def set_state_def post_channel_event_def shutdown_flow_def emit_def Let_def)

lemma stop_deaf:
  assumes "deaf c"
  shows "deaf (cn_stop c)"
proof -
  obtain t where t: "cn_transp c = Some t" "deaf_transport t" using assms by (auto simp: deaf_def)
  then have "transport_stop t = tcp_stop t" by (simp add: transport_stop_def deaf_transport_def)
  then show ?thesis using assms t stop_deaf_transport [OF t(2)] by (simp add: deaf_def cn_stop_def)
qed

lemma deliver_deaf:
  assumes "deaf_transport t" and "tcp_exec OpDeliver t = Done t1"
  shows "deaf_transport t1 \<and> (\<forall>b. OutRead b \<notin> set (drop (length (tp_trace t)) (tp_trace t1)))"
proof (cases "tp_posted t")
  case Nil
  then show ?thesis using assms by simp
next
  case (Cons ev evs)
  then show ?thesis using assms
    by (cases ev) (auto simp: deaf_transport_def tcp_on_channel_event_def base_on_channel_event_def trigger_disconnected_callback_def
        trigger_stopped_callback_def set_state_def shutdown_flow_def emit_def Let_def split: if_splits)
qed

lemma on_end_deaf:
  assumes "deaf c" and "cn_on_end reason [CallStop] c = Done c'"
  shows "deaf c'"
proof -
  have "deaf (cn_emit out (c\<lparr>cn_state := st, cn_closed := cl\<rparr>))" if "is_error out" for out st cl
    using assms(1) that by (auto simp: deaf_def cn_emit_def)
  moreover have "c\<lparr>cn_state := st\<rparr> = c\<lparr>cn_state := st, cn_closed := cn_closed c\<rparr>" for st by simp
  ultimately have "deaf (cn_emit out (c\<lparr>cn_state := st, cn_closed := cl\<rparr>))" "deaf (cn_emit out (c\<lparr>cn_state := st\<rparr>))"
    if "is_error out" for out st cl using that by metis+
  then show ?thesis using assms
    by (cases "cn_state c") (auto simp: cn_on_end_def split: if_splits intro!: stop_deaf)
qed

lemma callbacks_deaf:
  "deaf c \<Longrightarrow> \<forall>b. OutRead b \<notin> set outs \<Longrightarrow> cn_callbacks stale an [CallStop] outs c = Done c' \<Longrightarrow> deaf c'"
proof (induction outs arbitrary: c)
  case (Cons out outs)
  then show ?case
    by (cases out) (auto simp: run_bind_eq_Done cn_on_disconnected_def cn_on_stopped_def dest: on_end_deaf)
qed simp

lemma exec_deaf:
  assumes "deaf c" and "server_op op" and "cn_legal op c" and "cn_exec op c = Done c'"
  shows "deaf c'"
proof (cases op)
  case (CnTcp ev stale an calls)
  obtain t where t: "cn_transp c = Some t" "deaf_transport t" using assms(1) by (auto simp: deaf_def)
  then have "ev = OpDeliver" using assms(3) CnTcp by (cases ev) (auto simp: deaf_transport_def)
  moreover have "calls = [CallStop]" using assms(2) CnTcp by simp
  ultimately obtain t1 where t1: "tcp_exec OpDeliver t = Done t1"
    "cn_callbacks stale an [CallStop] (drop (length (tp_trace t)) (tp_trace t1)) (c\<lparr>cn_transp := Some t1\<rparr>) = Done c'"
    using assms(4) CnTcp t(1) by (auto simp: cn_event_def run_bind_eq_Done simp del: tcp_exec.simps)
  have d: "deaf_transport t1" "\<forall>b. OutRead b \<notin> set (drop (length (tp_trace t)) (tp_trace t1))"
    using deliver_deaf [OF t(2) t1(1)] by simp_all
  have "deaf (c\<lparr>cn_transp := Some t1\<rparr>)" using assms(1) d(1) by (simp add: deaf_def)
  then show ?thesis by (rule callbacks_deaf [OF _ d(2) t1(2)])
next
  case (CnCall call)
  then show ?thesis using assms by (cases call) (auto intro: stop_deaf)
qed (use assms in simp_all)

lemma run_deaf: "cn_run ops c = Some c' \<Longrightarrow> list_all server_op ops \<Longrightarrow> deaf c \<Longrightarrow> deaf c'"
proof (induction ops arbitrary: c)
  case (Cons op ops)
  then show ?case using exec_deaf by (auto split: if_splits run.splits simp del: cn_exec.simps)
qed simp

lemma accepted_deaf:
  assumes "sr_objs (server_on_accepted i flag (tcp_init fd tcp_new) ok_r ok_s s) i = Some c"
  shows "deaf c"
proof -
  obtain ok c0 where c0: "cn_start_http (sr_svc s) True ok_r ok_s (cn_new True flag (Some (tcp_init fd tcp_new))) = (ok, c0)"
    by (cases "cn_start_http (sr_svc s) True ok_r ok_s (cn_new True flag (Some (tcp_init fd tcp_new)))")
  then have "c = c0" using assms by (auto simp: server_on_accepted_def sr_put_def sr_erase_def Let_def split: if_splits)
  moreover have "deaf c0" using c0
    by (auto simp: cn_start_http_def cn_set_state_def cn_new_def transport_start_def tcp_start_def tcp_init_def tcp_new_def
        connection_callbacks_def set_state_def open_flow_def install_read_tracker_def install_send_tracker_def
        deaf_def deaf_transport_def is_tracked_def Let_def split: if_splits)
  ultimately show ?thesis by simp
qed

text \<open>
  C5. A connection that the server has accepted never brings a request to it: the transport is
  started but not read, nothing that happens to the connection starts a read, and a request is
  only waited for after the one before it.
\<close>

theorem server_never_reads:
  assumes "sr_objs (server_on_accepted i flag (tcp_init fd tcp_new) ok_r ok_s s) i = Some c"
    and "list_all server_op ops" and "cn_run ops c = Some c'"
  shows "cn_pending c' = None \<and> (\<forall>m. CnPacketCb m \<notin> set (cn_trace c')) \<and>
    (\<forall>data ok stale an calls. \<not> cn_legal (CnTcp (OpReadEvent data ok) stale an calls) c')"
  using run_deaf [OF assms(3,2) accepted_deaf [OF assms(1)]] by (auto simp: deaf_def deaf_transport_def)

theorem server_never_reads_witness:
  "\<exists>c c'. sr_objs (server_on_accepted 7 False (tcp_init 5 tcp_new) True True (sr_new\<lparr>sr_svc := True, sr_cbs := True\<rparr>)) 7 = Some c \<and>
    cn_run [CnCall CallStop, CnTcp OpDeliver 0 any_answers [CallStop]] c = Some c' \<and> cn_trace c' = [CnHttpErrorCb ''stopped''] \<and>
    cn_pending c' = None"
proof -
  let ?s = "server_on_accepted 7 False (tcp_init 5 tcp_new) True True (sr_new\<lparr>sr_svc := True, sr_cbs := True\<rparr>)"
  let ?ops = "[CnCall CallStop, CnTcp OpDeliver 0 any_answers [CallStop]]"
  have "(case sr_objs ?s 7 of None \<Rightarrow> False | Some c \<Rightarrow>
      (case cn_run ?ops c of None \<Rightarrow> False | Some c' \<Rightarrow> cn_trace c' = [CnHttpErrorCb ''stopped'']))" by code_simp
  then obtain c c' where c: "sr_objs ?s 7 = Some c" "cn_run ?ops c = Some c'" "cn_trace c' = [CnHttpErrorCb ''stopped'']"
    by (auto split: option.splits simp del: cn_run.simps)
  have "list_all server_op ?ops" by simp
  from server_never_reads [OF c(1) this c(2)] c show ?thesis by blast
qed

section \<open>After a request\<close>



end
