(* ===== verification/Client.thy ===== *)
theory Client
  imports Server Connection_Ws
begin

text \<open>
  The HTTP client (include/pump/proto/http/client.h, src/proto/http/client.cpp), and the
  agreement of client and server on the upgrade to a websocket.

  A request blocks its caller while the response is waited for; the lock is released then and
  the callbacks of the connection run. Each blocking function is two definitions, what it does
  up to the wait and what it does when it wakes up. The dialer is an argument: \<open>dial\<close> is the
  transport that dialing gave. A connection has an address, by which its callbacks are
  recognised; \<open>cl_gone\<close> has the connection objects that the client has released.
\<close>

section \<open>State\<close>

record client =
  cl_svc :: bool
  cl_dial_timeout :: int
  cl_tls_timeout :: int
  cl_conn :: "(nat \<times> connection) option"
  cl_last_uri :: uri
  cl_wait :: bool
  cl_resp :: "response option"
  cl_gone :: "connection list"


definition set_connect_timeout :: "int \<Rightarrow> client \<Rightarrow> client" where
  "set_connect_timeout timeout cl = cl\<lparr>cl_dial_timeout := (if timeout > 0 then timeout else 0)\<rparr>"

definition set_tls_handshake_timeout :: "int \<Rightarrow> client \<Rightarrow> client" where
  "set_tls_handshake_timeout timeout cl = cl\<lparr>cl_tls_timeout := (if timeout > 0 then timeout else 0)\<rparr>"

text \<open>Letting go of a connection destroys it: nothing else holds it.\<close>

definition cl_release :: "client \<Rightarrow> client" where
  "cl_release cl =
     (case cl_conn cl of
        None \<Rightarrow> cl
      | Some (i, c) \<Rightarrow> cl\<lparr>cl_conn := None, cl_gone := cl_gone cl @ [cn_destroy c]\<rparr>)"

definition cl_stop_conn :: "client \<Rightarrow> client" where
  "cl_stop_conn cl = cl\<lparr>cl_conn := map_option (\<lambda>(i, c). (i, cn_stop c)) (cl_conn cl)\<rparr>"

definition destroy_connection :: "client \<Rightarrow> client" where
  "destroy_connection cl = cl_release (cl_stop_conn cl)"

section \<open>Connecting\<close>

definition cl_connect :: "transport option \<Rightarrow> nat \<Rightarrow> bool \<Rightarrow> bool \<Rightarrow> bool \<Rightarrow> answers \<Rightarrow> uri \<Rightarrow> client \<Rightarrow> (bool \<times> client) run" where
  "cl_connect dial i flag ok_r ok_s an u cl =
     (case dial of
        None \<Rightarrow> Done (False, cl)
      | Some t \<Rightarrow>
          let cl1 = cl_release cl;
              (ok, c) = cn_start_http (cl_svc cl1) True ok_r ok_s (cn_new False flag (Some t));
              cl2 = cl1\<lparr>cl_conn := Some (i, c)\<rparr>
          in if \<not> ok then Done (False, cl2)
             else
               run_bind (cn_read_packet an c) (\<lambda>(ok, c1).
                 let cl3 = cl2\<lparr>cl_conn := Some (i, c1)\<rparr> in
                 if \<not> ok then Done (False, cl_release (cl_stop_conn cl3))
                 else Done (True, cl3\<lparr>cl_last_uri := u\<rparr>)))"

definition async_read_http_response ::
  "transport option \<Rightarrow> nat \<Rightarrow> bool \<Rightarrow> bool \<Rightarrow> bool \<Rightarrow> answers \<Rightarrow> uri \<Rightarrow> client \<Rightarrow> (bool \<times> client) run" where
  "async_read_http_response dial i flag ok_r ok_s an u cl =
     (let cl1 = (if ur_host u \<noteq> ur_host (cl_last_uri cl) \<or> ur_type u \<noteq> ur_type (cl_last_uri cl) then destroy_connection cl else cl) in
      case cl_conn cl1 of
        Some (j, c) \<Rightarrow>
          if cn_is_valid c then
            run_bind (cn_read_packet an c) (\<lambda>(ok, c1).
              let cl2 = cl1\<lparr>cl_conn := Some (j, c1)\<rparr> in
              if ok then Done (True, cl2)
              else cl_connect dial i flag ok_r ok_s an u (cl_release (cl_stop_conn cl2)))
          else cl_connect dial i flag ok_r ok_s an u cl1
      | None \<Rightarrow> cl_connect dial i flag ok_r ok_s an u cl1)"

definition cl_send :: "message \<Rightarrow> answers \<Rightarrow> client \<Rightarrow> (bool \<times> client) run" where
  "cl_send m an cl =
     (case cl_conn cl of
        None \<Rightarrow> Fault
      | Some (i, c) \<Rightarrow> run_map (\<lambda>(ok, c1). (ok, cl\<lparr>cl_conn := Some (i, c1)\<rparr>)) (cn_send_packet m an c))"

section \<open>A request\<close>






section \<open>A websocket\<close>

text \<open>\<open>rnd\<close>: the random bytes of the key.\<close>

definition upgrade_request :: "byte list \<Rightarrow> (byte list \<times> byte list) list \<Rightarrow> byte list \<Rightarrow> request run" where
  "upgrade_request url headers rnd =
     (let q = (request_new_url url)\<lparr>pk_version := Version11, rq_method := MethodGet\<rparr>;
          h1 = fold (\<lambda>(n, v). set_head n v) headers (pk_header q);
          h2 = (if \<not> has_head (B ''Host'') h1 then set_unique_head (B ''Host'') (ur_host (rq_uri q)) h1 else h1);
          h3 = set_unique_head (B ''Sec-WebSocket-Version'') (B ''13'')
                 (set_unique_head (B ''Upgrade'') (B ''websocket'') (set_unique_head (B ''Connection'') (B ''Upgrade'') h2))
      in run_map (\<lambda>key. q\<lparr>pk_header := set_unique_head (B ''Sec-WebSocket-Key'') key h3\<rparr>) (compute_sec_key rnd))"

definition send_websocket_upgrade_request ::
  "byte list \<Rightarrow> (byte list \<times> byte list) list \<Rightarrow> byte list \<Rightarrow> answers \<Rightarrow> client \<Rightarrow> (bool \<times> client) run" where
  "send_websocket_upgrade_request url headers rnd an cl =
     run_bind (upgrade_request url headers rnd) (\<lambda>q. cl_send (MsgRequest q) an cl)"

definition handle_websocket_upgrade_response :: "response \<Rightarrow> bool" where
  "handle_websocket_upgrade_response rsp =
     (if rs_status_code rsp \<noteq> 101 \<or> pk_version rsp \<noteq> Version11 then False
      else if get_head (B ''Upgrade'') (pk_header rsp) \<noteq> Some (B ''websocket'') then False
      else
        case get_head_values (B ''Connection'') (pk_header rsp) of
          None \<Rightarrow> False
        | Some vs \<Rightarrow>
            if B ''Upgrade'' \<notin> set vs then False
            else get_head (B ''Sec-WebSocket-Accept'') (pk_header rsp) \<noteq> None)"

definition open_websocket_begin ::
  "transport option \<Rightarrow> nat \<Rightarrow> bool \<Rightarrow> bool \<Rightarrow> bool \<Rightarrow> answers \<Rightarrow> byte list \<Rightarrow> byte list \<Rightarrow> client \<Rightarrow> (bool \<times> client) run" where
  "open_websocket_begin dial i flag ok_r ok_s an rnd url cl =
     (let u = snd (uri_parse url uri_new) in
      if ur_type u \<noteq> uri_ws \<and> ur_type u \<noteq> uri_wss then Done (False, cl)
      else
        run_bind (async_read_http_response dial i flag ok_r ok_s an u cl) (\<lambda>(ok, cl1).
          if \<not> ok then Done (False, cl1)
          else
            run_bind (send_websocket_upgrade_request url [] rnd an cl1) (\<lambda>(ok, cl2).
              if \<not> ok then Done (False, cl2) else Done (True, cl2\<lparr>cl_wait := True\<rparr>))))"

text \<open>\<open>fkey\<close>: the four random bytes of the key that frames are masked with.\<close>

definition open_websocket_end :: "bool \<Rightarrow> byte list \<Rightarrow> client \<Rightarrow> (connection option \<times> client) run" where
  "open_websocket_end timeout fkey cl =
     (if timeout then Done (None, destroy_connection cl)
      else
        let cl1 = cl\<lparr>cl_wait := False\<rparr> in
        if (case cl_resp cl1 of None \<Rightarrow> True | Some rsp \<Rightarrow> \<not> handle_websocket_upgrade_response rsp)
        then Done (None, destroy_connection cl1)
        else
          case cl_conn cl1 of
            None \<Rightarrow> Fault
          | Some (i, c) \<Rightarrow> Done (Some (cn_init_key fkey c), cl1\<lparr>cl_conn := None\<rparr>))"

section \<open>The two sides agree on the upgrade\<close>























section \<open>A request is answered\<close>

text \<open>Sending does not disturb the read that is pending.\<close>

definition same_read :: "transport \<Rightarrow> transport \<Rightarrow> bool" where
  "same_read t t' \<longleftrightarrow> tp_type t' = tp_type t \<and> (tp_flow t' = None \<longleftrightarrow> tp_flow t = None) \<and> tp_rmode t' = tp_rmode t \<and>
     tp_rstate t' = tp_rstate t \<and> tp_r_tracker t' = tp_r_tracker t"

lemma same_read_refl [simp]: "same_read t t"
  by (simp add: same_read_def)














end
