(* ===== verification/C_Api.thy ===== *)
theory C_Api
  imports Service Connection Acceptor
begin

text \<open>
  The C interface (include/pump/pump_c.h, src/pump_c.cpp) over the models of the classes. A
  handle is a pointer to an object that has a pointer to the object of the class; a null
  pointer fails the assertions at the begin of each function. The callbacks of the C user are
  those that are not null.
\<close>

type_synonym 'a handle = "'a option option"

definition c_assert :: "'a handle \<Rightarrow> ('a \<Rightarrow> 'b run) \<Rightarrow> 'b run" where
  "c_assert h f = (case h of Some (Some x) \<Rightarrow> f x | _ \<Rightarrow> Abort)"

text \<open>The value of an error code (transport/types.h).\<close>

fun error_value :: "error_code \<Rightarrow> int" where
  "error_value ErrNone = 0"
| "error_value ErrUnstart = 1"
| "error_value ErrInvalid = 2"
| "error_value ErrDisable = 3"
| "error_value ErrAgain = 4"
| "error_value ErrFault = 5"

section \<open>Service and timers\<close>

definition pump_c_service_create :: "int \<Rightarrow> service handle" where
  "pump_c_service_create with_poller = Some (Some (service_new (with_poller \<noteq> 0)))"

definition pump_c_service_destory :: "service handle \<Rightarrow> unit run" where
  "pump_c_service_destory h = (case h of None \<Rightarrow> Abort | Some None \<Rightarrow> Done () | Some (Some s) \<Rightarrow> service_destroy s)"

definition pump_c_service_start :: "bool \<Rightarrow> service handle \<Rightarrow> (int \<times> service) run" where
  "pump_c_service_start ok_thread h =
     c_assert h (\<lambda>s. run_map (\<lambda>(ok, s1). if \<not> ok then (- 1, s1) else (0, s1)) (service_start ok_thread s))"

text \<open>\<open>pump_c_service_stop\<close> up to the wait and behind it.\<close>

definition pump_c_service_stop_begin :: "service handle \<Rightarrow> service run" where
  "pump_c_service_stop_begin h = c_assert h (\<lambda>s. Done (service_stop s))"

definition pump_c_service_stop_end :: "service \<Rightarrow> (int \<times> service) run option" where
  "pump_c_service_stop_end s = map_option (run_map (\<lambda>s1. (0, s1))) (service_wait_stopped s)"

definition pump_c_timer_create :: "int \<Rightarrow> int \<Rightarrow> timer" where
  "pump_c_timer_create repeated timeout_ns = timer_new (repeated \<noteq> 0) (word_of_int timeout_ns)"

definition pump_c_timer_start :: "service handle \<Rightarrow> nat option \<Rightarrow> (int \<times> service) run" where
  "pump_c_timer_start h timer =
     c_assert h (\<lambda>s. case timer of
         None \<Rightarrow> Abort
       | Some tid \<Rightarrow> (let (ok, s1) = service_start_timer tid s in Done (if \<not> ok then (- 1, s1) else (0, s1))))"

definition pump_c_timer_stop :: "timer option \<Rightarrow> (int \<times> timer) run" where
  "pump_c_timer_stop h = (case h of None \<Rightarrow> Abort | Some t \<Rightarrow> Done (0, timer_stop t))"

text \<open>The objects that are only released.\<close>

definition c_destory :: "'a option \<Rightarrow> unit run" where
  "c_destory h = (case h of None \<Rightarrow> Abort | Some _ \<Rightarrow> Done ())"

definition pump_c_timer_destory :: "timer option \<Rightarrow> unit run" where
  "pump_c_timer_destory h = c_destory h"

definition pump_c_acceptor_destory :: "acceptor handle \<Rightarrow> unit run" where
  "pump_c_acceptor_destory h = c_destory h"

definition pump_c_dialer_destory :: "dialer handle \<Rightarrow> unit run" where
  "pump_c_dialer_destory h = c_destory h"

definition pump_c_transport_destory :: "transport handle \<Rightarrow> unit run" where
  "pump_c_transport_destory h = c_destory h"

section \<open>Acceptors\<close>

definition pump_c_tcp_acceptor_create :: "acceptor handle" where
  "pump_c_tcp_acceptor_create = Some (Some (ac_new False False))"

text \<open>\<open>loaded\<close>: whether the credentials could be loaded.\<close>

definition pump_c_tls_acceptor_create :: "bool \<Rightarrow> acceptor handle" where
  "pump_c_tls_acceptor_create loaded = (if \<not> loaded then None else Some (Some (ac_new True True)))"

definition pump_c_acceptor_start :: "service handle \<Rightarrow> int \<Rightarrow> bool \<Rightarrow> bool \<Rightarrow> acceptor handle \<Rightarrow> (int \<times> acceptor) run" where
  "pump_c_acceptor_start sv fd open_ok trk_ok h =
     c_assert sv (\<lambda>_. c_assert h (\<lambda>a.
       let (ec, a1) = acceptor_start True True fd open_ok trk_ok a in
       Done (if error_value ec \<noteq> 0 then (- 1, a1) else (0, a1))))"

definition pump_c_acceptor_stop :: "acceptor handle \<Rightarrow> (int \<times> acceptor) run" where
  "pump_c_acceptor_stop h = c_assert h (\<lambda>a. Done (0, if ac_tls a then tls_acceptor_stop a else tcp_acceptor_stop a))"

record c_acceptor_callbacks =
  accepted_cb :: bool
  acceptor_stopped_cb :: bool

datatype c_out = CAccepted int | CAcceptorStopped | CDialed bool | CDialTimeouted | CDialStopped
  | CRead "byte list" | CReadFrom nat "byte list" | CDisconnected | CStopped

definition on_acceptor_event :: "c_acceptor_callbacks \<Rightarrow> ac_out \<Rightarrow> c_out list" where
  "on_acceptor_event cbs out =
     (case out of
        AcAccepted fd \<Rightarrow> if accepted_cb cbs then [CAccepted fd] else []
      | AcStopped \<Rightarrow> if acceptor_stopped_cb cbs then [CAcceptorStopped] else []
      | _ \<Rightarrow> [])"

section \<open>Dialers\<close>

definition pump_c_tcp_dialer_create :: "dialer handle" where
  "pump_c_tcp_dialer_create = Some (Some (dl_new False False))"

definition pump_c_tls_dialer_create :: "bool \<Rightarrow> dialer handle" where
  "pump_c_tls_dialer_create xcred = Some (Some (dl_new True xcred))"

text \<open>The TCP dialer has a timeout, the TLS dialer none.\<close>

definition pump_c_dialer_start ::
  "service handle \<Rightarrow> int \<Rightarrow> bool \<Rightarrow> bool \<Rightarrow> bool \<Rightarrow> bool \<Rightarrow> dialer handle \<Rightarrow> (int \<times> dialer) run" where
  "pump_c_dialer_start sv fd open_ok timer_ok connect_ok trk_ok h =
     c_assert sv (\<lambda>_. c_assert h (\<lambda>d.
       let (ec, d1) = (if dl_tls d then tls_dialer_start True True fd open_ok False timer_ok connect_ok trk_ok d
                       else tcp_dialer_start True True fd open_ok True timer_ok connect_ok trk_ok d) in
       Done (if error_value ec \<noteq> 0 then (- 1, d1) else (0, d1))))"

definition pump_c_dialer_stop :: "dialer handle \<Rightarrow> (int \<times> dialer) run" where
  "pump_c_dialer_stop h = c_assert h (\<lambda>d. Done (0, if dl_tls d then tls_dialer_stop d else tcp_dialer_stop d))"

record c_dialer_callbacks =
  dialed_cb :: bool
  timeouted_cb :: bool
  dialer_stopped_cb :: bool

definition on_dialer_event :: "c_dialer_callbacks \<Rightarrow> dial_out \<Rightarrow> c_out list" where
  "on_dialer_event cbs out =
     (case out of
        DialDone succ \<Rightarrow> if dialed_cb cbs then [CDialed succ] else []
      | DialTimeouted \<Rightarrow> if timeouted_cb cbs then [CDialTimeouted] else []
      | DialStopped \<Rightarrow> if dialer_stopped_cb cbs then [CDialStopped] else []
      | _ \<Rightarrow> [])"

section \<open>Transports\<close>

record c_transport_callbacks =
  c_read_cb :: bool
  c_read_from_cb :: bool
  c_disconnected_cb :: bool
  c_stopped_cb :: bool

definition c_callbacks :: transport_callbacks where
  "c_callbacks = \<lparr>read_cb = True, read_from_cb = True, sent_cb = False, disconnected_cb = True, stopped_cb = True\<rparr>"

definition pump_c_transport_start :: "service handle \<Rightarrow> bool \<Rightarrow> bool \<Rightarrow> transport handle \<Rightarrow> (int \<times> transport) run" where
  "pump_c_transport_start sv ok_r ok_s h =
     c_assert sv (\<lambda>_. c_assert h (\<lambda>t.
       let (ec, t1) = transport_start True ReadModeLoop c_callbacks ok_r ok_s t in
       Done (if error_value ec \<noteq> 0 then (- 1, t1) else (0, t1))))"

definition pump_c_transport_stop :: "transport handle \<Rightarrow> (int \<times> transport) run" where
  "pump_c_transport_stop h = c_assert h (\<lambda>t. Done (0, transport_stop t))"

definition pump_c_transport_send :: "answers \<Rightarrow> byte list option \<Rightarrow> int \<Rightarrow> transport handle \<Rightarrow> (int \<times> transport) run" where
  "pump_c_transport_send an b sz h =
     c_assert h (\<lambda>t. run_map (\<lambda>(ec, t1). if error_value ec \<le> 0 then (- 1, t1) else (0, t1)) (transport_send an b sz t))"

definition on_transport_event :: "c_transport_callbacks \<Rightarrow> tp_out \<Rightarrow> c_out list" where
  "on_transport_event cbs out =
     (case out of
        OutRead b \<Rightarrow> if c_read_cb cbs then [CRead b] else []
      | OutReadFrom addr b \<Rightarrow> if c_read_from_cb cbs then [CReadFrom addr b] else []
      | OutDisconnected \<Rightarrow> if c_disconnected_cb cbs then [CDisconnected] else []
      | OutStopped \<Rightarrow> if c_stopped_cb cbs then [CStopped] else []
      | _ \<Rightarrow> [])"

section \<open>What the C user sees\<close>

text \<open>
  The result of a send is the wrong way round: it is \<open>-1\<close> when the transport has taken
  the bytes, and \<open>0\<close>, which is success, when the transport has refused them.
\<close>

theorem c_send_inverted:
  assumes "transport_send an b sz t = Done (ec, t1)"
  shows "pump_c_transport_send an b sz (Some (Some t)) = Done (if ec = ErrNone then - 1 else 0, t1)"
  using assms by (cases ec) (simp_all add: pump_c_transport_send_def c_assert_def)

theorem c_send_inverted_witness: "\<exists>t1. pump_c_transport_send any_answers None 0 (Some (Some tcp_new)) = Done (0, t1)"
proof -
  have "(case transport_send any_answers None 0 tcp_new of Done (ec, t1) \<Rightarrow> ec \<noteq> ErrNone | _ \<Rightarrow> False)" by code_simp
  then obtain ec t1 where "transport_send any_answers None 0 tcp_new = Done (ec, t1)" "ec \<noteq> ErrNone"
    by (auto split: run.splits)
  from c_send_inverted [OF this(1)] this(2) show ?thesis by simp
qed

text \<open>
  A service that was stopped through the C interface can be started again, and a second
  stop without a start in between ends the process: the threads are joined twice.
\<close>

theorem c_service_stops_once:
  assumes "pump_c_service_stop_end s = Some (Done (r, s1))" and "sv_task_worker s \<noteq> NoThread" and "sv_timer_worker s \<noteq> NoThread"
    and "\<not> sv_running s"
  shows "r = 0 \<and> (\<exists>s2. pump_c_service_start ok_thread (Some (Some s1)) = Done (0, s2) \<and> sv_running s2) \<and>
    (\<exists>s2. pump_c_service_stop_begin (Some (Some s1)) = Done s2 \<and> pump_c_service_stop_end s2 = Some Abort)"
proof -
  have w: "service_wait_stopped s = Some (Done s1)" "r = 0"
    using assms(1) by (auto simp: pump_c_service_stop_end_def run_map_eq_Done)
  then have j: "sv_task_worker s1 = Joined" "sv_timer_worker s1 = Joined" "sv_running s1 = sv_running s"
    using assms(2,3) by (auto simp: service_wait_stopped_def join_worker_def split: worker.splits)
  show ?thesis using w(2) j assms(4)
    by (simp add: pump_c_service_start_def c_assert_def service_start_def start_task_worker_def start_timer_callback_worker_def
        joinable_def Let_def pump_c_service_stop_begin_def pump_c_service_stop_end_def service_stop_def service_wait_stopped_def
        join_worker_def)
qed

theorem c_service_stops_once_witness:
  "\<exists>s2. pump_c_service_start True (Some (Some (service_new False\<lparr>sv_task_worker := Joined, sv_timer_worker := Joined\<rparr>))) = Done (0, s2)"
proof -
  let ?s = "service_new False\<lparr>sv_task_worker := Ended, sv_timer_worker := Ended\<rparr>"
  have "pump_c_service_stop_end ?s = Some (Done (0, service_new False\<lparr>sv_task_worker := Joined, sv_timer_worker := Joined\<rparr>))"
    by (simp add: pump_c_service_stop_end_def service_wait_stopped_def join_worker_def)
  from c_service_stops_once [OF this, of True] have
    "\<exists>s2. pump_c_service_start True (Some (Some (service_new False\<lparr>sv_task_worker := Joined, sv_timer_worker := Joined\<rparr>))) = Done (0, s2)
      \<and> sv_running s2" by (simp add: service_new_def)
  then show ?thesis by blast
qed

end
