(* ===== verification/Spec2Isabelle.thy ===== *)
theory Spec2Isabelle
  imports Buffer Utils Base64 Sha1 Sort Queue Arr_Queue Locks Startup Timestamp Timer Poller Service
    Net Tls_Utils Flow Tls Udp Acceptor Frame Connection_Ws Client C_Api
begin

text \<open>
  librabbit (pump) is an event-driven network library in C++. A service runs pollers (epoll,
  select) that watch descriptors by channel trackers and call the channels when they are ready;
  transports, dialers and acceptors are channels; a timer engine calls timers when they are due;
  HTTP and websocket messages are read and written on top of transports; io buffers, lock-free
  queues and locks carry the data between threads.

  \<^bold>\<open>Theories and sources\<close> (paths below include/pump and src):

  \<^item> \<open>Prelude\<close>: results of steps that can abort or leave their memory (\<open>run\<close>), blocks of
    memory, 32 bit integers, lemmas on words and lists.
  \<^item> \<open>Buffer\<close> (toolkit/buffer): \<open>io_buffer\<close> with its block, cursors and reference count, and
    the handles of \<open>shared_buffer\<close>.
  \<^item> \<open>Utils\<close> (utils), \<open>Base64\<close> (codec/base64), \<open>Sha1\<close> (codec/sha1): the codecs, compared
    with group-wise base64 and with FIPS 180.
  \<^item> \<open>Transport\<close> (transport/base_transport, tcp_transport, flow_tcp) and \<open>Tcp\<close>: the TCP
    transport, its handlers as functions on one record, and its invariant. \<open>Tls\<close>
    (transport/tls_transport, flow_tls): the same for TLS. \<open>Udp\<close> (transport/udp_transport,
    flow_udp) is built on the record of \<open>Transport\<close>.
  \<^item> \<open>Handshaker\<close> (transport/tls_handshaker), \<open>Dialer\<close> (transport/base_dialer, tcp_dialer,
    tls_dialer) and \<open>Acceptor\<close> (transport/base_acceptor, tcp_acceptor, tls_acceptor): the
    channels that make connections. A TLS dialer owns one handshaker, a TLS acceptor a map of
    them; their events are steps of their owner.
  \<^item> \<open>Poller\<close> (poll/channel, poller, epoll_poller, select_poller): trackers, event queues, two
    back ends. The locale \<open>poller_backend\<close> holds what the common part of a poller relies on.
  \<^item> \<open>Timer\<close> (time/timer, time/engine, service): timers, the deadline map and the two threads.
  \<^item> \<open>Queue\<close> (toolkit/freelock_m2m_queue, freelock_o2o_queue, freelock_queue): both queues keep
    the laws of the locale \<open>fifo_queue\<close>, in which the queue with a count is verified.
  \<^item> \<open>Locks\<close> (toolkit/spin_mutex, toolkit/semaphore): small steps of interleaved threads.
  \<^item> \<open>Frame\<close> (proto/http/frame): websocket frame headers.
  \<^item> \<open>Ordered_Map\<close>, \<open>Http_Utils\<close>, \<open>Http_Header\<close>, \<open>Http_Body\<close>, \<open>Http_Uri\<close>, \<open>Http_Packet\<close>
    (proto/http): the parts of a message, then requests and responses. \<open>Http_Stream\<close>: messages
    that arrive in pieces; the locale \<open>stream_parser\<close> has what feeding a parser piece by piece
    relies on, and requests and responses keep its laws.
  \<^item> \<open>Connection\<close> (proto/http/connection): HTTP and websocket connections on the transports of
    \<open>Tcp\<close> and \<open>Tls\<close>; \<open>Connection_Http\<close> has the delivery of messages over the cache of a
    connection, \<open>Connection_Ws\<close> what becomes of websocket frames.
  \<^item> \<open>Server\<close> (proto/http/server): the connections of an acceptor and the upgrade to a
    websocket. \<open>Client\<close> (proto/http/client): requests over a dialed connection, the opening of
    a websocket, and the agreement of both sides.

  \<^item> \<open>Net\<close> (net/socket, net/error, transport/address): what the results of socket calls become,
    socket options, and addresses with their bytes. \<open>Tls_Utils\<close> (transport/tls_utils): the same
    for OpenSSL, and the objects held while credentials are loaded. \<open>Flow\<close> (transport/flow): how
    the flows make, take over, hand out and close descriptors, on top of both.
  \<^item> \<open>Service\<close> (service): the pollers and the engine of a service and its two workers as steps
    that interleave with the callers. \<open>Startup\<close> (init): the counter of the users of the library,
    each access to it a step of one of many threads.
  \<^item> \<open>Timestamp\<close> (time/timestamp): time stamps, a linear order by the comparisons of the class,
    and their texts, over a calendar that is proved to count the days.
  \<^item> \<open>Sort\<close> (toolkit/sort.h): five sorts over an array whose accesses are checked. The locale
    \<open>range_sort\<close> derives that the result is that of sorting from permutation, order and the items
    outside of the range; each of the sorts is an instance.
  \<^item> \<open>Arr_Queue\<close> (toolkit/freelock_arr_queue): the queue over an array; the locale
    \<open>bounded_queue\<close> has the laws that make it a list of bounded length.
  \<^item> \<open>C_Api\<close> (pump_c): the C interface on the models of the classes.

  \<^bold>\<open>How code is modelled.\<close> A class is a record with its fields, a method a function from the
  state before to the state after. What the operating system, OpenSSL, the clock or the
  allocator answers is an argument. \<open>pump_abort\<close> and a failed assertion are \<open>Abort\<close>, an access
  outside of a block or through a null pointer is \<open>Fault\<close>; theorems on safety exclude both.
  Calls that leave a component (callbacks, bytes given to the socket) are appended to a trace.
  Machine integers have their width where the code can overflow.

  A method is one step; between two steps any other operation of the component's users and
  threads may come, and the reachable states are those of all such sequences. Only in \<open>Locks\<close>
  and \<open>Startup\<close> is every access to an atomic object a step of its own.

  What the owner of a connection does in its callbacks is a list of calls of the connection, an
  argument of the event that makes the callback. A function that blocks (the requests of the
  client) is two definitions, up to the wait and behind it, between which other events come.

  \<^bold>\<open>What the lemmas show.\<close> Each stateful component has an invariant that every step keeps
  (\<open>tcp_inv\<close>, \<open>udp_inv\<close>, \<open>hk_inv\<close>, \<open>dl_inv\<close>, \<open>ac_inv\<close>, \<open>inv\<close> of the pollers, \<open>engine_inv\<close>, \<open>m2m_inv\<close>, \<open>o2o_inv\<close>, \<open>sem_inv\<close>,
  \<open>sb_inv\<close>, \<open>iob_wf\<close>, \<open>cn_inv\<close>, \<open>init_inv\<close>, \<open>tasks_kept\<close>, \<open>arrq_inv\<close>, \<open>ad_wf\<close>, \<open>world_inv\<close>); the properties are read off it. The codecs and the messages have round
  trips, functional descriptions of their branches, and lemmas on input that comes in pieces.
  Where the code does not do what it means to, the theorem states what it does.

  \<^bold>\<open>Fuel and bounds.\<close> Loops over a list recurse on it. The loops of the chunked body take the
  length of the text as fuel, which is enough because every round uses up a byte; the walks over
  a ring take the number of its nodes. The padding loop of SHA-1 has 64 rounds of fuel and needs
  fewer. The scans of quicksort and the sift of heap sort end by measures of their indices. Sums of sizes stay below \<open>2 ^ 31\<close> where the code counts in \<open>int32_t\<close>; the theorems name
  the bound.

  \<^bold>\<open>Not modelled.\<close> Windows (IOCP, the AFD poller), OpenSSL itself, functions that only pass a
  system call on, the clocks, random numbers and character-set conversion (iconv): interfaces of
  the system, whose answers the models take as arguments. Callbacks that call back into the
  object that calls them (those of a connection's owner apart), busy waiting for another thread
  inside a method (the array queue gives it as a result), failed allocations of small objects,
  and memory order.
\<close>

end
